(* ===== verification/Prelude.thy ===== *)
theory Prelude
  imports Complex_Main "HOL-Library.Word" "HOL-Library.Monad_Syntax" "HOL-Library.FuncSet"
begin

text \<open>
  Shared vocabulary of the development.

  Two conventions are fixed here.  First, an operation of the C++ code that can read a
  container out of bounds, dereference an empty optional or an end iterator, or throw,
  returns an \<open>option\<close>: \<open>None\<close> is that failure, and \<open>Some\<close> carries the new state.
  Nothing is silently defaulted.  Second, a \<open>double\<close> of the code is a rational number
  here (every finite double is one); rounding, infinities and NaN are not modelled, and no
  property of the development depends on a rounded sum.

  The theory also holds the helper operations on lists that stand for the \<open>std::vector\<close>
  interface, with their characteristic lemmas in the collection \<open>vec_simps\<close>.
\<close>

named_theorems vec_simps \<open>characteristic equations of the vector operations\<close>

type_synonym fp = rat

section \<open>Vectors\<close>

definition vec_at :: "'a list \<Rightarrow> nat \<Rightarrow> 'a option" where
  "vec_at xs i = (if i < length xs then Some (xs ! i) else None)"

definition vec_set :: "'a list \<Rightarrow> nat \<Rightarrow> 'a \<Rightarrow> 'a list option" where
  "vec_set xs i x = (if i < length xs then Some (xs[i := x]) else None)"

definition vec_modify :: "('a \<Rightarrow> 'a) \<Rightarrow> 'a list \<Rightarrow> nat \<Rightarrow> 'a list option" where
  "vec_modify f xs i = (if i < length xs then Some (xs[i := f (xs ! i)]) else None)"

definition vec_erase :: "'a list \<Rightarrow> nat \<Rightarrow> 'a list option" where
  "vec_erase xs i = (if i < length xs then Some (take i xs @ drop (Suc i) xs) else None)"

text \<open>\<open>std::find_if\<close> as the index of the first match, \<open>None\<close> for the end iterator.\<close>

fun find_if :: "('a \<Rightarrow> bool) \<Rightarrow> 'a list \<Rightarrow> nat option" where
  "find_if P [] = None"
| "find_if P (x # xs) = (if P x then Some 0 else map_option Suc (find_if P xs))"

text \<open>A range-based loop whose body may fail.\<close>

fun fold_opt :: "('a \<Rightarrow> 's \<Rightarrow> 's option) \<Rightarrow> 'a list \<Rightarrow> 's \<Rightarrow> 's option" where
  "fold_opt f [] s = Some s"
| "fold_opt f (x # xs) s = do { s1 \<leftarrow> f x s; fold_opt f xs s1 }"

text \<open>\<open>std::all_of\<close> and \<open>std::any_of\<close> over a predicate that may fail, with their short-circuit.\<close>

fun all_opt :: "('a \<Rightarrow> bool option) \<Rightarrow> 'a list \<Rightarrow> bool option" where
  "all_opt P [] = Some True"
| "all_opt P (x # xs) = do { b \<leftarrow> P x; if b then all_opt P xs else Some False }"

fun any_opt :: "('a \<Rightarrow> bool option) \<Rightarrow> 'a list \<Rightarrow> bool option" where
  "any_opt P [] = Some False"
| "any_opt P (x # xs) = do { b \<leftarrow> P x; if b then Some True else any_opt P xs }"

lemma vec_at_Some [vec_simps]: "i < length xs \<Longrightarrow> vec_at xs i = Some (xs ! i)"
  by (simp add: vec_at_def)

lemma vec_at_eq_Some: "vec_at xs i = Some x \<longleftrightarrow> i < length xs \<and> xs ! i = x"
  by (auto simp: vec_at_def)

lemma vec_modify_Some [vec_simps]:
  "i < length xs \<Longrightarrow> vec_modify f xs i = Some (xs[i := f (xs ! i)])"
  by (simp add: vec_modify_def)

lemma vec_modify_eq_Some:
  "vec_modify f xs i = Some ys \<longleftrightarrow> i < length xs \<and> ys = xs[i := f (xs ! i)]"
  by (auto simp: vec_modify_def)

lemma vec_set_Some [vec_simps]: "i < length xs \<Longrightarrow> vec_set xs i x = Some (xs[i := x])"
  by (simp add: vec_set_def)

lemma vec_erase_Some [vec_simps]:
  "i < length xs \<Longrightarrow> vec_erase xs i = Some (take i xs @ drop (Suc i) xs)"
  by (simp add: vec_erase_def)

section \<open>Searching\<close>

lemma find_if_None: "find_if P xs = None \<longleftrightarrow> (\<forall>x \<in> set xs. \<not> P x)"
  by (induction xs) auto

lemma find_if_Some:
  "find_if P xs = Some i \<Longrightarrow> i < length xs \<and> P (xs ! i) \<and> (\<forall>j < i. \<not> P (xs ! j))"
proof (induction xs arbitrary: i)
  case Nil
  then show ?case by simp
next
  case (Cons x xs)
  show ?case
  proof (cases "P x")
    case True
    with Cons.prems show ?thesis by simp
  next
    case False
    with Cons.prems obtain k where k: "find_if P xs = Some k" "i = Suc k" by auto
    from Cons.IH [OF k(1)] False k(2) show ?thesis
      by (auto simp: nth_Cons' less_Suc_eq_0_disj)
  qed
qed

lemma find_if_ex: "(\<exists>x \<in> set xs. P x) \<Longrightarrow> \<exists>i. find_if P xs = Some i"
  using find_if_None by fastforce

section \<open>Loops that may fail\<close>

lemma fold_opt_append:
  "fold_opt f (xs @ ys) s = do { s1 \<leftarrow> fold_opt f xs s; fold_opt f ys s1 }"
  by (induction xs arbitrary: s) (auto split: Option.bind_splits)

lemma fold_opt_snoc: "fold_opt f (xs @ [x]) s = Option.bind (fold_opt f xs s) (f x)"
proof (induction xs arbitrary: s)
  case Nil
  show ?case by (cases "f x s") simp_all
next
  case (Cons a xs)
  then show ?case by (cases "f a s") simp_all
qed

lemma fold_opt_invariant:
  assumes "I s"
    and "\<And>x s. x \<in> set xs \<Longrightarrow> I s \<Longrightarrow> \<exists>s'. f x s = Some s' \<and> I s'"
  shows "\<exists>s'. fold_opt f xs s = Some s' \<and> I s'"
  using assms
proof (induction xs arbitrary: s)
  case Nil
  then show ?case by simp
next
  case (Cons x xs)
  from Cons.prems(2) [of x s] Cons.prems(1) obtain s1 where s1: "f x s = Some s1" "I s1" by auto
  from Cons.IH [OF s1(2)] Cons.prems(2) s1(1) show ?case by simp
qed

lemma all_opt_total:
  "(\<And>x. x \<in> set xs \<Longrightarrow> P x = Some (Q x)) \<Longrightarrow> all_opt P xs = Some (\<forall>x \<in> set xs. Q x)"
  by (induction xs) auto

lemma any_opt_total:
  "(\<And>x. x \<in> set xs \<Longrightarrow> P x = Some (Q x)) \<Longrightarrow> any_opt P xs = Some (\<exists>x \<in> set xs. Q x)"
  by (induction xs) auto

section \<open>Machine words\<close>

lemma unat_size_t: "n < 2 ^ 64 \<Longrightarrow> unat (of_nat n :: 64 word) = n"
  by (simp add: unat_of_nat take_bit_nat_eq_self)

section \<open>Association lists with distinct keys\<close>

lemma map_of_filter_key:
  "map_of (filter (\<lambda>e. fst e \<noteq> k) xs) = (map_of xs)(k := None)"
  by (induction xs) auto

lemma map_of_snoc_new:
  "k \<notin> fst ` set xs \<Longrightarrow> map_of (xs @ [(k, v)]) = (map_of xs)(k := Some v)"
  by (induction xs) (auto simp: fun_eq_iff)

lemma distinct_map_filter_fst: "distinct (map fst xs) \<Longrightarrow> distinct (map fst (filter P xs))"
  by (induction xs) auto

lemma length_filter_key:
  assumes "distinct (map fst xs)" "k \<in> fst ` set xs"
  shows "length xs = Suc (length (filter (\<lambda>e. fst e \<noteq> k) xs))"
  using assms
proof (induction xs)
  case Nil
  then show ?case by simp
next
  case (Cons x xs)
  show ?case
  proof (cases "fst x = k")
    case True
    with Cons.prems(1) have "\<forall>e \<in> set xs. fst e \<noteq> k" by (auto simp: rev_image_eqI)
    then have "filter (\<lambda>e. fst e \<noteq> k) xs = xs" by (simp add: filter_id_conv)
    with True show ?thesis by simp
  next
    case False
    with Cons show ?thesis by auto
  qed
qed

end
