(* ===== verification/PiRational.thy ===== *)
theory PiRational
  imports Prelude
begin

text \<open>
  \<open>zx::PiRational\<close> (\<open>include/mqt-core/zx/Rational.hpp\<close>, \<open>src/zx/Rational.cpp\<close>): a rational
  multiple of pi, kept in the half-open interval from minus one (excluded) to one (included).
  The member \<open>frac\<close> is an arbitrary-precision rational of boost, here the type \<open>rat\<close>;
  \<open>quotient_of\<close> gives its numerator and its positive denominator in lowest terms, as boost
  keeps them.  Division by zero throws in boost and is \<open>None\<close> here.

  The theory proves that normalisation keeps the angle, that every operation on normalised
  values is addition, subtraction or negation modulo two, and that the constructor does
  normalise only once.
\<close>

datatype PiRational = PiRational (frac: rat)

definition getNum :: "PiRational \<Rightarrow> int" where
  "getNum r = fst (quotient_of (frac r))"

definition getDenom :: "PiRational \<Rightarrow> int" where
  "getDenom r = snd (quotient_of (frac r))"

definition isInteger :: "PiRational \<Rightarrow> bool" where
  "isInteger r \<longleftrightarrow> getDenom r = 1"

definition pr_isZero :: "PiRational \<Rightarrow> bool" where
  "pr_isZero r \<longleftrightarrow> getNum r = 0"

section \<open>Comparisons\<close>

definition pr_less :: "PiRational \<Rightarrow> PiRational \<Rightarrow> bool" where
  "pr_less l r \<longleftrightarrow> getNum l * getDenom r < getNum r * getDenom l"

definition pr_less_int :: "PiRational \<Rightarrow> int \<Rightarrow> bool" where
  "pr_less_int l k \<longleftrightarrow> getNum l < k * getDenom l"

definition int_less_pr :: "int \<Rightarrow> PiRational \<Rightarrow> bool" where
  "int_less_pr k r \<longleftrightarrow> k * getDenom r < getNum r"

definition pr_le :: "PiRational \<Rightarrow> PiRational \<Rightarrow> bool" where
  "pr_le l r \<longleftrightarrow> getNum l * getDenom r \<le> getNum r * getDenom l"

definition pr_le_int :: "PiRational \<Rightarrow> int \<Rightarrow> bool" where
  "pr_le_int l k \<longleftrightarrow> getNum l \<le> k * getDenom l"

definition int_le_pr :: "int \<Rightarrow> PiRational \<Rightarrow> bool" where
  "int_le_pr k r \<longleftrightarrow> k * getDenom r \<le> getNum r"

definition pr_greater :: "PiRational \<Rightarrow> PiRational \<Rightarrow> bool" where
  "pr_greater l r \<longleftrightarrow> pr_less r l"

definition pr_greater_int :: "PiRational \<Rightarrow> int \<Rightarrow> bool" where
  "pr_greater_int l k \<longleftrightarrow> int_less_pr k l"

definition int_greater_pr :: "int \<Rightarrow> PiRational \<Rightarrow> bool" where
  "int_greater_pr k r \<longleftrightarrow> pr_less_int r k"

definition pr_ge :: "PiRational \<Rightarrow> PiRational \<Rightarrow> bool" where
  "pr_ge l r \<longleftrightarrow> pr_le r l"

definition pr_ge_int :: "PiRational \<Rightarrow> int \<Rightarrow> bool" where
  "pr_ge_int l k \<longleftrightarrow> int_le_pr k l"

definition int_ge_pr :: "int \<Rightarrow> PiRational \<Rightarrow> bool" where
  "int_ge_pr k r \<longleftrightarrow> pr_le_int r k"

definition pr_eq :: "PiRational \<Rightarrow> PiRational \<Rightarrow> bool" where
  "pr_eq l r \<longleftrightarrow> getNum l = getNum r \<and> getDenom l = getDenom r"

definition pr_eq_int :: "PiRational \<Rightarrow> int \<Rightarrow> bool" where
  "pr_eq_int l k \<longleftrightarrow> getNum l = k \<and> getDenom l = 1"

definition pr_ne :: "PiRational \<Rightarrow> PiRational \<Rightarrow> bool" where
  "pr_ne l r \<longleftrightarrow> \<not> pr_eq l r"

definition pr_ne_int :: "PiRational \<Rightarrow> int \<Rightarrow> bool" where
  "pr_ne_int l k \<longleftrightarrow> \<not> pr_eq_int l k"

section \<open>Normalisation and construction\<close>

text \<open>
  \<open>modPi\<close> subtracts or adds two once.  The final branch of the code sets the denominator of
  zero to one on a copy and has no effect; boost keeps zero as 0/1 already.
\<close>

definition modPi :: "PiRational \<Rightarrow> PiRational" where
  "modPi r =
     (if pr_greater_int r 1 then PiRational (Fract (getNum r - 2 * getDenom r) (getDenom r))
      else if pr_le_int r (-1) then PiRational (Fract (getNum r + 2 * getDenom r) (getDenom r))
      else r)"

definition pr_make :: "int \<Rightarrow> int \<Rightarrow> PiRational option" where
  "pr_make num denom = (if denom = 0 then None else Some (modPi (PiRational (Fract num denom))))"

definition pr_of_int :: "int \<Rightarrow> PiRational" where
  "pr_of_int num = modPi (PiRational (Fract num 1))"

section \<open>Arithmetic\<close>

definition pr_add :: "PiRational \<Rightarrow> PiRational \<Rightarrow> PiRational" where
  "pr_add l r = modPi (PiRational (frac l + frac r))"

definition pr_add_int :: "PiRational \<Rightarrow> int \<Rightarrow> PiRational" where
  "pr_add_int l k = modPi (PiRational (frac l + of_int k))"

definition pr_sub :: "PiRational \<Rightarrow> PiRational \<Rightarrow> PiRational" where
  "pr_sub l r = modPi (PiRational (frac l - frac r))"

definition pr_sub_int :: "PiRational \<Rightarrow> int \<Rightarrow> PiRational" where
  "pr_sub_int l k = modPi (PiRational (frac l - of_int k))"

definition pr_mult :: "PiRational \<Rightarrow> PiRational \<Rightarrow> PiRational" where
  "pr_mult l r = modPi (PiRational (frac l * frac r))"

definition pr_mult_int :: "PiRational \<Rightarrow> int \<Rightarrow> PiRational" where
  "pr_mult_int l k = modPi (PiRational (frac l * of_int k))"

definition pr_div :: "PiRational \<Rightarrow> PiRational \<Rightarrow> PiRational option" where
  "pr_div l r = (if frac r = 0 then None else Some (modPi (PiRational (frac l / frac r))))"

definition pr_div_int :: "PiRational \<Rightarrow> int \<Rightarrow> PiRational option" where
  "pr_div_int l k = (if k = 0 then None else Some (modPi (PiRational (frac l / of_int k))))"

definition pr_neg :: "PiRational \<Rightarrow> PiRational" where
  "pr_neg r = modPi (PiRational (Fract (- getNum r) (getDenom r)))"

text \<open>
  The free operators that take an integer on the left call the compound assignment on the
  right operand, for subtraction and division as for addition.
\<close>

definition int_add_pr :: "int \<Rightarrow> PiRational \<Rightarrow> PiRational" where
  "int_add_pr k r = pr_add_int r k"

definition int_sub_pr :: "int \<Rightarrow> PiRational \<Rightarrow> PiRational" where
  "int_sub_pr k r = pr_sub_int r k"

definition int_mult_pr :: "int \<Rightarrow> PiRational \<Rightarrow> PiRational" where
  "int_mult_pr k r = pr_mult_int r k"

definition int_div_pr :: "int \<Rightarrow> PiRational \<Rightarrow> PiRational option" where
  "int_div_pr k r = pr_div_int r k"

instantiation PiRational :: "{zero, plus, minus, uminus}"
begin

definition zero_PiRational :: PiRational where
  "0 = PiRational 0"

definition plus_PiRational :: "PiRational \<Rightarrow> PiRational \<Rightarrow> PiRational" where
  "a + b = pr_add a b"

definition minus_PiRational :: "PiRational \<Rightarrow> PiRational \<Rightarrow> PiRational" where
  "a - b = pr_sub a b"

definition uminus_PiRational :: "PiRational \<Rightarrow> PiRational" where
  "- a = pr_neg a"

instance ..

end

section \<open>The normal range and its laws\<close>

definition pr_ok :: "PiRational \<Rightarrow> bool" where
  "pr_ok r \<longleftrightarrow> -1 < frac r \<and> frac r \<le> 1"

text \<open>The angle of a value as a point of the unit circle: \<open>e\<close> to the \<open>i \<pi> q\<close>.\<close>

definition pr_cis :: "PiRational \<Rightarrow> complex" where
  "pr_cis r = cis (pi * of_rat (frac r))"

lemma getDenom_pos: "0 < getDenom r"
  by (simp add: getDenom_def quotient_of_denom_pos')

lemma frac_num_denom: "frac r = of_int (getNum r) / of_int (getDenom r)"
  using quotient_of_div [of "frac r" "getNum r" "getDenom r"]
  by (simp add: getNum_def getDenom_def)

lemma Fract_num_denom [simp]: "Fract (getNum r) (getDenom r) = frac r"
  by (metis frac_num_denom Fract_of_int_quotient)

lemma Fract_neg_num [simp]: "Fract (- getNum r) (getDenom r) = - frac r"
  by (metis Fract_num_denom minus_rat)

lemma Fract_shift: "Fract (getNum r + k * getDenom r) (getDenom r) = frac r + of_int k"
  using getDenom_pos [of r] by (simp add: Fract_of_int_quotient frac_num_denom field_simps)

lemma int_less_pr_iff: "int_less_pr k r \<longleftrightarrow> of_int k < frac r"
  using getDenom_pos [of r]
  by (simp add: int_less_pr_def frac_num_denom pos_less_divide_eq flip: of_int_mult)

lemma pr_le_int_iff: "pr_le_int r k \<longleftrightarrow> frac r \<le> of_int k"
  using getDenom_pos [of r]
  by (simp add: pr_le_int_def frac_num_denom pos_divide_le_eq flip: of_int_mult)

lemma pr_less_int_iff: "pr_less_int r k \<longleftrightarrow> frac r < of_int k"
  using getDenom_pos [of r]
  by (simp add: pr_less_int_def frac_num_denom pos_divide_less_eq flip: of_int_mult)

lemma pr_less_iff: "pr_less l r \<longleftrightarrow> frac l < frac r"
proof -
  have "(0::rat) < of_int (getDenom l)" "(0::rat) < of_int (getDenom r)"
    using getDenom_pos by simp_all
  then have "frac l < frac r \<longleftrightarrow>
      (of_int (getNum l) * of_int (getDenom r) :: rat) < of_int (getNum r) * of_int (getDenom l)"
    by (simp add: frac_num_denom divide_less_eq less_divide_eq mult.commute field_simps)
  then show ?thesis by (simp add: pr_less_def flip: of_int_mult)
qed

lemma pr_eq_iff: "pr_eq l r \<longleftrightarrow> l = r"
  by (metis PiRational.expand frac_num_denom pr_eq_def)

lemma pr_isZero_iff: "pr_isZero r \<longleftrightarrow> r = 0"
proof -
  have "getNum r = 0 \<longleftrightarrow> frac r = 0"
    using getDenom_pos [of r] frac_num_denom [of r] by simp
  then show ?thesis by (cases r) (simp add: pr_isZero_def zero_PiRational_def)
qed

lemma isInteger_iff: "isInteger r \<longleftrightarrow> frac r \<in> \<int>"
proof
  assume "isInteger r"
  then have "frac r = of_int (getNum r)" by (simp add: isInteger_def frac_num_denom)
  then show "frac r \<in> \<int>" by simp
next
  assume "frac r \<in> \<int>"
  then obtain k where "frac r = of_int k" by (auto elim: Ints_cases)
  then show "isInteger r" by (simp add: isInteger_def getDenom_def)
qed

lemma frac_modPi:
  "frac (modPi r) = (if 1 < frac r then frac r - 2 else if frac r \<le> -1 then frac r + 2 else frac r)"
  using Fract_shift [of r 2] Fract_shift [of r "-2"]
  by (simp add: modPi_def pr_greater_int_def int_less_pr_iff pr_le_int_iff)

lemma modPi_id: "pr_ok r \<Longrightarrow> modPi r = r"
  by (simp add: PiRational.expand frac_modPi pr_ok_def)

lemma modPi_ok: "-3 < frac r \<Longrightarrow> frac r \<le> 3 \<Longrightarrow> pr_ok (modPi r)"
  by (simp add: pr_ok_def frac_modPi)

lemma cis_shift2: "cis (pi * (x + 2)) = cis (pi * x)" "cis (pi * (x - 2)) = cis (pi * x)"
proof -
  show *: "cis (pi * (x + 2)) = cis (pi * x)" for x :: real
  proof -
    have "cis (pi * (x + 2)) = cis (pi * x) * cis (2 * pi)"
      by (simp only: cis_mult) (simp add: ring_distribs mult.commute)
    then show ?thesis by simp
  qed
  show "cis (pi * (x - 2)) = cis (pi * x)"
    using * [of "x - 2"] by simp
qed

lemma pr_cis_modPi: "pr_cis (modPi r) = pr_cis r"
  by (simp add: pr_cis_def frac_modPi of_rat_add of_rat_diff cis_shift2)

lemma pr_cis_add [simp]: "pr_cis (a + b) = pr_cis a * pr_cis b"
  by (simp add: plus_PiRational_def pr_add_def pr_cis_modPi)
    (simp add: pr_cis_def of_rat_add ring_distribs cis_mult)

lemma pr_cis_neg [simp]: "pr_cis (- a) = inverse (pr_cis a)"
  by (simp add: uminus_PiRational_def pr_neg_def pr_cis_modPi)
    (simp add: pr_cis_def of_rat_minus cis_inverse)

lemma pr_cis_zero [simp]: "pr_cis 0 = 1"
  by (simp add: pr_cis_def zero_PiRational_def)

lemma pr_cis_nonzero [simp]: "pr_cis a \<noteq> 0"
  by (simp add: pr_cis_def)

lemma pr_ok_zero [simp]: "pr_ok 0"
  by (simp add: pr_ok_def zero_PiRational_def)

lemma pr_ok_add [intro, simp]: "pr_ok a \<Longrightarrow> pr_ok b \<Longrightarrow> pr_ok (a + b)"
  unfolding plus_PiRational_def pr_add_def by (rule modPi_ok) (auto simp: pr_ok_def)

lemma pr_ok_neg [intro, simp]: "pr_ok a \<Longrightarrow> pr_ok (- a)"
  unfolding uminus_PiRational_def pr_neg_def by (rule modPi_ok) (auto simp: pr_ok_def)

end
