(* ===== verification/SymExpression.thy ===== *)
theory SymExpression
  imports PiRational "HOL-Library.Multiset"
begin

text \<open>
  Symbolic expressions (\<open>include/mqt-core/ir/operations/Expression.hpp\<close> and
  \<open>src/ir/operations/Expression.cpp\<close>): a sum of terms, each a variable times a \<open>double\<close>, and a
  constant.  The class is a template over the type of the constant; the ZX package uses it with
  \<open>PiRational\<close>, the circuit IR with \<open>double\<close>.  The model keeps that parameter as the type
  variable of the record; the operations need only addition, subtraction, negation and zero.

  Proved here: the variable registry is a bijection between the names seen so far and an
  initial segment of the identifiers; sorting is a sorted permutation; addition keeps the terms
  strictly sorted and is exact up to the terms it drops below the tolerance.
\<close>

section \<open>The variable registry\<close>

type_synonym Variable = nat

record VarRegistry =
  registered :: "string \<rightharpoonup> nat"
  names :: "nat \<rightharpoonup> string"
  nextId :: nat

definition empty_registry :: VarRegistry where
  "empty_registry = \<lparr>registered = Map.empty, names = Map.empty, nextId = 0\<rparr>"

definition Variable_new :: "string \<Rightarrow> VarRegistry \<Rightarrow> Variable \<times> VarRegistry" where
  "Variable_new name reg = (case registered reg name of
       Some i \<Rightarrow> (i, reg)
     | None \<Rightarrow> (nextId reg,
         reg\<lparr>registered := (registered reg)(name \<mapsto> nextId reg),
             names := (names reg)(nextId reg \<mapsto> name),
             nextId := Suc (nextId reg)\<rparr>))"

text \<open>\<open>names[id]\<close> default-constructs the empty string for an identifier it does not hold.\<close>

definition getName :: "VarRegistry \<Rightarrow> Variable \<Rightarrow> string" where
  "getName reg v = (case names reg v of Some n \<Rightarrow> n | None \<Rightarrow> '''')"

section \<open>Terms\<close>

datatype Term = Term (getVar: Variable) (getCoeff: fp)

definition TOLERANCE :: fp where
  "TOLERANCE = 1 / 10 ^ 9"

definition hasZeroCoeff :: "Term \<Rightarrow> bool" where
  "hasZeroCoeff t \<longleftrightarrow> \<bar>getCoeff t\<bar> < TOLERANCE"

definition term_neg :: "Term \<Rightarrow> Term" where
  "term_neg t = Term (getVar t) (- getCoeff t)"

definition addCoeff :: "fp \<Rightarrow> Term \<Rightarrow> Term" where
  "addCoeff c t = Term (getVar t) (getCoeff t + c)"

definition term_mult :: "fp \<Rightarrow> Term \<Rightarrow> Term" where
  "term_mult c t = Term (getVar t) (getCoeff t * c)"

definition term_div :: "fp \<Rightarrow> Term \<Rightarrow> Term" where
  "term_div c t = Term (getVar t) (getCoeff t / c)"

type_synonym VariableAssignment = "Variable \<rightharpoonup> fp"

definition totalAssignment :: "VariableAssignment \<Rightarrow> Term \<Rightarrow> bool" where
  "totalAssignment a t \<longleftrightarrow> a (getVar t) \<noteq> None"

definition term_evaluate :: "VariableAssignment \<Rightarrow> Term \<Rightarrow> fp option" where
  "term_evaluate a t = (if \<not> totalAssignment a t then None
     else map_option (\<lambda>x. x * getCoeff t) (a (getVar t)))"

definition term_eq :: "Term \<Rightarrow> Term \<Rightarrow> bool" where
  "term_eq l r \<longleftrightarrow> getVar l = getVar r \<and> \<bar>getCoeff l - getCoeff r\<bar> < TOLERANCE"

section \<open>Expressions\<close>

record 'u Expression =
  terms :: "Term list"
  const :: 'u

definition expr_const :: "'u \<Rightarrow> 'u Expression" where
  "expr_const r = \<lparr>terms = [], const = r\<rparr>"

definition expr_empty :: "'u::zero Expression" where
  "expr_empty = \<lparr>terms = [], const = 0\<rparr>"

definition expr_isZero :: "'u::zero Expression \<Rightarrow> bool" where
  "expr_isZero e \<longleftrightarrow> terms e = [] \<and> const e = 0"

definition isConstant :: "'u Expression \<Rightarrow> bool" where
  "isConstant e \<longleftrightarrow> terms e = []"

text \<open>
  \<open>sortTerms\<close> compares every element with every later one and swaps.  The inner loop carries
  the element at the position of the outer iterator through the rest of the vector.
\<close>

fun sort_inner :: "Term \<Rightarrow> Term list \<Rightarrow> Term \<times> Term list" where
  "sort_inner x [] = (x, [])"
| "sort_inner x (y # ys) =
     (if getVar y < getVar x
      then (let (m, zs) = sort_inner y ys in (m, x # zs))
      else (let (m, zs) = sort_inner x ys in (m, y # zs)))"

lemma length_sort_inner [simp]: "length (snd (sort_inner x ys)) = length ys"
  by (induction x ys rule: sort_inner.induct) (auto split: prod.splits)

function sortTerms :: "Term list \<Rightarrow> Term list" where
  "sortTerms [] = []"
| "sortTerms (x # xs) = (let p = sort_inner x xs in fst p # sortTerms (snd p))"
  by pat_completeness auto
termination
  by (relation "measure length") auto

fun absorb :: "Term \<Rightarrow> Term list \<Rightarrow> Term \<times> Term list" where
  "absorb t [] = (t, [])"
| "absorb t (n # ns) =
     (if getVar t = getVar n then absorb (addCoeff (getCoeff n) t) ns else (t, n # ns))"

lemma length_absorb [simp]: "length (snd (absorb t ns)) \<le> length ns"
  by (induction t ns rule: absorb.induct) auto

function aggregateEqualTerms :: "Term list \<Rightarrow> Term list" where
  "aggregateEqualTerms [] = []"
| "aggregateEqualTerms (t # ts) =
     (let p = absorb t ts
      in if hasZeroCoeff (fst p) then aggregateEqualTerms (snd p)
         else fst p # aggregateEqualTerms (snd p))"
  by pat_completeness auto
termination
  by (relation "measure length") (auto simp: le_imp_less_Suc)

definition expr_of_terms :: "Term list \<Rightarrow> 'u::zero Expression" where
  "expr_of_terms ts = \<lparr>terms = aggregateEqualTerms (sortTerms ts), const = 0\<rparr>"

text \<open>
  The body of the loop of \<open>operator+=\<close>: find the first position whose variable is not smaller,
  then merge, drop or insert.
\<close>

fun insert_term :: "Term \<Rightarrow> Term list \<Rightarrow> Term list" where
  "insert_term t [] = [t]"
| "insert_term t (x # xs) =
     (if getVar x < getVar t then x # insert_term t xs
      else if getVar x = getVar t then
        (if \<bar>getCoeff x + getCoeff t\<bar> < TOLERANCE then xs else addCoeff (getCoeff t) x # xs)
      else t # x # xs)"

definition expr_add :: "'u::{zero,plus} Expression \<Rightarrow> 'u Expression \<Rightarrow> 'u Expression" where
  "expr_add lhs rhs =
     (if expr_isZero lhs then rhs
      else if expr_isZero rhs then lhs
      else \<lparr>terms = fold insert_term (terms rhs) (terms lhs),
            const = const lhs + const rhs\<rparr>)"

definition expr_add_term :: "'u::{zero,plus} Expression \<Rightarrow> Term \<Rightarrow> 'u Expression" where
  "expr_add_term e t = expr_add e (expr_of_terms [t])"

definition expr_add_const :: "'u::plus Expression \<Rightarrow> 'u \<Rightarrow> 'u Expression" where
  "expr_add_const e c = e\<lparr>const := const e + c\<rparr>"

definition expr_neg :: "'u::uminus Expression \<Rightarrow> 'u Expression" where
  "expr_neg e = \<lparr>terms = map term_neg (terms e), const = - const e\<rparr>"

definition expr_sub :: "'u::{zero,plus,uminus} Expression \<Rightarrow> 'u Expression \<Rightarrow> 'u Expression" where
  "expr_sub lhs rhs = expr_add lhs (expr_neg rhs)"

definition expr_sub_term :: "'u::{zero,plus} Expression \<Rightarrow> Term \<Rightarrow> 'u Expression" where
  "expr_sub_term e t = expr_add_term e (term_neg t)"

definition expr_sub_const :: "'u::{plus,uminus} Expression \<Rightarrow> 'u \<Rightarrow> 'u Expression" where
  "expr_sub_const e c = expr_add_const e (- c)"

text \<open>
  The free operators with the term on the left: both call the compound assignment on the
  expression.
\<close>

definition term_sub_expr :: "Term \<Rightarrow> 'u::{zero,plus} Expression \<Rightarrow> 'u Expression" where
  "term_sub_expr t e = expr_sub_term e t"

definition const_sub_expr :: "'u \<Rightarrow> 'u::{plus,uminus} Expression \<Rightarrow> 'u Expression" where
  "const_sub_expr c e = expr_sub_const e c"

text \<open>Scaling, for the instance with a \<open>double\<close> constant.  Division throws on a small divisor.\<close>

definition expr_mult :: "fp Expression \<Rightarrow> fp \<Rightarrow> fp Expression" where
  "expr_mult e c = (if \<bar>c\<bar> < TOLERANCE then \<lparr>terms = [], const = 0\<rparr>
     else \<lparr>terms = map (term_mult c) (terms e), const = const e * c\<rparr>)"

definition expr_div :: "fp Expression \<Rightarrow> fp \<Rightarrow> fp Expression option" where
  "expr_div e c = (if \<bar>c\<bar> < TOLERANCE then None
     else Some \<lparr>terms = map (term_div c) (terms e), const = const e / c\<rparr>)"

definition expr_div_int :: "fp Expression \<Rightarrow> int \<Rightarrow> fp Expression option" where
  "expr_div_int e k = (if k = 0 then None
     else Some \<lparr>terms = map (term_div (of_int k)) (terms e), const = const e / of_int k\<rparr>)"

definition getVariables :: "'u Expression \<Rightarrow> Variable set" where
  "getVariables e = set (map getVar (terms e))"

text \<open>\<open>evaluate\<close> accumulates from the constant and throws on an unassigned variable.\<close>

definition evaluate :: "VariableAssignment \<Rightarrow> fp Expression \<Rightarrow> fp option" where
  "evaluate a e =
     fold_opt (\<lambda>t s. map_option (\<lambda>x. x + s) (term_evaluate a t)) (terms e) (const e)"

text \<open>\<open>operator==\<close> compares constants and, position by position, coefficients.\<close>

definition expr_eq :: "'u Expression \<Rightarrow> 'u Expression \<Rightarrow> bool" where
  "expr_eq l r \<longleftrightarrow>
     length (terms l) = length (terms r) \<and> const l = const r \<and>
     list_all2 (\<lambda>s t. \<not> TOLERANCE \<le> \<bar>getCoeff s - getCoeff t\<bar>) (terms l) (terms r)"

section \<open>The registry is injective\<close>

definition registry_ok :: "VarRegistry \<Rightarrow> bool" where
  "registry_ok reg \<longleftrightarrow>
     (\<forall>n i. registered reg n = Some i \<longleftrightarrow> names reg i = Some n) \<and>
     (\<forall>i. names reg i \<noteq> None \<longleftrightarrow> i < nextId reg)"

lemma registry_ok_empty: "registry_ok empty_registry"
  by (simp add: registry_ok_def empty_registry_def)

lemma registry_ok_names_bound: "registry_ok reg \<Longrightarrow> names reg i = Some n \<Longrightarrow> i < nextId reg"
  unfolding registry_ok_def by (metis option.distinct(1))

lemma registry_ok_fresh: "registry_ok reg \<Longrightarrow> registered reg n \<noteq> Some (nextId reg)"
  by (metis registry_ok_def registry_ok_names_bound less_irrefl)

lemma Variable_new_ok: "registry_ok reg \<Longrightarrow> registry_ok (snd (Variable_new name reg))"
proof (cases "registered reg name")
  case None
  assume ok: "registry_ok reg"
  then have r: "\<And>n i. registered reg n = Some i \<longleftrightarrow> names reg i = Some n"
    and b: "\<And>i. names reg i \<noteq> None \<longleftrightarrow> i < nextId reg"
    by (simp_all add: registry_ok_def)
  have fresh: "names reg (nextId reg) = None" using b by blast
  have "registered reg n = Some i \<Longrightarrow> i \<noteq> nextId reg" for n i using r fresh by auto
  moreover have "names reg i = Some n \<Longrightarrow> n \<noteq> name" for n i using r None by force
  ultimately show ?thesis
    using None r b by (simp add: Variable_new_def registry_ok_def less_Suc_eq) blast
qed (simp add: Variable_new_def)

lemma Variable_new_name:
  "registry_ok reg \<Longrightarrow> Variable_new name reg = (i, reg') \<Longrightarrow> getName reg' i = name"
  by (auto simp: Variable_new_def getName_def registry_ok_def split: option.splits)

lemma Variable_new_keeps:
  "registry_ok reg \<Longrightarrow> i < nextId reg \<Longrightarrow> getName (snd (Variable_new name reg)) i = getName reg i"
  by (auto simp: Variable_new_def getName_def split: option.splits)

lemma Variable_new_bound:
  "registry_ok reg \<Longrightarrow> Variable_new name reg = (i, reg') \<Longrightarrow> i < nextId reg'"
  by (auto simp: Variable_new_def registry_ok_def split: option.splits)

lemma Variable_new_again:
  "registry_ok reg \<Longrightarrow> Variable_new name reg = (i, reg') \<Longrightarrow> Variable_new name reg' = (i, reg')"
  by (auto simp: Variable_new_def split: option.splits)

lemma Variable_new_inj:
  assumes ok: "registry_ok reg" and new: "Variable_new name reg = (i, reg')"
  shows "fst (Variable_new other reg') = i \<longleftrightarrow> other = name"
proof
  have ok': "registry_ok reg'" using Variable_new_ok [OF ok, of name] new by simp
  assume i: "fst (Variable_new other reg') = i"
  obtain reg'' where r: "Variable_new other reg' = (i, reg'')" using i by (metis prod.collapse)
  have "getName reg'' i = other" using Variable_new_name [OF ok' r] .
  moreover have "getName reg'' i = getName reg' i"
    using Variable_new_keeps [OF ok' Variable_new_bound [OF ok new], of other] r by simp
  moreover have "getName reg' i = name" by (rule Variable_new_name [OF ok new])
  ultimately show "other = name" by simp
qed (use Variable_new_again [OF ok new] in simp)

section \<open>Sorting\<close>

lemma sort_inner_mset:
  "sort_inner x ys = (m, zs) \<Longrightarrow> add_mset m (mset zs) = add_mset x (mset ys)"
  by (induction x ys arbitrary: m zs rule: sort_inner.induct)
    (fastforce split: prod.splits if_splits simp: add_mset_commute)+

lemma sort_inner_le:
  "sort_inner x ys = (m, zs) \<Longrightarrow> getVar m \<le> getVar x \<and> (\<forall>z \<in> set zs. getVar m \<le> getVar z)"
  by (induction x ys arbitrary: m zs rule: sort_inner.induct)
    (fastforce split: prod.splits if_splits)+

lemma mset_sortTerms: "mset (sortTerms ts) = mset ts"
  by (induction ts rule: sortTerms.induct)
    (simp_all add: Let_def sort_inner_mset [OF prod.collapse [symmetric]])

lemma sorted_sortTerms: "sorted (map getVar (sortTerms ts))"
proof (induction ts rule: sortTerms.induct)
  case 1
  then show ?case by simp
next
  case (2 x xs)
  have "set (sortTerms (snd (sort_inner x xs))) = set (snd (sort_inner x xs))"
    by (metis mset_sortTerms set_mset_mset)
  with 2 sort_inner_le [of x xs "fst (sort_inner x xs)" "snd (sort_inner x xs)"]
  show ?case by (auto simp: Let_def)
qed

section \<open>Strictly sorted terms\<close>

definition terms_ok :: "Term list \<Rightarrow> bool" where
  "terms_ok ts \<longleftrightarrow> sorted_wrt (<) (map getVar ts)"

lemma getVar_addCoeff [simp]: "getVar (addCoeff c t) = getVar t"
  by (simp add: addCoeff_def)

lemma getVar_term_neg [simp]: "getVar (term_neg t) = getVar t"
  by (simp add: term_neg_def)

lemma vars_insert_term:
  "getVar ` set (insert_term t ts) \<subseteq> insert (getVar t) (getVar ` set ts)"
  by (induction ts) auto

lemma terms_ok_insert: "terms_ok ts \<Longrightarrow> terms_ok (insert_term t ts)"
proof (induction ts)
  case Nil
  then show ?case by (simp add: terms_ok_def)
next
  case (Cons x xs)
  then show ?case
    using vars_insert_term [of t xs] by (auto simp: terms_ok_def)
qed

lemma terms_ok_fold: "terms_ok ts \<Longrightarrow> terms_ok (fold insert_term us ts)"
  by (induction us arbitrary: ts) (auto intro: terms_ok_insert)

lemma terms_ok_expr_add:
  "terms_ok (terms l) \<Longrightarrow> terms_ok (terms r) \<Longrightarrow> terms_ok (terms (expr_add l r))"
  by (simp add: expr_add_def terms_ok_fold)

lemma terms_ok_expr_neg: "terms_ok (terms e) \<Longrightarrow> terms_ok (terms (expr_neg e))"
  by (simp add: terms_ok_def expr_neg_def comp_def)

lemma absorb_props:
  assumes "sorted (map getVar (t # ns))" "absorb t ns = (t', rest)"
  shows "getVar t' = getVar t \<and> set rest \<subseteq> set ns \<and> sorted (map getVar rest) \<and>
    (\<forall>r \<in> set rest. getVar t < getVar r)"
  using assms
proof (induction t ns arbitrary: t' rest rule: absorb.induct)
  case (1 t)
  then show ?case by simp
next
  case (2 t n ns)
  show ?case
  proof (cases "getVar t = getVar n")
    case True
    have srt: "sorted (map getVar (addCoeff (getCoeff n) t # ns))"
      using "2.prems"(1) True by simp
    have abs: "absorb (addCoeff (getCoeff n) t) ns = (t', rest)"
      using "2.prems"(2) True by simp
    show ?thesis using "2.IH" [OF True srt abs] by auto
  next
    case False
    with "2.prems" have eq: "t' = t" "rest = n # ns" by simp_all
    have lt: "getVar t < getVar n" using "2.prems"(1) False by simp
    have srt: "sorted (map getVar (n # ns))" using "2.prems"(1) by simp
    then have le: "\<forall>r \<in> set (n # ns). getVar n \<le> getVar r" by simp
    have "\<forall>r \<in> set (n # ns). getVar t < getVar r" using lt le by (meson less_le_trans)
    with srt eq show ?thesis by simp
  qed
qed

lemma aggregate_ok:
  "sorted (map getVar ts) \<Longrightarrow> terms_ok (aggregateEqualTerms ts) \<and>
    getVar ` set (aggregateEqualTerms ts) \<subseteq> getVar ` set ts \<and>
    (\<forall>t \<in> set (aggregateEqualTerms ts). \<not> hasZeroCoeff t)"
proof (induction ts rule: aggregateEqualTerms.induct)
  case 1
  then show ?case by (simp add: terms_ok_def)
next
  case (2 t ts)
  obtain t' rest where p: "absorb t ts = (t', rest)" by force
  note q = absorb_props [OF "2.prems" p]
  have ih0: "terms_ok (aggregateEqualTerms rest) \<and>
      getVar ` set (aggregateEqualTerms rest) \<subseteq> getVar ` set rest \<and>
      (\<forall>t \<in> set (aggregateEqualTerms rest). \<not> hasZeroCoeff t)"
  proof (cases "hasZeroCoeff t'")
    case True
    from "2.IH"(1) [OF p [symmetric]] True q show ?thesis by simp
  next
    case False
    from "2.IH"(2) [OF p [symmetric]] False q show ?thesis by simp
  qed
  have ih: "terms_ok (aggregateEqualTerms rest)"
    "getVar ` set (aggregateEqualTerms rest) \<subseteq> getVar ` set rest"
    "\<forall>t \<in> set (aggregateEqualTerms rest). \<not> hasZeroCoeff t"
    using ih0 by simp_all
  have lt: "\<forall>r \<in> set (aggregateEqualTerms rest). getVar t < getVar r"
  proof
    fix r
    assume "r \<in> set (aggregateEqualTerms rest)"
    then obtain r' where "r' \<in> set rest" "getVar r = getVar r'" using ih(2) by force
    then show "getVar t < getVar r" using q by simp
  qed
  have sub: "getVar ` set (aggregateEqualTerms rest) \<subseteq> getVar ` set (t # ts)"
    using ih(2) q by auto
  show ?case
  proof (cases "hasZeroCoeff t'")
    case True
    with ih sub p show ?thesis by simp
  next
    case False
    then have "aggregateEqualTerms (t # ts) = t' # aggregateEqualTerms rest" using p by simp
    with ih sub lt q False show ?thesis by (simp add: terms_ok_def)
  qed
qed

lemma expr_of_terms_ok: "terms_ok (terms (expr_of_terms ts))"
  using aggregate_ok [OF sorted_sortTerms] by (simp add: expr_of_terms_def)

section \<open>Evaluation\<close>

text \<open>The value of a term list under a total assignment, and what addition does to it.\<close>

definition terms_value :: "(Variable \<Rightarrow> fp) \<Rightarrow> Term list \<Rightarrow> fp" where
  "terms_value s ts = (\<Sum>t \<leftarrow> ts. s (getVar t) * getCoeff t)"

lemma terms_value_simps [simp]:
  "terms_value s [] = 0"
  "terms_value s (t # ts) = s (getVar t) * getCoeff t + terms_value s ts"
  by (simp_all add: terms_value_def)

lemma term_evaluate_total:
  "a (getVar t) = Some x \<Longrightarrow> term_evaluate a t = Some (x * getCoeff t)"
  by (simp add: term_evaluate_def totalAssignment_def)

lemma evaluate_total:
  assumes "\<And>v. v \<in> getVariables e \<Longrightarrow> a v = Some (s v)"
  shows "evaluate a e = Some (terms_value s (terms e) + const e)"
proof -
  have "fold_opt (\<lambda>t s. map_option (\<lambda>x. x + s) (term_evaluate a t)) ts c
      = Some (terms_value s ts + c)" if "\<And>t. t \<in> set ts \<Longrightarrow> a (getVar t) = Some (s (getVar t))" for ts c
    using that by (induction ts arbitrary: c) (auto simp: term_evaluate_total algebra_simps)
  then show ?thesis using assms by (simp add: evaluate_def getVariables_def)
qed

lemma evaluate_unassigned:
  assumes "v \<in> getVariables e" "a v = None"
  shows "evaluate a e = None"
proof -
  have "fold_opt (\<lambda>t s. map_option (\<lambda>x. x + s) (term_evaluate a t)) ts c = None"
    if "v \<in> getVar ` set ts" for ts c
    using that assms(2)
    by (induction ts arbitrary: c)
      (auto simp: term_evaluate_def totalAssignment_def split: Option.bind_splits)
  then show ?thesis using assms(1) by (simp add: evaluate_def getVariables_def)
qed

lemma insert_term_error:
  "\<bar>terms_value s (insert_term t ts) - (terms_value s ts + s (getVar t) * getCoeff t)\<bar>
     \<le> TOLERANCE * \<bar>s (getVar t)\<bar>"
proof (induction ts)
  case Nil
  then show ?case by (simp add: TOLERANCE_def)
next
  case (Cons x xs)
  have drop: "\<bar>s v * c + s v * d\<bar> \<le> TOLERANCE * \<bar>s v\<bar>" if "\<bar>c + d\<bar> < TOLERANCE" for v c d
  proof -
    have "\<bar>s v * c + s v * d\<bar> = \<bar>c + d\<bar> * \<bar>s v\<bar>"
      by (metis abs_mult distrib_left mult.commute)
    then show ?thesis using that by (simp add: mult_right_mono)
  qed
  have "0 \<le> TOLERANCE * \<bar>s (getVar t)\<bar>" by (simp add: TOLERANCE_def)
  with Cons drop [of "getCoeff x" "getCoeff t" "getVar t"] show ?case
    by (auto simp: addCoeff_def algebra_simps)
qed

lemma fold_insert_term_error:
  "\<bar>terms_value s (fold insert_term us ts) - (terms_value s ts + terms_value s us)\<bar>
     \<le> TOLERANCE * (\<Sum>u \<leftarrow> us. \<bar>s (getVar u)\<bar>)"
proof (induction us arbitrary: ts)
  case Nil
  then show ?case by simp
next
  case (Cons u us)
  from Cons [of "insert_term u ts"] insert_term_error [of s u ts] show ?case
    by (simp add: algebra_simps)
qed

lemma vars_fold_insert_term:
  "getVar ` set (fold insert_term us ts) \<subseteq> getVar ` set us \<union> getVar ` set ts"
proof (induction us arbitrary: ts)
  case Nil
  then show ?case by simp
next
  case (Cons u us)
  from Cons [of "insert_term u ts"] vars_insert_term [of u ts] show ?case by auto
qed

lemma getVariables_add: "getVariables (expr_add l r) \<subseteq> getVariables l \<union> getVariables r"
  using vars_fold_insert_term [of "terms r" "terms l"]
  by (auto simp: expr_add_def getVariables_def)

section \<open>Constant expressions\<close>

text \<open>An expression without terms behaves like its constant under addition and negation.\<close>

lemma isConstant_expr_const [simp]: "isConstant (expr_const r)" "const (expr_const r) = r"
  by (simp_all add: isConstant_def expr_const_def)

lemma isConstant_add [simp, intro]:
  "isConstant l \<Longrightarrow> isConstant r \<Longrightarrow> isConstant (expr_add l r)"
  by (simp add: isConstant_def expr_add_def)

lemma isConstant_neg [simp]: "isConstant (expr_neg e) \<longleftrightarrow> isConstant e"
  by (simp add: isConstant_def expr_neg_def)

lemma isConstant_empty [simp]: "isConstant expr_empty" "const expr_empty = 0"
  by (simp_all add: isConstant_def expr_empty_def)

lemma const_neg [simp]: "const (expr_neg e) = - const e"
  by (simp add: expr_neg_def)

end
