(* ===== verification/ZXDiagram.thy ===== *)
theory ZXDiagram
  imports SymExpression
begin

text \<open>
  The ZX-diagram data structure (\<open>include/mqt-core/zx/ZXDefinitions.hpp\<close>, \<open>Utils.hpp\<close>,
  \<open>ZXDiagram.hpp\<close>, \<open>src/zx/ZXDiagram.cpp\<close>, \<open>Utils.cpp\<close>): state and operations only.  The
  invariant and the effect of each operation are in \<open>ZXInvariant\<close>.

  A diagram owns an adjacency vector and a vector of optional vertex data, both indexed by
  vertex; a removed vertex leaves an empty slot that \<open>addVertex\<close> reuses, and its incident
  edges stay behind unread.  The two counters are \<open>std::size_t\<close> and are kept as 64-bit words.
  Vertex numbers index vectors and are natural numbers.  An operation whose C++ text would read
  out of range, dereference an empty optional, dereference an end iterator or go on with an
  invalidated iterator returns \<open>None\<close>.
\<close>

section \<open>Definitions (\<open>ZXDefinitions.hpp\<close>, \<open>Utils.hpp\<close>)\<close>

datatype EdgeType = Simple | Hadamard

datatype VertexType = Boundary | Z | X

type_synonym Vertex = nat
type_synonym Col = int
type_synonym Qubit = int
type_synonym PiExpression = "PiRational Expression"
type_synonym size_t = "64 word"

text \<open>\<open>struct Edge\<close> is a target vertex and a type.\<close>

type_synonym Edge = "Vertex \<times> EdgeType"

definition toggle :: "Edge \<Rightarrow> Edge" where
  "toggle e = (fst e, if snd e = Simple then Hadamard else Simple)"

record VertexData =
  col :: Col
  qubit :: Qubit
  phase :: PiExpression
  vtype :: VertexType

record ZXDiagram =
  edges :: "Edge list list"
  vertices :: "VertexData option list"
  deleted :: "Vertex list"
  inputs :: "Vertex list"
  outputs :: "Vertex list"
  nvertices :: size_t
  nedges :: size_t
  globalPhase :: PiExpression

definition empty_diagram :: ZXDiagram where
  "empty_diagram = \<lparr>edges = [], vertices = [], deleted = [], inputs = [], outputs = [],
     nvertices = 0, nedges = 0, globalPhase = expr_empty\<rparr>"

definition pi_expr :: PiExpression where
  "pi_expr = expr_const (PiRational 1)"

definition zero_expr :: PiExpression where
  "zero_expr = expr_const (PiRational 0)"

section \<open>Classification of phases (\<open>Utils.cpp\<close>)\<close>

definition isPauli :: "PiExpression \<Rightarrow> bool" where
  "isPauli e \<longleftrightarrow> isConstant e \<and> isInteger (const e)"

definition isClifford :: "PiExpression \<Rightarrow> bool" where
  "isClifford e \<longleftrightarrow> isConstant e \<and> (isInteger (const e) \<or> getDenom (const e) = 2)"

definition isProperClifford :: "PiExpression \<Rightarrow> bool" where
  "isProperClifford e \<longleftrightarrow> isConstant e \<and> getDenom (const e) = 2"

text \<open>
  \<open>toDoubleDivPi\<close> converts the rational to a \<open>double\<close> with boost's \<open>convert_to\<close>, the
  parameter \<open>conv\<close>.
\<close>

definition isCloseDivPi :: "(rat \<Rightarrow> fp) \<Rightarrow> PiRational \<Rightarrow> fp \<Rightarrow> fp \<Rightarrow> bool" where
  "isCloseDivPi conv r x tol \<longleftrightarrow> \<bar>conv (frac r) - x\<bar> < tol"

definition roundToClifford :: "(rat \<Rightarrow> fp) \<Rightarrow> fp \<Rightarrow> PiExpression \<Rightarrow> PiExpression" where
  "roundToClifford conv tol e =
     (if \<not> isConstant e then e
      else if isCloseDivPi conv (const e) 0 tol then e\<lparr>const := PiRational 0\<rparr>
      else if isCloseDivPi conv (const e) (1/2) tol then e\<lparr>const := PiRational (1/2)\<rparr>
      else if isCloseDivPi conv (const e) (-1/2) tol then e\<lparr>const := PiRational (-1/2)\<rparr>
      else if isCloseDivPi conv (const e) 1 tol then e\<lparr>const := PiRational 1\<rparr>
      else e)"

section \<open>Reading a diagram\<close>

definition getVData :: "ZXDiagram \<Rightarrow> Vertex \<Rightarrow> VertexData option option" where
  "getVData d v = vec_at (vertices d) v"

definition diag_phase :: "ZXDiagram \<Rightarrow> Vertex \<Rightarrow> PiExpression option" where
  "diag_phase d v = do { w \<leftarrow> getVData d v; x \<leftarrow> w; Some (phase x) }"

definition diag_qubit :: "ZXDiagram \<Rightarrow> Vertex \<Rightarrow> Qubit option" where
  "diag_qubit d v = do { w \<leftarrow> getVData d v; x \<leftarrow> w; Some (qubit x) }"

definition diag_type :: "ZXDiagram \<Rightarrow> Vertex \<Rightarrow> VertexType option" where
  "diag_type d v = do { w \<leftarrow> getVData d v; x \<leftarrow> w; Some (vtype x) }"

definition isDeleted :: "ZXDiagram \<Rightarrow> Vertex \<Rightarrow> bool option" where
  "isDeleted d v = do { w \<leftarrow> getVData d v; Some (w = None) }"

definition isBoundaryVertex :: "ZXDiagram \<Rightarrow> Vertex \<Rightarrow> bool option" where
  "isBoundaryVertex d v = do { t \<leftarrow> diag_type d v; Some (t = Boundary) }"

definition incidentEdges :: "ZXDiagram \<Rightarrow> Vertex \<Rightarrow> Edge list option" where
  "incidentEdges d v = vec_at (edges d) v"

definition degree :: "ZXDiagram \<Rightarrow> Vertex \<Rightarrow> nat option" where
  "degree d v = do { es \<leftarrow> incidentEdges d v; Some (length es) }"

definition getNdeleted :: "ZXDiagram \<Rightarrow> nat" where
  "getNdeleted d = length (deleted d)"

definition getNQubits :: "ZXDiagram \<Rightarrow> nat" where
  "getNQubits d = length (inputs d)"

definition isInput :: "ZXDiagram \<Rightarrow> Vertex \<Rightarrow> bool" where
  "isInput d v \<longleftrightarrow> v \<in> set (inputs d)"

definition isOutput :: "ZXDiagram \<Rightarrow> Vertex \<Rightarrow> bool" where
  "isOutput d v \<longleftrightarrow> v \<in> set (outputs d)"

definition globalPhaseIsZero :: "ZXDiagram \<Rightarrow> bool" where
  "globalPhaseIsZero d \<longleftrightarrow> expr_isZero (globalPhase d)"

definition getEdgePtr :: "ZXDiagram \<Rightarrow> Vertex \<Rightarrow> Vertex \<Rightarrow> nat option option" where
  "getEdgePtr d from to =
     do { incident \<leftarrow> vec_at (edges d) from; Some (find_if (\<lambda>e. fst e = to) incident) }"

definition getEdge :: "ZXDiagram \<Rightarrow> Vertex \<Rightarrow> Vertex \<Rightarrow> Edge option option" where
  "getEdge d from to =
     do { incident \<leftarrow> vec_at (edges d) from;
          Some (case find_if (\<lambda>e. fst e = to) incident of
                  None \<Rightarrow> None | Some i \<Rightarrow> Some (incident ! i)) }"

definition connected :: "ZXDiagram \<Rightarrow> Vertex \<Rightarrow> Vertex \<Rightarrow> bool option" where
  "connected d from to =
     do { df \<leftarrow> isDeleted d from;
          if df then Some False
          else do {
            dt \<leftarrow> isDeleted d to;
            if dt then Some False
            else do {
              incident \<leftarrow> vec_at (edges d) from;
              Some (find_if (\<lambda>e. fst e = to) incident \<noteq> None) } } }"

section \<open>Changing vertex data\<close>

definition map_vertex :: "(VertexData \<Rightarrow> VertexData) \<Rightarrow> Vertex \<Rightarrow> ZXDiagram \<Rightarrow> ZXDiagram option" where
  "map_vertex f v d =
     do { vs \<leftarrow> vec_modify (map_option f) (vertices d) v; Some (d\<lparr>vertices := vs\<rparr>) }"

definition addPhase :: "Vertex \<Rightarrow> PiExpression \<Rightarrow> ZXDiagram \<Rightarrow> ZXDiagram option" where
  "addPhase v p = map_vertex (\<lambda>x. x\<lparr>phase := expr_add (phase x) p\<rparr>) v"

definition setPhase :: "Vertex \<Rightarrow> PiExpression \<Rightarrow> ZXDiagram \<Rightarrow> ZXDiagram option" where
  "setPhase v p = map_vertex (\<lambda>x. x\<lparr>phase := p\<rparr>) v"

definition setType :: "Vertex \<Rightarrow> VertexType \<Rightarrow> ZXDiagram \<Rightarrow> ZXDiagram option" where
  "setType v t = map_vertex (\<lambda>x. x\<lparr>vtype := t\<rparr>) v"

definition addGlobalPhase :: "PiExpression \<Rightarrow> ZXDiagram \<Rightarrow> ZXDiagram" where
  "addGlobalPhase p d = d\<lparr>globalPhase := expr_add (globalPhase d) p\<rparr>"

section \<open>Changing edges\<close>

definition modify_incident :: "(Edge list \<Rightarrow> Edge list) \<Rightarrow> Vertex \<Rightarrow> ZXDiagram \<Rightarrow> ZXDiagram option" where
  "modify_incident f v d =
     do { es \<leftarrow> vec_modify f (edges d) v; Some (d\<lparr>edges := es\<rparr>) }"

definition addEdge :: "Vertex \<Rightarrow> Vertex \<Rightarrow> EdgeType \<Rightarrow> ZXDiagram \<Rightarrow> ZXDiagram option" where
  "addEdge from to ty d =
     do { d1 \<leftarrow> modify_incident (\<lambda>es. es @ [(to, ty)]) from d;
          d2 \<leftarrow> modify_incident (\<lambda>es. es @ [(from, ty)]) to d1;
          Some (d2\<lparr>nedges := nedges d2 + 1\<rparr>) }"

definition addHadamardEdge :: "Vertex \<Rightarrow> Vertex \<Rightarrow> ZXDiagram \<Rightarrow> ZXDiagram option" where
  "addHadamardEdge from to = addEdge from to Hadamard"

definition removeHalfEdge :: "Vertex \<Rightarrow> Vertex \<Rightarrow> ZXDiagram \<Rightarrow> ZXDiagram option" where
  "removeHalfEdge from to = modify_incident (filter (\<lambda>e. fst e \<noteq> to)) from"

definition removeEdge :: "Vertex \<Rightarrow> Vertex \<Rightarrow> ZXDiagram \<Rightarrow> ZXDiagram option" where
  "removeEdge from to d =
     do { d1 \<leftarrow> removeHalfEdge from to d;
          d2 \<leftarrow> removeHalfEdge to from d1;
          Some (d2\<lparr>nedges := nedges d2 - 1\<rparr>) }"

text \<open>Erasing or overwriting through an edge iterator, given as an index.\<close>

definition eraseEdgeAt :: "Vertex \<Rightarrow> nat \<Rightarrow> ZXDiagram \<Rightarrow> ZXDiagram option" where
  "eraseEdgeAt v i d =
     do { incident \<leftarrow> vec_at (edges d) v;
          es \<leftarrow> vec_erase incident i;
          Some (d\<lparr>edges := (edges d)[v := es]\<rparr>) }"

definition modifyEdgeAt :: "(Edge \<Rightarrow> Edge) \<Rightarrow> Vertex \<Rightarrow> nat \<Rightarrow> ZXDiagram \<Rightarrow> ZXDiagram option" where
  "modifyEdgeAt f v i d =
     do { incident \<leftarrow> vec_at (edges d) v;
          es \<leftarrow> vec_modify f incident i;
          Some (d\<lparr>edges := (edges d)[v := es]\<rparr>) }"

definition togglePtr :: "Vertex \<Rightarrow> Vertex \<Rightarrow> ZXDiagram \<Rightarrow> ZXDiagram option" where
  "togglePtr from to d =
     do { ptr \<leftarrow> getEdgePtr d from to;
          i \<leftarrow> ptr;
          modifyEdgeAt toggle from i d }"

definition cancelEdge :: "Vertex \<Rightarrow> Vertex \<Rightarrow> nat \<Rightarrow> ZXDiagram \<Rightarrow> ZXDiagram option" where
  "cancelEdge from to i d =
     do { d1 \<leftarrow> eraseEdgeAt from i d;
          d2 \<leftarrow> removeHalfEdge to from d1;
          Some (d2\<lparr>nedges := nedges d2 - 1\<rparr>) }"

definition retypeEdge ::
    "EdgeType \<Rightarrow> Vertex \<Rightarrow> Vertex \<Rightarrow> nat \<Rightarrow> ZXDiagram \<Rightarrow> ZXDiagram option" where
  "retypeEdge ty from to i d =
     do { d1 \<leftarrow> modifyEdgeAt (\<lambda>e. (fst e, ty)) from i d;
          d2 \<leftarrow> togglePtr to from d1;
          addPhase from pi_expr d2 }"

definition addEdgeParallelAware ::
    "Vertex \<Rightarrow> Vertex \<Rightarrow> EdgeType \<Rightarrow> ZXDiagram \<Rightarrow> ZXDiagram option" where
  "addEdgeParallelAware from to eType d =
     (if from = to then
        do { t \<leftarrow> diag_type d from;
             if t \<noteq> Boundary \<and> eType = Hadamard then addPhase from pi_expr d else Some d }
      else do {
        edgeIt \<leftarrow> getEdgePtr d from to;
        case edgeIt of
          None \<Rightarrow> addEdge from to eType d
        | Some i \<Rightarrow> do {
            tf \<leftarrow> diag_type d from;
            if tf = Boundary then Some d
            else do {
              tt \<leftarrow> diag_type d to;
              if tt = Boundary then Some d
              else do {
                incident \<leftarrow> vec_at (edges d) from;
                cur \<leftarrow> vec_at incident i;
                if tf = tt then
                  (if snd cur = Hadamard \<and> eType = Hadamard then cancelEdge from to i d
                   else if snd cur = Hadamard \<and> eType = Simple then retypeEdge Simple from to i d
                   else if snd cur = Simple \<and> eType = Hadamard then addPhase from pi_expr d
                   else Some d)
                else
                  (if snd cur = Simple \<and> eType = Simple then cancelEdge from to i d
                   else if snd cur = Hadamard \<and> eType = Simple then addPhase from pi_expr d
                   else if snd cur = Simple \<and> eType = Hadamard
                     then retypeEdge Hadamard from to i d
                   else Some d) } } } })"

section \<open>Adding and removing vertices\<close>

definition addVertex :: "VertexData \<Rightarrow> ZXDiagram \<Rightarrow> (Vertex \<times> ZXDiagram) option" where
  "addVertex data d =
     (let d0 = d\<lparr>nvertices := nvertices d + 1\<rparr> in
      if deleted d0 \<noteq> [] then
        do { let v = last (deleted d0);
             vs \<leftarrow> vec_set (vertices d0) v (Some data);
             es \<leftarrow> vec_set (edges d0) v [];
             Some (v, d0\<lparr>deleted := butlast (deleted d0), vertices := vs, edges := es\<rparr>) }
      else Some (unat (nvertices d0 - 1),
             d0\<lparr>vertices := vertices d0 @ [Some data], edges := edges d0 @ [[]]\<rparr>))"

definition addVertexAt ::
    "Qubit \<Rightarrow> Col \<Rightarrow> PiExpression \<Rightarrow> VertexType \<Rightarrow> ZXDiagram \<Rightarrow> (Vertex \<times> ZXDiagram) option" where
  "addVertexAt q c p t = addVertex \<lparr>col = c, qubit = q, phase = p, vtype = t\<rparr>"

text \<open>
  A range-based loop over \<open>incidentEdges(v)\<close>, which is a reference into the diagram.  If the
  body changes that vector the iterators are invalid, so each step first checks that the
  vector is still the one the loop started on.
\<close>

definition for_incident ::
    "Vertex \<Rightarrow> (Edge \<Rightarrow> ZXDiagram \<Rightarrow> ZXDiagram option) \<Rightarrow> ZXDiagram \<Rightarrow> ZXDiagram option" where
  "for_incident v f d =
     do { es \<leftarrow> incidentEdges d v;
          fold_opt (\<lambda>e s. if incidentEdges s v = Some es then f e s else None) es d }"

definition detach :: "Vertex \<Rightarrow> Edge \<Rightarrow> ZXDiagram \<Rightarrow> ZXDiagram option" where
  "detach r e s = do { s1 \<leftarrow> removeHalfEdge (fst e) r s; Some (s1\<lparr>nedges := nedges s1 - 1\<rparr>) }"

definition removeVertex :: "Vertex \<Rightarrow> ZXDiagram \<Rightarrow> ZXDiagram option" where
  "removeVertex r d =
     do { vs \<leftarrow> vec_set (vertices d) r None;
          for_incident r (detach r)
            (d\<lparr>deleted := deleted d @ [r], vertices := vs, nvertices := nvertices d - 1\<rparr>) }"

definition addQubit :: "ZXDiagram \<Rightarrow> ZXDiagram option" where
  "addQubit d =
     do { (i, d1) \<leftarrow> addVertexAt (int (getNQubits d) + 1) 0 expr_empty Boundary d;
          (out, d2) \<leftarrow> addVertexAt (int (getNQubits d1) + 1) 0 expr_empty Boundary d1;
          Some (d2\<lparr>inputs := inputs d2 @ [i], outputs := outputs d2 @ [out]\<rparr>) }"

definition addQubits :: "Qubit \<Rightarrow> ZXDiagram \<Rightarrow> ZXDiagram option" where
  "addQubits n = fold_opt (\<lambda>_. addQubit) [0..<nat n]"

section \<open>Construction\<close>

definition initGraph :: "nat \<Rightarrow> ZXDiagram \<Rightarrow> (Vertex list \<times> ZXDiagram) option" where
  "initGraph n d =
     fold_opt (\<lambda>i (qs, s). do {
         (v, s1) \<leftarrow> addVertex \<lparr>col = 1, qubit = int i, phase = expr_empty, vtype = Boundary\<rparr> s;
         Some (qs @ [v], s1\<lparr>inputs := inputs s1 @ [v]\<rparr>) })
       [0..<n] ([], d)"

definition closeGraph :: "Vertex list \<Rightarrow> ZXDiagram \<Rightarrow> ZXDiagram option" where
  "closeGraph qubitVertices d =
     fold_opt (\<lambda>v s. do {
         w \<leftarrow> getVData s v;
         case w of None \<Rightarrow> Some s
         | Some x \<Rightarrow> do {
             (newV, s1) \<leftarrow> addVertex
                \<lparr>col = col x + 1, qubit = qubit x, phase = expr_empty, vtype = Boundary\<rparr> s;
             s2 \<leftarrow> addEdge v newV Simple s1;
             Some (s2\<lparr>outputs := outputs s2 @ [newV]\<rparr>) } })
       qubitVertices d"

definition ZXDiagram_new :: "nat \<Rightarrow> ZXDiagram option" where
  "ZXDiagram_new n = do { (qs, d) \<leftarrow> initGraph n empty_diagram; closeGraph qs d }"

section \<open>Whole-diagram operations\<close>

text \<open>
  \<open>toGraphlike\<close> changes the colour of every X spider: each incident edge and its mirror image
  are toggled.
\<close>

definition toggle_edge_pair :: "Vertex \<Rightarrow> nat \<Rightarrow> ZXDiagram \<Rightarrow> ZXDiagram option" where
  "toggle_edge_pair v i d =
     do { d1 \<leftarrow> modifyEdgeAt toggle v i d;
          incident \<leftarrow> vec_at (edges d1) v;
          e \<leftarrow> vec_at incident i;
          togglePtr (fst e) v d1 }"

definition recolour :: "Vertex \<Rightarrow> ZXDiagram \<Rightarrow> ZXDiagram option" where
  "recolour v d =
     do { w \<leftarrow> getVData d v;
          case w of None \<Rightarrow> Some d
          | Some x \<Rightarrow>
              if vtype x = X then do {
                n \<leftarrow> degree d v;
                d1 \<leftarrow> fold_opt (toggle_edge_pair v) [0..<n] d;
                setType v Z d1 }
              else Some d }"

definition toGraphlike :: "ZXDiagram \<Rightarrow> ZXDiagram option" where
  "toGraphlike d = fold_opt recolour [0..<length (vertices d)] d"

definition invert :: "ZXDiagram \<Rightarrow> ZXDiagram" where
  "invert d = d\<lparr>inputs := outputs d, outputs := inputs d,
     vertices := map (map_option (\<lambda>x. x\<lparr>phase := expr_neg (phase x)\<rparr>)) (vertices d)\<rparr>"

definition adjoint :: "ZXDiagram \<Rightarrow> ZXDiagram" where
  "adjoint d = invert d"

definition isIdentity :: "ZXDiagram \<Rightarrow> bool option" where
  "isIdentity d =
     (if nedges d \<noteq> of_nat (length (inputs d)) \<or> \<not> expr_isZero (globalPhase d) then Some False
      else all_opt (\<lambda>i. do { a \<leftarrow> vec_at (inputs d) i; b \<leftarrow> vec_at (outputs d) i; connected d a b })
             [0..<length (inputs d)])"

definition makeAncilla :: "Qubit \<Rightarrow> Qubit \<Rightarrow> ZXDiagram \<Rightarrow> ZXDiagram option" where
  "makeAncilla i out d =
     (if i < 0 \<or> out < 0 then None
      else do {
        inV \<leftarrow> vec_at (inputs d) (nat i);
        outV \<leftarrow> vec_at (outputs d) (nat out);
        ins \<leftarrow> vec_erase (inputs d) (nat i);
        outs \<leftarrow> vec_erase (outputs d) (nat out);
        d1 \<leftarrow> setType inV X (d\<lparr>inputs := ins, outputs := outs\<rparr>);
        setType outV X d1 })"

definition approximateCliffords :: "(rat \<Rightarrow> fp) \<Rightarrow> fp \<Rightarrow> ZXDiagram \<Rightarrow> ZXDiagram" where
  "approximateCliffords conv tol d =
     d\<lparr>vertices := map (map_option (\<lambda>x. x\<lparr>phase := roundToClifford conv tol (phase x)\<rparr>))
        (vertices d)\<rparr>"

subsection \<open>Concatenation\<close>

text \<open>\<open>newVs[k]\<close> on the \<open>unordered_map\<close> default-constructs 0 for a missing key.\<close>

definition map_index :: "(Vertex \<rightharpoonup> Vertex) \<Rightarrow> Vertex \<Rightarrow> Vertex" where
  "map_index m k = (case m k of Some x \<Rightarrow> x | None \<Rightarrow> 0)"

definition concat_vertices :: "ZXDiagram \<Rightarrow> ZXDiagram \<Rightarrow> ((Vertex \<rightharpoonup> Vertex) \<times> ZXDiagram) option" where
  "concat_vertices rhs d =
     fold_opt (\<lambda>i (newVs, s). do {
         vertex \<leftarrow> vec_at (vertices rhs) i;
         case vertex of None \<Rightarrow> Some (newVs, s)
         | Some x \<Rightarrow>
             if isInput rhs i then Some (newVs, s)
             else do { (newV, s1) \<leftarrow> addVertex x s; Some (newVs(i \<mapsto> newV), s1) } })
       [0..<length (vertices rhs)] (Map.empty, d)"

definition concat_edge ::
    "ZXDiagram \<Rightarrow> (Vertex \<rightharpoonup> Vertex) \<Rightarrow> Vertex \<Rightarrow> Edge \<Rightarrow> ZXDiagram \<Rightarrow> ZXDiagram option" where
  "concat_edge rhs newVs i e s =
     (if \<not> isInput rhs (fst e) then
        (if i < fst e then addEdge (map_index newVs i) (map_index newVs (fst e)) (snd e) s
         else Some s)
      else do {
        q \<leftarrow> diag_qubit rhs (fst e);
        outV \<leftarrow> (if q < 0 then None else vec_at (outputs s) (nat q));
        for_incident outV
          (\<lambda>(interior_v, interior_type) s1.
             addEdge interior_v (map_index newVs i)
               (if interior_type = snd e then Simple else Hadamard) s1)
          s })"

definition concat_edges ::
    "ZXDiagram \<Rightarrow> (Vertex \<rightharpoonup> Vertex) \<Rightarrow> ZXDiagram \<Rightarrow> ZXDiagram option" where
  "concat_edges rhs newVs d =
     fold_opt (\<lambda>i s. do {
         vertex \<leftarrow> vec_at (vertices rhs) i;
         if vertex = None \<or> isInput rhs i then Some s
         else do {
           es \<leftarrow> vec_at (edges rhs) i;
           fold_opt (concat_edge rhs newVs i) es s } })
       [0..<length (vertices rhs)] d"

definition concat_outputs ::
    "ZXDiagram \<Rightarrow> (Vertex \<rightharpoonup> Vertex) \<Rightarrow> ZXDiagram \<Rightarrow> ZXDiagram option" where
  "concat_outputs rhs newVs d =
     fold_opt (\<lambda>i s. do {
         outV \<leftarrow> vec_at (outputs s) i;
         s1 \<leftarrow> removeVertex outV s;
         r \<leftarrow> vec_at (outputs rhs) i;
         Some (s1\<lparr>outputs := (outputs s1)[i := map_index newVs r]\<rparr>) })
       [0..<length (outputs d)] d"

text \<open>
  The outer \<open>None\<close> of \<open>concat_diagram\<close> also covers the \<open>ZXException\<close> for a different number of
  qubits.
\<close>

definition concat_diagram :: "ZXDiagram \<Rightarrow> ZXDiagram \<Rightarrow> ZXDiagram option" where
  "concat_diagram rhs d =
     (if getNQubits rhs \<noteq> getNQubits d then None
      else do {
        (newVs, d1) \<leftarrow> concat_vertices rhs d;
        d2 \<leftarrow> concat_edges rhs newVs d1;
        d3 \<leftarrow> concat_outputs rhs newVs d2;
        Some (addGlobalPhase (expr_neg (globalPhase rhs)) d3) })"

subsection \<open>Reachability of the boundary\<close>

text \<open>
  The work list of \<open>removeDisconnectedSpiders\<close>.  The stack is a list whose head is its top.
\<close>

function connectedToBoundary :: "ZXDiagram \<Rightarrow> Vertex list \<Rightarrow> Vertex list \<Rightarrow> bool option" where
  "connectedToBoundary d visited [] = Some False"
| "connectedToBoundary d visited (w # stack) =
     (if w \<in> set visited then connectedToBoundary d visited stack
      else if isInput d w \<or> isOutput d w then Some True
      else case incidentEdges d w of
        None \<Rightarrow> None
      | Some es \<Rightarrow> connectedToBoundary d (w # visited) (rev (map fst es) @ stack))"
  by pat_completeness auto
termination
proof (relation "measures [\<lambda>(d, visited, stack). card ({..<length (edges d)} - set visited),
    \<lambda>(d, visited, stack). length stack]", goal_cases)
  case 1
  then show ?case by simp
next
  case (2 d visited w stack)
  then show ?case by simp
next
  case (3 d visited w stack es)
  then have "w \<in> {..<length (edges d)} - set visited"
    by (simp add: incidentEdges_def vec_at_def split: if_splits)
  then have "card ({..<length (edges d)} - set (w # visited)) < card ({..<length (edges d)} - set visited)"
    by (intro psubset_card_mono) auto
  then show ?case by simp
qed

definition removeDisconnectedSpiders :: "ZXDiagram \<Rightarrow> ZXDiagram option" where
  "removeDisconnectedSpiders d =
     fold_opt (\<lambda>v s. do {
         del \<leftarrow> isDeleted s v;
         if del then Some s
         else do {
           c \<leftarrow> connectedToBoundary s [] [v];
           if c then Some s else removeVertex v s } })
       [0..<length (vertices d)] d"

subsection \<open>Enumerating vertices and edges\<close>

text \<open>
  The reference lists: live vertices in increasing order, and each edge once, from its smaller
  end.  \<open>ZXIterators\<close> shows that the iterators of \<open>Utils.cpp\<close> produce them.  The edge iterator
  reads \<open>edges[0]\<close> before anything else, so an empty diagram has no valid one.
\<close>

definition getVertices :: "ZXDiagram \<Rightarrow> Vertex list" where
  "getVertices d = filter (\<lambda>v. vertices d ! v \<noteq> None) [0..<length (vertices d)]"

definition getEdges :: "ZXDiagram \<Rightarrow> (Vertex \<times> Vertex) list option" where
  "getEdges d = (if edges d = [] then None
     else Some (concat (map (\<lambda>v. map (\<lambda>e. (v, fst e)) (filter (\<lambda>e. v \<le> fst e) (edges d ! v)))
                         (getVertices d))))"

definition set_true :: "bool list list \<Rightarrow> nat \<Rightarrow> nat \<Rightarrow> bool list list option" where
  "set_true m i j = do { row \<leftarrow> vec_at m i; row1 \<leftarrow> vec_set row j True; vec_set m i row1 }"

definition getAdjMat :: "ZXDiagram \<Rightarrow> bool list list option" where
  "getAdjMat d =
     (let n = unat (nvertices d); m0 = replicate n (replicate n False) in
      do { es \<leftarrow> getEdges d;
           m1 \<leftarrow> fold_opt (\<lambda>(from, to) m. do { m' \<leftarrow> set_true m from to; set_true m' to from }) es m0;
           fold_opt (\<lambda>i m. set_true m i i) [0..<length m1] m1 })"

text \<open>\<open>std::ranges::lower_bound\<close> on the sorted result vector, followed by the insertion.\<close>

fun insert_vertex :: "Vertex \<Rightarrow> Vertex list \<Rightarrow> Vertex list" where
  "insert_vertex to [] = [to]"
| "insert_vertex to (x # xs) =
     (if x < to then x # insert_vertex to xs
      else if x \<noteq> to then to # x # xs else x # xs)"

definition isIn :: "Vertex \<Rightarrow> Vertex list \<Rightarrow> bool" where
  "isIn v vs \<longleftrightarrow> v \<in> set vs"

definition getConnectedSet :: "ZXDiagram \<Rightarrow> Vertex list \<Rightarrow> Vertex list \<Rightarrow> Vertex list option" where
  "getConnectedSet d s exclude =
     fold_opt (\<lambda>v acc. do {
         es \<leftarrow> vec_at (edges d) v;
         Some (fold (\<lambda>e a. if isIn (fst e) exclude then a else insert_vertex (fst e) a) es acc) })
       s []"

end
