(* ===== verification/ZXInvariant.thy ===== *)
theory ZXInvariant
  imports ZXDiagram
begin

text \<open>
  The representation invariant of a ZX-diagram, its abstraction to a labelled simple graph, and
  the effect of every primitive operation of \<open>ZXDiagram\<close> on that graph.  Each operation lemma
  says three things at once: the operation does not fail, it keeps the invariant, and it
  implements its abstract counterpart.
\<close>

section \<open>The abstract graph\<close>

definition live :: "ZXDiagram \<Rightarrow> Vertex \<Rightarrow> bool" where
  "live d v \<longleftrightarrow> v < length (vertices d) \<and> vertices d ! v \<noteq> None"

definition vdata :: "ZXDiagram \<Rightarrow> Vertex \<Rightarrow> VertexData option" where
  "vdata d v = (if v < length (vertices d) then vertices d ! v else None)"

definition adj :: "ZXDiagram \<Rightarrow> Vertex \<Rightarrow> Vertex \<Rightarrow> EdgeType option" where
  "adj d u v = (if live d u then map_of (edges d ! u) v else None)"

type_synonym agraph = "(Vertex \<Rightarrow> VertexData option) \<times> (Vertex \<Rightarrow> Vertex \<Rightarrow> EdgeType option)"

definition graph_of :: "ZXDiagram \<Rightarrow> agraph" where
  "graph_of d = (vdata d, adj d)"

definition set_edge ::
    "(Vertex \<Rightarrow> Vertex \<Rightarrow> EdgeType option) \<Rightarrow> Vertex \<Rightarrow> Vertex \<Rightarrow> EdgeType option \<Rightarrow>
     Vertex \<Rightarrow> Vertex \<Rightarrow> EdgeType option" where
  "set_edge G u v x = G(u := (G u)(v := x), v := (G v)(u := x))"

definition upd_data ::
    "(VertexData \<Rightarrow> VertexData) \<Rightarrow> Vertex \<Rightarrow> (Vertex \<Rightarrow> VertexData option) \<Rightarrow>
     Vertex \<Rightarrow> VertexData option" where
  "upd_data f v D = D(v := map_option f (D v))"

definition add_phase :: "PiExpression \<Rightarrow> VertexData \<Rightarrow> VertexData" where
  "add_phase p x = x\<lparr>phase := expr_add (phase x) p\<rparr>"

definition verts :: "ZXDiagram \<Rightarrow> Vertex set" where
  "verts d = {v. live d v}"

definition edge_set :: "ZXDiagram \<Rightarrow> (Vertex \<times> Vertex) set" where
  "edge_set d = {(u, v). u < v \<and> adj d u v \<noteq> None}"

definition symmetric_adj :: "ZXDiagram \<Rightarrow> bool" where
  "symmetric_adj d \<longleftrightarrow>
     (\<forall>u v t. adj d u v = Some t \<longrightarrow> u \<noteq> v \<and> live d v \<and> adj d v u = Some t)"

definition zx_ok :: "ZXDiagram \<Rightarrow> bool" where
  "zx_ok d \<longleftrightarrow>
     length (edges d) = length (vertices d) \<and>
     (\<forall>v. live d v \<longrightarrow> distinct (map fst (edges d ! v))) \<and>
     symmetric_adj d \<and>
     distinct (deleted d) \<and>
     set (deleted d) = {..<length (vertices d)} - verts d \<and>
     nvertices d = of_nat (card (verts d)) \<and>
     nedges d = of_nat (card (edge_set d))"

definition ports_ok :: "ZXDiagram \<Rightarrow> bool" where
  "ports_ok d \<longleftrightarrow>
     distinct (inputs d) \<and> distinct (outputs d) \<and>
     (\<forall>v \<in> set (inputs d) \<union> set (outputs d). live d v)"

text \<open>What the operations on edges and phases leave alone.\<close>

definition same_frame :: "ZXDiagram \<Rightarrow> ZXDiagram \<Rightarrow> bool" where
  "same_frame d d' \<longleftrightarrow>
     inputs d' = inputs d \<and> outputs d' = outputs d \<and> globalPhase d' = globalPhase d"

named_theorems diag_simps \<open>reading a diagram at a live vertex\<close>

lemma live_vdata: "live d v \<longleftrightarrow> vdata d v \<noteq> None"
  by (auto simp: live_def vdata_def)

lemma live_length: "live d v \<Longrightarrow> v < length (vertices d)"
  by (simp add: live_def)

lemma verts_vdata: "verts d = dom (vdata d)"
  by (auto simp: verts_def live_vdata dom_def)

lemma finite_verts [simp]: "finite (verts d)"
  by (rule finite_subset [of _ "{..<length (vertices d)}"]) (auto simp: verts_def live_def)

lemma same_frame_refl [simp]: "same_frame d d"
  by (simp add: same_frame_def)

lemma same_frame_trans [trans]: "same_frame a b \<Longrightarrow> same_frame b c \<Longrightarrow> same_frame a c"
  by (simp add: same_frame_def)

lemma zx_ok_length: "zx_ok d \<Longrightarrow> length (edges d) = length (vertices d)"
  by (simp add: zx_ok_def)

lemma zx_ok_distinct: "zx_ok d \<Longrightarrow> live d v \<Longrightarrow> distinct (map fst (edges d ! v))"
  by (simp add: zx_ok_def)

lemma zx_ok_adj:
  assumes "zx_ok d" "adj d u v = Some t"
  shows "u \<noteq> v \<and> live d u \<and> live d v \<and> adj d v u = Some t"
proof -
  have "u \<noteq> v \<and> live d v \<and> adj d v u = Some t" 
    using assms unfolding zx_ok_def symmetric_adj_def by blast
  moreover have "live d u" using assms(2) by (simp add: adj_def split: if_splits)
  ultimately show ?thesis by simp
qed

lemma zx_ok_sym:
  assumes "zx_ok d"
  shows "adj d u v = adj d v u"
proof (cases "adj d u v")
  case None
  then show ?thesis using zx_ok_adj [OF assms, of v u] by (cases "adj d v u") auto
next
  case (Some t)
  then show ?thesis using zx_ok_adj [OF assms Some] by simp
qed

lemma zx_ok_irrefl: "zx_ok d \<Longrightarrow> adj d u u = None"
  using zx_ok_adj [of d u u] by (cases "adj d u u") auto

lemma zx_ok_incident:
  "zx_ok d \<Longrightarrow> live d u \<Longrightarrow> (v, t) \<in> set (edges d ! u) \<longleftrightarrow> adj d u v = Some t"
  using zx_ok_distinct [of d u] by (auto simp: adj_def dest: map_of_SomeD)

lemma zx_ok_incident_adj:
  "zx_ok d \<Longrightarrow> live d u \<Longrightarrow> e \<in> set (edges d ! u) \<Longrightarrow> adj d u (fst e) = Some (snd e)"
  by (metis prod.collapse zx_ok_incident)

lemma zx_ok_incident_live:
  "zx_ok d \<Longrightarrow> live d u \<Longrightarrow> e \<in> set (edges d ! u) \<Longrightarrow> live d (fst e) \<and> fst e \<noteq> u"
  using zx_ok_incident_adj [of d u e] zx_ok_adj [of d u "fst e" "snd e"] by blast

lemma adj_live: "adj d u v \<noteq> None \<Longrightarrow> live d u"
  by (simp add: adj_def split: if_splits)

lemma edge_set_subset: "zx_ok d \<Longrightarrow> edge_set d \<subseteq> verts d \<times> verts d"
  by (auto simp: edge_set_def verts_def dest: zx_ok_adj)

lemma finite_edge_set: "zx_ok d \<Longrightarrow> finite (edge_set d)"
  by (rule finite_subset [OF edge_set_subset]) simp_all

lemma dom_map_of_fst: "dom (map_of es) = fst ` set es"
  by (simp add: dom_map_of_conv_image_fst)

section \<open>Reading\<close>

lemma getVData_live [diag_simps]: "live d v \<Longrightarrow> getVData d v = Some (vdata d v)"
  by (simp add: getVData_def vec_simps live_def vdata_def)

lemma diag_phase_live [diag_simps]: "live d v \<Longrightarrow> diag_phase d v = Some (phase (the (vdata d v)))"
  by (auto simp: diag_phase_def getVData_live live_vdata)

lemma diag_type_live [diag_simps]: "live d v \<Longrightarrow> diag_type d v = Some (vtype (the (vdata d v)))"
  by (auto simp: diag_type_def getVData_live live_vdata)

lemma diag_qubit_live [diag_simps]: "live d v \<Longrightarrow> diag_qubit d v = Some (qubit (the (vdata d v)))"
  by (auto simp: diag_qubit_def getVData_live live_vdata)

lemma isDeleted_eq [diag_simps]: "v < length (vertices d) \<Longrightarrow> isDeleted d v = Some (\<not> live d v)"
  by (simp add: isDeleted_def getVData_def vec_simps live_def)

lemma isBoundary_live [diag_simps]:
  "live d v \<Longrightarrow> isBoundaryVertex d v = Some (vtype (the (vdata d v)) = Boundary)"
  by (simp add: isBoundaryVertex_def diag_type_live)

lemma incidentEdges_live [diag_simps]:
  "zx_ok d \<Longrightarrow> live d v \<Longrightarrow> incidentEdges d v = Some (edges d ! v)"
  by (simp add: incidentEdges_def vec_simps live_def zx_ok_length)

lemma degree_live [diag_simps]: "zx_ok d \<Longrightarrow> live d v \<Longrightarrow> degree d v = Some (length (edges d ! v))"
  by (simp add: degree_def incidentEdges_live)

lemma find_edge_None:
  assumes "zx_ok d" "live d u"
  shows "find_if (\<lambda>e. fst e = v) (edges d ! u) = None \<longleftrightarrow> adj d u v = None"
proof -
  have "(\<exists>e \<in> set (edges d ! u). fst e = v) \<longleftrightarrow> (\<exists>t. (v, t) \<in> set (edges d ! u))" by force
  then show ?thesis using zx_ok_incident [OF assms, of v] by (auto simp: find_if_None)
qed

lemma find_edge_Some:
  assumes "zx_ok d" "live d u" "find_if (\<lambda>e. fst e = v) (edges d ! u) = Some i"
  shows "i < length (edges d ! u) \<and> edges d ! u ! i = (v, the (adj d u v)) \<and> adj d u v \<noteq> None"
proof -
  from find_if_Some [OF assms(3)] have i: "i < length (edges d ! u)" "fst (edges d ! u ! i) = v"
    by simp_all
  with zx_ok_incident_adj [OF assms(1,2), of "edges d ! u ! i"] have "adj d u v = Some (snd (edges d ! u ! i))"
    by simp
  with i show ?thesis by (metis option.sel option.simps(3) prod.collapse)
qed

lemma getEdgePtr_live:
  "zx_ok d \<Longrightarrow> live d u \<Longrightarrow> getEdgePtr d u v = Some (find_if (\<lambda>e. fst e = v) (edges d ! u))"
  by (simp add: getEdgePtr_def vec_simps live_def zx_ok_length)

lemma getEdge_live [diag_simps]:
  assumes "zx_ok d" "live d u"
  shows "getEdge d u v = Some (map_option (\<lambda>t. (v, t)) (adj d u v))"
proof (cases "find_if (\<lambda>e. fst e = v) (edges d ! u)")
  case None
  with find_edge_None [OF assms, of v] assms show ?thesis
    by (simp add: getEdge_def vec_simps live_def zx_ok_length)
next
  case (Some i)
  with find_edge_Some [OF assms Some] assms show ?thesis
    by (auto simp: getEdge_def vec_simps live_def zx_ok_length)
qed

lemma connected_live [diag_simps]:
  assumes "zx_ok d" "u < length (vertices d)" "v < length (vertices d)"
  shows "connected d u v = Some (adj d u v \<noteq> None)"
proof (cases "live d u \<and> live d v")
  case True
  then show ?thesis
    using find_edge_None [OF assms(1), of u v] assms
    by (simp add: connected_def isDeleted_eq vec_simps zx_ok_length del: not_None_eq)
next
  case False
  then have "adj d u v = None" using zx_ok_adj [OF assms(1), of u v] by fastforce
  with False show ?thesis using assms by (auto simp: connected_def isDeleted_eq)
qed

section \<open>Changing vertex data\<close>

lemma map_vertex_Some:
  "v < length (vertices d) \<Longrightarrow>
     map_vertex f v d = Some (d\<lparr>vertices := (vertices d)[v := map_option f (vertices d ! v)]\<rparr>)"
  by (simp add: map_vertex_def vec_simps)

lemma map_vertex_ok:
  assumes "zx_ok d" "live d v"
  shows "\<exists>d'. map_vertex f v d = Some d' \<and> zx_ok d' \<and> edges d' = edges d \<and> same_frame d d' \<and>
    graph_of d' = (upd_data f v (vdata d), adj d)"
proof -
  let ?d = "d\<lparr>vertices := (vertices d)[v := map_option f (vertices d ! v)]\<rparr>"
  from assms(2) have v: "v < length (vertices d)" "vertices d ! v \<noteq> None" by (auto simp: live_def)
  have vd: "vdata ?d = upd_data f v (vdata d)"
    using v by (auto simp: vdata_def upd_data_def fun_eq_iff nth_list_update)
  have lv: "live ?d = live d"
    using v by (auto simp: live_def fun_eq_iff nth_list_update)
  have ad: "adj ?d = adj d" by (simp add: adj_def fun_eq_iff lv)
  have "verts ?d = verts d" by (simp only: verts_def lv)
  moreover have "edge_set ?d = edge_set d" by (simp only: edge_set_def ad)
  moreover have "symmetric_adj ?d = symmetric_adj d" by (simp only: symmetric_adj_def lv ad)
  ultimately have "zx_ok ?d"
    using assms(1) by (simp add: zx_ok_def lv)
  then show ?thesis using vd ad v by (simp add: map_vertex_Some same_frame_def graph_of_def)
qed

lemma addPhase_eq: "addPhase v p = map_vertex (add_phase p) v"
  by (simp add: addPhase_def add_phase_def [abs_def])

lemmas addPhase_ok = map_vertex_ok [where f = "add_phase p" for p, folded addPhase_eq]

section \<open>Changing one edge of the graph\<close>

text \<open>
  Everything an edge operation has to establish: it touches the incidence lists of its two
  ends only, sets the edge between them to \<open>x\<close> in both, and counts accordingly.
\<close>

lemma card_edge_set_upd:
  assumes "zx_ok d" "u \<noteq> v"
    and "adj d' = set_edge (adj d) u v x"
  shows "(of_nat (card (edge_set d')) :: size_t) =
    of_nat (card (edge_set d)) + (if x = None then 0 else 1) - (if adj d u v = None then 0 else 1)"
proof -
  let ?p = "(min u v, max u v)"
  have mem: "?p \<in> edge_set d \<longleftrightarrow> adj d u v \<noteq> None"
    using assms(2) zx_ok_sym [OF assms(1), of u v]
    by (cases "u < v") (auto simp: edge_set_def min_def max_def)
  have new: "edge_set d' = (if x = None then edge_set d - {?p} else insert ?p (edge_set d))"
  proof (rule set_eqI, clarify)
    fix a b
    have "(a, b) \<in> edge_set d' \<longleftrightarrow> a < b \<and> set_edge (adj d) u v x a b \<noteq> None"
      by (simp add: edge_set_def assms(3))
    then show "(a, b) \<in> edge_set d' \<longleftrightarrow>
        (a, b) \<in> (if x = None then edge_set d - {?p} else insert ?p (edge_set d))"
      using assms(2) by (cases "u < v") (auto simp: edge_set_def set_edge_def)
  qed
  have fin: "finite (edge_set d)" by (rule finite_edge_set [OF assms(1)])
  show ?thesis
  proof (cases "adj d u v = None")
    case True
    then have "?p \<notin> edge_set d" using mem by simp
    with True new fin show ?thesis by simp
  next
    case False
    then have p: "?p \<in> edge_set d" using mem by simp
    have "card (edge_set d) = Suc (card (edge_set d - {?p}))"
      by (rule card.remove [OF fin p])
    with False new fin p show ?thesis by (simp add: insert_absorb)
  qed
qed

lemma zx_ok_set_edge:
  assumes ok: "zx_ok d" and lu: "live d u" and lv: "live d v" and neq: "u \<noteq> v"
    and vs: "vertices d' = vertices d" "deleted d' = deleted d" "nvertices d' = nvertices d"
    and len: "length (edges d') = length (edges d)"
    and others: "\<And>w. w \<noteq> u \<Longrightarrow> w \<noteq> v \<Longrightarrow> edges d' ! w = edges d ! w"
    and du: "distinct (map fst (edges d' ! u))" and dv: "distinct (map fst (edges d' ! v))"
    and mu: "map_of (edges d' ! u) = (map_of (edges d ! u))(v := x)"
    and mv: "map_of (edges d' ! v) = (map_of (edges d ! v))(u := x)"
    and cnt: "nedges d' = nedges d + (if x = None then 0 else 1) - (if adj d u v = None then 0 else 1)"
  shows "zx_ok d' \<and> adj d' = set_edge (adj d) u v x \<and> vdata d' = vdata d"
proof -
  have live: "live d' = live d" by (simp add: live_def fun_eq_iff vs)
  have ad: "adj d' = set_edge (adj d) u v x"
    using neq lu lv others mu mv
    by (auto simp: fun_eq_iff adj_def live set_edge_def)
  have vd: "vdata d' = vdata d" by (simp add: vdata_def fun_eq_iff vs)
  have dist: "distinct (map fst (edges d' ! w))" if "live d w" for w
    using that others [of w] du dv zx_ok_distinct [OF ok that] by (cases "w = u"; cases "w = v") auto
  have sym: "symmetric_adj d'"
    unfolding symmetric_adj_def live ad
  proof (intro allI impI)
    fix a b t
    assume "set_edge (adj d) u v x a b = Some t"
    then show "a \<noteq> b \<and> live d b \<and> set_edge (adj d) u v x b a = Some t"
      using zx_ok_adj [OF ok, of a b t] neq lu lv
      by (auto simp: set_edge_def split: if_splits)
  qed
  have "nedges d' = of_nat (card (edge_set d'))"
    using cnt card_edge_set_upd [OF ok neq ad] ok by (simp add: zx_ok_def)
  then have "zx_ok d'"
    using ok sym dist live vs len by (simp add: zx_ok_def verts_def)
  with ad vd show ?thesis by simp
qed


text \<open>
  \<open>touches S d d'\<close>: the step from \<open>d\<close> to \<open>d'\<close> leaves every incidence list outside \<open>S\<close> as it
  was, so an iterator over one of those stays valid.
\<close>

definition touches :: "Vertex set \<Rightarrow> ZXDiagram \<Rightarrow> ZXDiagram \<Rightarrow> bool" where
  "touches S d d' \<longleftrightarrow> same_frame d d' \<and> length (vertices d') = length (vertices d) \<and>
     length (edges d') = length (edges d) \<and> (\<forall>w. w \<notin> S \<longrightarrow> edges d' ! w = edges d ! w)"

lemma touches_refl [simp]: "touches S d d"
  by (simp add: touches_def)

lemma touches_trans: "touches S a b \<Longrightarrow> touches T b c \<Longrightarrow> touches (S \<union> T) a c"
  by (auto simp: touches_def same_frame_def)

lemma touches_mono: "touches S a b \<Longrightarrow> S \<subseteq> T \<Longrightarrow> touches T a b"
  by (auto simp: touches_def)

lemma touches_edges: "touches S d d' \<Longrightarrow> w \<notin> S \<Longrightarrow> edges d' ! w = edges d ! w"
  by (simp add: touches_def)

lemma touches_frame: "touches S d d' \<Longrightarrow> same_frame d d'"
  by (simp add: touches_def)

lemma graph_of_eq: "graph_of d' = (D, G) \<longleftrightarrow> vdata d' = D \<and> adj d' = G"
  by (simp add: graph_of_def)

lemma addEdge_ok:
  assumes ok: "zx_ok d" and lu: "live d u" and lv: "live d v" and neq: "u \<noteq> v"
    and none: "adj d u v = None"
  shows "\<exists>d'. addEdge u v t d = Some d' \<and> zx_ok d' \<and> touches {u, v} d d' \<and>
    graph_of d' = (vdata d, set_edge (adj d) u v (Some t))"
proof -
  let ?E = "(edges d)[u := edges d ! u @ [(v, t)], v := edges d ! v @ [(u, t)]]"
  let ?d = "d\<lparr>edges := ?E, nedges := nedges d + 1\<rparr>"
  have lens: "u < length (edges d)" "v < length (edges d)"
    using lu lv ok by (simp_all add: live_def zx_ok_length)
  have eq: "addEdge u v t d = Some ?d"
    using lens neq by (simp add: addEdge_def modify_incident_def vec_simps)
  have noneu: "v \<notin> fst ` set (edges d ! u)"
    using none lu by (simp add: adj_def map_of_eq_None_iff)
  have nonev: "u \<notin> fst ` set (edges d ! v)"
  proof -
    have "adj d v u = None" using none zx_ok_sym [OF ok, of u v] by simp
    then show ?thesis using lv by (simp add: adj_def map_of_eq_None_iff)
  qed
  have "zx_ok ?d \<and> adj ?d = set_edge (adj d) u v (Some t) \<and> vdata ?d = vdata d"
    by (rule zx_ok_set_edge [OF ok lu lv neq])
      (use lens neq none noneu nonev zx_ok_distinct [OF ok lu] zx_ok_distinct [OF ok lv] in
        \<open>simp_all add: map_of_snoc_new del: map_of_append\<close>)
  then show ?thesis
    using eq by (auto simp: graph_of_def touches_def same_frame_def)
qed

lemma distinct_erase:
  assumes "distinct (map fst es)" "i < length es" "fst (es ! i) = v"
  shows "take i es @ drop (Suc i) es = filter (\<lambda>e. fst e \<noteq> v) es"
proof -
  have es: "es = take i es @ es ! i # drop (Suc i) es" by (rule id_take_nth_drop [OF assms(2)])
  then have "distinct (map fst (take i es) @ fst (es ! i) # map fst (drop (Suc i) es))"
    using assms(1) by (metis list.simps(9) map_append)
  then have "\<forall>e \<in> set (take i es) \<union> set (drop (Suc i) es). fst e \<noteq> v"
    using assms(3) by (auto simp: image_iff)
  then have "filter (\<lambda>e. fst e \<noteq> v) (take i es) = take i es"
    "filter (\<lambda>e. fst e \<noteq> v) (drop (Suc i) es) = drop (Suc i) es"
    by (simp_all add: filter_id_conv)
  then show ?thesis using assms(3) by (subst (3) es) simp
qed

lemma unlink_ok:
  assumes ok: "zx_ok d" and lu: "live d u" and lv: "live d v" and neq: "u \<noteq> v"
    and some: "adj d u v \<noteq> None"
  defines "d' \<equiv> d\<lparr>edges := (edges d)[u := filter (\<lambda>e. fst e \<noteq> v) (edges d ! u),
                               v := filter (\<lambda>e. fst e \<noteq> u) (edges d ! v)],
                   nedges := nedges d - 1\<rparr>"
  shows "zx_ok d' \<and> touches {u, v} d d' \<and> graph_of d' = (vdata d, set_edge (adj d) u v None)"
proof -
  have lens: "u < length (edges d)" "v < length (edges d)"
    using lu lv ok by (simp_all add: live_def zx_ok_length)
  have "zx_ok d' \<and> adj d' = set_edge (adj d) u v None \<and> vdata d' = vdata d"
    by (rule zx_ok_set_edge [OF ok lu lv neq])
      (use lens neq some zx_ok_distinct [OF ok lu] zx_ok_distinct [OF ok lv] in
        \<open>simp_all add: d'_def map_of_filter_key distinct_map_filter_fst\<close>)
  then show ?thesis
    by (auto simp: graph_of_def touches_def same_frame_def d'_def)
qed

lemma removeEdge_ok:
  assumes "zx_ok d" "live d u" "live d v" "u \<noteq> v" "adj d u v \<noteq> None"
  shows "\<exists>d'. removeEdge u v d = Some d' \<and> zx_ok d' \<and> touches {u, v} d d' \<and>
    graph_of d' = (vdata d, set_edge (adj d) u v None)"
proof -
  have "u < length (edges d)" "v < length (edges d)"
    using assms by (simp_all add: live_def zx_ok_length)
  then show ?thesis
    using unlink_ok [OF assms] assms(4)
    by (simp add: removeEdge_def removeHalfEdge_def modify_incident_def vec_simps)
qed

lemma cancelEdge_ok:
  assumes "zx_ok d" "live d u" "live d v" "u \<noteq> v"
    and "find_if (\<lambda>e. fst e = v) (edges d ! u) = Some i"
  shows "\<exists>d'. cancelEdge u v i d = Some d' \<and> zx_ok d' \<and> touches {u, v} d d' \<and>
    graph_of d' = (vdata d, set_edge (adj d) u v None)"
proof -
  note f = find_edge_Some [OF assms(1,2,5)]
  have "u < length (edges d)" "v < length (edges d)"
    using assms by (simp_all add: live_def zx_ok_length)
  then show ?thesis
    using unlink_ok [OF assms(1-4)] f assms(4)
      distinct_erase [OF zx_ok_distinct [OF assms(1,2)], of i v]
    by (simp add: cancelEdge_def eraseEdgeAt_def removeHalfEdge_def modify_incident_def vec_simps)
qed


lemma map_of_update_nth:
  assumes "distinct (map fst es)" "i < length es" "fst (es ! i) = k"
  shows "map_of (es[i := (k, x)]) = (map_of es)(k := Some x)"
proof -
  have fsts: "map fst (es[i := (k, x)]) = map fst es"
    using assms(2,3) by (simp add: map_update list_update_same_conv)
  have "map_of (es[i := (k, x)]) a = ((map_of es)(k := Some x)) a" for a
  proof (cases "a = k")
    case True
    then show ?thesis
      using assms fsts by (auto intro!: map_of_is_SomeI simp: set_update_memI)
  next
    case False
    have "map_of (es[i := (k, x)]) a = Some y \<longleftrightarrow> map_of es a = Some y" for y
    proof -
      have "(a, y) \<in> set (es[i := (k, x)]) \<longleftrightarrow> (a, y) \<in> set es"
        using assms(2,3) False by (auto simp: in_set_conv_nth nth_list_update)
          (metis fst_conv)+
      then show ?thesis using assms(1) fsts by (simp add: map_of_eq_Some_iff)
    qed
    then have "map_of (es[i := (k, x)]) a = map_of es a"
      by (cases "map_of es a"; cases "map_of (es[i := (k, x)]) a") auto
    with False show ?thesis by simp
  qed
  then show ?thesis by (rule ext)
qed

definition toggle_type :: "EdgeType \<Rightarrow> EdgeType" where
  "toggle_type t = (if t = Simple then Hadamard else Simple)"

lemma toggle_type_simps [simp]:
  "toggle_type Simple = Hadamard" "toggle_type Hadamard = Simple"
  "toggle_type (toggle_type t) = t"
  by (simp_all add: toggle_type_def, metis EdgeType.exhaust)

lemma toggle_eq: "toggle e = (fst e, toggle_type (snd e))"
  by (simp add: toggle_def toggle_type_def)

lemma toggle_type_neq: "s \<noteq> t \<longleftrightarrow> s = toggle_type t"
  by (cases s; cases t) auto

text \<open>Both directions of an edge, with its type replaced.\<close>

lemma retype_pair_ok:
  fixes ty :: EdgeType
  assumes ok: "zx_ok d" and lu: "live d u" and lv: "live d v" and neq: "u \<noteq> v"
    and i: "i < length (edges d ! u)" "fst (edges d ! u ! i) = v"
    and j: "j < length (edges d ! v)" "fst (edges d ! v ! j) = u"
  defines "d' \<equiv> d\<lparr>edges := (edges d)[u := (edges d ! u)[i := (v, ty)],
                                        v := (edges d ! v)[j := (u, ty)]]\<rparr>"
  shows "zx_ok d' \<and> touches {u, v} d d' \<and> graph_of d' = (vdata d, set_edge (adj d) u v (Some ty))"
proof -
  have lens: "u < length (edges d)" "v < length (edges d)"
    using lu lv ok by (simp_all add: live_def zx_ok_length)
  have "(v, snd (edges d ! u ! i)) \<in> set (edges d ! u)" using i by (metis nth_mem prod.collapse)
  then have some: "adj d u v \<noteq> None" using zx_ok_incident [OF ok lu] by simp
  have fsts: "map fst ((edges d ! u)[i := (v, ty)]) = map fst (edges d ! u)"
    "map fst ((edges d ! v)[j := (u, ty)]) = map fst (edges d ! v)"
    using i j by (simp_all add: map_update list_update_same_conv)
  have "zx_ok d' \<and> adj d' = set_edge (adj d) u v (Some ty) \<and> vdata d' = vdata d"
    by (rule zx_ok_set_edge [OF ok lu lv neq])
      (use lens neq some fsts i j zx_ok_distinct [OF ok lu] zx_ok_distinct [OF ok lv] in
        \<open>simp_all add: d'_def map_of_update_nth\<close>)
  then show ?thesis
    by (auto simp: graph_of_def touches_def same_frame_def d'_def)
qed

lemma retypeEdge_ok:
  assumes ok: "zx_ok d" and lu: "live d u" and lv: "live d v" and neq: "u \<noteq> v"
    and f: "find_if (\<lambda>e. fst e = v) (edges d ! u) = Some i"
    and t: "adj d u v = Some (toggle_type ty)"
  shows "\<exists>d'. retypeEdge ty u v i d = Some d' \<and> zx_ok d' \<and> touches {u, v} d d' \<and>
    graph_of d' = (upd_data (add_phase pi_expr) u (vdata d), set_edge (adj d) u v (Some ty))"
proof -
  note fi = find_edge_Some [OF ok lu f]
  have lens: "u < length (edges d)" "v < length (edges d)"
    using lu lv ok by (simp_all add: live_def zx_ok_length)
  have tv: "adj d v u = Some (toggle_type ty)" using t zx_ok_sym [OF ok, of u v] by simp
  then obtain j where j: "find_if (\<lambda>e. fst e = u) (edges d ! v) = Some j"
    using find_edge_None [OF ok lv, of u] by auto
  note fj = find_edge_Some [OF ok lv j]
  let ?d1 = "d\<lparr>edges := (edges d)[u := (edges d ! u)[i := (v, ty)]]\<rparr>"
  let ?d2 = "d\<lparr>edges := (edges d)[u := (edges d ! u)[i := (v, ty)], v := (edges d ! v)[j := (u, ty)]]\<rparr>"
  have s1: "modifyEdgeAt (\<lambda>e. (fst e, ty)) u i d = Some ?d1"
    using lens fi by (simp add: modifyEdgeAt_def vec_simps)
  have s2: "togglePtr v u ?d1 = Some ?d2"
    using lens neq j fj tv by (simp add: togglePtr_def getEdgePtr_def modifyEdgeAt_def vec_simps toggle_eq)
  have r: "zx_ok ?d2 \<and> touches {u, v} d ?d2 \<and> graph_of ?d2 = (vdata d, set_edge (adj d) u v (Some ty))"
    by (rule retype_pair_ok [OF ok lu lv neq]) (use fi fj in simp_all)
  then have "live ?d2 u" using lu by (simp add: live_vdata graph_of_def)
  then obtain d3 where d3: "addPhase u pi_expr ?d2 = Some d3" "zx_ok d3" "edges d3 = edges ?d2"
    "same_frame ?d2 d3" "graph_of d3 = (upd_data (add_phase pi_expr) u (vdata ?d2), adj ?d2)"
    using addPhase_ok [of ?d2 u pi_expr] r by blast
  have "length (vertices d3) = length (vertices d)"
    using d3(2,3) r zx_ok_length [of d3] zx_ok_length [of ?d2] by simp
  with d3 r s1 s2 show ?thesis
    by (auto simp: retypeEdge_def touches_def same_frame_def graph_of_def)
qed

section \<open>Parallel-aware insertion\<close>

text \<open>
  What happens to an existing edge of type \<open>s\<close> when one of type \<open>t\<close> is added parallel to it, for
  ends of the same colour or not: the resulting edge, and whether the first end gains a phase
  of pi.
\<close>

fun parallel :: "bool \<Rightarrow> EdgeType \<Rightarrow> EdgeType \<Rightarrow> EdgeType option \<times> bool" where
  "parallel True Hadamard Hadamard = (None, False)"
| "parallel True Hadamard Simple = (Some Simple, True)"
| "parallel True Simple Hadamard = (Some Simple, True)"
| "parallel True Simple Simple = (Some Simple, False)"
| "parallel False Simple Simple = (None, False)"
| "parallel False Hadamard Simple = (Some Hadamard, True)"
| "parallel False Simple Hadamard = (Some Hadamard, True)"
| "parallel False Hadamard Hadamard = (Some Hadamard, False)"

definition is_boundary :: "(Vertex \<Rightarrow> VertexData option) \<Rightarrow> Vertex \<Rightarrow> bool" where
  "is_boundary D v \<longleftrightarrow> (case D v of Some x \<Rightarrow> vtype x = Boundary | None \<Rightarrow> False)"

definition same_colour :: "(Vertex \<Rightarrow> VertexData option) \<Rightarrow> Vertex \<Rightarrow> Vertex \<Rightarrow> bool" where
  "same_colour D u v \<longleftrightarrow> vtype (the (D u)) = vtype (the (D v))"

definition parallel_step :: "Vertex \<Rightarrow> Vertex \<Rightarrow> EdgeType \<Rightarrow> agraph \<Rightarrow> agraph" where
  "parallel_step u v t g =
     (let D = fst g; G = snd g; flip = upd_data (add_phase pi_expr) u D in
      if u = v then (if \<not> is_boundary D u \<and> t = Hadamard then flip else D, G)
      else case G u v of
        None \<Rightarrow> (D, set_edge G u v (Some t))
      | Some s \<Rightarrow>
          if is_boundary D u \<or> is_boundary D v then (D, G)
          else case parallel (same_colour D u v) s t of
            (x, f) \<Rightarrow> (if f then flip else D, set_edge G u v x))"

lemma set_edge_same: "G u v = Some s \<Longrightarrow> G v u = Some s \<Longrightarrow> set_edge G u v (Some s) = G"
  by (auto simp: set_edge_def fun_eq_iff)

lemma is_boundary_vdata: "live d v \<Longrightarrow> is_boundary (vdata d) v \<longleftrightarrow> vtype (the (vdata d v)) = Boundary"
  by (auto simp: is_boundary_def live_vdata)


lemma addEdgeParallelAware_ok:
  assumes ok: "zx_ok d" and lu: "live d u" and lv: "live d v"
  shows "\<exists>d'. addEdgeParallelAware u v t d = Some d' \<and> zx_ok d' \<and> touches {u, v} d d' \<and>
    graph_of d' = parallel_step u v t (graph_of d)"
proof (cases "u = v")
  case True
  show ?thesis
  proof (cases "vtype (the (vdata d u)) \<noteq> Boundary \<and> t = Hadamard")
    case flip: True
    obtain d' where d': "addPhase u pi_expr d = Some d'" "zx_ok d'" "edges d' = edges d"
      "same_frame d d'" "graph_of d' = (upd_data (add_phase pi_expr) u (vdata d), adj d)"
      using addPhase_ok [OF ok lu] by blast
    have "length (vertices d') = length (vertices d)"
      using d'(2,3) ok by (metis zx_ok_length)
    then show ?thesis
      using True flip d' lu
      by (simp add: addEdgeParallelAware_def diag_simps parallel_step_def graph_of_def
          is_boundary_vdata touches_def)
  next
    case False
    then show ?thesis
      using True lu ok
      by (auto simp: addEdgeParallelAware_def diag_simps parallel_step_def graph_of_def
          is_boundary_vdata)
  qed
next
  case neq: False
  have ptr: "getEdgePtr d u v = Some (find_if (\<lambda>e. fst e = v) (edges d ! u))"
    by (rule getEdgePtr_live [OF ok lu])
  show ?thesis
  proof (cases "find_if (\<lambda>e. fst e = v) (edges d ! u)")
    case None
    then have "adj d u v = None" using find_edge_None [OF ok lu] by simp
    then show ?thesis
      using addEdge_ok [OF ok lu lv neq, of t] neq ptr None
      by (simp add: addEdgeParallelAware_def parallel_step_def graph_of_def)
  next
    case (Some i)
    note f = find_edge_Some [OF ok lu Some]
    then obtain s where s: "adj d u v = Some s" by auto
    have lens: "u < length (edges d)" using lu ok by (simp add: live_def zx_ok_length)
    let ?bu = "vtype (the (vdata d u)) = Boundary" and ?bv = "vtype (the (vdata d v)) = Boundary"
    let ?same = "vtype (the (vdata d u)) = vtype (the (vdata d v))"
    have expand: "addEdgeParallelAware u v t d =
        (if ?bu \<or> ?bv then Some d
         else case parallel ?same s t of (x, fl) \<Rightarrow>
           (if x = None then cancelEdge u v i d
            else if x \<noteq> Some s then retypeEdge (the x) u v i d
            else if fl then addPhase u pi_expr d else Some d))"
      using neq ptr Some lu lv lens f s
      by (cases s; cases t; cases ?same) (simp_all add: addEdgeParallelAware_def diag_simps vec_simps)
    have pg: "parallel_step u v t (graph_of d) =
        (if ?bu \<or> ?bv then (vdata d, adj d)
         else case parallel ?same s t of (x, fl) \<Rightarrow>
           (if fl then upd_data (add_phase pi_expr) u (vdata d) else vdata d,
            set_edge (adj d) u v x))"
      using neq s lu lv by (simp add: parallel_step_def graph_of_def is_boundary_vdata same_colour_def Let_def)
    have keep: "set_edge (adj d) u v (Some s) = adj d"
      using s zx_ok_sym [OF ok, of u v] by (simp add: set_edge_same)
    obtain dp where dp: "addPhase u pi_expr d = Some dp" "zx_ok dp" "edges dp = edges d"
      "same_frame d dp" "graph_of dp = (upd_data (add_phase pi_expr) u (vdata d), adj d)"
      using addPhase_ok [OF ok lu] by blast
    have tp: "touches {u, v} d dp"
      using dp ok by (simp add: touches_def) (metis zx_ok_length)
    obtain dc where dc: "cancelEdge u v i d = Some dc" "zx_ok dc" "touches {u, v} d dc"
      "graph_of dc = (vdata d, set_edge (adj d) u v None)"
      using cancelEdge_ok [OF ok lu lv neq Some] by blast
    have rt: "\<exists>d'. retypeEdge y u v i d = Some d' \<and> zx_ok d' \<and> touches {u, v} d d' \<and>
        graph_of d' = (upd_data (add_phase pi_expr) u (vdata d), set_edge (adj d) u v (Some y))"
      if "y = toggle_type s" for y
      using retypeEdge_ok [OF ok lu lv neq Some, of y] s that by simp
    show ?thesis
    proof (cases "?bu \<or> ?bv")
      case True
      then show ?thesis using expand pg ok by (auto simp: graph_of_def)
    next
      case False
      then show ?thesis
        using expand pg keep dp tp dc rt [of "toggle_type s"] ok
        by (cases ?same; cases s; cases t) (simp_all add: graph_of_def)
    qed
  qed
qed


section \<open>Adding a vertex\<close>

text \<open>
  \<open>addVertex\<close> returns a vertex that was not live, without edges.  When no slot is free the new
  index is \<open>nvertices - 1\<close>, which is the old length of the vector because of the invariant; this
  needs the length to fit into a \<open>size_t\<close>.
\<close>

lemma verts_bound: "verts d \<subseteq> {..<length (vertices d)}"
  by (auto simp: verts_def live_def)

lemma zx_ok_deleted: "zx_ok d \<Longrightarrow> set (deleted d) = {..<length (vertices d)} - verts d"
  by (simp add: zx_ok_def)

lemma verts_no_deleted: "zx_ok d \<Longrightarrow> deleted d = [] \<Longrightarrow> verts d = {..<length (vertices d)}"
  using zx_ok_deleted [of d] verts_bound [of d] by auto

lemma zx_ok_nvertices: "zx_ok d \<Longrightarrow> nvertices d = of_nat (card (verts d))"
  by (simp add: zx_ok_def)

lemma zx_ok_nedges: "zx_ok d \<Longrightarrow> nedges d = of_nat (card (edge_set d))"
  by (simp add: zx_ok_def)

lemma nvertices_no_deleted:
  "zx_ok d \<Longrightarrow> deleted d = [] \<Longrightarrow> nvertices d = of_nat (length (vertices d))"
  by (simp add: zx_ok_nvertices verts_no_deleted)

lemma verts_insert:
  assumes "\<And>w. w \<noteq> v \<Longrightarrow> live d' w = live d w" "live d' v"
  shows "verts d' = insert v (verts d)"
proof -
  have "live d' w \<longleftrightarrow> w = v \<or> live d w" for w
    using assms(1) [of w] assms(2) by (cases "w = v") auto
  then show ?thesis by (auto simp: verts_def)
qed

text \<open>Filling a dead slot, whether reused or appended.\<close>

lemma zx_ok_new_vertex:
  assumes ok: "zx_ok d" and dead: "\<not> live d v"
    and lv: "live d' v" and live: "\<And>w. w \<noteq> v \<Longrightarrow> live d' w = live d w"
    and es: "\<And>w. live d w \<Longrightarrow> edges d' ! w = edges d ! w" and ev: "edges d' ! v = []"
    and len: "length (edges d') = length (vertices d')"
    and del: "distinct (deleted d')" "set (deleted d') = {..<length (vertices d')} - verts d'"
    and cnt: "nvertices d' = nvertices d + 1" "nedges d' = nedges d"
  shows "zx_ok d' \<and> adj d' = adj d"
proof -
  have ad: "adj d' a b = adj d a b" for a b
    using ev es live [of a] lv dead by (cases "a = v") (simp_all add: adj_def)
  then have ad': "adj d' = adj d" by (simp add: fun_eq_iff)
  have sym: "symmetric_adj d'"
    unfolding symmetric_adj_def ad
  proof (intro allI impI)
    fix a b t
    assume "adj d a b = Some t"
    from zx_ok_adj [OF ok this] show "a \<noteq> b \<and> live d' b \<and> adj d b a = Some t"
      using live [of b] lv by (cases "b = v") auto
  qed
  have vs: "verts d' = insert v (verts d)" by (rule verts_insert [OF live lv])
  have "v \<notin> verts d" using dead by (simp add: verts_def)
  then have "card (verts d') = Suc (card (verts d))" by (simp add: vs)
  then have nv: "nvertices d' = of_nat (card (verts d'))"
    using cnt(1) ok by (simp add: zx_ok_def)
  have ne: "nedges d' = of_nat (card (edge_set d'))"
    using cnt(2) ok by (simp add: zx_ok_def edge_set_def ad')
  have "distinct (map fst (edges d' ! w))" if "live d' w" for w
    using that live [of w] es [of w] ev zx_ok_distinct [OF ok, of w] by (cases "w = v") auto
  with sym nv ne len del have "zx_ok d'" by (simp add: zx_ok_def)
  with ad' show ?thesis by simp
qed

lemma addVertex_ok:
  assumes ok: "zx_ok d" and room: "length (vertices d) < 2 ^ 64"
  shows "\<exists>v d'. addVertex x d = Some (v, d') \<and> zx_ok d' \<and> \<not> live d v \<and> live d' v \<and>
    vdata d' = (vdata d)(v := Some x) \<and> adj d' = adj d \<and> same_frame d d' \<and>
    (\<forall>w. live d w \<longrightarrow> edges d' ! w = edges d ! w) \<and> edges d' ! v = [] \<and>
    length (vertices d') \<le> Suc (length (vertices d))"
proof (cases "deleted d = []")
  case True
  let ?v = "length (vertices d)"
  define e where
    "e = d\<lparr>nvertices := nvertices d + 1, vertices := vertices d @ [Some x], edges := edges d @ [[]]\<rparr>"
  have e: "nvertices e = nvertices d + 1" "vertices e = vertices d @ [Some x]"
    "edges e = edges d @ [[]]" "nedges e = nedges d" "deleted e = []" "same_frame d e"
    using True by (simp_all add: e_def same_frame_def)
  have "unat (nvertices d + 1 - 1) = ?v"
    using nvertices_no_deleted [OF ok True] room by (simp add: unat_size_t)
  then have eq: "addVertex x d = Some (?v, e)"
    using True by (simp add: addVertex_def e_def)
  have dead: "\<not> live d ?v" and lv: "live e ?v" by (simp_all add: live_def e)
  have lw: "live e w = live d w" if "w \<noteq> ?v" for w
    using that by (auto simp: live_def nth_append e)
  have "verts e = insert ?v (verts d)" by (rule verts_insert [OF lw lv])
  then have vs: "verts e = {..<Suc ?v}" using verts_no_deleted [OF ok True] by (simp add: lessThan_Suc)
  have len: "length (edges d) = ?v" by (rule zx_ok_length [OF ok])
  have ew: "edges e ! w = edges d ! w" if "live d w" for w
    using live_length [OF that] len by (simp add: nth_append e)
  have ev: "edges e ! ?v = []" using len by (simp add: nth_append e)
  have "zx_ok e \<and> adj e = adj d"
    by (rule zx_ok_new_vertex [OF ok dead lv lw ew ev]) (simp_all add: e vs len)
  moreover have "vdata e = (vdata d)(?v := Some x)"
    by (auto simp: vdata_def fun_eq_iff nth_append e)
  moreover have "length (vertices e) \<le> Suc (length (vertices d))" by (simp add: e)
  ultimately show ?thesis
    using eq dead lv ew ev e(6) by (intro exI [of _ ?v] exI [of _ e]) simp
next
  case False
  let ?v = "last (deleted d)"
  define e where
    "e = d\<lparr>nvertices := nvertices d + 1, deleted := butlast (deleted d),
       vertices := (vertices d)[?v := Some x], edges := (edges d)[?v := []]\<rparr>"
  have e: "nvertices e = nvertices d + 1" "vertices e = (vertices d)[?v := Some x]"
    "edges e = (edges d)[?v := []]" "nedges e = nedges d" "deleted e = butlast (deleted d)"
    "same_frame d e"
    by (simp_all add: e_def same_frame_def)
  have len: "length (edges d) = length (vertices d)" by (rule zx_ok_length [OF ok])
  have "?v \<in> set (deleted d)" using False by simp
  then have v: "?v < length (vertices d)" and dead: "\<not> live d ?v"
    using zx_ok_deleted [OF ok] by (simp_all add: verts_def)
  have eq: "addVertex x d = Some (?v, e)"
    using False v by (simp add: addVertex_def vec_simps len Let_def e_def)
  have lv: "live e ?v" using v by (simp add: live_def e)
  have lw: "live e w = live d w" if "w \<noteq> ?v" for w
    using that by (auto simp: live_def e)
  have vs: "verts e = insert ?v (verts d)" by (rule verts_insert [OF lw lv])
  have dist: "distinct (butlast (deleted d) @ [?v])" using ok False by (simp add: zx_ok_def)
  have "set (deleted d) = insert ?v (set (butlast (deleted d)))"
    using False by (metis append_butlast_last_id list.simps(15) rotate1.simps(2) set_rotate1)
  then have sd: "set (butlast (deleted d)) = {..<length (vertices d)} - insert ?v (verts d)"
    using dist zx_ok_deleted [OF ok] by auto
  have ew: "edges e ! w = edges d ! w" if "live d w" for w
    using that dead by (cases "w = ?v") (simp_all add: e)
  have ev: "edges e ! ?v = []" using v len by (simp add: e)
  have "zx_ok e \<and> adj e = adj d"
    by (rule zx_ok_new_vertex [OF ok dead lv lw ew ev]) (use dist in \<open>simp_all add: e vs sd len\<close>)
  moreover have "vdata e = (vdata d)(?v := Some x)"
    using v by (auto simp: vdata_def fun_eq_iff nth_list_update e)
  moreover have "length (vertices e) \<le> Suc (length (vertices d))" by (simp add: e)
  ultimately show ?thesis
    using eq dead lv ew ev e(6) by (intro exI [of _ ?v] exI [of _ e]) simp
qed

section \<open>Removing a vertex\<close>

text \<open>The loop over the neighbours of the removed vertex, in closed form.\<close>

definition drop_half :: "Vertex \<Rightarrow> Vertex list \<Rightarrow> Edge list list \<Rightarrow> Edge list list" where
  "drop_half r us E = fold (\<lambda>u E. E[u := filter (\<lambda>e. fst e \<noteq> r) (E ! u)]) us E"

lemma length_drop_half [simp]: "length (drop_half r us E) = length E"
  by (induction us arbitrary: E) (simp_all add: drop_half_def)

lemma nth_drop_half:
  "\<forall>u \<in> set us. u < length E \<Longrightarrow>
     drop_half r us E ! w = (if w \<in> set us then filter (\<lambda>e. fst e \<noteq> r) (E ! w) else E ! w)"
proof (induction us arbitrary: E)
  case Nil
  then show ?case by (simp add: drop_half_def)
next
  case (Cons u us)
  let ?E = "E[u := filter (\<lambda>e. fst e \<noteq> r) (E ! u)]"
  have "drop_half r us ?E ! w = (if w \<in> set us then filter (\<lambda>e. fst e \<noteq> r) (?E ! w) else ?E ! w)"
    using Cons by simp
  moreover have "drop_half r (u # us) E = drop_half r us ?E" by (simp add: drop_half_def)
  ultimately show ?case using Cons.prems by (cases "w = u") auto
qed

lemma remove_loop:
  assumes "\<forall>u \<in> set (map fst us). u < length (edges s)" "r \<notin> set (map fst us)"
    and "r < length (edges s)" "edges s ! r = es"
  shows "fold_opt (\<lambda>e s. if incidentEdges s r = Some es then detach r e s else None) us s
    = Some (s\<lparr>edges := drop_half r (map fst us) (edges s), nedges := nedges s - of_nat (length us)\<rparr>)"
  using assms
proof (induction us arbitrary: s)
  case Nil
  then show ?case by (simp add: drop_half_def)
next
  case (Cons e us)
  let ?E = "(edges s)[fst e := filter (\<lambda>e. fst e \<noteq> r) (edges s ! fst e)]"
  let ?s = "s\<lparr>edges := ?E, nedges := nedges s - 1\<rparr>"
  have step: "removeHalfEdge (fst e) r s = Some (s\<lparr>edges := ?E\<rparr>)"
    using Cons.prems by (simp add: removeHalfEdge_def modify_incident_def vec_simps)
  have inc: "incidentEdges s r = Some es"
    using Cons.prems by (simp add: incidentEdges_def vec_simps)
  have "edges ?s ! r = es" using Cons.prems by simp
  then show ?case
    using Cons.IH [of ?s] Cons.prems step inc
    by (simp add: detach_def drop_half_def algebra_simps)
qed

text \<open>The edges at one vertex, as pairs of the edge set.\<close>

lemma mem_star:
  fixes r :: nat
  shows "(a, b) \<in> (\<lambda>w. (min r w, max r w)) ` N \<longleftrightarrow>
    (a = r \<and> b \<in> N \<and> r \<le> b) \<or> (b = r \<and> a \<in> N \<and> a \<le> r)"
proof
  assume "(a, b) \<in> (\<lambda>w. (min r w, max r w)) ` N"
  then obtain w where "w \<in> N" "a = min r w" "b = max r w" by auto
  then show "(a = r \<and> b \<in> N \<and> r \<le> b) \<or> (b = r \<and> a \<in> N \<and> a \<le> r)"
    by (cases "r \<le> w") auto
next
  assume "(a = r \<and> b \<in> N \<and> r \<le> b) \<or> (b = r \<and> a \<in> N \<and> a \<le> r)"
  then show "(a, b) \<in> (\<lambda>w. (min r w, max r w)) ` N"
  proof (elim disjE conjE)
    assume "a = r" "b \<in> N" "r \<le> b"
    then show ?thesis by (intro image_eqI [of _ _ b]) auto
  next
    assume "b = r" "a \<in> N" "a \<le> r"
    then show ?thesis by (intro image_eqI [of _ _ a]) auto
  qed
qed

lemma card_edge_set_remove:
  assumes ok: "zx_ok d" and lr: "live d r"
    and ad: "\<And>u v. adj d' u v = (if u = r \<or> v = r then None else adj d u v)"
  shows "card (edge_set d) = card (edge_set d') + length (edges d ! r)"
proof -
  let ?f = "\<lambda>w. (min r w, max r w)"
  let ?N = "fst ` set (edges d ! r)"
  have N: "w \<in> ?N \<longleftrightarrow> adj d r w \<noteq> None" for w
    using zx_ok_incident [OF ok lr, of w] by force
  have "edge_set d = edge_set d' \<union> ?f ` ?N"
  proof (rule set_eqI, clarify)
    fix a b
    note img = mem_star [of a b r ?N]
    have irr: "r \<notin> ?N" using N zx_ok_irrefl [OF ok, of r] by simp
    have le: "x \<in> ?N \<Longrightarrow> r \<le> x \<longleftrightarrow> r < x" "x \<in> ?N \<Longrightarrow> x \<le> r \<longleftrightarrow> x < r" for x
      using irr by (auto simp: le_less)
    have ra: "adj d a r \<noteq> None \<longleftrightarrow> a \<in> ?N" "adj d r b \<noteq> None \<longleftrightarrow> b \<in> ?N"
      using N zx_ok_sym [OF ok, of a r] by simp_all
    have e1: "(a, b) \<in> edge_set d \<longleftrightarrow> a < b \<and> adj d a b \<noteq> None"
      and e2: "(a, b) \<in> edge_set d' \<longleftrightarrow> a < b \<and> a \<noteq> r \<and> b \<noteq> r \<and> adj d a b \<noteq> None"
      by (simp_all add: edge_set_def ad)
    show "(a, b) \<in> edge_set d \<longleftrightarrow> (a, b) \<in> edge_set d' \<union> ?f ` ?N"
      unfolding Un_iff e1 e2 img using le ra by (cases "a = r"; cases "b = r") auto
  qed
  moreover have "edge_set d' \<inter> ?f ` ?N = {}"
    by (auto simp: edge_set_def ad min_def max_def split: if_splits)
  moreover have "finite (edge_set d')"
    by (rule finite_subset [OF _ finite_edge_set [OF ok]]) (auto simp: edge_set_def ad split: if_splits)
  moreover have "inj_on ?f ?N"
    by (auto simp: inj_on_def min_def max_def split: if_splits)
  moreover have "card ?N = length (edges d ! r)"
    using distinct_card [OF zx_ok_distinct [OF ok lr]] by simp
  ultimately show ?thesis by (simp add: card_Un_disjoint card_image)
qed

lemma removeVertex_ok:
  assumes ok: "zx_ok d" and lr: "live d r"
  shows "\<exists>d'. removeVertex r d = Some d' \<and> zx_ok d' \<and> same_frame d d' \<and>
    vdata d' = (vdata d)(r := None) \<and>
    adj d' = (\<lambda>u v. if u = r \<or> v = r then None else adj d u v) \<and>
    length (vertices d') = length (vertices d) \<and>
    (\<forall>w. w \<noteq> r \<longrightarrow> adj d r w = None \<longrightarrow> edges d' ! w = edges d ! w)"
proof -
  let ?es = "edges d ! r"
  let ?E = "drop_half r (map fst ?es) (edges d)"
  let ?base = "d\<lparr>deleted := deleted d @ [r], vertices := (vertices d)[r := None], nvertices := nvertices d - 1\<rparr>"
  define e where "e = ?base\<lparr>edges := ?E, nedges := nedges d - of_nat (length ?es)\<rparr>"
  have e_simps: "edges e = ?E" "vertices e = (vertices d)[r := None]" "deleted e = deleted d @ [r]"
    "nvertices e = nvertices d - 1" "nedges e = nedges d - of_nat (length ?es)" "same_frame d e"
    by (simp_all add: e_def same_frame_def)
  have r: "r < length (vertices d)" "r < length (edges d)"
    using lr ok by (simp_all add: live_def zx_ok_length)
  have nb: "live d u \<and> u \<noteq> r" if "u \<in> fst ` set ?es" for u
    using zx_ok_incident_live [OF ok lr] that by auto
  then have bound: "\<forall>u \<in> set (map fst ?es). u < length (edges d)"
    using ok by (auto simp: live_def zx_ok_length)
  have "r \<notin> set (map fst ?es)" using nb by auto
  with bound r have loop: "fold_opt (\<lambda>e s. if incidentEdges s r = Some ?es then detach r e s else None) ?es ?base
      = Some (?base\<lparr>edges := drop_half r (map fst ?es) (edges ?base),
                  nedges := nedges ?base - of_nat (length ?es)\<rparr>)"
    by (intro remove_loop) simp_all
  have inc: "incidentEdges ?base r = Some ?es"
    using r by (simp add: incidentEdges_def vec_simps)
  have "removeVertex r d = for_incident r (detach r) ?base"
    using r by (simp add: removeVertex_def vec_simps)
  also have "\<dots> = Some e"
    unfolding for_incident_def inc bind.bind_lunit loop by (simp add: e_def)
  finally have eq: "removeVertex r d = Some e" .
  have lw: "live e w \<longleftrightarrow> w \<noteq> r \<and> live d w" for w
    using r by (auto simp: live_def nth_list_update e_simps)
  have mem: "w \<in> fst ` set ?es \<longleftrightarrow> adj d r w \<noteq> None" for w
    using zx_ok_incident [OF ok lr, of w] by force
  have Ew: "?E ! w = filter (\<lambda>e. fst e \<noteq> r) (edges d ! w)" if "live d w" for w
  proof (cases "w \<in> fst ` set ?es")
    case True
    then show ?thesis using nth_drop_half [OF bound, of r w] by simp
  next
    case False
    then have "adj d w r = None" using mem zx_ok_sym [OF ok, of r w] by simp
    then have "filter (\<lambda>e. fst e \<noteq> r) (edges d ! w) = edges d ! w"
      using that by (auto simp: adj_def map_of_eq_None_iff filter_id_conv)
    then show ?thesis using nth_drop_half [OF bound, of r w] False by simp
  qed
  have ad: "adj e u v = (if u = r \<or> v = r then None else adj d u v)" for u v
    using lw [of u] Ew [of u] by (auto simp: adj_def map_of_filter_key e_simps)
  have vd: "vdata e = (vdata d)(r := None)"
    using r by (auto simp: vdata_def fun_eq_iff nth_list_update e_simps)
  have sym: "symmetric_adj e"
    unfolding symmetric_adj_def ad
  proof (intro allI impI)
    fix a b t
    assume *: "(if a = r \<or> b = r then None else adj d a b) = Some t"
    then have "adj d a b = Some t" "a \<noteq> r" "b \<noteq> r" by (auto split: if_splits)
    with zx_ok_adj [OF ok this(1)] show
      "a \<noteq> b \<and> live e b \<and> (if b = r \<or> a = r then None else adj d b a) = Some t"
      using lw [of b] by simp
  qed
  have dist: "distinct (map fst (?E ! w))" if "live d w" for w
    using Ew [OF that] zx_ok_distinct [OF ok that] by (simp add: distinct_map_filter_fst)
  have vs: "verts e = verts d - {r}" using lw by (auto simp: verts_def)
  have rin: "r \<in> verts d" using lr by (simp add: verts_def)
  have "card (verts d) = Suc (card (verts e))"
    using card.remove [OF finite_verts rin] vs by simp
  then have nv: "nvertices e = of_nat (card (verts e))"
    using ok by (simp add: zx_ok_def e_simps)
  have "card (edge_set d) = card (edge_set e) + length ?es"
    by (rule card_edge_set_remove [OF ok lr ad])
  then have ne: "nedges e = of_nat (card (edge_set e))"
    using ok by (simp add: zx_ok_def e_simps)
  have "r \<notin> set (deleted d)" "distinct (deleted d)"
    "set (deleted d) = {..<length (vertices d)} - verts d"
    using ok rin by (auto simp: zx_ok_def)
  then have del: "distinct (deleted e)" "set (deleted e) = {..<length (vertices d)} - (verts d - {r})"
    using r rin by (auto simp: e_simps)
  have "zx_ok e"
    unfolding zx_ok_def using sym dist lw del vs nv ne ok by (simp add: zx_ok_length e_simps)
  moreover have "?E ! w = edges d ! w" if "w \<noteq> r" "adj d r w = None" for w
    using nth_drop_half [OF bound, of r w] mem [of w] that by simp
  ultimately show ?thesis
    using eq vd ad e_simps by (auto simp: fun_eq_iff)
qed

end
