(* ===== verification/ZXRules.thy ===== *)
theory ZXRules
  imports ZXInvariant
begin

text \<open>
  The rewrite rules of \<open>src/zx/Rules.cpp\<close>, each with its applicability check, in the order of
  the file.  \<open>incidentEdges\<close> returns a reference, so every loop over it goes through
  \<open>for_incident\<close>, which fails as soon as the body touches the vector that is being traversed;
  where the code copies the vector first, the model folds over the copy.
\<close>

section \<open>Helpers of the file\<close>

definition isPauli_at :: "ZXDiagram \<Rightarrow> Vertex \<Rightarrow> bool option" where
  "isPauli_at d v = do { p \<leftarrow> diag_phase d v; Some (isPauli p) }"

definition isInterior :: "ZXDiagram \<Rightarrow> Vertex \<Rightarrow> bool option" where
  "isInterior d v =
     do { es \<leftarrow> incidentEdges d v;
          all_opt (\<lambda>e. do {
            n \<leftarrow> degree d (fst e);
            if 1 < n then do { t \<leftarrow> diag_type d (fst e); Some (t = Z) } else Some False }) es }"

definition extractGadget :: "Vertex \<Rightarrow> ZXDiagram \<Rightarrow> ZXDiagram option" where
  "extractGadget v d =
     do { vData \<leftarrow> getVData d v;
          case vData of None \<Rightarrow> Some d
          | Some x \<Rightarrow> do {
              (phaseVert, d1) \<leftarrow> addVertexAt (qubit x) (-2) (phase x) Z d;
              (idVert, d2) \<leftarrow> addVertexAt (qubit x) (-1) expr_empty Z d1;
              d3 \<leftarrow> setPhase v zero_expr d2;
              d4 \<leftarrow> addHadamardEdge v idVert d3;
              addHadamardEdge idVert phaseVert d4 } }"

definition extractPauliGadget :: "Vertex \<Rightarrow> ZXDiagram \<Rightarrow> ZXDiagram option" where
  "extractPauliGadget v d =
     do { p \<leftarrow> diag_phase d v; if isPauli p then Some d else extractGadget v d }"

definition ensureInterior :: "Vertex \<Rightarrow> ZXDiagram \<Rightarrow> ZXDiagram option" where
  "ensureInterior v d =
     do { es \<leftarrow> incidentEdges d v;
          vData \<leftarrow> getVData d v;
          case vData of None \<Rightarrow> Some d
          | Some x \<Rightarrow>
              fold_opt (\<lambda>(to, ty) s. do {
                b \<leftarrow> isBoundaryVertex s to;
                if \<not> b then Some s
                else do {
                  (newV, s1) \<leftarrow> addVertexAt (qubit x) (col x) zero_expr Z s;
                  s2 \<leftarrow> addEdge v newV Hadamard s1;
                  s3 \<leftarrow> addEdge to newV (if ty = Simple then Hadamard else Simple) s2;
                  removeEdge v to s3 } }) es d }"

definition ensurePauliVertex :: "Vertex \<Rightarrow> ZXDiagram \<Rightarrow> ZXDiagram option" where
  "ensurePauliVertex v d = do { d1 \<leftarrow> extractPauliGadget v d; ensureInterior v d1 }"

section \<open>Identity removal\<close>

definition checkIdSimp :: "ZXDiagram \<Rightarrow> Vertex \<Rightarrow> bool option" where
  "checkIdSimp d v =
     do { n \<leftarrow> degree d v;
          if n \<noteq> 2 then Some False
          else do {
            p \<leftarrow> diag_phase d v;
            if \<not> expr_isZero p then Some False
            else do { b \<leftarrow> isBoundaryVertex d v; Some (\<not> b) } } }"

definition removeId :: "Vertex \<Rightarrow> ZXDiagram \<Rightarrow> ZXDiagram option" where
  "removeId v d =
     do { es \<leftarrow> incidentEdges d v;
          e0 \<leftarrow> vec_at es 0;
          e1 \<leftarrow> vec_at es 1;
          d1 \<leftarrow> addEdgeParallelAware (fst e0) (fst e1)
                  (if snd e0 \<noteq> snd e1 then Hadamard else Simple) d;
          removeVertex v d1 }"

section \<open>Spider fusion\<close>

definition checkSpiderFusion :: "ZXDiagram \<Rightarrow> Vertex \<Rightarrow> Vertex \<Rightarrow> bool option" where
  "checkSpiderFusion d v0 v1 =
     do { edgeOpt \<leftarrow> getEdge d v0 v1;
          if v0 = v1 then Some False
          else do {
            t0 \<leftarrow> diag_type d v0;
            t1 \<leftarrow> diag_type d v1;
            Some (t0 = t1 \<and>
                  snd (case edgeOpt of None \<Rightarrow> (0, Hadamard) | Some e \<Rightarrow> e) = Simple \<and>
                  t0 \<noteq> Boundary) } }"

definition fuse_edge :: "Vertex \<Rightarrow> Edge \<Rightarrow> ZXDiagram \<Rightarrow> ZXDiagram option" where
  "fuse_edge v0 e s = (if v0 \<noteq> fst e then addEdgeParallelAware v0 (fst e) (snd e) s else Some s)"

definition fuseSpiders :: "Vertex \<Rightarrow> Vertex \<Rightarrow> ZXDiagram \<Rightarrow> ZXDiagram option" where
  "fuseSpiders v0 v1 d =
     do { p \<leftarrow> diag_phase d v1;
          d1 \<leftarrow> addPhase v0 p d;
          d2 \<leftarrow> for_incident v1 (fuse_edge v0) d1;
          removeVertex v1 d2 }"

section \<open>Local complementation\<close>

definition data_or_X :: "VertexData option \<Rightarrow> VertexData" where
  "data_or_X w = (case w of Some x \<Rightarrow> x
     | None \<Rightarrow> \<lparr>col = 0, qubit = 0, phase = expr_empty, vtype = X\<rparr>)"

definition checkLocalComp :: "ZXDiagram \<Rightarrow> Vertex \<Rightarrow> bool option" where
  "checkLocalComp d v =
     do { w \<leftarrow> getVData d v;
          let vData = data_or_X w;
          if vtype vData \<noteq> Z \<or> \<not> isProperClifford (phase vData) then Some False
          else do {
            es \<leftarrow> incidentEdges d v;
            all_opt (\<lambda>e. if snd e = Hadamard then do { t \<leftarrow> diag_type d (fst e); Some (t = Z) }
                          else Some False) es } }"

text \<open>
  The two nested counting loops of \<open>localComp\<close> read \<open>edges[i]\<close> and \<open>edges[j]\<close> through the
  reference; as in \<open>for_incident\<close>, a changed vector is a failure.
\<close>

definition complement_pair :: "Vertex \<Rightarrow> Edge list \<Rightarrow> nat \<Rightarrow> nat \<Rightarrow> ZXDiagram \<Rightarrow> ZXDiagram option" where
  "complement_pair v es i j s =
     (if incidentEdges s v \<noteq> Some es then None
      else addEdgeParallelAware (fst (es ! i)) (fst (es ! j)) Hadamard s)"

definition complement_row ::
    "Vertex \<Rightarrow> Edge list \<Rightarrow> PiExpression \<Rightarrow> nat \<Rightarrow> ZXDiagram \<Rightarrow> ZXDiagram option" where
  "complement_row v es p i s =
     (if incidentEdges s v \<noteq> Some es then None
      else do {
        s1 \<leftarrow> addPhase (fst (es ! i)) p s;
        fold_opt (complement_pair v es i) [Suc i..<length es] s1 })"

definition localComp :: "Vertex \<Rightarrow> ZXDiagram \<Rightarrow> ZXDiagram option" where
  "localComp v d =
     do { p \<leftarrow> diag_phase d v;
          es \<leftarrow> incidentEdges d v;
          d1 \<leftarrow> fold_opt (complement_row v es (expr_neg p)) [0..<length es] d;
          q \<leftarrow> diag_phase d1 v;
          r \<leftarrow> pr_make (getNum (const q)) 4;
          removeVertex v (addGlobalPhase (expr_const r) d1) }"

section \<open>Pivoting\<close>

definition all_hadamard_to_Z :: "ZXDiagram \<Rightarrow> Edge list \<Rightarrow> bool option" where
  "all_hadamard_to_Z d es =
     all_opt (\<lambda>e. do { t \<leftarrow> diag_type d (fst e); Some (t = Z \<and> snd e = Hadamard) }) es"

definition checkPivotPauli :: "ZXDiagram \<Rightarrow> Vertex \<Rightarrow> Vertex \<Rightarrow> bool option" where
  "checkPivotPauli d v0 v1 =
     do { w0 \<leftarrow> getVData d v0;
          w1 \<leftarrow> getVData d v1;
          if vtype (data_or_X w0) \<noteq> Z \<or> vtype (data_or_X w1) \<noteq> Z then Some False
          else do {
            p0 \<leftarrow> isPauli_at d v0;
            if \<not> p0 then Some False
            else do {
              p1 \<leftarrow> isPauli_at d v1;
              if \<not> p1 then Some False
              else do {
                edgeOpt \<leftarrow> getEdge d v0 v1;
                case edgeOpt of None \<Rightarrow> Some False
                | Some e \<Rightarrow>
                    if snd e \<noteq> Hadamard then Some False
                    else do {
                      es0 \<leftarrow> incidentEdges d v0;
                      a0 \<leftarrow> all_hadamard_to_Z d es0;
                      if \<not> a0 then Some False
                      else do { es1 \<leftarrow> incidentEdges d v1; all_hadamard_to_Z d es1 } } } } } }"

definition pivot_inner :: "Vertex \<Rightarrow> Vertex \<Rightarrow> Edge \<Rightarrow> ZXDiagram \<Rightarrow> ZXDiagram option" where
  "pivot_inner v0 n0 e s =
     (if fst e \<noteq> v0 then addEdgeParallelAware n0 (fst e) Hadamard s else Some s)"

definition pivot_outer ::
    "Vertex \<Rightarrow> Vertex \<Rightarrow> PiExpression \<Rightarrow> Edge \<Rightarrow> ZXDiagram \<Rightarrow> ZXDiagram option" where
  "pivot_outer v0 v1 p1 e s =
     (if fst e = v1 then Some s
      else do {
        s1 \<leftarrow> addPhase (fst e) p1 s;
        for_incident v1 (pivot_inner v0 (fst e)) s1 })"

definition pivotPauli :: "Vertex \<Rightarrow> Vertex \<Rightarrow> ZXDiagram \<Rightarrow> ZXDiagram option" where
  "pivotPauli v0 v1 d =
     do { v0Phase \<leftarrow> diag_phase d v0;
          v1Phase \<leftarrow> diag_phase d v1;
          let d0 = (if \<not> expr_isZero v0Phase \<and> \<not> expr_isZero v1Phase
                    then addGlobalPhase pi_expr d else d);
          d1 \<leftarrow> for_incident v0 (pivot_outer v0 v1 v1Phase) d0;
          d2 \<leftarrow> for_incident v1 (\<lambda>e. addPhase (fst e) v0Phase) d1;
          d3 \<leftarrow> removeVertex v0 d2;
          removeVertex v1 d3 }"

definition invalid_pivot_edge :: "ZXDiagram \<Rightarrow> Edge \<Rightarrow> bool option" where
  "invalid_pivot_edge d e =
     do { t \<leftarrow> diag_type d (fst e);
          Some ((t \<noteq> Z \<or> snd e \<noteq> Hadamard) \<and> t \<noteq> Boundary) }"

definition isInteriorPauli :: "ZXDiagram \<Rightarrow> Vertex \<Rightarrow> bool option" where
  "isInteriorPauli d v =
     do { i \<leftarrow> isInterior d v; if i then isPauli_at d v else Some False }"

definition checkPivot :: "ZXDiagram \<Rightarrow> Vertex \<Rightarrow> Vertex \<Rightarrow> bool option" where
  "checkPivot d v0 v1 =
     do { t0 \<leftarrow> diag_type d v0;
          t1 \<leftarrow> diag_type d v1;
          if v0 = v1 \<or> t0 \<noteq> Z \<or> t1 \<noteq> Z then Some False
          else do {
            edgeOpt \<leftarrow> getEdge d v0 v1;
            case edgeOpt of None \<Rightarrow> Some False
            | Some e \<Rightarrow>
                if snd e \<noteq> Hadamard then Some False
                else do {
                  es0 \<leftarrow> incidentEdges d v0;
                  i0 \<leftarrow> any_opt (invalid_pivot_edge d) es0;
                  if i0 then Some False
                  else do {
                    es1 \<leftarrow> incidentEdges d v1;
                    i1 \<leftarrow> any_opt (invalid_pivot_edge d) es1;
                    if i1 then Some False
                    else do {
                      p0 \<leftarrow> isInteriorPauli d v0;
                      if p0 then Some True else isInteriorPauli d v1 } } } } }"

definition pivot :: "Vertex \<Rightarrow> Vertex \<Rightarrow> ZXDiagram \<Rightarrow> ZXDiagram option" where
  "pivot v0 v1 d =
     do { d1 \<leftarrow> ensurePauliVertex v0 d;
          d2 \<leftarrow> ensurePauliVertex v1 d1;
          pivotPauli v0 v1 d2 }"

definition checkPivotGadget :: "ZXDiagram \<Rightarrow> Vertex \<Rightarrow> Vertex \<Rightarrow> bool option" where
  "checkPivotGadget d v0 v1 =
     do { p0 \<leftarrow> diag_phase d v0;
          p1 \<leftarrow> diag_phase d v1;
          if isPauli p0 = isPauli p1 then Some False
          else do {
            i0 \<leftarrow> isInterior d v0;
            if \<not> i0 then Some False
            else do {
              i1 \<leftarrow> isInterior d v1;
              if \<not> i1 then Some False else checkPivot d v0 v1 } } }"

definition pivotGadget :: "Vertex \<Rightarrow> Vertex \<Rightarrow> ZXDiagram \<Rightarrow> ZXDiagram option" where
  "pivotGadget v0 v1 d =
     do { p0 \<leftarrow> isPauli_at d v0;
          d1 \<leftarrow> (if p0 then extractGadget v1 d else extractGadget v0 d);
          pivotPauli v0 v1 d1 }"

section \<open>Gadget fusion\<close>

text \<open>The last neighbour of \<open>id0\<close> other than \<open>v\<close>; the outer \<open>Inl\<close> is the early \<open>return false\<close>.\<close>

fun last_hadamard_neighbour :: "Vertex \<Rightarrow> Edge list \<Rightarrow> Vertex option \<Rightarrow> unit + Vertex option" where
  "last_hadamard_neighbour v [] n0 = Inr n0"
| "last_hadamard_neighbour v (e # es) n0 =
     (if fst e = v then last_hadamard_neighbour v es n0
      else if snd e \<noteq> Hadamard then Inl ()
      else last_hadamard_neighbour v es (Some (fst e)))"

text \<open>The inner loop over the neighbours of a candidate: \<open>foundGadget\<close> and \<open>phaseSpider\<close>.\<close>

fun scan_candidate ::
    "ZXDiagram \<Rightarrow> Vertex \<Rightarrow> Edge list \<Rightarrow> bool \<Rightarrow> Vertex option \<Rightarrow> (bool \<times> Vertex option) option" where
  "scan_candidate d id0 [] found ps = Some (found, ps)"
| "scan_candidate d id0 (e # es) found ps =
     (if snd e \<noteq> Hadamard then Some (False, ps)
      else do {
        del \<leftarrow> isDeleted d (fst e);
        if del then Some (False, ps)
        else do {
          n \<leftarrow> degree d (fst e);
          b \<leftarrow> (if n = 1 then isBoundaryVertex d (fst e) else Some True);
          if n = 1 \<and> \<not> b then scan_candidate d id0 es True (Some (fst e))
          else do {
            nn \<leftarrow> incidentEdges d (fst e);
            if find_if (\<lambda>e. fst e = id0) nn = None then Some (False, ps)
            else scan_candidate d id0 es found ps } } })"

definition not_candidate :: "ZXDiagram \<Rightarrow> Vertex \<Rightarrow> Edge \<Rightarrow> bool option" where
  "not_candidate d id0 e =
     (if snd e \<noteq> Hadamard then Some True
      else do {
        del \<leftarrow> isDeleted d (fst e);
        if del then Some True
        else do {
          p \<leftarrow> isPauli_at d (fst e);
          if \<not> p then Some True
          else do {
            n \<leftarrow> degree d (fst e);
            m \<leftarrow> degree d id0;
            if n \<noteq> m then Some True else connected d (fst e) id0 } } })"

text \<open>The outer search: \<open>foundGadget\<close>, \<open>id1\<close> and \<open>phaseSpider\<close> persist between candidates.\<close>

fun find_gadget ::
    "ZXDiagram \<Rightarrow> Vertex \<Rightarrow> Edge list \<Rightarrow> bool \<Rightarrow> Vertex option \<Rightarrow> Vertex option \<Rightarrow>
     (bool \<times> Vertex option \<times> Vertex option) option" where
  "find_gadget d id0 [] found id1 ps = Some (found, id1, ps)"
| "find_gadget d id0 (e # es) found id1 ps =
     (if fst e = id0 then find_gadget d id0 es found id1 ps
      else do {
        skip \<leftarrow> not_candidate d id0 e;
        if skip then find_gadget d id0 es found id1 ps
        else do {
          nn \<leftarrow> incidentEdges d (fst e);
          (found', ps') \<leftarrow> scan_candidate d id0 nn True ps;
          if found' then Some (True, Some (fst e), ps')
          else find_gadget d id0 es False (Some (fst e)) ps' } })"

definition fuse_into_spider :: "Vertex \<Rightarrow> Vertex \<Rightarrow> ZXDiagram \<Rightarrow> (bool \<times> ZXDiagram) option" where
  "fuse_into_spider v id0 d =
     do { es \<leftarrow> incidentEdges d id0;
          e0 \<leftarrow> vec_at es 0;
          e \<leftarrow> (if fst e0 = v then vec_at es 1 else Some e0);
          if snd e \<noteq> Hadamard then Some (False, d)
          else do {
            q \<leftarrow> diag_phase d id0;
            p \<leftarrow> diag_phase d v;
            d1 \<leftarrow> addPhase (fst e) (if expr_isZero q then p else expr_neg p) d;
            d2 \<leftarrow> removeVertex v d1;
            d3 \<leftarrow> removeVertex id0 d2;
            Some (True, d3) } }"

definition merge_gadgets ::
    "Vertex \<Rightarrow> Vertex \<Rightarrow> Vertex \<Rightarrow> Vertex \<Rightarrow> ZXDiagram \<Rightarrow> ZXDiagram option" where
  "merge_gadgets v id0 id1 ps d =
     do { q0 \<leftarrow> diag_phase d id0;
          d1 \<leftarrow> (if \<not> expr_isZero q0 then do {
                   p \<leftarrow> diag_phase d v;
                   s \<leftarrow> setPhase v (expr_neg p) d;
                   setPhase id0 zero_expr s }
                 else Some d);
          q1 \<leftarrow> diag_phase d1 id1;
          p \<leftarrow> diag_phase d1 ps;
          d2 \<leftarrow> addPhase v (if expr_isZero q1 then p else expr_neg p) d1;
          d3 \<leftarrow> removeVertex ps d2;
          removeVertex id1 d3 }"

definition checkAndFuseGadget :: "Vertex \<Rightarrow> ZXDiagram \<Rightarrow> (bool \<times> ZXDiagram) option" where
  "checkAndFuseGadget v d =
     do { n \<leftarrow> degree d v;
          b \<leftarrow> (if n = 1 then isBoundaryVertex d v else Some True);
          if b then Some (False, d)
          else do {
            es \<leftarrow> incidentEdges d v;
            e \<leftarrow> vec_at es 0;
            let id0 = fst e;
            pauli \<leftarrow> isPauli_at d id0;
            if \<not> pauli then Some (False, d)
            else do {
              m \<leftarrow> degree d id0;
              if m < 2 \<or> snd e \<noteq> Hadamard then Some (False, d)
              else if m = 2 then fuse_into_spider v id0 d
              else do {
                es0 \<leftarrow> incidentEdges d id0;
                case last_hadamard_neighbour v es0 None of
                  Inl _ \<Rightarrow> Some (False, d)
                | Inr n0 \<Rightarrow> do {
                    w \<leftarrow> n0;
                    nn \<leftarrow> incidentEdges d w;
                    (found, id1, ps) \<leftarrow> find_gadget d id0 nn False None None;
                    if \<not> found \<or> ps = None then Some (False, d)
                    else do {
                      i1 \<leftarrow> id1;
                      s1 \<leftarrow> ps;
                      d1 \<leftarrow> merge_gadgets v id0 i1 s1 d;
                      Some (True, d1) } } } } } }"

end
