(* ===== verification/ZXSimplify.thy ===== *)
theory ZXSimplify
  imports ZXRules
begin

text \<open>
  The exhaustive rewriting loops of \<open>include/mqt-core/zx/Simplify.hpp\<close> and
  \<open>src/zx/Simplify.cpp\<close>.  A \<open>while\<close> loop is a \<open>partial_function\<close>: not returning is \<open>None\<close>,
  as is a failure of the body, so a theorem that a loop yields \<open>Some\<close> says both that it stops
  and that it never leaves the defined behaviour of the code.

  The templates \<open>simplifyVertices\<close> and \<open>simplifyEdges\<close> are clients of a rule.  What they need
  from it is the locale \<open>vertex_rule\<close> (\<open>edge_rule\<close>): the check never fails on a live vertex (two
  live vertices), and a rule that applies succeeds, keeps the invariant, relates old and new
  diagram by a preorder and removes vertices without adding any.  Inside the locale the loop is
  proved to terminate, to keep the invariant and the preorder, and to stop at a diagram where
  the rule applies nowhere.
\<close>

section \<open>The loops\<close>

definition vertex_step ::
    "(ZXDiagram \<Rightarrow> Vertex \<Rightarrow> bool option) \<Rightarrow> (Vertex \<Rightarrow> ZXDiagram \<Rightarrow> ZXDiagram option) \<Rightarrow>
     Vertex \<Rightarrow> nat \<times> bool \<times> ZXDiagram \<Rightarrow> (nat \<times> bool \<times> ZXDiagram) option" where
  "vertex_step check rule v = (\<lambda>(n, ch, s). do {
     b \<leftarrow> check s v;
     if b then do { s1 \<leftarrow> rule v s; Some (Suc n, True, s1) } else Some (n, ch, s) })"

definition vertex_pass ::
    "(ZXDiagram \<Rightarrow> Vertex \<Rightarrow> bool option) \<Rightarrow> (Vertex \<Rightarrow> ZXDiagram \<Rightarrow> ZXDiagram option) \<Rightarrow>
     nat \<Rightarrow> ZXDiagram \<Rightarrow> (nat \<times> bool \<times> ZXDiagram) option" where
  "vertex_pass check rule n d = fold_opt (vertex_step check rule) (getVertices d) (n, False, d)"

partial_function (option) simplifyVertices_loop ::
    "(ZXDiagram \<Rightarrow> Vertex \<Rightarrow> bool option) \<Rightarrow> (Vertex \<Rightarrow> ZXDiagram \<Rightarrow> ZXDiagram option) \<Rightarrow>
     nat \<Rightarrow> ZXDiagram \<Rightarrow> (nat \<times> ZXDiagram) option" where
  "simplifyVertices_loop check rule n d =
     Option.bind (vertex_pass check rule n d) (\<lambda>(n1, newMatches, d1).
       if newMatches then simplifyVertices_loop check rule n1 d1 else Some (n1, d1))"

definition simplifyVertices ::
    "(ZXDiagram \<Rightarrow> Vertex \<Rightarrow> bool option) \<Rightarrow> (Vertex \<Rightarrow> ZXDiagram \<Rightarrow> ZXDiagram option) \<Rightarrow>
     ZXDiagram \<Rightarrow> (nat \<times> ZXDiagram) option" where
  "simplifyVertices check rule = simplifyVertices_loop check rule 0"

definition edge_step ::
    "(ZXDiagram \<Rightarrow> Vertex \<Rightarrow> Vertex \<Rightarrow> bool option) \<Rightarrow>
     (Vertex \<Rightarrow> Vertex \<Rightarrow> ZXDiagram \<Rightarrow> ZXDiagram option) \<Rightarrow>
     Vertex \<times> Vertex \<Rightarrow> nat \<times> bool \<times> ZXDiagram \<Rightarrow> (nat \<times> bool \<times> ZXDiagram) option" where
  "edge_step check rule e = (\<lambda>(n, ch, s). do {
     del0 \<leftarrow> isDeleted s (fst e);
     if del0 then Some (n, ch, s)
     else do {
       del1 \<leftarrow> isDeleted s (snd e);
       if del1 then Some (n, ch, s)
       else do {
         b \<leftarrow> check s (fst e) (snd e);
         if \<not> b then Some (n, ch, s)
         else do { s1 \<leftarrow> rule (fst e) (snd e) s; Some (Suc n, True, s1) } } } })"

definition edge_pass ::
    "(ZXDiagram \<Rightarrow> Vertex \<Rightarrow> Vertex \<Rightarrow> bool option) \<Rightarrow>
     (Vertex \<Rightarrow> Vertex \<Rightarrow> ZXDiagram \<Rightarrow> ZXDiagram option) \<Rightarrow>
     nat \<Rightarrow> ZXDiagram \<Rightarrow> (nat \<times> bool \<times> ZXDiagram) option" where
  "edge_pass check rule n d =
     do { es \<leftarrow> getEdges d; fold_opt (edge_step check rule) es (n, False, d) }"

partial_function (option) simplifyEdges_loop ::
    "(ZXDiagram \<Rightarrow> Vertex \<Rightarrow> Vertex \<Rightarrow> bool option) \<Rightarrow>
     (Vertex \<Rightarrow> Vertex \<Rightarrow> ZXDiagram \<Rightarrow> ZXDiagram option) \<Rightarrow>
     nat \<Rightarrow> ZXDiagram \<Rightarrow> (nat \<times> ZXDiagram) option" where
  "simplifyEdges_loop check rule n d =
     Option.bind (edge_pass check rule n d) (\<lambda>(n1, newMatches, d1).
       if newMatches then simplifyEdges_loop check rule n1 d1 else Some (n1, d1))"

definition simplifyEdges ::
    "(ZXDiagram \<Rightarrow> Vertex \<Rightarrow> Vertex \<Rightarrow> bool option) \<Rightarrow>
     (Vertex \<Rightarrow> Vertex \<Rightarrow> ZXDiagram \<Rightarrow> ZXDiagram option) \<Rightarrow>
     ZXDiagram \<Rightarrow> (nat \<times> ZXDiagram) option" where
  "simplifyEdges check rule = simplifyEdges_loop check rule 0"

definition gadget_step ::
    "Vertex \<Rightarrow> nat \<times> bool \<times> ZXDiagram \<Rightarrow> (nat \<times> bool \<times> ZXDiagram) option" where
  "gadget_step v = (\<lambda>(n, ch, s). do {
     del \<leftarrow> isDeleted s v;
     if del then Some (n, ch, s)
     else do {
       (b, s1) \<leftarrow> checkAndFuseGadget v s;
       if b then Some (Suc n, True, s1) else Some (n, ch, s1) } })"

partial_function (option) gadgetSimp_loop :: "nat \<Rightarrow> ZXDiagram \<Rightarrow> (nat \<times> ZXDiagram) option" where
  "gadgetSimp_loop n d =
     Option.bind (fold_opt gadget_step (getVertices d) (n, False, d)) (\<lambda>(n1, newMatches, d1).
       if newMatches then gadgetSimp_loop n1 d1 else Some (n1, d1))"

definition gadgetSimp :: "ZXDiagram \<Rightarrow> (nat \<times> ZXDiagram) option" where
  "gadgetSimp = gadgetSimp_loop 0"

definition idSimp :: "ZXDiagram \<Rightarrow> (nat \<times> ZXDiagram) option" where
  "idSimp = simplifyVertices checkIdSimp removeId"

definition spiderSimp :: "ZXDiagram \<Rightarrow> (nat \<times> ZXDiagram) option" where
  "spiderSimp = simplifyEdges checkSpiderFusion fuseSpiders"

definition localCompSimp :: "ZXDiagram \<Rightarrow> (nat \<times> ZXDiagram) option" where
  "localCompSimp = simplifyVertices checkLocalComp localComp"

definition pivotSimp :: "ZXDiagram \<Rightarrow> (nat \<times> ZXDiagram) option" where
  "pivotSimp = simplifyEdges checkPivot pivot"

definition pivotPauliSimp :: "ZXDiagram \<Rightarrow> (nat \<times> ZXDiagram) option" where
  "pivotPauliSimp = simplifyEdges checkPivotPauli pivotPauli"

definition pivotgadgetSimp :: "ZXDiagram \<Rightarrow> (nat \<times> ZXDiagram) option" where
  "pivotgadgetSimp = simplifyEdges checkPivotGadget pivotGadget"

text \<open>One round of \<open>interiorCliffordSimp\<close>: the sum of the four counts and the new diagram.\<close>

definition interior_round :: "ZXDiagram \<Rightarrow> (nat \<times> ZXDiagram) option" where
  "interior_round d =
     do { (nId, d1) \<leftarrow> idSimp d;
          (nSpider, d2) \<leftarrow> spiderSimp d1;
          (nPivot, d3) \<leftarrow> pivotPauliSimp d2;
          (nLocalComp, d4) \<leftarrow> localCompSimp d3;
          Some (nId + nSpider + nPivot + nLocalComp, d4) }"

partial_function (option) interior_loop :: "nat \<Rightarrow> ZXDiagram \<Rightarrow> (nat \<times> ZXDiagram) option" where
  "interior_loop n d =
     Option.bind (interior_round d) (\<lambda>(k, d1).
       if k \<noteq> 0 then interior_loop (Suc n) d1 else Some (n, d1))"

definition interiorCliffordSimp :: "ZXDiagram \<Rightarrow> (nat \<times> ZXDiagram) option" where
  "interiorCliffordSimp d = do { (_, d1) \<leftarrow> spiderSimp d; interior_loop 0 d1 }"

partial_function (option) clifford_loop :: "nat \<Rightarrow> ZXDiagram \<Rightarrow> (nat \<times> ZXDiagram) option" where
  "clifford_loop n d =
     Option.bind (interiorCliffordSimp d) (\<lambda>(nClifford, d1).
     Option.bind (pivotSimp d1) (\<lambda>(nPivot, d2).
       if nClifford + nPivot \<noteq> 0 then clifford_loop (Suc n) d2 else Some (n, d2)))"

definition cliffordSimp :: "ZXDiagram \<Rightarrow> (nat \<times> ZXDiagram) option" where
  "cliffordSimp = clifford_loop 0"

partial_function (option) reduce_loop :: "nat \<Rightarrow> ZXDiagram \<Rightarrow> (nat \<times> ZXDiagram) option" where
  "reduce_loop n d =
     Option.bind (cliffordSimp d) (\<lambda>(_, d1).
     Option.bind (gadgetSimp d1) (\<lambda>(nGadget, d2).
     Option.bind (interiorCliffordSimp d2) (\<lambda>(_, d3).
     Option.bind (pivotgadgetSimp d3) (\<lambda>(nPivot, d4).
       if nGadget + nPivot = 0 then Some (n, d4) else reduce_loop (n + nGadget + nPivot) d4))))"

definition fullReduce :: "ZXDiagram \<Rightarrow> (nat \<times> ZXDiagram) option" where
  "fullReduce d =
     do { d1 \<leftarrow> toGraphlike d;
          (_, d2) \<leftarrow> interiorCliffordSimp d1;
          (n, d3) \<leftarrow> reduce_loop 0 d2;
          d4 \<leftarrow> removeDisconnectedSpiders d3;
          Some (n, d4) }"

partial_function (option) approximate_loop ::
    "(rat \<Rightarrow> fp) \<Rightarrow> fp \<Rightarrow> nat \<Rightarrow> ZXDiagram \<Rightarrow> (nat \<times> ZXDiagram) option" where
  "approximate_loop conv tol n d =
     Option.bind (fullReduce (approximateCliffords conv tol d)) (\<lambda>(newSimps, d1).
       if newSimps = 0 then Some (n, d1) else approximate_loop conv tol (n + newSimps) d1)"

definition fullReduceApproximate ::
    "(rat \<Rightarrow> fp) \<Rightarrow> fp \<Rightarrow> ZXDiagram \<Rightarrow> (nat \<times> ZXDiagram) option" where
  "fullReduceApproximate conv tol d =
     do { (n, d1) \<leftarrow> fullReduce d; approximate_loop conv tol n d1 }"

section \<open>The contract of a rule\<close>

lemma set_getVertices: "set (getVertices d) = verts d"
  by (auto simp: getVertices_def verts_def live_def)

lemma distinct_getVertices: "distinct (getVertices d)"
  by (simp add: getVertices_def)

locale vertex_rule =
  fixes check :: "ZXDiagram \<Rightarrow> Vertex \<Rightarrow> bool option"
    and rule :: "Vertex \<Rightarrow> ZXDiagram \<Rightarrow> ZXDiagram option"
    and Inv :: "ZXDiagram \<Rightarrow> bool"
    and R :: "ZXDiagram \<Rightarrow> ZXDiagram \<Rightarrow> bool"
  assumes check_total: "Inv d \<Longrightarrow> live d v \<Longrightarrow> \<exists>b. check d v = Some b"
    and rule_ok: "Inv d \<Longrightarrow> live d v \<Longrightarrow> check d v = Some True \<Longrightarrow>
      \<exists>d'. rule v d = Some d' \<and> Inv d' \<and> R d d' \<and> verts d' = verts d - {v}"
    and R_refl: "R d d"
    and R_trans: "R a b \<Longrightarrow> R b c \<Longrightarrow> R a c"
begin

text \<open>
  One pass over a list of live vertices.  If nothing changed, the check is false everywhere;
  otherwise fewer vertices are left.
\<close>

lemma pass_ok:
  assumes "Inv d" "distinct vs" "set vs \<subseteq> verts d"
  shows "\<exists>n' ch' d'. fold_opt (vertex_step check rule) vs (n, ch, d) = Some (n', ch', d') \<and>
    Inv d' \<and> R d d' \<and> verts d' \<subseteq> verts d \<and> n \<le> n' \<and> (ch \<longrightarrow> ch') \<and>
    (ch' \<longleftrightarrow> ch \<or> n < n') \<and>
    (n' = n \<longrightarrow> d' = d \<and> (\<forall>v \<in> set vs. check d v = Some False)) \<and>
    (n < n' \<longrightarrow> card (verts d') < card (verts d))"
  using assms
proof (induction vs arbitrary: n ch d)
  case Nil
  then show ?case by (auto intro: R_refl)
next
  case (Cons v vs)
  have lv: "live d v" using Cons.prems(3) by (simp add: verts_def)
  then obtain b where b: "check d v = Some b" using check_total Cons.prems(1) by blast
  show ?case
  proof (cases b)
    case False
    then have "fold_opt (vertex_step check rule) (v # vs) (n, ch, d)
        = fold_opt (vertex_step check rule) vs (n, ch, d)"
      using b by (simp add: vertex_step_def)
    with Cons.IH [of d n ch] Cons.prems b False show ?thesis by fastforce
  next
    case True
    then have ct: "check d v = Some True" using b by simp
    obtain d1 where d1: "rule v d = Some d1" "Inv d1" "R d d1" "verts d1 = verts d - {v}"
      using rule_ok [OF Cons.prems(1) lv ct] by blast
    have sub: "set vs \<subseteq> verts d1" using Cons.prems(2,3) d1(4) by auto
    have "v \<in> verts d" using lv by (simp add: verts_def)
    then have less: "card (verts d1) < card (verts d)"
      using d1(4) by (metis card_Diff1_less finite_verts)
    obtain n' ch' d' where ih: "fold_opt (vertex_step check rule) vs (Suc n, True, d1) = Some (n', ch', d')"
      "Inv d'" "R d1 d'" "verts d' \<subseteq> verts d1" "Suc n \<le> n'" "ch'"
      "Suc n < n' \<longrightarrow> card (verts d') < card (verts d1)"
      using Cons.IH [OF d1(2) _ sub, of "Suc n" True] Cons.prems(2) by auto
    have eq: "fold_opt (vertex_step check rule) (v # vs) (n, ch, d) = Some (n', ch', d')"
      using b True d1(1) ih(1) by (simp add: vertex_step_def)
    have "card (verts d') \<le> card (verts d1)" using ih(4) by (simp add: card_mono)
    with less have "card (verts d') < card (verts d)" by simp
    moreover have "R d d'" using d1(3) ih(3) by (rule R_trans)
    moreover have "verts d' \<subseteq> verts d" using ih(4) d1(4) by auto
    ultimately show ?thesis using eq ih by (intro exI [of _ n'] exI [of _ ch'] exI [of _ d']) auto
  qed
qed

theorem loop_ok:
  assumes "Inv d"
  shows "\<exists>n' d'. simplifyVertices_loop check rule n d = Some (n', d') \<and> Inv d' \<and> R d d' \<and>
    verts d' \<subseteq> verts d \<and> n \<le> n' \<and> (n < n' \<longrightarrow> card (verts d') < card (verts d)) \<and>
    (n' = n \<longrightarrow> d' = d) \<and> (\<forall>v \<in> verts d'. check d' v = Some False)"
  using assms
proof (induction "card (verts d)" arbitrary: n d rule: less_induct)
  case less
  obtain n1 ch d1 where p: "vertex_pass check rule n d = Some (n1, ch, d1)" "Inv d1" "R d d1"
    "verts d1 \<subseteq> verts d" "n \<le> n1" "ch \<longleftrightarrow> n < n1"
    "n1 = n \<longrightarrow> d1 = d \<and> (\<forall>v \<in> verts d. check d v = Some False)"
    "n < n1 \<longrightarrow> card (verts d1) < card (verts d)"
    using pass_ok [OF less.prems distinct_getVertices, of d n False]
    by (auto simp: vertex_pass_def set_getVertices)
  show ?case
  proof (cases "n < n1")
    case False
    then show ?thesis using p by (subst simplifyVertices_loop.simps) auto
  next
    case True
    then obtain n2 d2 where q: "simplifyVertices_loop check rule n1 d1 = Some (n2, d2)" "Inv d2"
      "R d1 d2" "verts d2 \<subseteq> verts d1" "n1 \<le> n2" "\<forall>v \<in> verts d2. check d2 v = Some False"
      using less.hyps [of d1 n1] p by auto
    have "card (verts d2) \<le> card (verts d1)" using q(4) by (simp add: card_mono)
    with True p q show ?thesis
      by (subst simplifyVertices_loop.simps) (auto intro: R_trans)
  qed
qed

end

locale edge_rule =
  fixes check :: "ZXDiagram \<Rightarrow> Vertex \<Rightarrow> Vertex \<Rightarrow> bool option"
    and rule :: "Vertex \<Rightarrow> Vertex \<Rightarrow> ZXDiagram \<Rightarrow> ZXDiagram option"
    and Inv :: "ZXDiagram \<Rightarrow> bool"
    and R :: "ZXDiagram \<Rightarrow> ZXDiagram \<Rightarrow> bool"
  assumes check_total: "Inv d \<Longrightarrow> live d u \<Longrightarrow> live d v \<Longrightarrow> \<exists>b. check d u v = Some b"
    and rule_ok: "Inv d \<Longrightarrow> live d u \<Longrightarrow> live d v \<Longrightarrow> check d u v = Some True \<Longrightarrow>
      \<exists>d'. rule u v d = Some d' \<and> Inv d' \<and> R d d' \<and> verts d' \<subset> verts d \<and>
        length (vertices d') = length (vertices d)"
    and Inv_ok: "Inv d \<Longrightarrow> zx_ok d"
    and R_refl: "R d d"
    and R_trans: "R a b \<Longrightarrow> R b c \<Longrightarrow> R a c"
begin

lemma pass_ok:
  assumes "Inv d" "\<forall>(u, v) \<in> set es. u < length (vertices d) \<and> v < length (vertices d)"
  shows "\<exists>n' ch' d'. fold_opt (edge_step check rule) es (n, ch, d) = Some (n', ch', d') \<and>
    Inv d' \<and> R d d' \<and> verts d' \<subseteq> verts d \<and> length (vertices d') = length (vertices d) \<and> n \<le> n' \<and>
    (ch' \<longleftrightarrow> ch \<or> n < n') \<and>
    (n' = n \<longrightarrow> d' = d \<and>
       (\<forall>(u, v) \<in> set es. live d u \<longrightarrow> live d v \<longrightarrow> check d u v = Some False)) \<and>
    (n < n' \<longrightarrow> card (verts d') < card (verts d))"
  using assms
proof (induction es arbitrary: n ch d)
  case Nil
  then show ?case by (auto intro: R_refl)
next
  case (Cons e es)
  obtain u v where e: "e = (u, v)" by force
  have uv: "u < length (vertices d)" "v < length (vertices d)"
    and rest: "\<forall>(u, v) \<in> set es. u < length (vertices d) \<and> v < length (vertices d)"
    using Cons.prems(2) e by auto
  show ?case
  proof (cases "live d u \<and> live d v \<and> check d u v \<noteq> Some False")
    case False
    then have "edge_step check rule e (n, ch, d) = Some (n, ch, d)"
      using e uv by (auto simp: edge_step_def isDeleted_eq)
    with Cons.IH [OF Cons.prems(1) rest, of n ch] False e show ?thesis by fastforce
  next
    case True
    then have t: "check d u v = Some True" using check_total [of d u v] Cons.prems(1) by auto
    then obtain d1 where d1: "rule u v d = Some d1" "Inv d1" "R d d1" "verts d1 \<subset> verts d"
      "length (vertices d1) = length (vertices d)"
      using rule_ok Cons.prems(1) True by blast
    have less: "card (verts d1) < card (verts d)" using d1(4) by (simp add: psubset_card_mono)
    have rest1: "\<forall>(u, v) \<in> set es. u < length (vertices d1) \<and> v < length (vertices d1)"
      using rest d1(5) by simp
    obtain n' ch' d' where ih: "fold_opt (edge_step check rule) es (Suc n, True, d1) = Some (n', ch', d')"
      "Inv d'" "R d1 d'" "verts d' \<subseteq> verts d1" "length (vertices d') = length (vertices d1)"
      "Suc n \<le> n'" "ch'"
      using Cons.IH [OF d1(2) rest1, of "Suc n" True] by auto
    have eq: "fold_opt (edge_step check rule) (e # es) (n, ch, d) = Some (n', ch', d')"
      using e t True uv d1(1) ih(1) by (simp add: edge_step_def isDeleted_eq)
    have "card (verts d') \<le> card (verts d1)" using ih(4) by (simp add: card_mono)
    with less have "card (verts d') < card (verts d)" by simp
    moreover have "R d d'" using d1(3) ih(3) by (rule R_trans)
    moreover have "verts d' \<subseteq> verts d" using ih(4) d1(4) by auto
    ultimately show ?thesis
      using eq ih d1(5) by (intro exI [of _ n'] exI [of _ ch'] exI [of _ d']) auto
  qed
qed

lemma getEdges_bound:
  assumes "zx_ok d" "getEdges d = Some es"
  shows "\<forall>(u, v) \<in> set es. u < length (vertices d) \<and> v < length (vertices d)"
proof -
  have "live d v \<and> live d (fst e)" if "v \<in> set (getVertices d)" "e \<in> set (edges d ! v)" for v e
    using that zx_ok_incident_live [OF assms(1), of v e] by (simp add: set_getVertices verts_def)
  then show ?thesis
    using assms(2) by (auto simp: getEdges_def live_def split: if_splits)
qed

theorem loop_ok:
  assumes "Inv d" "vertices d \<noteq> []"
  shows "\<exists>n' d'. simplifyEdges_loop check rule n d = Some (n', d') \<and> Inv d' \<and> R d d' \<and>
    verts d' \<subseteq> verts d \<and> length (vertices d') = length (vertices d) \<and>
    n \<le> n' \<and> (n < n' \<longrightarrow> card (verts d') < card (verts d)) \<and> (n' = n \<longrightarrow> d' = d) \<and>
    (\<forall>es. getEdges d' = Some es \<longrightarrow> (\<forall>(u, v) \<in> set es. live d' u \<longrightarrow> live d' v \<longrightarrow> check d' u v = Some False))"
  using assms
proof (induction "card (verts d)" arbitrary: n d rule: less_induct)
  case less
  have "edges d \<noteq> []" using less.prems zx_ok_length [OF Inv_ok [OF less.prems(1)]] by auto
  then obtain es where es: "getEdges d = Some es" by (simp add: getEdges_def)
  obtain n1 ch d1 where p: "edge_pass check rule n d = Some (n1, ch, d1)" "Inv d1" "R d d1"
    "verts d1 \<subseteq> verts d" "length (vertices d1) = length (vertices d)" "n \<le> n1" "ch \<longleftrightarrow> n < n1"
    "n1 = n \<longrightarrow> d1 = d \<and> (\<forall>(u, v) \<in> set es. live d u \<longrightarrow> live d v \<longrightarrow> check d u v = Some False)"
    "n < n1 \<longrightarrow> card (verts d1) < card (verts d)"
    using pass_ok [OF less.prems(1) getEdges_bound [OF Inv_ok [OF less.prems(1)] es], of n False] es
    by (auto simp: edge_pass_def)
  show ?case
  proof (cases "n < n1")
    case False
    then show ?thesis using p es by (subst simplifyEdges_loop.simps) auto
  next
    case True
    have ne: "vertices d1 \<noteq> []" using p(5) less.prems(2) by auto
    then obtain n2 d2 where q: "simplifyEdges_loop check rule n1 d1 = Some (n2, d2)" "Inv d2"
      "R d1 d2" "verts d2 \<subseteq> verts d1" "length (vertices d2) = length (vertices d1)" "n1 \<le> n2"
      "\<forall>es. getEdges d2 = Some es \<longrightarrow> (\<forall>(u, v) \<in> set es. live d2 u \<longrightarrow> live d2 v \<longrightarrow> check d2 u v = Some False)"
      using less.hyps [of d1 n1] p True by auto
    have "card (verts d2) \<le> card (verts d1)" using q(4) by (simp add: card_mono)
    with True p q show ?thesis
      by (subst simplifyEdges_loop.simps) (auto intro: R_trans)
  qed
qed

end

end
