(* ===== verification/ZXSemantics.thy ===== *)
theory ZXSemantics
  imports ZXSimplify
begin

text \<open>
  The meaning of a ZX-diagram: the linear map it denotes, as the amplitude it assigns to every
  basis state of its boundary.  A spider carries one bit that all its legs share; an assignment
  is the set of vertices whose bit is 1.  A Z spider with phase \<open>a\<close> and bit 1 contributes
  \<open>e\<close> to the \<open>i \<pi> a\<close>, a simple edge forces its two bits to agree, a Hadamard edge contributes
  -1 when both bits are 1, and an X spider is a Z spider with a Hadamard gate on every leg.
  Hadamard edges are taken without their factor \<open>1 / sqrt 2\<close>: the code keeps track of the global
  phase but not of positive scalars, and the theorems are up to a positive scalar.

  The last part computes the effect of the primitive graph operations on amplitudes: a parallel
  aware edge insertion multiplies by the weight of the new edge, and removing an interior vertex
  pulls the sum over its bit out.
\<close>

section \<open>Phases as numbers\<close>

text \<open>
  A phase may be symbolic.  Its value is taken under a valuation of the variables.  Coefficients
  are restricted to a grid coarser than \<open>TOLERANCE\<close>, which makes \<open>+=\<close> exact: the code drops a
  term as soon as its coefficient is within the tolerance of 0.
\<close>

definition on_grid :: "fp \<Rightarrow> bool" where
  "on_grid c \<longleftrightarrow> (\<exists>k::int. c = of_int k / 2 ^ 20)"

definition phase_ok :: "PiExpression \<Rightarrow> bool" where
  "phase_ok p \<longleftrightarrow> pr_ok (const p) \<and> (\<forall>t \<in> set (terms p). on_grid (getCoeff t))"

definition phase_cis :: "(Variable \<Rightarrow> fp) \<Rightarrow> PiExpression \<Rightarrow> complex" where
  "phase_cis s p = pr_cis (const p) * cis (of_rat (terms_value s (terms p)))"

lemma on_grid_add: "on_grid a \<Longrightarrow> on_grid b \<Longrightarrow> on_grid (a + b)"
  unfolding on_grid_def by (metis add_divide_distrib of_int_add)

lemma on_grid_neg: "on_grid a \<Longrightarrow> on_grid (- a)"
  unfolding on_grid_def by (metis minus_divide_left of_int_minus)

lemma on_grid_small:
  assumes "on_grid c" "\<bar>c\<bar> < TOLERANCE"
  shows "c = 0"
proof -
  obtain k :: int where k: "c = of_int k / 2 ^ 20" using assms(1) by (auto simp: on_grid_def)
  have "\<bar>of_int k :: fp\<bar> / 2 ^ 20 < 1 / 2 ^ 20"
    using assms(2) k by (simp add: TOLERANCE_def)
  then have "\<bar>of_int k :: fp\<bar> < 1" by (simp add: divide_less_cancel)
  then have "k = 0" by linarith
  with k show ?thesis by simp
qed

lemma insert_term_exact:
  assumes "\<forall>x \<in> set ts. on_grid (getCoeff x)" "on_grid (getCoeff t)"
  shows "terms_value s (insert_term t ts) = terms_value s ts + s (getVar t) * getCoeff t \<and>
    (\<forall>x \<in> set (insert_term t ts). on_grid (getCoeff x))"
  using assms
proof (induction ts)
  case Nil
  then show ?case by simp
next
  case (Cons x xs)
  have *: "getCoeff x = - getCoeff t" if "\<bar>getCoeff x + getCoeff t\<bar> < TOLERANCE"
    using on_grid_small [OF on_grid_add that] Cons.prems by (simp add: eq_neg_iff_add_eq_0)
  show ?case
    using Cons * by (auto simp: addCoeff_def algebra_simps intro: on_grid_add)
qed

lemma fold_insert_term_exact:
  assumes "\<forall>x \<in> set ts. on_grid (getCoeff x)" "\<forall>x \<in> set us. on_grid (getCoeff x)"
  shows "terms_value s (fold insert_term us ts) = terms_value s ts + terms_value s us \<and>
    (\<forall>x \<in> set (fold insert_term us ts). on_grid (getCoeff x))"
  using assms
proof (induction us arbitrary: ts)
  case Nil
  then show ?case by simp
next
  case (Cons u us)
  have u: "on_grid (getCoeff u)" using Cons.prems(2) by simp
  note i = insert_term_exact [OF Cons.prems(1) u, of s]
  then show ?case using Cons.IH [of "insert_term u ts"] Cons.prems(2) by simp
qed

lemma phase_add:
  assumes "phase_ok p" "phase_ok q"
  shows "phase_ok (expr_add p q)" "phase_cis s (expr_add p q) = phase_cis s p * phase_cis s q"
proof -
  have p: "\<forall>x \<in> set (terms p). on_grid (getCoeff x)" and q: "\<forall>x \<in> set (terms q). on_grid (getCoeff x)"
    and c: "pr_ok (const p)" "pr_ok (const q)"
    using assms by (simp_all add: phase_ok_def)
  note e = fold_insert_term_exact [OF p q, of s]
  then show "phase_ok (expr_add p q)" using p q c by (simp add: phase_ok_def expr_add_def)
  have "cis (of_rat (terms_value s (terms p) + terms_value s (terms q)))
      = cis (of_rat (terms_value s (terms p))) * cis (of_rat (terms_value s (terms q)))"
    by (simp only: of_rat_add cis_mult)
  then show "phase_cis s (expr_add p q) = phase_cis s p * phase_cis s q"
    using e by (simp add: phase_cis_def expr_add_def expr_isZero_def del: cis_mult)
qed

lemma phase_neg:
  assumes "phase_ok p"
  shows "phase_ok (expr_neg p)" "phase_cis s (expr_neg p) = inverse (phase_cis s p)"
proof -
  have "terms_value s (map term_neg ts) = - terms_value s ts" for ts
    by (induction ts) (simp_all add: term_neg_def)
  then show "phase_cis s (expr_neg p) = inverse (phase_cis s p)"
    by (simp add: phase_cis_def expr_neg_def of_rat_minus cis_inverse)
  show "phase_ok (expr_neg p)"
    using assms by (auto simp: phase_ok_def expr_neg_def term_neg_def intro: on_grid_neg)
qed

lemma phase_ok_basic [simp]: "phase_ok pi_expr" "phase_ok zero_expr" "phase_ok expr_empty"
  by (auto simp: phase_ok_def pi_expr_def zero_expr_def expr_const_def expr_empty_def pr_ok_def
      zero_PiRational_def)

lemma phase_cis_basic [simp]:
  "phase_cis s pi_expr = -1" "phase_cis s zero_expr = 1" "phase_cis s expr_empty = 1"
  by (simp_all add: phase_cis_def pi_expr_def zero_expr_def expr_const_def expr_empty_def pr_cis_def
      zero_PiRational_def)

lemma phase_cis_zero: "expr_isZero p \<Longrightarrow> phase_cis s p = 1"
  by (simp add: expr_isZero_def phase_cis_def)

lemma phase_cis_nonzero [simp]: "phase_cis s p \<noteq> 0"
  by (simp add: phase_cis_def)

section \<open>Amplitudes\<close>

definition is_X :: "(Vertex \<Rightarrow> VertexData option) \<Rightarrow> Vertex \<Rightarrow> bool" where
  "is_X D v \<longleftrightarrow> (case D v of Some x \<Rightarrow> vtype x = X | None \<Rightarrow> False)"

text \<open>The type of an edge once X spiders are written as Z spiders.\<close>

definition eff :: "(Vertex \<Rightarrow> VertexData option) \<Rightarrow> Vertex \<Rightarrow> Vertex \<Rightarrow> EdgeType \<Rightarrow> EdgeType" where
  "eff D u v t = (if is_X D u = is_X D v then t else toggle_type t)"

definition wt :: "EdgeType \<Rightarrow> bool \<Rightarrow> bool \<Rightarrow> complex" where
  "wt t a b = (if t = Simple then (if a = b then 1 else 0) else if a \<and> b then -1 else 1)"

definition vweight ::
    "(Variable \<Rightarrow> fp) \<Rightarrow> (Vertex \<Rightarrow> VertexData option) \<Rightarrow> Vertex \<Rightarrow> bool \<Rightarrow> complex" where
  "vweight s D v b = (case D v of None \<Rightarrow> 1
     | Some x \<Rightarrow> if vtype x \<noteq> Boundary \<and> b then phase_cis s (phase x) else 1)"

definition eweight :: "agraph \<Rightarrow> Vertex \<Rightarrow> Vertex \<Rightarrow> bool \<Rightarrow> bool \<Rightarrow> complex" where
  "eweight g u v a b = (case snd g u v of None \<Rightarrow> 1 | Some t \<Rightarrow> wt (eff (fst g) u v t) a b)"

definition pairs :: "Vertex set \<Rightarrow> (Vertex \<times> Vertex) set" where
  "pairs V = {(u, v). u \<in> V \<and> v \<in> V \<and> u < v}"

definition amp :: "(Variable \<Rightarrow> fp) \<Rightarrow> Vertex set \<Rightarrow> agraph \<Rightarrow> Vertex set \<Rightarrow> complex" where
  "amp s V g S = (\<Prod>v\<in>V. vweight s (fst g) v (v \<in> S)) *
     (\<Prod>(u, v)\<in>pairs V. eweight g u v (u \<in> S) (v \<in> S))"

definition interior :: "(Vertex \<Rightarrow> VertexData option) \<Rightarrow> Vertex set" where
  "interior D = {v \<in> dom D. \<not> is_boundary D v}"

definition sem :: "(Variable \<Rightarrow> fp) \<Rightarrow> agraph \<Rightarrow> Vertex set \<Rightarrow> complex" where
  "sem s g B = (\<Sum>S\<in>Pow (interior (fst g)). amp s (dom (fst g)) g (S \<union> B))"

definition boundary_verts :: "ZXDiagram \<Rightarrow> Vertex set" where
  "boundary_verts d = {v. is_boundary (vdata d) v}"

definition zx_sem :: "(Variable \<Rightarrow> fp) \<Rightarrow> ZXDiagram \<Rightarrow> Vertex set \<Rightarrow> complex" where
  "zx_sem s d B = phase_cis s (globalPhase d) * sem s (graph_of d) B"

text \<open>
  Equal meaning up to a positive scalar: the same inputs, outputs and boundary, and proportional
  amplitudes under every valuation of the variables and for every state of the boundary.
\<close>

definition same_map :: "ZXDiagram \<Rightarrow> ZXDiagram \<Rightarrow> bool" where
  "same_map d d' \<longleftrightarrow> inputs d' = inputs d \<and> outputs d' = outputs d \<and>
     boundary_verts d' = boundary_verts d \<and>
     (\<exists>c::real. 0 < c \<and> (\<forall>s. \<forall>B \<subseteq> boundary_verts d. zx_sem s d B = of_real c * zx_sem s d' B))"

lemma same_map_refl [simp]: "same_map d d"
  by (auto simp: same_map_def intro: exI [of _ 1])

lemma same_map_trans:
  assumes "same_map a b" "same_map b c"
  shows "same_map a c"
proof -
  obtain x y :: real where "0 < x" "0 < y"
    "\<And>s B. B \<subseteq> boundary_verts a \<Longrightarrow> zx_sem s a B = of_real x * zx_sem s b B"
    "\<And>s B. B \<subseteq> boundary_verts a \<Longrightarrow> zx_sem s b B = of_real y * zx_sem s c B"
    using assms by (auto simp: same_map_def)
  then show ?thesis
    using assms by (auto simp: same_map_def intro!: exI [of _ "x * y"])
qed

lemma wt_sym: "wt t a b = wt t b a"
  by (auto simp: wt_def)

lemma eff_sym: "eff D u v t = eff D v u t"
  by (auto simp: eff_def)

lemma eweight_sym: "snd g u v = snd g v u \<Longrightarrow> eweight g u v a b = eweight g v u b a"
  by (auto simp: eweight_def wt_sym [of _ a] eff_sym [of _ u] split: option.splits)

lemma finite_pairs [simp]: "finite V \<Longrightarrow> finite (pairs V)"
  by (rule finite_subset [of _ "V \<times> V"]) (auto simp: pairs_def)

lemma amp_cong:
  assumes "\<And>v. v \<in> V \<Longrightarrow> D' v = D v" "\<And>u v. u \<in> V \<Longrightarrow> v \<in> V \<Longrightarrow> G' u v = G u v"
    and "\<And>v. v \<in> V \<Longrightarrow> v \<in> S' \<longleftrightarrow> v \<in> S"
  shows "amp s V (D', G') S' = amp s V (D, G) S"
proof -
  have "(\<Prod>v\<in>V. vweight s D' v (v \<in> S')) = (\<Prod>v\<in>V. vweight s D v (v \<in> S))"
    using assms by (intro prod.cong) (auto simp: vweight_def)
  moreover have "(\<Prod>(u, v)\<in>pairs V. eweight (D', G') u v (u \<in> S') (v \<in> S'))
      = (\<Prod>(u, v)\<in>pairs V. eweight (D, G) u v (u \<in> S) (v \<in> S))"
    using assms by (intro prod.cong) (auto simp: pairs_def eweight_def eff_def is_X_def split: option.splits)
  ultimately show ?thesis by (simp add: amp_def)
qed

section \<open>Changing one phase or one edge\<close>

text \<open>
  Graphs in which the edge function is symmetric and loop-free, and all phases are exact.  This is
  what an abstract graph inherits from \<open>zx_ok\<close>, and all that the amplitude lemmas need.
\<close>

definition graph_ok :: "agraph \<Rightarrow> bool" where
  "graph_ok g \<longleftrightarrow> finite (dom (fst g)) \<and>
     (\<forall>u v. snd g u v = snd g v u) \<and> (\<forall>u. snd g u u = None) \<and>
     (\<forall>u v. snd g u v \<noteq> None \<longrightarrow> u \<in> dom (fst g) \<and> v \<in> dom (fst g)) \<and>
     (\<forall>v x. fst g v = Some x \<longrightarrow> phase_ok (phase x))"

lemma graph_ok_sym: "graph_ok g \<Longrightarrow> snd g u v = snd g v u"
  unfolding graph_ok_def by blast

lemma graph_ok_irrefl: "graph_ok g \<Longrightarrow> snd g u u = None"
  unfolding graph_ok_def by blast

lemma graph_ok_dom: "graph_ok g \<Longrightarrow> snd g u v \<noteq> None \<Longrightarrow> u \<in> dom (fst g) \<and> v \<in> dom (fst g)"
  unfolding graph_ok_def by blast

lemma graph_ok_phase: "graph_ok g \<Longrightarrow> fst g v = Some x \<Longrightarrow> phase_ok (phase x)"
  unfolding graph_ok_def by blast

lemma prod_update_one:
  fixes f h :: "'a \<Rightarrow> complex"
  assumes "finite A" "x \<in> A" "\<And>y. y \<in> A \<Longrightarrow> y \<noteq> x \<Longrightarrow> f y = h y" "f x = h x * c"
  shows "prod f A = prod h A * c"
proof -
  have "prod f (A - {x}) = prod h (A - {x})" using assms(3) by (intro prod.cong) auto
  then show ?thesis using assms(1,2,4) by (simp add: prod.remove [of A x])
qed

text \<open>Adding an exact phase to an interior vertex.\<close>

lemma upd_data_types [simp]:
  "is_X (upd_data (add_phase p) u D) v = is_X D v"
  "is_boundary (upd_data (add_phase p) u D) v = is_boundary D v"
  "dom (upd_data (add_phase p) u D) = dom D"
  by (auto simp: is_X_def is_boundary_def upd_data_def add_phase_def split: option.splits)

lemma eweight_upd_data [simp]:
  "eweight (upd_data (add_phase p) u D, G) v w a b = eweight (D, G) v w a b"
  by (simp add: eweight_def eff_def split: option.split)

lemma graph_ok_upd_data:
  assumes ok: "graph_ok (D, G)" and p: "phase_ok p"
  shows "graph_ok (upd_data (add_phase p) u D, G)"
proof -
  have "phase_ok (phase x)" if "upd_data (add_phase p) u D v = Some x" for v x
    using that p graph_ok_phase [OF ok, of v]
    by (auto simp: upd_data_def add_phase_def phase_add split: if_splits)
  then show ?thesis using ok unfolding graph_ok_def fst_conv snd_conv upd_data_types by blast
qed

lemma amp_add_phase:
  assumes ok: "graph_ok (D, G)" and p: "phase_ok p" and V: "finite V" "u \<in> V" "V \<subseteq> dom D"
    and int: "\<not> is_boundary D u"
  shows "amp s V (upd_data (add_phase p) u D, G) S
    = amp s V (D, G) S * (if u \<in> S then phase_cis s p else 1)"
proof -
  obtain x where x: "D u = Some x" using V by blast
  have px: "phase_ok (phase x)" using graph_ok_phase [OF ok, of u x] x by simp
  have "(\<Prod>v\<in>V. vweight s (upd_data (add_phase p) u D) v (v \<in> S))
      = (\<Prod>v\<in>V. vweight s D v (v \<in> S)) * (if u \<in> S then phase_cis s p else 1)"
    using V int x px p
    by (intro prod_update_one) (auto simp: vweight_def upd_data_def add_phase_def is_boundary_def phase_add)
  then show ?thesis by (simp add: amp_def)
qed

text \<open>Replacing the label of one edge multiplies the amplitude by the ratio of the weights.\<close>

lemma set_edge_apply:
  assumes "u \<noteq> v"
  shows "set_edge G u v x a b = (if a = u \<and> b = v \<or> a = v \<and> b = u then x else G a b)"
  using assms by (auto simp: set_edge_def)

lemma graph_ok_set_edge:
  assumes ok: "graph_ok (D, G)" and uv: "u \<noteq> v" "u \<in> dom D" "v \<in> dom D"
  shows "graph_ok (D, set_edge G u v x)"
proof -
  have "set_edge G u v x a b = set_edge G u v x b a" for a b
    using graph_ok_sym [OF ok, of a b] uv(1) by (auto simp: set_edge_apply)
  moreover have "set_edge G u v x a a = None" for a
    using graph_ok_irrefl [OF ok, of a] uv(1) by (auto simp: set_edge_apply)
  moreover have "a \<in> dom D \<and> b \<in> dom D" if "set_edge G u v x a b \<noteq> None" for a b
    using graph_ok_dom [OF ok, of a b] uv that by (auto simp: set_edge_apply split: if_splits)
  ultimately show ?thesis
    using ok unfolding graph_ok_def fst_conv snd_conv by blast
qed

lemma amp_set_edge:
  assumes ok: "graph_ok (D, G)" and V: "finite V" "u \<in> V" "v \<in> V" "u \<noteq> v"
    and w: "eweight (D, set_edge G u v x) u v (u \<in> S) (v \<in> S)
        = eweight (D, G) u v (u \<in> S) (v \<in> S) * c"
  shows "amp s V (D, set_edge G u v x) S = amp s V (D, G) S * c"
proof -
  let ?g = "(D, G)" and ?h = "(D, set_edge G u v x)"
  define e where "e = (min u v, max u v)"
  have e: "e \<in> pairs V" using V by (auto simp: e_def pairs_def min_def max_def)
  have sym: "snd ?h u v = snd ?h v u" "snd ?g u v = snd ?g v u"
    using graph_ok_sym [OF ok, of u v] V(4) by (simp_all add: set_edge_apply)
  have "(\<Prod>(u, v)\<in>pairs V. eweight ?h u v (u \<in> S) (v \<in> S))
      = (\<Prod>(u, v)\<in>pairs V. eweight ?g u v (u \<in> S) (v \<in> S)) * c"
  proof (rule prod_update_one [OF _ e])
    show "finite (pairs V)" using V by simp
    show "(case y of (u, v) \<Rightarrow> eweight ?h u v (u \<in> S) (v \<in> S))
        = (case y of (u, v) \<Rightarrow> eweight ?g u v (u \<in> S) (v \<in> S))" if "y \<in> pairs V" "y \<noteq> e" for y
      using that V(4)
      by (cases y) (auto simp: e_def pairs_def eweight_def set_edge_apply min_def max_def
          split: if_splits option.split)
    show "(case e of (u, v) \<Rightarrow> eweight ?h u v (u \<in> S) (v \<in> S))
        = (case e of (u, v) \<Rightarrow> eweight ?g u v (u \<in> S) (v \<in> S)) * c"
    proof (cases "u < v")
      case True
      then show ?thesis using w by (simp add: e_def)
    next
      case False
      then show ?thesis using w sym eweight_sym [of ?h v u] eweight_sym [of ?g v u]
        by (simp add: e_def)
    qed
  qed
  then show ?thesis by (simp add: amp_def)
qed

section \<open>The parallel-aware edge insertion\<close>

text \<open>
  Whatever the case the code takes, the amplitude is multiplied by the weight of the edge that
  was to be added.  The side condition excludes the one case in which the code drops an edge: a
  second edge at a boundary vertex.
\<close>

lemma wt_simps [simp]:
  "wt Simple a b = (if a = b then 1 else 0)"
  "wt Hadamard a b = (if a \<and> b then -1 else 1)"
  by (simp_all add: wt_def)

lemma same_colour_X:
  assumes "u \<in> dom D" "v \<in> dom D" "\<not> is_boundary D u" "\<not> is_boundary D v"
  shows "same_colour D u v \<longleftrightarrow> is_X D u = is_X D v"
proof -
  obtain x y where "D u = Some x" "D v = Some y" using assms by blast
  then show ?thesis
    using assms by (cases "vtype x"; cases "vtype y") (auto simp: same_colour_def is_X_def is_boundary_def)
qed

lemma parallel_weight:
  assumes "parallel same t0 t = (x, f)"
  shows "(case x of None \<Rightarrow> 1 | Some t1 \<Rightarrow> wt (if same then t1 else toggle_type t1) a b)
      * (if f \<and> a then -1 else 1)
    = wt (if same then t0 else toggle_type t0) a b * wt (if same then t else toggle_type t) a b"
  using assms by (cases same; cases t0; cases t; auto)

lemma parallel_step_static:
  "dom (fst (parallel_step u v t (D, G))) = dom D"
  "is_X (fst (parallel_step u v t (D, G))) = is_X D"
  "is_boundary (fst (parallel_step u v t (D, G))) = is_boundary D"
  "\<not> (a = u \<and> b = v \<or> a = v \<and> b = u) \<Longrightarrow> snd (parallel_step u v t (D, G)) a b = G a b"
  by (auto simp: parallel_step_def Let_def fun_eq_iff set_edge_def split: option.split prod.split if_splits)

lemma amp_parallel_step:
  assumes ok: "graph_ok (D, G)" and V: "finite V" "V \<subseteq> dom D" "u \<in> V" "v \<in> V"
    and free: "u \<noteq> v \<and> G u v = None \<or> \<not> is_boundary D u \<and> \<not> is_boundary D v"
  shows "graph_ok (parallel_step u v t (D, G)) \<and>
    amp s V (parallel_step u v t (D, G)) S = amp s V (D, G) S * wt (eff D u v t) (u \<in> S) (v \<in> S)"
proof (cases "u = v")
  case True
  then have "\<not> is_boundary D u" using free by auto
  with True show ?thesis
    using ok V amp_add_phase [OF ok _ V(1,3,2), of pi_expr s S] graph_ok_upd_data [OF ok, of pi_expr u]
    by (cases t) (simp_all add: parallel_step_def eff_def)
next
  case neq: False
  have uv: "u \<in> dom D" "v \<in> dom D" using V by auto
  show ?thesis
  proof (cases "G u v")
    case None
    have "eweight (D, set_edge G u v (Some t)) u v (u \<in> S) (v \<in> S)
        = eweight (D, G) u v (u \<in> S) (v \<in> S) * wt (eff D u v t) (u \<in> S) (v \<in> S)"
      using None neq by (simp add: eweight_def set_edge_apply)
    then show ?thesis
      using None neq amp_set_edge [OF ok V(1,3,4) neq] graph_ok_set_edge [OF ok neq uv]
      by (simp add: parallel_step_def)
  next
    case (Some t0)
    then have nb: "\<not> is_boundary D u" "\<not> is_boundary D v" using free by auto
    obtain x f where p: "parallel (same_colour D u v) t0 t = (x, f)" by force
    have col: "same_colour D u v \<longleftrightarrow> is_X D u = is_X D v"
      by (rule same_colour_X [OF uv nb])
    define D1 where "D1 = (if f then upd_data (add_phase pi_expr) u D else D)"
    have step: "parallel_step u v t (D, G) = (D1, set_edge G u v x)"
      using Some neq nb p by (simp add: parallel_step_def D1_def)
    have ok1: "graph_ok (D1, G)" using ok graph_ok_upd_data [OF ok, of pi_expr u] by (simp add: D1_def)
    have stat: "is_X D1 = is_X D" "dom D1 = dom D"
      by (auto simp: D1_def fun_eq_iff)
    have uv1: "u \<in> dom D1" "v \<in> dom D1" using uv stat by simp_all
    have phase: "amp s V (D1, G) S = amp s V (D, G) S * (if f \<and> u \<in> S then -1 else 1)"
      using amp_add_phase [OF ok _ V(1,3,2) nb(1), of pi_expr s S] by (simp add: D1_def)
    define old where "old = wt (eff D u v t0) (u \<in> S) (v \<in> S)"
    define new where "new = (case x of None \<Rightarrow> 1 | Some t1 \<Rightarrow> wt (eff D u v t1) (u \<in> S) (v \<in> S))"
    define c where "c = wt (eff D u v t) (u \<in> S) (v \<in> S)"
    define h :: complex where "h = (if f \<and> u \<in> S then -1 else 1)"
    have rel: "new * h = old * c"
      using parallel_weight [OF p, of "u \<in> S" "v \<in> S"]
      unfolding new_def h_def old_def c_def eff_def col .
    have "h * h = 1" by (simp add: h_def)
    then have new: "new = old * (c * h)" using rel by (metis mult.assoc mult.right_neutral)
    have "eweight (D1, set_edge G u v x) u v (u \<in> S) (v \<in> S)
        = eweight (D1, G) u v (u \<in> S) (v \<in> S) * (c * h)"
    proof -
      have e: "eff D1 u v y = eff D u v y" for y by (simp add: eff_def stat)
      have "eweight (D1, set_edge G u v x) u v (u \<in> S) (v \<in> S) = new"
        using neq by (cases x) (simp_all add: eweight_def set_edge_apply e new_def)
      moreover have "eweight (D1, G) u v (u \<in> S) (v \<in> S) = old"
        using Some by (simp add: eweight_def old_def) (simp add: e)
      ultimately show ?thesis using new by simp
    qed
    from amp_set_edge [OF ok1 V(1,3,4) neq this]
    have "amp s V (D1, set_edge G u v x) S = amp s V (D1, G) S * (c * h)" .
    also have "\<dots> = amp s V (D, G) S * c"
      using phase \<open>h * h = 1\<close> unfolding h_def [symmetric] by simp
    finally show ?thesis
      using step graph_ok_set_edge [OF ok1 neq uv1] by (simp add: c_def)
  qed
qed

section \<open>Pulling out one vertex\<close>

definition star :: "(Variable \<Rightarrow> fp) \<Rightarrow> Vertex set \<Rightarrow> agraph \<Rightarrow> Vertex \<Rightarrow> bool \<Rightarrow> Vertex set \<Rightarrow> complex" where
  "star s V g r b T = vweight s (fst g) r b * (\<Prod>w\<in>V. eweight g r w b (w \<in> T))"

lemma pairs_insert:
  assumes "r \<notin> V"
  shows "pairs (insert r V) = pairs V \<union> (\<lambda>w. (min r w, max r w)) ` V"
proof (intro equalityI subsetI)
  fix p
  assume "p \<in> pairs (insert r V)"
  then obtain a b where p: "p = (a, b)" "a \<in> insert r V" "b \<in> insert r V" "a < b"
    by (auto simp: pairs_def)
  show "p \<in> pairs V \<union> (\<lambda>w. (min r w, max r w)) ` V"
  proof (cases "a \<in> V \<and> b \<in> V")
    case True
    then show ?thesis using p by (simp add: pairs_def)
  next
    case False
    then have "p = (min r b, max r b) \<and> b \<in> V \<or> p = (min r a, max r a) \<and> a \<in> V"
      using p by auto
    then show ?thesis by blast
  qed
next
  fix p
  assume "p \<in> pairs V \<union> (\<lambda>w. (min r w, max r w)) ` V"
  then show "p \<in> pairs (insert r V)"
    using assms by (auto simp: pairs_def min_def max_def order_le_less split: if_splits)
qed

lemma amp_insert:
  assumes ok: "graph_ok g" and V: "finite V" "r \<notin> V"
  shows "amp s (insert r V) g S = amp s V g S * star s V g r (r \<in> S) S"
proof -
  let ?e = "\<lambda>(u, v). eweight g u v (u \<in> S) (v \<in> S)" and ?m = "\<lambda>w. (min r w, max r w)"
  have inj: "inj_on ?m V" using V by (auto simp: inj_on_def min_def max_def split: if_splits)
  have disj: "pairs V \<inter> ?m ` V = {}" using V by (auto simp: pairs_def min_def max_def split: if_splits)
  have "prod ?e (pairs (insert r V)) = prod ?e (pairs V) * prod ?e (?m ` V)"
    unfolding pairs_insert [OF V(2)] using V disj by (intro prod.union_disjoint) simp_all
  also have "prod ?e (?m ` V) = (\<Prod>w\<in>V. eweight g r w (r \<in> S) (w \<in> S))"
    unfolding prod.reindex [OF inj] comp_def
  proof (intro prod.cong refl)
    fix w
    show "?e (?m w) = eweight g r w (r \<in> S) (w \<in> S)"
      using eweight_sym [OF graph_ok_sym [OF ok, of w r]] by (auto simp: min_def max_def)
  qed
  finally show ?thesis using V by (simp add: amp_def star_def)
qed

lemma sum_Pow_insert:
  fixes f :: "'a set \<Rightarrow> complex"
  assumes "finite J" "r \<notin> J"
  shows "(\<Sum>S\<in>Pow (insert r J). f S) = (\<Sum>S\<in>Pow J. f S + f (insert r S))"
proof -
  have "inj_on (insert r) (Pow J)" using assms(2) by (auto simp: inj_on_def)
  moreover have "Pow J \<inter> insert r ` Pow J = {}" using assms(2) by auto
  ultimately show ?thesis
    using assms(1) by (simp add: Pow_insert sum.union_disjoint sum.reindex sum.distrib)
qed

lemma star_other:
  "v \<notin> V \<Longrightarrow> star s V g r b (insert v T) = star s V g r b T"
proof -
  assume "v \<notin> V"
  then have "(\<Prod>w\<in>V. eweight g r w b (w \<in> insert v T)) = (\<Prod>w\<in>V. eweight g r w b (w \<in> T))"
    by (intro prod.cong refl arg_cong2 [where f = "eweight g r _"]) auto
  then show ?thesis by (simp add: star_def)
qed

lemma amp_other: "r \<notin> V \<Longrightarrow> amp s V g (insert r T) = amp s V g T"
  by (cases g) (auto intro!: amp_cong)

text \<open>The sum over an interior bit, with a weight that may depend on it.\<close>

lemma sum_out_weighted:
  assumes ok: "graph_ok g" and V: "finite V" "r \<notin> V" and J: "finite J" "r \<notin> J" and B: "r \<notin> B"
  shows "(\<Sum>S\<in>Pow (insert r J). amp s (insert r V) g (S \<union> B) * W (S \<union> B))
    = (\<Sum>S\<in>Pow J. amp s V g (S \<union> B) *
        (star s V g r False (S \<union> B) * W (S \<union> B) + star s V g r True (S \<union> B) * W (insert r (S \<union> B))))"
  unfolding sum_Pow_insert [OF J]
proof (rule sum.cong [OF refl])
  fix S
  assume "S \<in> Pow J"
  then have r: "r \<notin> S \<union> B" using J B by auto
  show "amp s (insert r V) g (S \<union> B) * W (S \<union> B) + amp s (insert r V) g (insert r S \<union> B) * W (insert r S \<union> B) =
      amp s V g (S \<union> B) *
        (star s V g r False (S \<union> B) * W (S \<union> B) + star s V g r True (S \<union> B) * W (insert r (S \<union> B)))"
    using r V by (simp add: amp_insert [OF ok V] amp_other star_other ring_distribs)
qed

lemma sum_out:
  assumes ok: "graph_ok g" and V: "finite V" "r \<notin> V" and J: "finite J" "r \<notin> J" and B: "r \<notin> B"
  shows "(\<Sum>S\<in>Pow (insert r J). amp s (insert r V) g (S \<union> B))
    = (\<Sum>S\<in>Pow J. amp s V g (S \<union> B) * (star s V g r False (S \<union> B) + star s V g r True (S \<union> B)))"
  using sum_out_weighted [OF assms, of s "\<lambda>_. 1"] by simp

lemma star_insert:
  assumes "finite V" "w \<notin> V"
  shows "star s (insert w V) g r b T = eweight g r w b (w \<in> T) * star s V g r b T"
  using assms by (simp add: star_def mult.left_commute)

end
