(* ===== verification/ZXComplement.thy ===== *)
theory ZXComplement
  imports ZXSoundness
begin

text \<open>
  Soundness of local complementation and of pivoting about two Pauli spiders.  Both add a
  Hadamard edge for every pair of neighbours in some range, so their effect on the amplitude is
  a sign that depends on how many neighbours carry the bit 1.
\<close>

section \<open>Products of signs over a list\<close>

definition ones :: "bool list \<Rightarrow> nat" where
  "ones bs = length (filter id bs)"

lemma ones_simps [simp]:
  "ones [] = 0" "ones (True # bs) = Suc (ones bs)" "ones (False # bs) = ones bs"
  by (simp_all add: ones_def)

lemma prod_power: "prod_list (map (\<lambda>b. if b then c else (1::complex)) bs) = c ^ ones bs"
proof (induction bs)
  case (Cons b bs)
  then show ?case by (cases b) simp_all
qed simp

lemma prod_hadamard:
  "prod_list (map (wt Hadamard a) bs) = (if a then (-1) ^ ones bs else 1)"
proof (induction bs)
  case (Cons b bs)
  then show ?case by (cases a; cases b) simp_all
qed simp

text \<open>All pairs of a list, in the order of the two counting loops.\<close>

fun pair_product :: "complex \<Rightarrow> bool list \<Rightarrow> complex" where
  "pair_product z [] = 1"
| "pair_product z (b # bs) = (if b then z else 1) * prod_list (map (wt Hadamard b) bs) * pair_product z bs"

lemma pair_product_value:
  assumes "z * z = -1"
  shows "pair_product z bs = (if even (ones bs) then 1 else z)"
proof (induction bs)
  case (Cons b bs)
  then show ?case using assms by (cases b) (simp_all add: prod_hadamard)
qed simp

lemma pair_product_loops:
  "prod_list (map (\<lambda>i. (if bs ! i then z else 1) *
      prod_list (map (\<lambda>j. wt Hadamard (bs ! i) (bs ! j)) [Suc i..<length bs])) [0..<length bs])
    = pair_product z bs"
proof (induction bs)
  case (Cons b bs)
  have shift: "[Suc m..<Suc n] = map Suc [m..<n]" for m n by (simp add: map_Suc_upt)
  have "map (\<lambda>j. wt Hadamard b ((b # bs) ! j)) [Suc 0..<Suc (length bs)] = map (wt Hadamard b) bs"
    unfolding shift map_map by (intro nth_equalityI) simp_all
  moreover have "[0..<length (b # bs)] = 0 # map Suc [0..<length bs]"
    by (simp add: upt_conv_Cons map_Suc_upt del: upt_Suc)
  ultimately show ?case
    using Cons by (simp add: comp_def shift del: upt_Suc)
qed simp

section \<open>Local complementation\<close>

lemma half_turn:
  assumes "pr_ok r" "getDenom r = 2"
  shows "getNum r = 1 \<and> frac r = 1/2 \<or> getNum r = -1 \<and> frac r = -1/2"
proof -
  obtain n m where q: "quotient_of (frac r) = (n, m)" by force
  with assms(2) have m: "m = 2" by (simp add: getDenom_def)
  have f: "frac r = of_int n / 2" using quotient_of_div [OF q] m by simp
  have "coprime n 2" using quotient_of_coprime [OF q] m by simp
  then have odd: "odd n" by simp
  have "-2 < n" "n \<le> 2" using assms(1) f by (simp_all add: pr_ok_def field_simps)
  then have "n \<in> {-1, 0, 1, 2}" by auto
  with odd have "n = 1 \<or> n = -1" by auto
  then show ?thesis using f q by (auto simp: getNum_def)
qed

text \<open>Summing the centre out: \<open>sqrt 2\<close>, an eighth of a turn, and the sign of the neighbours.\<close>

lemma eighth_turn:
  assumes "frac r = 1/2 \<and> r4 = PiRational (1/4) \<or> frac r = -1/2 \<and> r4 = PiRational (-1/4)"
  shows "1 + pr_cis r * (-1) ^ k = of_real (sqrt 2) * pr_cis r4 * (if even k then 1 else inverse (pr_cis r))"
    "inverse (pr_cis r) * inverse (pr_cis r) = -1"
proof -
  have q: "cis (pi / 2) = \<i>" "cis (- (pi / 2)) = - \<i>"
    by (simp_all add: complex_eq_iff)
  have e: "cis (pi / 4) = (1 + \<i>) / of_real (sqrt 2)" "cis (- (pi / 4)) = (1 - \<i>) / of_real (sqrt 2)"
    by (simp_all add: complex_eq_iff cos_45 sin_45 field_simps)
  have c: "pr_cis r = \<i> \<and> pr_cis r4 = (1 + \<i>) / of_real (sqrt 2) \<or>
      pr_cis r = - \<i> \<and> pr_cis r4 = (1 - \<i>) / of_real (sqrt 2)"
  proof -
    have "pr_cis r = cis (pi / 2)" if "frac r = 1/2"
      unfolding pr_cis_def that by (simp add: of_rat_divide)
    moreover have "pr_cis r = cis (- (pi / 2))" if "frac r = -1/2"
      unfolding pr_cis_def that by (simp add: of_rat_divide of_rat_minus)
    moreover have "pr_cis (PiRational (1/4)) = cis (pi / 4)" "pr_cis (PiRational (-1/4)) = cis (- (pi / 4))"
      by (simp_all add: pr_cis_def of_rat_divide of_rat_minus)
    ultimately show ?thesis using assms q e by metis
  qed
  have s: "pr_cis r = \<i> \<and> of_real (sqrt 2) * pr_cis r4 = 1 + \<i> \<or>
      pr_cis r = - \<i> \<and> of_real (sqrt 2) * pr_cis r4 = 1 - \<i>"
    using c by auto
  show "1 + pr_cis r * (-1) ^ k = of_real (sqrt 2) * pr_cis r4 * (if even k then 1 else inverse (pr_cis r))"
    using s by (cases "even k") (elim disjE conjE, simp_all add: ring_distribs del: mult.commute)+
  show "inverse (pr_cis r) * inverse (pr_cis r) = -1"
    using c by auto
qed

lemma parallel_vdata:
  assumes "graph_of d' = parallel_step u v t (graph_of d)" "w \<noteq> u"
  shows "vdata d' w = vdata d w"
proof -
  have "vdata d' = fst (parallel_step u v t (vdata d, adj d))"
    using assms(1) by (metis graph_of_def fst_conv)
  then show ?thesis
    using assms(2) by (simp add: parallel_step_def Let_def upd_data_def split: option.split prod.split)
qed

text \<open>A Z spider all of whose edges are Hadamard edges to Z spiders.\<close>

definition hadamard_star :: "ZXDiagram \<Rightarrow> Vertex \<Rightarrow> bool" where
  "hadamard_star d v \<longleftrightarrow> vtype (the (vdata d v)) = Z \<and>
     (\<forall>e \<in> set (edges d ! v). snd e = Hadamard \<and> vtype (the (vdata d (fst e))) = Z)"

lemma type_Z:
  assumes "live d v" "vtype (the (vdata d v)) = Z"
  shows "\<not> is_boundary (vdata d) v" "\<not> is_X (vdata d) v"
  using assms by (auto simp: is_boundary_def is_X_def live_vdata)

lemma hadamard_star_neighbour:
  assumes "zx_ok d" "live d v" "hadamard_star d v" "e \<in> set (edges d ! v)"
  shows "live d (fst e)" "fst e \<noteq> v" "snd e = Hadamard" "\<not> is_boundary (vdata d) (fst e)"
    "\<not> is_X (vdata d) (fst e)"
  using assms zx_ok_incident_live [OF assms(1,2,4)] type_Z [of d "fst e"]
  by (auto simp: hadamard_star_def)

lemma all_opt_eq:
  "(\<And>x. x \<in> set xs \<Longrightarrow> f x = Some (P x)) \<Longrightarrow> all_opt f xs = Some (\<forall>x \<in> set xs. P x)"
  by (induction xs) auto

lemma checkLocalComp_True:
  assumes ok: "zx_ok d" and l: "live d v"
  shows "checkLocalComp d v = Some (hadamard_star d v \<and> isProperClifford (phase (the (vdata d v))))"
proof -
  obtain x where x: "vdata d v = Some x" using l by (auto simp: live_vdata)
  have "all_opt (\<lambda>e. if snd e = Hadamard then do { t \<leftarrow> diag_type d (fst e); Some (t = Z) } else Some False)
      (edges d ! v) = Some (\<forall>e \<in> set (edges d ! v). snd e = Hadamard \<and> vtype (the (vdata d (fst e))) = Z)"
    using zx_ok_incident_live [OF ok l] by (intro all_opt_eq) (simp add: diag_simps)
  then show ?thesis
    using ok l x by (auto simp: checkLocalComp_def diag_simps data_or_X_def hadamard_star_def)
qed

lemma around_hadamard:
  assumes ok: "zx_ok d" and l: "live d v" and star: "hadamard_star d v"
  shows "around d V v b T
    = (if b then (-1) ^ ones (map (\<lambda>e. fst e \<in> T) (filter (\<lambda>e. fst e \<in> V) (edges d ! v))) else 1)"
proof -
  have "wt (eff (vdata d) v (fst e) (snd e)) b (fst e \<in> T) = wt Hadamard b (fst e \<in> T)"
    if "e \<in> set (edges d ! v)" for e
    using hadamard_star_neighbour [OF ok l star that] type_Z [OF l] star
    by (simp add: eff_def hadamard_star_def)
  then have "around d V v b T
      = prod_list (map (wt Hadamard b) (map (\<lambda>e. fst e \<in> T) (filter (\<lambda>e. fst e \<in> V) (edges d ! v))))"
    unfolding around_def by (intro arg_cong [where f = prod_list]) simp
  then show ?thesis by (simp only: prod_hadamard)
qed

text \<open>What the loops of \<open>localComp\<close> leave alone around the centre \<open>v\<close>.\<close>

definition centred :: "ZXDiagram \<Rightarrow> Vertex \<Rightarrow> ZXDiagram \<Rightarrow> bool" where
  "centred d v s \<longleftrightarrow> zx_ok s \<and> phases_ok s \<and> shape s = shape d \<and>
     edges s ! v = edges d ! v \<and> vdata s v = vdata d v"

definition ring :: "ZXDiagram \<Rightarrow> Vertex \<Rightarrow> Vertex set" where
  "ring d v = fst ` set (edges d ! v)"

lemma ring_props:
  assumes ok: "zx_ok d" and l: "live d v" and star: "hadamard_star d v" and w: "w \<in> ring d v"
  shows "live d w" "w \<noteq> v" "\<not> is_boundary (vdata d) w" "\<not> is_X (vdata d) w"
  using w hadamard_star_neighbour [OF ok l star] by (auto simp: ring_def)

lemma complement_edge:
  assumes ok: "zx_ok d" and l: "live d v" and star: "hadamard_star d v"
    and c: "centred d v s" and ab: "a \<in> ring d v" "b \<in> ring d v"
    and V: "ring d v \<subseteq> V" "V \<subseteq> verts d" and U: "ring d v \<subseteq> U"
  shows "\<exists>s'. addEdgeParallelAware a b Hadamard s = Some s' \<and>
    grows V U (\<lambda>_ S. wt Hadamard (a \<in> S) (b \<in> S)) s s' \<and> centred d v s'"
proof -
  have cs: "zx_ok s" "phases_ok s" "shape s = shape d" "edges s ! v = edges d ! v" "vdata s v = vdata d v"
    using c by (simp_all add: centred_def)
  note sh = shape_simps [OF cs(3)]
  note ra = ring_props [OF ok l star ab(1)] and rb = ring_props [OF ok l star ab(2)]
  have free: "a \<noteq> b \<and> adj s a b = None \<or> \<not> is_boundary (vdata s) a \<and> \<not> is_boundary (vdata s) b"
    using ra rb sh(3) by simp
  have Vs: "V \<subseteq> verts s" "a \<in> V" "b \<in> V" using V ab sh(1) by auto
  obtain s' where s': "addEdgeParallelAware a b Hadamard s = Some s'"
    "grows V {a, b} (\<lambda>c S. wt (eff (vdata s) a b Hadamard) (a \<in> S) (b \<in> S)) s s'"
    "graph_of s' = parallel_step a b Hadamard (graph_of s)"
    using grows_parallel [OF cs(1,2) Vs free, of Hadamard] by blast
  have eff: "eff (vdata s) a b Hadamard = Hadamard" using ra rb sh(2) by (simp add: eff_def)
  have "centred d v s'"
    using growsD(1,2,4) [OF s'(2)] grows_edges [OF s'(2), of v] cs ra(2) rb(2)
      parallel_vdata [OF s'(3), of v] by (auto simp: centred_def)
  moreover have "grows V U (\<lambda>_ S. wt Hadamard (a \<in> S) (b \<in> S)) s s'"
    using grows_mono [OF s'(2), of U] ab U unfolding eff by auto
  ultimately show ?thesis using s'(1) by blast
qed

lemma complement_phase:
  assumes ok: "zx_ok d" and l: "live d v" and star: "hadamard_star d v"
    and c: "centred d v s" and a: "a \<in> ring d v" and p: "phase_ok p"
    and V: "ring d v \<subseteq> V" "V \<subseteq> verts d"
  shows "\<exists>s'. addPhase a p s = Some s' \<and>
    grows V U (\<lambda>c S. if a \<in> S then phase_cis c p else 1) s s' \<and> centred d v s'"
proof -
  have cs: "zx_ok s" "phases_ok s" "shape s = shape d" "edges s ! v = edges d ! v" "vdata s v = vdata d v"
    using c by (simp_all add: centred_def)
  note sh = shape_simps [OF cs(3)]
  note ra = ring_props [OF ok l star a]
  have aV: "a \<in> V" and Vs: "V \<subseteq> verts s" using V a sh(1) by auto
  have la: "live s a" "\<not> is_boundary (vdata s) a" using ra shape_live [OF cs(3)] sh(3) by simp_all
  obtain s' where s': "addPhase a p s = Some s'" "edges s' = edges s"
    "grows V U (\<lambda>c S. if a \<in> V \<and> a \<in> S then phase_cis c p else 1) s s'"
    "vdata s' = upd_data (add_phase p) a (vdata s)"
    using grows_addPhase [OF cs(1,2) Vs la p, of U] by blast
  have "vdata s' v = vdata s v" using s'(4) ra(2) by (simp add: upd_data_def)
  then have "centred d v s'"
    using growsD(1,2,4) [OF s'(3)] s'(2) cs by (simp add: centred_def)
  with s' aV show ?thesis by auto
qed

lemma centred_incident:
  assumes "zx_ok d" "live d v" "centred d v s"
  shows "incidentEdges s v = Some (edges d ! v)"
  using assms incidentEdges_live [of s v] shape_live [of s d v] by (simp add: centred_def)

lemma complement_row_ok:
  assumes ok: "zx_ok d" and l: "live d v" and star: "hadamard_star d v" and p: "phase_ok p"
    and V: "ring d v \<subseteq> V" "V \<subseteq> verts d"
    and c: "centred d v s" and i: "i < length (edges d ! v)"
  shows "\<exists>s'. complement_row v (edges d ! v) p i s = Some s' \<and>
    grows V (ring d v) (\<lambda>c S. (if fst (edges d ! v ! i) \<in> S then phase_cis c p else 1) *
      prod_list (map (\<lambda>j. wt Hadamard (fst (edges d ! v ! i) \<in> S) (fst (edges d ! v ! j) \<in> S))
        [Suc i..<length (edges d ! v)])) s s' \<and> centred d v s'"
proof -
  let ?es = "edges d ! v"
  have mem: "fst (?es ! j) \<in> ring d v" if "j < length ?es" for j
    using that by (auto simp: ring_def)
  obtain s1 where s1: "addPhase (fst (?es ! i)) p s = Some s1"
    "grows V (ring d v) (\<lambda>c S. if fst (?es ! i) \<in> S then phase_cis c p else 1) s s1" "centred d v s1"
    using complement_phase [OF ok l star c mem [OF i] p V] by blast
  have "\<exists>s2. fold_opt (complement_pair v ?es i) [Suc i..<length ?es] s1 = Some s2 \<and>
      grows V (ring d v) (\<lambda>c S. prod_list (map (\<lambda>j. wt Hadamard (fst (?es ! i) \<in> S) (fst (?es ! j) \<in> S))
        [Suc i..<length ?es])) s1 s2 \<and> centred d v s2 \<and> set ([] :: nat list) \<subseteq> {..<length ?es}"
  proof (rule grows_fold [where Q = "\<lambda>js s. centred d v s \<and> set js \<subseteq> {..<length ?es}"])
    fix j js s
    assume q: "centred d v s \<and> set (j # js) \<subseteq> {..<length ?es}"
    then show "\<exists>s'. complement_pair v ?es i j s = Some s' \<and>
        grows V (ring d v) (\<lambda>c S. wt Hadamard (fst (?es ! i) \<in> S) (fst (?es ! j) \<in> S)) s s' \<and>
        centred d v s' \<and> set js \<subseteq> {..<length ?es}"
      using complement_edge [OF ok l star _ mem [OF i] mem [of j] V subset_refl, of s]
        centred_incident [OF ok l, of s]
      by (simp add: complement_pair_def)
  qed (use s1(3) in \<open>auto simp: centred_def\<close>)
  then obtain s2 where s2: "fold_opt (complement_pair v ?es i) [Suc i..<length ?es] s1 = Some s2"
    "grows V (ring d v) (\<lambda>c S. prod_list (map (\<lambda>j. wt Hadamard (fst (?es ! i) \<in> S) (fst (?es ! j) \<in> S))
        [Suc i..<length ?es])) s1 s2" "centred d v s2"
    by blast
  show ?thesis
    using s1(1) s2(1,3) grows_trans [OF s1(2) s2(2)] centred_incident [OF ok l c]
    by (simp add: complement_row_def)
qed

lemma localComp_ok:
  assumes inv: "zx_inv d" and l: "live d v" and check: "checkLocalComp d v = Some True"
  shows "\<exists>d'. localComp v d = Some d' \<and> rule_result {v} d d'"
proof -
  have ok: "zx_ok d" and ph: "phases_ok d" and thin: "thin_boundary d"
    using inv by (simp_all add: zx_inv_def)
  define p where "p = phase (the (vdata d v))"
  have star: "hadamard_star d v" and cliff: "isProperClifford p"
    using check checkLocalComp_True [OF ok l] by (simp_all add: p_def)
  have nb: "\<not> is_boundary (vdata d) v" using type_Z(1) [OF l] star by (simp add: hadamard_star_def)
  have pok: "phase_ok p" using phases_ok_live [OF ph l] by (simp add: p_def)
  let ?V = "verts d - {v}" and ?es = "edges d ! v"
  have V: "ring d v \<subseteq> ?V" "?V \<subseteq> verts d"
    using ring_props [OF ok l star] by (auto simp: verts_def)
  obtain r4 where r4: "pr_make (getNum (const p)) 4 = Some r4" "pr_ok r4"
    "frac (const p) = 1/2 \<and> r4 = PiRational (1/4) \<or> frac (const p) = -1/2 \<and> r4 = PiRational (-1/4)"
  proof -
    have "pr_ok (const p)" "getDenom (const p) = 2" using pok cliff by (simp_all add: phase_ok_def isProperClifford_def)
    from half_turn [OF this] have c: "getNum (const p) = 1 \<and> frac (const p) = 1/2 \<or>
        getNum (const p) = -1 \<and> frac (const p) = -1/2" .
    have m: "modPi (PiRational (1/4)) = PiRational (1/4)" "modPi (PiRational (-1/4)) = PiRational (-1/4)"
      by (simp_all add: modPi_id pr_ok_def)
    have fr: "Fract 1 4 = 1/4" "Fract (-1) 4 = -1/4" by (simp_all add: Fract_of_int_quotient)
    have mk: "pr_make 1 4 = Some (PiRational (1/4))" "pr_make (-1) 4 = Some (PiRational (-1/4))"
      unfolding pr_make_def fr m by simp_all
    have "pr_ok (PiRational (1/4))" "pr_ok (PiRational (-1/4))" by (simp_all add: pr_ok_def)
    with c mk that show thesis by metis
  qed
  have "\<exists>d1. fold_opt (complement_row v ?es (expr_neg p)) [0..<length ?es] d = Some d1 \<and>
      grows ?V (ring d v) (\<lambda>c S. prod_list (map (\<lambda>i. (if fst (?es ! i) \<in> S then phase_cis c (expr_neg p) else 1) *
        prod_list (map (\<lambda>j. wt Hadamard (fst (?es ! i) \<in> S) (fst (?es ! j) \<in> S)) [Suc i..<length ?es]))
        [0..<length ?es])) d d1 \<and> centred d v d1 \<and> set ([] :: nat list) \<subseteq> {..<length ?es}"
  proof (rule grows_fold [where Q = "\<lambda>js s. centred d v s \<and> set js \<subseteq> {..<length ?es}"])
    fix j js s
    assume q: "centred d v s \<and> set (j # js) \<subseteq> {..<length ?es}"
    then show "\<exists>s'. complement_row v ?es (expr_neg p) j s = Some s' \<and>
        grows ?V (ring d v) (\<lambda>c S. (if fst (?es ! j) \<in> S then phase_cis c (expr_neg p) else 1) *
          prod_list (map (\<lambda>k. wt Hadamard (fst (?es ! j) \<in> S) (fst (?es ! k) \<in> S)) [Suc j..<length ?es])) s s' \<and>
        centred d v s' \<and> set js \<subseteq> {..<length ?es}"
      using complement_row_ok [OF ok l star phase_neg(1) [OF pok] V, of s j] by simp
  qed (use ok ph in \<open>auto simp: centred_def\<close>)
  then obtain d1 where d1: "fold_opt (complement_row v ?es (expr_neg p)) [0..<length ?es] d = Some d1"
    "grows ?V (ring d v) (\<lambda>c S. prod_list (map (\<lambda>i. (if fst (?es ! i) \<in> S then phase_cis c (expr_neg p) else 1) *
        prod_list (map (\<lambda>j. wt Hadamard (fst (?es ! i) \<in> S) (fst (?es ! j) \<in> S)) [Suc i..<length ?es]))
        [0..<length ?es])) d d1" "centred d v d1"
    by blast
  define F where "F = (\<lambda>(c :: Variable \<Rightarrow> fp) S. pair_product (inverse (pr_cis (const p))) (map (\<lambda>e. fst e \<in> S) ?es))"
  have pcis: "phase_cis c p = pr_cis (const p)" for c
    using cliff by (simp add: phase_cis_def isProperClifford_def isConstant_def)
  have gr: "grows ?V (ring d v) F d d1"
  proof (rule grows_cong [OF d1(2)])
    fix c :: "Variable \<Rightarrow> fp" and S
    show "prod_list (map (\<lambda>i. (if fst (?es ! i) \<in> S then phase_cis c (expr_neg p) else 1) *
        prod_list (map (\<lambda>j. wt Hadamard (fst (?es ! i) \<in> S) (fst (?es ! j) \<in> S)) [Suc i..<length ?es]))
        [0..<length ?es]) = F c S"
      unfolding F_def pair_product_loops [symmetric] phase_neg(2) [OF pok] pcis
      by (intro arg_cong [where f = prod_list] map_cong arg_cong2 [where f = times]) auto
  qed
  define q where "q = expr_add (globalPhase d) (expr_const r4)"
  have rok: "phase_ok (expr_const r4)" using r4(2) by (simp add: phase_ok_def expr_const_def)
  have gpok: "phase_ok (globalPhase d)" using ph by (simp add: phases_ok_def)
  have qok: "phase_ok q" "phase_cis s q = phase_cis s (globalPhase d) * pr_cis r4" for s
    using phase_add [OF gpok rok] by (simp_all add: q_def phase_cis_def expr_const_def)
  have rel: "phase_cis s (globalPhase d) * kernel s d v T = of_real (sqrt 2) * (phase_cis s q * F s T)" for s T
  proof -
    define k where "k = ones (map (\<lambda>e. fst e \<in> T) ?es)"
    have all: "filter (\<lambda>e. fst e \<in> ?V) ?es = ?es"
      using V by (auto simp: filter_id_conv ring_def)
    have ar: "around d ?V v b T = (if b then (-1) ^ k else 1)" for b
      unfolding around_hadamard [OF ok l star] all k_def ..
    have "kernel s d v T = 1 + pr_cis (const p) * (-1) ^ k"
      by (simp add: kernel_def ar vweight_live [OF l nb] p_def [symmetric] pcis)
    also have "\<dots> = of_real (sqrt 2) * pr_cis r4 * F s T"
      unfolding F_def pair_product_value [OF eighth_turn(2) [OF r4(3)]] k_def [symmetric]
      by (rule eighth_turn(1) [OF r4(3)])
    finally show ?thesis by (simp add: qok(2) mult_ac)
  qed
  obtain d2 where d2: "removeVertex v (d1\<lparr>globalPhase := q\<rparr>) = Some d2" "zx_ok d2"
    "phases_ok d2" "same_map d d2" "verts d2 = ?V" "length (vertices d2) = length (vertices d)"
    "vdata d2 = (vdata d1)(v := None)" "adj d2 = (\<lambda>u w. if u = v \<or> w = v then None else adj d1 u w)"
    using remove_one [OF ok ph l nb gr qok(1) _ rel] by auto
  have gp: "globalPhase d1 = globalPhase d" using grows_frame [OF gr] by (simp add: same_frame_def)
  have l1: "live d1 v" "phase (the (vdata d1 v)) = p"
    using d1(3) l shape_live [of d1 d v] by (simp_all add: centred_def p_def)
  have eq: "localComp v d = Some d2"
    using d1(1) d2(1) r4(1) l1 l ok
    by (simp add: localComp_def diag_simps p_def [symmetric] addGlobalPhase_def gp q_def)
  have "thin_boundary d2"
  proof (rule thin_removed [OF thin ok _ d2(8), where h = id])
    show "is_boundary (vdata d) w" if "w \<noteq> v" "is_boundary (vdata d2) w" for w
      using that removed_boundary [OF gr d2(7)] by simp
    show "adj d w x \<noteq> None \<or> adj d v w \<noteq> None \<and> x = id w"
      if "is_boundary (vdata d) w" "adj d1 w x \<noteq> None" for w x
    proof -
      have "w \<notin> ring d v" using ring_props(3) [OF ok l star] that(1) by blast
      then show ?thesis using grows_adj [OF gr, of w x] that(2) by simp
    qed
  qed
  with d2 eq show ?thesis by (simp add: rule_result_def zx_inv_def)
qed

end
