(* ===== verification/ZXPivot.thy ===== *)
theory ZXPivot
  imports ZXComplement
begin

text \<open>
  Soundness of pivoting about an edge between two Pauli spiders, whose other neighbours are all
  Z spiders behind Hadamard edges.
\<close>

section \<open>The check\<close>

lemma all_hadamard_to_Z_eq:
  assumes ok: "zx_ok d" and l: "live d v"
  shows "all_hadamard_to_Z d (edges d ! v)
    = Some (\<forall>e \<in> set (edges d ! v). vtype (the (vdata d (fst e))) = Z \<and> snd e = Hadamard)"
  unfolding all_hadamard_to_Z_def
  using zx_ok_incident_live [OF ok l] by (intro all_opt_eq) (simp add: diag_simps)

lemma checkPivotPauli_True:
  assumes ok: "zx_ok d" and l: "live d v0" "live d v1"
  shows "checkPivotPauli d v0 v1 = Some (hadamard_star d v0 \<and> hadamard_star d v1 \<and>
    isPauli (phase (the (vdata d v0))) \<and> isPauli (phase (the (vdata d v1))) \<and>
    adj d v0 v1 = Some Hadamard)"
proof -
  obtain x y where "vdata d v0 = Some x" "vdata d v1 = Some y" using l by (auto simp: live_vdata)
  then show ?thesis
    using ok l
    by (cases "adj d v0 v1")
      (auto simp: checkPivotPauli_def diag_simps data_or_X_def hadamard_star_def isPauli_at_def
        all_hadamard_to_Z_eq)
qed

lemma pauli_sign:
  assumes "isPauli p" "phase_ok p"
  shows "phase_cis s p = (if expr_isZero p then 1 else -1)"
proof -
  have t: "terms p = []" "frac (const p) \<in> \<int>" "-1 < frac (const p)" "frac (const p) \<le> 1"
    using assms by (simp_all add: isPauli_def isConstant_def isInteger_iff phase_ok_def pr_ok_def)
  then obtain k :: int where k: "frac (const p) = of_int k" by (auto elim: Ints_cases)
  with t(3,4) have "k = 0 \<or> k = 1" by auto
  moreover have "expr_isZero p \<longleftrightarrow> frac (const p) = 0"
    using t(1) by (simp add: expr_isZero_def zero_PiRational_def PiRational.expand PiRational.expand)
      (metis PiRational.collapse PiRational.sel)
  ultimately show ?thesis using k t(1) by (auto simp: phase_cis_def pr_cis_def)
qed

section \<open>The loops\<close>

definition pivoting :: "ZXDiagram \<Rightarrow> Vertex \<Rightarrow> Vertex \<Rightarrow> ZXDiagram \<Rightarrow> bool" where
  "pivoting d v0 v1 s \<longleftrightarrow> zx_ok s \<and> phases_ok s \<and> shape s = shape d \<and>
     edges s ! v0 = edges d ! v0 \<and> edges s ! v1 = edges d ! v1"

definition pivot_ready :: "ZXDiagram \<Rightarrow> Vertex \<Rightarrow> Vertex \<Rightarrow> bool" where
  "pivot_ready d v0 v1 \<longleftrightarrow> zx_ok d \<and> phases_ok d \<and> live d v0 \<and> live d v1 \<and>
     hadamard_star d v0 \<and> hadamard_star d v1 \<and> adj d v0 v1 = Some Hadamard"

definition rest :: "ZXDiagram \<Rightarrow> Vertex \<Rightarrow> Vertex \<Rightarrow> Vertex set" where
  "rest d v0 v1 = verts d - {v0, v1}"

lemma pivotingD:
  assumes "pivoting d v0 v1 s"
  shows "zx_ok s" "phases_ok s" "shape s = shape d" "edges s ! v0 = edges d ! v0" "edges s ! v1 = edges d ! v1"
  using assms by (simp_all add: pivoting_def)

lemma pivot_readyD:
  assumes "pivot_ready d v0 v1"
  shows "zx_ok d" "phases_ok d" "live d v0" "live d v1" "hadamard_star d v0" "hadamard_star d v1"
    "adj d v0 v1 = Some Hadamard" "v0 \<noteq> v1"
  using assms zx_ok_adj [of d v0 v1] by (auto simp: pivot_ready_def)

text \<open>The neighbours that the two loops change.\<close>

definition changed :: "ZXDiagram \<Rightarrow> Vertex \<Rightarrow> Vertex \<Rightarrow> Vertex set" where
  "changed d v0 v1 = (ring d v0 \<union> ring d v1) - {v0, v1}"

lemma changed_props:
  assumes r: "pivot_ready d v0 v1" and w: "w \<in> ring d v0 \<union> ring d v1"
  shows "live d w" "\<not> is_boundary (vdata d) w" "\<not> is_X (vdata d) w"
    "w \<noteq> v0 \<Longrightarrow> w \<noteq> v1 \<Longrightarrow> w \<in> changed d v0 v1 \<and> w \<in> rest d v0 v1"
  using w ring_props [OF pivot_readyD(1,3,5) [OF r], of w] ring_props [OF pivot_readyD(1,4,6) [OF r], of w]
  by (auto simp: changed_def rest_def verts_def)

lemma pivot_edge:
  assumes r: "pivot_ready d v0 v1" and c: "pivoting d v0 v1 s"
    and a: "a \<in> ring d v0" "a \<noteq> v1" and b: "b \<in> ring d v1" "b \<noteq> v0"
  shows "\<exists>s'. addEdgeParallelAware a b Hadamard s = Some s' \<and>
    grows (rest d v0 v1) (changed d v0 v1) (\<lambda>_ S. wt Hadamard (a \<in> S) (b \<in> S)) s s' \<and> pivoting d v0 v1 s'"
proof -
  note cs = pivotingD [OF c]
  note sh = shape_simps [OF cs(3)]
  have n0: "a \<noteq> v0" "b \<noteq> v1"
    using a(1) b(1) ring_props(2) [OF pivot_readyD(1,3,5) [OF r]] ring_props(2) [OF pivot_readyD(1,4,6) [OF r]] by auto
  have pa: "\<not> is_boundary (vdata d) a" "\<not> is_X (vdata d) a" "a \<in> changed d v0 v1" "a \<in> rest d v0 v1"
    using changed_props [OF r, of a] a n0 by simp_all
  have pb: "\<not> is_boundary (vdata d) b" "\<not> is_X (vdata d) b" "b \<in> changed d v0 v1" "b \<in> rest d v0 v1"
    using changed_props [OF r, of b] b n0 by simp_all
  have free: "a \<noteq> b \<and> adj s a b = None \<or> \<not> is_boundary (vdata s) a \<and> \<not> is_boundary (vdata s) b"
    using pa pb sh(3) by simp
  have Vs: "rest d v0 v1 \<subseteq> verts s" using sh(1) by (auto simp: rest_def)
  obtain s' where s': "addEdgeParallelAware a b Hadamard s = Some s'"
    "grows (rest d v0 v1) {a, b} (\<lambda>c S. wt (eff (vdata s) a b Hadamard) (a \<in> S) (b \<in> S)) s s'"
    using grows_parallel [OF cs(1,2) Vs pa(4) pb(4) free, of Hadamard] by blast
  have eff: "eff (vdata s) a b Hadamard = Hadamard" using pa pb sh(2) by (simp add: eff_def)
  have "pivoting d v0 v1 s'"
    using growsD(1,2,4) [OF s'(2)] grows_edges [OF s'(2)] cs a(2) b(2) n0 by (simp add: pivoting_def)
  moreover have "grows (rest d v0 v1) (changed d v0 v1) (\<lambda>_ S. wt Hadamard (a \<in> S) (b \<in> S)) s s'"
    using grows_mono [OF s'(2), of "changed d v0 v1"] pa(3) pb(3) unfolding eff by auto
  ultimately show ?thesis using s'(1) by blast
qed

lemma pivot_phase:
  assumes r: "pivot_ready d v0 v1" and c: "pivoting d v0 v1 s"
    and a: "a \<in> ring d v0 \<union> ring d v1" and p: "phase_ok p"
  shows "\<exists>s'. addPhase a p s = Some s' \<and>
    grows (rest d v0 v1) (changed d v0 v1) (\<lambda>c S. if a \<in> rest d v0 v1 \<and> a \<in> S then phase_cis c p else 1) s s' \<and>
    pivoting d v0 v1 s'"
proof -
  note cs = pivotingD [OF c]
  note sh = shape_simps [OF cs(3)]
  have Vs: "rest d v0 v1 \<subseteq> verts s" using sh(1) by (auto simp: rest_def)
  have la: "live s a" "\<not> is_boundary (vdata s) a"
    using changed_props [OF r a] shape_live [OF cs(3)] sh(3) by simp_all
  obtain s' where s': "addPhase a p s = Some s'" "edges s' = edges s"
    "grows (rest d v0 v1) (changed d v0 v1) (\<lambda>c S. if a \<in> rest d v0 v1 \<and> a \<in> S then phase_cis c p else 1) s s'"
    using grows_addPhase [OF cs(1,2) Vs la p] by blast
  then have "pivoting d v0 v1 s'"
    using growsD(1,2,4) [OF s'(3)] cs by (simp add: pivoting_def)
  with s' show ?thesis by blast
qed

lemma pivoting_live: "pivoting d v0 v1 s \<Longrightarrow> live s v \<longleftrightarrow> live d v"
  by (rule shape_live) (rule pivotingD(3))

lemma pivoting_keeps:
  assumes r: "pivot_ready d v0 v1" and c: "pivoting d v0 v1 s"
  shows "zx_ok s \<and> phases_ok s \<and> live s v0 \<and> edges s ! v0 = edges d ! v0"
    "zx_ok s \<and> phases_ok s \<and> live s v1 \<and> edges s ! v1 = edges d ! v1"
  using pivotingD [OF c] pivoting_live [OF c] pivot_readyD(3,4) [OF r] by blast+

lemma pivoting_refl: "pivot_ready d v0 v1 \<Longrightarrow> pivoting d v0 v1 d"
  by (simp add: pivoting_def pivot_readyD)

lemma pivot_inner_ok:
  assumes r: "pivot_ready d v0 v1" and c: "pivoting d v0 v1 s"
    and a: "a \<in> ring d v0" "a \<noteq> v1"
  shows "\<exists>s'. for_incident v1 (pivot_inner v0 a) s = Some s' \<and>
    grows (rest d v0 v1) (changed d v0 v1) (\<lambda>_ S. prod_list (map (\<lambda>e. if fst e \<noteq> v0 then
      wt Hadamard (a \<in> S) (fst e \<in> S) else 1) (edges d ! v1))) s s' \<and> pivoting d v0 v1 s'"
proof -
  have "\<exists>s'. for_incident v1 (pivot_inner v0 a) s = Some s' \<and>
      grows (rest d v0 v1) (changed d v0 v1) (\<lambda>_ S. prod_list (map (\<lambda>e. if fst e \<noteq> v0 then
        wt Hadamard (a \<in> S) (fst e \<in> S) else 1) (edges s ! v1))) s s' \<and>
      (pivoting d v0 v1 s' \<and> set ([] :: Edge list) \<subseteq> set (edges d ! v1))"
  proof (rule grows_incident [where Q = "\<lambda>es s. pivoting d v0 v1 s \<and> set es \<subseteq> set (edges d ! v1)"])
    fix e es s
    assume q: "pivoting d v0 v1 s \<and> set (e # es) \<subseteq> set (edges d ! v1)"
    show "\<exists>s'. pivot_inner v0 a e s = Some s' \<and>
        grows (rest d v0 v1) (changed d v0 v1)
          (\<lambda>_ S. if fst e \<noteq> v0 then wt Hadamard (a \<in> S) (fst e \<in> S) else 1) s s' \<and>
        pivoting d v0 v1 s' \<and> set es \<subseteq> set (edges d ! v1)"
    proof (cases "fst e = v0")
      case True
      then show ?thesis
        using q pivotingD(1,2) [of d v0 v1 s] by (auto simp: pivot_inner_def intro: grows_refl)
    next
      case False
      have "fst e \<in> ring d v1" using q by (auto simp: ring_def)
      with q False show ?thesis
        using pivot_edge [OF r _ a, of s "fst e"] by (auto simp: pivot_inner_def)
    qed
  next
    show "zx_ok x \<and> phases_ok x \<and> live x v1 \<and> edges x ! v1 = edges s ! v1"
      if "pivoting d v0 v1 x \<and> set es \<subseteq> set (edges d ! v1)" for es x
      using pivoting_keeps(2) [OF r, of x] that pivotingD(5) [OF c] by simp
    show "pivoting d v0 v1 s \<and> set (edges s ! v1) \<subseteq> set (edges d ! v1)"
      using c pivotingD(5) [OF c] by simp
  qed
  then show ?thesis using pivotingD(5) [OF c] by simp
qed

lemma pivot_outer_ok:
  assumes r: "pivot_ready d v0 v1" and p: "phase_ok p"
  shows "\<exists>s'. for_incident v0 (pivot_outer v0 v1 p) d = Some s' \<and>
    grows (rest d v0 v1) (changed d v0 v1) (\<lambda>c S. prod_list (map (\<lambda>e. if fst e = v1 then 1 else
      (if fst e \<in> S then phase_cis c p else 1) * prod_list (map (\<lambda>e'. if fst e' \<noteq> v0 then
        wt Hadamard (fst e \<in> S) (fst e' \<in> S) else 1) (edges d ! v1))) (edges d ! v0))) d s' \<and>
    pivoting d v0 v1 s'"
proof -
  have "\<exists>s'. for_incident v0 (pivot_outer v0 v1 p) d = Some s' \<and>
      grows (rest d v0 v1) (changed d v0 v1) (\<lambda>c S. prod_list (map (\<lambda>e. if fst e = v1 then 1 else
        (if fst e \<in> S then phase_cis c p else 1) * prod_list (map (\<lambda>e'. if fst e' \<noteq> v0 then
          wt Hadamard (fst e \<in> S) (fst e' \<in> S) else 1) (edges d ! v1))) (edges d ! v0))) d s' \<and>
      (pivoting d v0 v1 s' \<and> set ([] :: Edge list) \<subseteq> set (edges d ! v0))"
  proof (rule grows_incident [where Q = "\<lambda>es s. pivoting d v0 v1 s \<and> set es \<subseteq> set (edges d ! v0)"])
    fix e es s
    assume q: "pivoting d v0 v1 s \<and> set (e # es) \<subseteq> set (edges d ! v0)"
    show "\<exists>s'. pivot_outer v0 v1 p e s = Some s' \<and>
        grows (rest d v0 v1) (changed d v0 v1) (\<lambda>c S. if fst e = v1 then 1 else
          (if fst e \<in> S then phase_cis c p else 1) * prod_list (map (\<lambda>e'. if fst e' \<noteq> v0 then
            wt Hadamard (fst e \<in> S) (fst e' \<in> S) else 1) (edges d ! v1))) s s' \<and>
        pivoting d v0 v1 s' \<and> set es \<subseteq> set (edges d ! v0)"
    proof (cases "fst e = v1")
      case True
      then show ?thesis
        using q pivotingD(1,2) [of d v0 v1 s] by (auto simp: pivot_outer_def intro: grows_refl)
    next
      case False
      have mem: "fst e \<in> ring d v0" using q by (auto simp: ring_def)
      then have "fst e \<noteq> v0" using ring_props(2) [OF pivot_readyD(1,3,5) [OF r]] by blast
      then have inV: "fst e \<in> rest d v0 v1" using changed_props(4) [OF r, of "fst e"] mem False by simp
      obtain s1 where s1: "addPhase (fst e) p s = Some s1"
        "grows (rest d v0 v1) (changed d v0 v1) (\<lambda>c S. if fst e \<in> S then phase_cis c p else 1) s s1"
        "pivoting d v0 v1 s1"
        using pivot_phase [OF r _ _ p, of s "fst e"] q mem inV by auto
      obtain s2 where s2: "for_incident v1 (pivot_inner v0 (fst e)) s1 = Some s2"
        "grows (rest d v0 v1) (changed d v0 v1) (\<lambda>_ S. prod_list (map (\<lambda>e'. if fst e' \<noteq> v0 then
          wt Hadamard (fst e \<in> S) (fst e' \<in> S) else 1) (edges d ! v1))) s1 s2" "pivoting d v0 v1 s2"
        using pivot_inner_ok [OF r s1(3) mem False] by blast
      show ?thesis
        using s1(1) s2(1,3) grows_trans [OF s1(2) s2(2)] False q by (simp add: pivot_outer_def)
    qed
  next
    show "zx_ok x \<and> phases_ok x \<and> live x v0 \<and> edges x ! v0 = edges d ! v0"
      if "pivoting d v0 v1 x \<and> set es \<subseteq> set (edges d ! v0)" for es x
      using pivoting_keeps(1) [OF r] that by blast
    show "pivoting d v0 v1 d \<and> set (edges d ! v0) \<subseteq> set (edges d ! v0)"
      using pivoting_refl [OF r] by simp
  qed
  then show ?thesis by simp
qed

lemma pivot_phases_ok:
  assumes r: "pivot_ready d v0 v1" and c: "pivoting d v0 v1 s" and p: "phase_ok p"
  shows "\<exists>s'. for_incident v1 (\<lambda>e. addPhase (fst e) p) s = Some s' \<and>
    grows (rest d v0 v1) (changed d v0 v1) (\<lambda>c S. prod_list (map (\<lambda>e.
      if fst e \<in> rest d v0 v1 \<and> fst e \<in> S then phase_cis c p else 1) (edges d ! v1))) s s' \<and>
    pivoting d v0 v1 s'"
proof -
  have "\<exists>s'. for_incident v1 (\<lambda>e. addPhase (fst e) p) s = Some s' \<and>
      grows (rest d v0 v1) (changed d v0 v1) (\<lambda>c S. prod_list (map (\<lambda>e.
        if fst e \<in> rest d v0 v1 \<and> fst e \<in> S then phase_cis c p else 1) (edges s ! v1))) s s' \<and>
      (pivoting d v0 v1 s' \<and> set ([] :: Edge list) \<subseteq> set (edges d ! v1))"
  proof (rule grows_incident [where Q = "\<lambda>es s. pivoting d v0 v1 s \<and> set es \<subseteq> set (edges d ! v1)"])
    fix e es s
    assume q: "pivoting d v0 v1 s \<and> set (e # es) \<subseteq> set (edges d ! v1)"
    then have "fst e \<in> ring d v0 \<union> ring d v1" by (auto simp: ring_def)
    with q show "\<exists>s'. addPhase (fst e) p s = Some s' \<and>
        grows (rest d v0 v1) (changed d v0 v1)
          (\<lambda>c S. if fst e \<in> rest d v0 v1 \<and> fst e \<in> S then phase_cis c p else 1) s s' \<and>
        pivoting d v0 v1 s' \<and> set es \<subseteq> set (edges d ! v1)"
      using pivot_phase [OF r _ _ p, of s "fst e"] by auto
  next
    show "zx_ok x \<and> phases_ok x \<and> live x v1 \<and> edges x ! v1 = edges s ! v1"
      if "pivoting d v0 v1 x \<and> set es \<subseteq> set (edges d ! v1)" for es x
      using pivoting_keeps(2) [OF r, of x] that pivotingD(5) [OF c] by simp
    show "pivoting d v0 v1 s \<and> set (edges s ! v1) \<subseteq> set (edges d ! v1)"
      using c pivotingD(5) [OF c] by simp
  qed
  then show ?thesis using pivotingD(5) [OF c] by simp
qed

section \<open>The sign of a pivot\<close>

lemma sign_product:
  "prod_list (map (\<lambda>e. if P e then (if g e then c else 1) else (1::complex)) es)
    = c ^ ones (map g (filter P es))"
  by (induction es) auto

lemma hadamard_product:
  "prod_list (map (\<lambda>e. if P e then wt Hadamard a (g e) else 1) es)
    = (if a then (-1) ^ ones (map g (filter P es)) else 1)"
  by (induction es) auto

lemma pivot_signs:
  assumes "a = 1 \<or> a = (-1::complex)" "b = 1 \<or> b = (-1::complex)"
  shows "(1 + a * (-1) ^ x) + b * (-1) ^ y * (1 - a * (-1) ^ x)
    = 2 * ((if a = -1 \<and> b = -1 then -1 else 1) * ((b * (-1) ^ y) ^ x * a ^ y))"
  using assms by (cases "even x"; cases "even y"; elim disjE; simp)

definition pivot_kernel ::
    "(Variable \<Rightarrow> fp) \<Rightarrow> ZXDiagram \<Rightarrow> Vertex \<Rightarrow> Vertex \<Rightarrow> Vertex set \<Rightarrow> complex" where
  "pivot_kernel s d v0 v1 T =
     (let V = rest d v0 v1; g = graph_of d;
          W = (\<lambda>T. star s (insert v1 V) g v0 False T + star s (insert v1 V) g v0 True T)
      in star s V g v1 False T * W T + star s V g v1 True T * W (insert v1 T))"

lemma pivot_out:
  assumes r: "pivot_ready d v0 v1" and B: "B \<inter> {v0, v1} = {}"
  shows "(\<Sum>S\<in>Pow (interior (vdata d)). amp s (verts d) (graph_of d) (S \<union> B))
    = (\<Sum>S\<in>Pow (interior (vdata d) - {v0, v1}).
        amp s (rest d v0 v1) (graph_of d) (S \<union> B) * pivot_kernel s d v0 v1 (S \<union> B))"
proof -
  note rd = pivot_readyD [OF r]
  have gok: "graph_ok (graph_of d)" by (rule graph_ok_diagram [OF rd(1,2)])
  let ?I = "interior (vdata d)" and ?V = "rest d v0 v1"
  let ?J1 = "insert v1 (?I - {v0, v1})" and ?V1 = "insert v1 ?V"
  have mem: "v0 \<in> ?I" "v1 \<in> ?I" "v0 \<in> verts d" "v1 \<in> verts d"
    using rd type_Z(1) by (auto simp: interior_def live_vdata hadamard_star_def verts_def)
  have ins: "?I = insert v0 ?J1" "verts d = insert v0 ?V1" using mem by (auto simp: rest_def)
  have "finite ?I" using interior_subset by (rule finite_subset) (simp add: verts_vdata [symmetric])
  then have fin: "finite (?I - {v0, v1})" "finite ?J1" "finite ?V" "finite ?V1" by (simp_all add: rest_def)
  have n0: "v0 \<notin> ?J1" "v0 \<notin> ?V1" "v1 \<notin> ?V" "v1 \<notin> ?I - {v0, v1}" "v0 \<notin> B" "v1 \<notin> B"
    using rd(8) B by (auto simp: rest_def)
  show ?thesis
    using sum_out [OF gok fin(4) n0(2) fin(2) n0(1) n0(5), of s]
      sum_out_weighted [OF gok fin(3) n0(3) fin(1) n0(4) n0(6), of s
        "\<lambda>T. star s ?V1 (graph_of d) v0 False T + star s ?V1 (graph_of d) v0 True T"]
    unfolding ins [symmetric] pivot_kernel_def Let_def by simp
qed

lemma pivot_kernel_value:
  assumes r: "pivot_ready d v0 v1" and T: "v1 \<notin> T"
  shows "pivot_kernel s d v0 v1 T =
    (let x = ones (map (\<lambda>e. fst e \<in> T) (filter (\<lambda>e. fst e \<in> rest d v0 v1) (edges d ! v0)));
         y = ones (map (\<lambda>e. fst e \<in> T) (filter (\<lambda>e. fst e \<in> rest d v0 v1) (edges d ! v1)));
         a = phase_cis s (phase (the (vdata d v0))); b = phase_cis s (phase (the (vdata d v1)))
     in (1 + a * (-1) ^ x) + b * (-1) ^ y * (1 - a * (-1) ^ x))"
proof -
  note rd = pivot_readyD [OF r]
  let ?V = "rest d v0 v1" and ?g = "graph_of d"
  have fin: "finite ?V" and v1: "v1 \<notin> ?V" by (simp_all add: rest_def)
  have nb: "\<not> is_boundary (vdata d) v0" "\<not> is_boundary (vdata d) v1" "\<not> is_X (vdata d) v0" "\<not> is_X (vdata d) v1"
    using rd type_Z by (auto simp: hadamard_star_def)
  have e: "eweight ?g v0 v1 a b = wt Hadamard a b" for a b
    using nb rd(7) by (simp add: eweight_def graph_of_def eff_def)
  have st: "star s ?V ?g v b T = (if b then phase_cis s (phase (the (vdata d v))) *
      (-1) ^ ones (map (\<lambda>e. fst e \<in> T) (filter (\<lambda>e. fst e \<in> ?V) (edges d ! v))) else 1)"
    if "v = v0 \<or> v = v1" for v b
    using that star_around [OF rd(1) _ fin, of v s b T] around_hadamard [OF rd(1), of v ?V b T]
      vweight_live [of d v s b] rd nb by auto
  show ?thesis
    unfolding pivot_kernel_def Let_def star_insert [OF fin v1] e star_other [OF v1]
    using st [of v0] st [of v1] T by simp
qed

lemma pivotPauli_ok:
  assumes inv: "zx_inv d" and l: "live d v0" "live d v1" and check: "checkPivotPauli d v0 v1 = Some True"
  shows "\<exists>d'. pivotPauli v0 v1 d = Some d' \<and> rule_result {v0, v1} d d'"
proof -
  have ok: "zx_ok d" and ph: "phases_ok d" and thin: "thin_boundary d"
    using inv by (simp_all add: zx_inv_def)
  define p0 where "p0 = phase (the (vdata d v0))"
  define p1 where "p1 = phase (the (vdata d v1))"
  have stars: "hadamard_star d v0" "hadamard_star d v1" and pauli: "isPauli p0" "isPauli p1"
    and e01: "adj d v0 v1 = Some Hadamard"
    using check checkPivotPauli_True [OF ok l] by (simp_all add: p0_def p1_def)
  have ready: "pivot_ready d v0 v1" using ok ph l stars e01 by (simp add: pivot_ready_def)
  note rd = pivot_readyD [OF ready]
  have pok: "phase_ok p0" "phase_ok p1"
    using phases_ok_live [OF ph] l by (simp_all add: p0_def p1_def)
  note sign0 = pauli_sign [OF pauli(1) pok(1)] and sign1 = pauli_sign [OF pauli(2) pok(2)]
  have gpok: "phase_ok (globalPhase d)" using ph by (simp add: phases_ok_def)
  define q where "q = (if \<not> expr_isZero p0 \<and> \<not> expr_isZero p1 then expr_add (globalPhase d) pi_expr
    else globalPhase d)"
  have q: "phase_ok q"
    "phase_cis s q = phase_cis s (globalPhase d) * (if phase_cis s p0 = -1 \<and> phase_cis s p1 = -1 then -1 else 1)"
    for s using gpok phase_add [OF gpok phase_ok_basic(1)] by (simp_all add: q_def sign0 sign1)
  define D where "D = d\<lparr>globalPhase := q\<rparr>"
  have D: "graph_of D = graph_of d" "vdata D = vdata d" "edges D = edges d" "verts D = verts d"
    "adj D = adj d" "globalPhase D = q" "inputs D = inputs d" "outputs D = outputs d"
    "vertices D = vertices d" "live D v = live d v" for v
    by (simp_all add: D_def)
  have phD: "phases_ok D" using ph q(1) by (simp add: phases_ok_def D)
  have rD: "pivot_ready D v0 v1"
    using ready phD by (simp add: pivot_ready_def hadamard_star_def D) (simp add: D_def)
  have V: "rest D v0 v1 = rest d v0 v1" "changed D v0 v1 = changed d v0 v1"
    by (simp_all add: rest_def changed_def ring_def D)
  let ?V = "rest d v0 v1" and ?U = "changed d v0 v1" and ?es0 = "edges d ! v0" and ?es1 = "edges d ! v1"
  obtain d1 where d1: "for_incident v0 (pivot_outer v0 v1 p1) D = Some d1"
    "grows ?V ?U (\<lambda>c S. prod_list (map (\<lambda>e. if fst e = v1 then 1 else
      (if fst e \<in> S then phase_cis c p1 else 1) * prod_list (map (\<lambda>e'. if fst e' \<noteq> v0 then
        wt Hadamard (fst e \<in> S) (fst e' \<in> S) else 1) ?es1)) ?es0)) D d1"
    "pivoting D v0 v1 d1"
    using pivot_outer_ok [OF rD pok(2)] unfolding V D by blast
  obtain d2 where d2: "for_incident v1 (\<lambda>e. addPhase (fst e) p0) d1 = Some d2"
    "grows ?V ?U (\<lambda>c S. prod_list (map (\<lambda>e.
      if fst e \<in> ?V \<and> fst e \<in> S then phase_cis c p0 else 1) ?es1)) d1 d2"
    "pivoting D v0 v1 d2"
    using pivot_phases_ok [OF rD d1(3) pok(1)] unfolding V D by blast
  define X where "X = (\<lambda>T. ones (map (\<lambda>e. fst e \<in> T) (filter (\<lambda>e. fst e \<in> ?V) ?es0)))"
  define Y where "Y = (\<lambda>T. ones (map (\<lambda>e. fst e \<in> T) (filter (\<lambda>e. fst e \<in> ?V) ?es1)))"
  define F where "F = (\<lambda>c T. (phase_cis c p1 * (-1) ^ Y T) ^ X T * phase_cis c p0 ^ Y T)"
  have in0: "fst e = v1 \<longleftrightarrow> fst e \<notin> ?V" if "e \<in> set ?es0" for e
    using zx_ok_incident_live [OF ok l(1) that] by (auto simp: rest_def verts_def)
  have in1: "fst e \<noteq> v0 \<longleftrightarrow> fst e \<in> ?V" if "e \<in> set ?es1" for e
    using zx_ok_incident_live [OF ok l(2) that] by (auto simp: rest_def verts_def)
  have gr: "grows ?V ?U F D d2"
  proof (rule grows_cong [OF grows_trans [OF d1(2) d2(2)]])
    fix c T
    have inner: "prod_list (map (\<lambda>e'. if fst e' \<noteq> v0 then wt Hadamard b (fst e' \<in> T) else 1) ?es1)
        = (if b then (-1) ^ Y T else 1)" for b
    proof -
      have m: "map (\<lambda>e'. if fst e' \<noteq> v0 then wt Hadamard b (fst e' \<in> T) else 1) ?es1
          = map (\<lambda>e'. if fst e' \<in> ?V then wt Hadamard b (fst e' \<in> T) else 1) ?es1"
        using in1 by simp
      show ?thesis unfolding m hadamard_product Y_def ..
    qed
    have "prod_list (map (\<lambda>e. if fst e = v1 then 1 else (if fst e \<in> T then phase_cis c p1 else 1) *
        (if fst e \<in> T then (-1) ^ Y T else 1)) ?es0)
      = prod_list (map (\<lambda>e. if fst e \<in> ?V then (if fst e \<in> T then phase_cis c p1 * (-1) ^ Y T else 1) else 1) ?es0)"
      using in0 by (intro arg_cong [where f = prod_list] map_cong refl) simp
    also have "\<dots> = (phase_cis c p1 * (-1) ^ Y T) ^ X T"
      unfolding X_def by (rule sign_product)
    finally have outer: "prod_list (map (\<lambda>e. if fst e = v1 then 1 else (if fst e \<in> T then phase_cis c p1 else 1) *
        (if fst e \<in> T then (-1) ^ Y T else 1)) ?es0) = (phase_cis c p1 * (-1) ^ Y T) ^ X T" .
    have last: "prod_list (map (\<lambda>e. if fst e \<in> ?V \<and> fst e \<in> T then phase_cis c p0 else 1) ?es1)
        = phase_cis c p0 ^ Y T"
    proof -
      have m: "map (\<lambda>e. if fst e \<in> ?V \<and> fst e \<in> T then phase_cis c p0 else 1) ?es1
          = map (\<lambda>e. if fst e \<in> ?V then (if fst e \<in> T then phase_cis c p0 else 1) else 1) ?es1"
        by simp
      show ?thesis unfolding m sign_product Y_def ..
    qed
    show "prod_list (map (\<lambda>e. if fst e = v1 then 1 else
        (if fst e \<in> T then phase_cis c p1 else 1) * prod_list (map (\<lambda>e'. if fst e' \<noteq> v0 then
          wt Hadamard (fst e \<in> T) (fst e' \<in> T) else 1) ?es1)) ?es0) *
        prod_list (map (\<lambda>e. if fst e \<in> ?V \<and> fst e \<in> T then phase_cis c p0 else 1) ?es1) = F c T"
      unfolding inner outer last F_def ..
  qed
  have kern: "phase_cis s (globalPhase d) * pivot_kernel s d v0 v1 T = of_real 2 * (phase_cis s q * F s T)"
    if "v1 \<notin> T" for s T
  proof -
    have "pivot_kernel s d v0 v1 T = 2 * ((if phase_cis s p0 = -1 \<and> phase_cis s p1 = -1 then -1 else 1) * F s T)"
      unfolding pivot_kernel_value [OF ready that] Let_def F_def X_def Y_def
        p0_def [symmetric] p1_def [symmetric]
      by (rule pivot_signs) (simp_all add: sign0 sign1)
    then show ?thesis by (simp add: q(2))
  qed
  note fr = grows_frame [OF gr] and sh = shape_simps [OF growsD(4) [OF gr]]
  have l2: "live d2 v0" "live d2 v1" using grows_live [OF gr] l D by simp_all
  obtain d3 where d3: "removeVertex v0 d2 = Some d3" "zx_ok d3" "same_frame d2 d3"
    "vdata d3 = (vdata d2)(v0 := None)"
    "adj d3 = (\<lambda>u w. if u = v0 \<or> w = v0 then None else adj d2 u w)"
    "length (vertices d3) = length (vertices d2)"
    using removeVertex_ok [OF growsD(1) [OF gr] l2(1)] by blast
  have l3: "live d3 v1" using l2 d3(4) rd(8) by (simp add: live_vdata)
  obtain d4 where d4: "removeVertex v1 d3 = Some d4" "zx_ok d4" "same_frame d3 d4"
    "vdata d4 = (vdata d3)(v1 := None)"
    "adj d4 = (\<lambda>u w. if u = v1 \<or> w = v1 then None else adj d3 u w)"
    "length (vertices d4) = length (vertices d3)"
    using removeVertex_ok [OF d3(2) l3] by blast
  have frame: "inputs d4 = inputs d" "outputs d4 = outputs d" "globalPhase d4 = q"
    "length (vertices d4) = length (vertices d)"
    using fr d3(3,6) d4(3,6) D by (simp_all add: same_frame_def)
  have vd4: "vdata d4 w = (if w = v0 \<or> w = v1 then None else vdata d2 w)" for w
    using d3(4) d4(4) by simp
  have ad4: "adj d4 u w = (if u \<in> {v0, v1} \<or> w \<in> {v0, v1} then None else adj d2 u w)" for u w
    using d3(5) d4(5) by auto
  have dom4: "dom (vdata d4) = ?V"
  proof -
    have "dom (vdata d2) = verts d" using sh(1) D(4) by (simp add: verts_vdata)
    then show ?thesis by (auto simp: vd4 rest_def dom_def set_eq_iff)
  qed
  have bd: "is_boundary (vdata d4) w = is_boundary (vdata d) w" if "w \<notin> {v0, v1}" for w
  proof -
    have "is_boundary (vdata d4) w = is_boundary (vdata d2) w" using that by (simp add: is_boundary_def vd4)
    then show ?thesis using sh(3) D(2) by simp
  qed
  have "phases_ok d4"
    using growsD(2) [OF gr] frame(3) q(1) by (auto simp: phases_ok_def vd4)
  moreover have "thin_boundary d4"
    unfolding thin_boundary_def
  proof (intro allI impI)
    fix w x y
    assume *: "is_boundary (vdata d4) w" "adj d4 w x \<noteq> None" "adj d4 w y \<noteq> None"
    then have w: "w \<notin> {v0, v1}" by (auto simp: ad4)
    with * have b: "is_boundary (vdata d) w" using bd by simp
    have "w \<notin> ?U" using changed_props(2) [OF ready, of w] b by (auto simp: changed_def)
    then have "adj d2 w = adj d w" using grows_adj [OF gr, of w] D(5) by (simp add: fun_eq_iff)
    then show "x = y" using thin_boundaryD [OF thin b, of x y] * by (auto simp: ad4 split: if_splits)
  qed
  moreover have "same_map d d4"
  proof (rule same_mapI [where R = "{v0, v1}" and F = F and c = 2 and K = "\<lambda>s. pivot_kernel s d v0 v1"])
    show "{v0, v1} \<subseteq> interior (vdata d)"
      using rd type_Z(1) by (auto simp: interior_def live_vdata hadamard_star_def)
    show "amp s ?V (graph_of d4) T = amp s ?V (graph_of d) T * F s T" for s T
    proof -
      have "amp s ?V (graph_of d4) T = amp s ?V (graph_of d2) T"
        unfolding graph_of_def by (rule amp_cong) (auto simp: vd4 ad4 rest_def)
      then show ?thesis using growsD(5) [OF gr] D(1) by simp
    qed
    show "phase_cis s (globalPhase d) * pivot_kernel s d v0 v1 T
        = of_real 2 * (phase_cis s (globalPhase d4) * F s T)" if "T \<inter> {v0, v1} = {}" for s T
      using kern [of T s] that frame(3) by auto
  qed (use frame dom4 bd pivot_out [OF ready] in \<open>auto simp: rest_def\<close>)
  moreover have "pivotPauli v0 v1 d = Some d4"
  proof -
    have start: "(if \<not> expr_isZero p0 \<and> \<not> expr_isZero p1 then addGlobalPhase pi_expr d else d) = D"
      by (simp add: D_def q_def addGlobalPhase_def)
    show ?thesis
      unfolding pivotPauli_def diag_phase_live [OF l(1)] diag_phase_live [OF l(2)]
        p0_def [symmetric] p1_def [symmetric] bind.bind_lunit Let_def start
      using d1(1) d2(1) d3(1) d4(1) by simp
  qed
  ultimately show ?thesis
    using d4(2) dom4 frame(4) by (auto simp: rule_result_def zx_inv_def verts_vdata rest_def)
qed

end
