(* ===== verification/ZXClifford.thy ===== *)
theory ZXClifford
  imports ZXPivot
begin

text \<open>
  The four rules as instances of the rule contracts, and what \<open>Simplify.cpp\<close> gets from them:
  \<open>idSimp\<close>, \<open>spiderSimp\<close>, \<open>localCompSimp\<close>, \<open>pivotPauliSimp\<close> and \<open>interiorCliffordSimp\<close> always
  return, keep the invariant and the meaning, and stop at a diagram none of their rules applies
  to.
\<close>

definition simplifies :: "ZXDiagram \<Rightarrow> ZXDiagram \<Rightarrow> bool" where
  "simplifies d d' \<longleftrightarrow> same_map d d' \<and> verts d' \<subseteq> verts d \<and> length (vertices d') = length (vertices d)"

lemma simplifies_refl [simp]: "simplifies d d"
  by (simp add: simplifies_def)

lemma simplifies_trans [trans]: "simplifies a b \<Longrightarrow> simplifies b c \<Longrightarrow> simplifies a c"
  by (auto simp: simplifies_def intro: same_map_trans)

lemma rule_simplifies: "rule_result R d d' \<Longrightarrow> simplifies d d'"
  by (auto simp: rule_result_def simplifies_def)

section \<open>Interpretations\<close>

interpretation id_rule: vertex_rule checkIdSimp removeId zx_inv simplifies
proof
  show "\<exists>b. checkIdSimp d v = Some b" if "zx_inv d" "live d v" for d v
    using checkIdSimp_True [of d v] that by auto
  show "\<exists>d'. removeId v d = Some d' \<and> zx_inv d' \<and> simplifies d d' \<and> verts d' = verts d - {v}"
    if "zx_inv d" "live d v" "checkIdSimp d v = Some True" for d v
    using removeId_ok [OF that] rule_simplifies by (auto simp: rule_result_def)
qed (auto intro: simplifies_trans)

interpretation comp_rule: vertex_rule checkLocalComp localComp zx_inv simplifies
proof
  show "\<exists>b. checkLocalComp d v = Some b" if "zx_inv d" "live d v" for d v
    using checkLocalComp_True [of d v] that by auto
  show "\<exists>d'. localComp v d = Some d' \<and> zx_inv d' \<and> simplifies d d' \<and> verts d' = verts d - {v}"
    if "zx_inv d" "live d v" "checkLocalComp d v = Some True" for d v
    using localComp_ok [OF that] rule_simplifies by (auto simp: rule_result_def)
qed (auto intro: simplifies_trans)

lemma rule_result_edge:
  assumes "rule_result R d d'" "v \<in> R" "live d v"
  shows "zx_inv d' \<and> simplifies d d' \<and> verts d' \<subset> verts d \<and> length (vertices d') = length (vertices d)"
  using assms rule_simplifies [OF assms(1)] by (auto simp: rule_result_def verts_def)

interpretation spider_rule: edge_rule checkSpiderFusion fuseSpiders zx_inv simplifies
proof
  show "\<exists>b. checkSpiderFusion d u v = Some b" if "zx_inv d" "live d u" "live d v" for d u v
    using checkSpiderFusion_True [of d u v] that by auto
  show "\<exists>d'. fuseSpiders u v d = Some d' \<and> zx_inv d' \<and> simplifies d d' \<and> verts d' \<subset> verts d \<and>
      length (vertices d') = length (vertices d)"
    if "zx_inv d" "live d u" "live d v" "checkSpiderFusion d u v = Some True" for d u v
    using fuseSpiders_ok [OF that] rule_result_edge [of "{v}" d _ v] that(3) by blast
qed (auto intro: simplifies_trans)

interpretation pivot_rule: edge_rule checkPivotPauli pivotPauli zx_inv simplifies
proof
  show "\<exists>b. checkPivotPauli d u v = Some b" if "zx_inv d" "live d u" "live d v" for d u v
    using checkPivotPauli_True [of d u v] that by auto
  show "\<exists>d'. pivotPauli u v d = Some d' \<and> zx_inv d' \<and> simplifies d d' \<and> verts d' \<subset> verts d \<and>
      length (vertices d') = length (vertices d)"
    if "zx_inv d" "live d u" "live d v" "checkPivotPauli d u v = Some True" for d u v
    using pivotPauli_ok [OF that] rule_result_edge [of "{u, v}" d _ v] that(3) by blast
qed (auto intro: simplifies_trans)

section \<open>The passes\<close>

text \<open>
  A pass: it returns, keeps the invariant, simplifies, and either did nothing at all (then a
  predicate \<open>P\<close> holds) or left fewer vertices.
\<close>

definition pass_result ::
    "(ZXDiagram \<Rightarrow> bool) \<Rightarrow> (ZXDiagram \<Rightarrow> (nat \<times> ZXDiagram) option) \<Rightarrow> ZXDiagram \<Rightarrow> bool" where
  "pass_result P pass d \<longleftrightarrow> (\<exists>n d'. pass d = Some (n, d') \<and> zx_inv d' \<and> simplifies d d' \<and> P d' \<and>
     (n = 0 \<longrightarrow> d' = d) \<and> (0 < n \<longrightarrow> card (verts d') < card (verts d)))"

definition no_vertex :: "(ZXDiagram \<Rightarrow> Vertex \<Rightarrow> bool option) \<Rightarrow> ZXDiagram \<Rightarrow> bool" where
  "no_vertex check d \<longleftrightarrow> (\<forall>v \<in> verts d. check d v = Some False)"

definition no_edge :: "(ZXDiagram \<Rightarrow> Vertex \<Rightarrow> Vertex \<Rightarrow> bool option) \<Rightarrow> ZXDiagram \<Rightarrow> bool" where
  "no_edge check d \<longleftrightarrow> (\<forall>u v. u \<le> v \<longrightarrow> adj d u v \<noteq> None \<longrightarrow> check d u v = Some False)"

lemma getEdges_mem:
  assumes ok: "zx_ok d" and e: "adj d u v \<noteq> None" "u \<le> v" and es: "getEdges d = Some es"
  shows "(u, v) \<in> set es"
proof -
  obtain t where t: "adj d u v = Some t" using e(1) by auto
  then have "live d u" using zx_ok_adj [OF ok t] by simp
  then have "u \<in> set (getVertices d)" "(v, t) \<in> set (edges d ! u)"
    using zx_ok_incident [OF ok, of u v t] t by (simp_all add: set_getVertices verts_def)
  then show ?thesis using es e(2) by (force simp: getEdges_def split: if_splits)
qed

lemma no_edgeI:
  assumes ok: "zx_ok d" and ne: "vertices d \<noteq> []"
    and all: "\<forall>es. getEdges d = Some es \<longrightarrow>
      (\<forall>(u, v) \<in> set es. live d u \<longrightarrow> live d v \<longrightarrow> check d u v = Some False)"
  shows "no_edge check d"
  unfolding no_edge_def
proof (intro allI impI)
  fix u v
  assume e: "u \<le> v" "adj d u v \<noteq> None"
  have "edges d \<noteq> []" using ne zx_ok_length [OF ok] by auto
  then obtain es where es: "getEdges d = Some es" by (simp add: getEdges_def)
  show "check d u v = Some False"
    using getEdges_mem [OF ok e(2,1) es] neighbours_live [OF ok e(2)] all es by auto
qed

lemma idSimp_pass: "zx_inv d \<Longrightarrow> pass_result (no_vertex checkIdSimp) idSimp d"
  using id_rule.loop_ok [of d 0]
  by (auto simp: pass_result_def idSimp_def simplifyVertices_def no_vertex_def)

lemma localCompSimp_pass: "zx_inv d \<Longrightarrow> pass_result (no_vertex checkLocalComp) localCompSimp d"
  using comp_rule.loop_ok [of d 0]
  by (auto simp: pass_result_def localCompSimp_def simplifyVertices_def no_vertex_def)

lemma spiderSimp_pass:
  assumes "zx_inv d" "vertices d \<noteq> []"
  shows "pass_result (no_edge checkSpiderFusion) spiderSimp d"
proof -
  obtain n d' where d': "spiderSimp d = Some (n, d')" "zx_inv d'" "simplifies d d'"
    "length (vertices d') = length (vertices d)" "n = 0 \<longrightarrow> d' = d"
    "0 < n \<longrightarrow> card (verts d') < card (verts d)"
    "\<forall>es. getEdges d' = Some es \<longrightarrow>
      (\<forall>(u, v) \<in> set es. live d' u \<longrightarrow> live d' v \<longrightarrow> checkSpiderFusion d' u v = Some False)"
    using spider_rule.loop_ok [OF assms, of 0] unfolding spiderSimp_def simplifyEdges_def by blast
  moreover have "vertices d' \<noteq> []" using d'(4) assms(2) by auto
  ultimately show ?thesis
    using no_edgeI [of d' checkSpiderFusion] zx_inv_ok unfolding pass_result_def by blast
qed

lemma pivotPauliSimp_pass:
  assumes "zx_inv d" "vertices d \<noteq> []"
  shows "pass_result (no_edge checkPivotPauli) pivotPauliSimp d"
proof -
  obtain n d' where d': "pivotPauliSimp d = Some (n, d')" "zx_inv d'" "simplifies d d'"
    "length (vertices d') = length (vertices d)" "n = 0 \<longrightarrow> d' = d"
    "0 < n \<longrightarrow> card (verts d') < card (verts d)"
    "\<forall>es. getEdges d' = Some es \<longrightarrow>
      (\<forall>(u, v) \<in> set es. live d' u \<longrightarrow> live d' v \<longrightarrow> checkPivotPauli d' u v = Some False)"
    using pivot_rule.loop_ok [OF assms, of 0] unfolding pivotPauliSimp_def simplifyEdges_def by blast
  moreover have "vertices d' \<noteq> []" using d'(4) assms(2) by auto
  ultimately show ?thesis
    using no_edgeI [of d' checkPivotPauli] zx_inv_ok unfolding pass_result_def by blast
qed

section \<open>Interior Clifford simplification\<close>

definition clifford_done :: "ZXDiagram \<Rightarrow> bool" where
  "clifford_done d \<longleftrightarrow> no_vertex checkIdSimp d \<and> no_edge checkSpiderFusion d \<and>
     no_edge checkPivotPauli d \<and> no_vertex checkLocalComp d"

lemma pass_step:
  assumes "pass_result P pass d"
  obtains n d' where "pass d = Some (n, d')" "zx_inv d'" "simplifies d d'" "P d'" "n = 0 \<longrightarrow> d' = d"
    "0 < n \<longrightarrow> card (verts d') < card (verts d)"
  using assms unfolding pass_result_def by blast

lemma simplifies_card: "simplifies d d' \<Longrightarrow> card (verts d') \<le> card (verts d)"
  by (simp add: simplifies_def card_mono)

lemma simplifies_nonempty: "simplifies d d' \<Longrightarrow> vertices d \<noteq> [] \<Longrightarrow> vertices d' \<noteq> []"
  by (auto simp: simplifies_def)

lemma interior_round_ok:
  assumes inv: "zx_inv d" and ne: "vertices d \<noteq> []"
  shows "\<exists>k d'. interior_round d = Some (k, d') \<and> zx_inv d' \<and> simplifies d d' \<and>
    (k = 0 \<longrightarrow> clifford_done d') \<and> (0 < k \<longrightarrow> card (verts d') < card (verts d))"
proof -
  obtain n1 d1 where p1: "idSimp d = Some (n1, d1)" "zx_inv d1" "simplifies d d1"
    "no_vertex checkIdSimp d1" "n1 = 0 \<longrightarrow> d1 = d" "0 < n1 \<longrightarrow> card (verts d1) < card (verts d)"
    using idSimp_pass [OF inv] by (rule pass_step)
  note ne1 = simplifies_nonempty [OF p1(3) ne]
  obtain n2 d2 where p2: "spiderSimp d1 = Some (n2, d2)" "zx_inv d2" "simplifies d1 d2"
    "no_edge checkSpiderFusion d2" "n2 = 0 \<longrightarrow> d2 = d1" "0 < n2 \<longrightarrow> card (verts d2) < card (verts d1)"
    using spiderSimp_pass [OF p1(2) ne1] by (rule pass_step)
  note ne2 = simplifies_nonempty [OF p2(3) ne1]
  obtain n3 d3 where p3: "pivotPauliSimp d2 = Some (n3, d3)" "zx_inv d3" "simplifies d2 d3"
    "no_edge checkPivotPauli d3" "n3 = 0 \<longrightarrow> d3 = d2" "0 < n3 \<longrightarrow> card (verts d3) < card (verts d2)"
    using pivotPauliSimp_pass [OF p2(2) ne2] by (rule pass_step)
  obtain n4 d4 where p4: "localCompSimp d3 = Some (n4, d4)" "zx_inv d4" "simplifies d3 d4"
    "no_vertex checkLocalComp d4" "n4 = 0 \<longrightarrow> d4 = d3" "0 < n4 \<longrightarrow> card (verts d4) < card (verts d3)"
    using localCompSimp_pass [OF p3(2)] by (rule pass_step)
  have "interior_round d = Some (n1 + n2 + n3 + n4, d4)"
    using p1(1) p2(1) p3(1) p4(1) by (simp add: interior_round_def)
  moreover have "simplifies d d4" using p1(3) p2(3) p3(3) p4(3) by (meson simplifies_trans)
  moreover have "clifford_done d4" if "n1 + n2 + n3 + n4 = 0"
    using that p1(4,5) p2(4,5) p3(4,5) p4(4,5) by (simp add: clifford_done_def)
  moreover have "card (verts d4) < card (verts d)" if "0 < n1 + n2 + n3 + n4"
    using that p1(6) p2(6) p3(6) p4(6) simplifies_card [OF p1(3)] simplifies_card [OF p2(3)]
      simplifies_card [OF p3(3)] simplifies_card [OF p4(3)] by linarith
  ultimately show ?thesis using p4(2) by blast
qed

lemma interior_loop_ok:
  assumes "zx_inv d" "vertices d \<noteq> []"
  shows "\<exists>n' d'. interior_loop n d = Some (n', d') \<and> zx_inv d' \<and> simplifies d d' \<and> clifford_done d' \<and> n \<le> n' \<and> n' - n \<le> card (verts d)"
  using assms
proof (induction "card (verts d)" arbitrary: n d rule: less_induct)
  case less
  obtain k d1 where r: "interior_round d = Some (k, d1)" "zx_inv d1" "simplifies d d1"
    "k = 0 \<longrightarrow> clifford_done d1" "0 < k \<longrightarrow> card (verts d1) < card (verts d)"
    using interior_round_ok [OF less.prems] by blast
  show ?case
  proof (cases "k = 0")
    case True
    then show ?thesis using r by (subst interior_loop.simps) auto
  next
    case False
    obtain n2 d2 where q: "interior_loop (Suc n) d1 = Some (n2, d2)" "zx_inv d2" "simplifies d1 d2"
      "clifford_done d2" "Suc n \<le> n2" "n2 - Suc n \<le> card (verts d1)"
      using less.hyps [OF _ r(2) simplifies_nonempty [OF r(3) less.prems(2)], of "Suc n"] r(5) False by blast
    then show ?thesis
      using r False simplifies_trans [OF r(3) q(3)] by (subst interior_loop.simps) auto
  qed
qed

lemma interiorCliffordSimp_result:
  assumes inv: "zx_inv d" and ne: "vertices d \<noteq> []"
  shows "\<exists>n d'. interiorCliffordSimp d = Some (n, d') \<and> zx_inv d' \<and> simplifies d d' \<and> clifford_done d' \<and>
    n \<le> card (verts d)"
proof -
  obtain m d1 where p: "spiderSimp d = Some (m, d1)" "zx_inv d1" "simplifies d d1"
    using spiderSimp_pass [OF assms] by (rule pass_step)
  obtain n d2 where q: "interior_loop 0 d1 = Some (n, d2)" "zx_inv d2" "simplifies d1 d2"
    "clifford_done d2" "n \<le> card (verts d1)"
    using interior_loop_ok [OF p(2) simplifies_nonempty [OF p(3) ne], of 0] by auto
  show ?thesis
    using p(1) q simplifies_trans [OF p(3) q(3)] simplifies_card [OF p(3)]
    by (auto simp: interiorCliffordSimp_def)
qed

end
