(* ===== verification/ZXConstruct.thy ===== *)
theory ZXConstruct
  imports ZXClifford
begin

text \<open>
  Whole-diagram operations: \<open>toGraphlike\<close> removes all X spiders without changing the meaning,
  \<open>invert\<close> conjugates it, the constructor builds the identity on \<open>n\<close> qubits, and
  \<open>removeDisconnectedSpiders\<close> keeps exactly the vertices connected to an input or output.
\<close>

section \<open>Colour change\<close>

lemma toggle_pair_ok:
  assumes ok: "zx_ok s" and lv: "live s v" and i: "i < length (edges s ! v)"
    and e: "edges s ! v ! i = (w, t)"
  shows "\<exists>s'. toggle_edge_pair v i s = Some s' \<and> zx_ok s' \<and> same_frame s s' \<and>
    length (vertices s') = length (vertices s) \<and> vdata s' = vdata s \<and>
    adj s' = set_edge (adj s) v w (Some (toggle_type t)) \<and>
    edges s' ! v = (edges s ! v)[i := (w, toggle_type t)]"
proof -
  have "(w, t) \<in> set (edges s ! v)" using i e by (metis nth_mem)
  then have a: "adj s v w = Some t" using zx_ok_incident [OF ok lv] by simp
  then have w: "v \<noteq> w" "live s w" "adj s w v = Some t" using zx_ok_adj [OF ok a] by simp_all
  have lens: "v < length (edges s)" "w < length (edges s)"
    using lv w(2) ok by (simp_all add: live_def zx_ok_length)
  obtain j where j: "find_if (\<lambda>e. fst e = v) (edges s ! w) = Some j"
    using find_edge_None [OF ok w(2), of v] w(3) by auto
  note fj = find_edge_Some [OF ok w(2) j]
  let ?d1 = "s\<lparr>edges := (edges s)[v := (edges s ! v)[i := (w, toggle_type t)]]\<rparr>"
  let ?d2 = "s\<lparr>edges := (edges s)[v := (edges s ! v)[i := (w, toggle_type t)],
                                   w := (edges s ! w)[j := (v, toggle_type t)]]\<rparr>"
  have s1: "modifyEdgeAt toggle v i s = Some ?d1"
    using lens i e by (simp add: modifyEdgeAt_def vec_simps toggle_eq)
  have s2: "togglePtr w v ?d1 = Some ?d2"
    using lens w(1,3) j fj by (simp add: togglePtr_def getEdgePtr_def modifyEdgeAt_def vec_simps toggle_eq)
  have "toggle_edge_pair v i s = Some ?d2"
    unfolding toggle_edge_pair_def s1 using lens i s2 by (simp add: vec_simps)
  moreover have "zx_ok ?d2 \<and> touches {v, w} s ?d2 \<and> graph_of ?d2 = (vdata s, set_edge (adj s) v w (Some (toggle_type t)))"
    by (rule retype_pair_ok [OF ok lv w(2,1)]) (use i e fj in simp_all)
  ultimately show ?thesis
    using lens w(1) by (auto simp: graph_of_def touches_def)
qed

definition toggled :: "Vertex \<Rightarrow> Vertex set \<Rightarrow> (Vertex \<Rightarrow> Vertex \<Rightarrow> EdgeType option) \<Rightarrow>
    Vertex \<Rightarrow> Vertex \<Rightarrow> EdgeType option" where
  "toggled v N G a b = (if a = v \<and> b \<in> N \<or> b = v \<and> a \<in> N then map_option toggle_type (G a b) else G a b)"

lemma toggle_loop:
  assumes ok: "zx_ok d" and lv: "live d v" and k: "k \<le> length (edges d ! v)"
  shows "\<exists>s. fold_opt (toggle_edge_pair v) [0..<k] d = Some s \<and> zx_ok s \<and> same_frame d s \<and>
    length (vertices s) = length (vertices d) \<and> vdata s = vdata d \<and>
    adj s = toggled v (fst ` set (take k (edges d ! v))) (adj d) \<and>
    edges s ! v = map toggle (take k (edges d ! v)) @ drop k (edges d ! v)"
  using k
proof (induction k)
  case 0
  then show ?case using ok by (simp add: toggled_def fun_eq_iff)
next
  case (Suc k)
  let ?es = "edges d ! v"
  have k: "k < length ?es" using Suc.prems by simp
  obtain s where s: "fold_opt (toggle_edge_pair v) [0..<k] d = Some s" "zx_ok s" "same_frame d s"
    "length (vertices s) = length (vertices d)" "vdata s = vdata d"
    "adj s = toggled v (fst ` set (take k ?es)) (adj d)"
    "edges s ! v = map toggle (take k ?es) @ drop k ?es"
    using Suc.IH k by auto
  obtain w t where e: "?es ! k = (w, t)" by force
  have ls: "live s v" using lv s(5) by (simp add: live_vdata)
  have es: "k < length (edges s ! v)" "edges s ! v ! k = (w, t)"
    using s(7) k e by (simp_all add: nth_append)
  obtain s' where s': "toggle_edge_pair v k s = Some s'" "zx_ok s'" "same_frame s s'"
    "length (vertices s') = length (vertices s)" "vdata s' = vdata s"
    "adj s' = set_edge (adj s) v w (Some (toggle_type t))"
    "edges s' ! v = (edges s ! v)[k := (w, toggle_type t)]"
    using toggle_pair_ok [OF s(2) ls es] by blast
  have "(w, t) \<in> set ?es" using k e by (metis nth_mem)
  then have a: "adj d v w = Some t" using zx_ok_incident [OF ok lv] by simp
  then have w: "v \<noteq> w" "adj d w v = Some t" using zx_ok_adj [OF ok a] by simp_all
  have tk: "take (Suc k) ?es = take k ?es @ [(w, t)]" using k e by (simp add: take_Suc_conv_app_nth)
  have "adj s' = toggled v (fst ` set (take (Suc k) ?es)) (adj d)"
    using a w by (auto simp: s'(6) s(6) tk toggled_def set_edge_apply fun_eq_iff)
  moreover have "edges s' ! v = map toggle (take (Suc k) ?es) @ drop (Suc k) ?es"
    using k e s(7) s'(7) tk
    by (simp add: list_update_append toggle_eq Cons_nth_drop_Suc [OF k, symmetric] del: take_Suc_conv_app_nth)
  moreover have "fold_opt (toggle_edge_pair v) [0..<Suc k] d = Some s'"
    using s(1) s'(1) by (simp add: fold_opt_append)
  ultimately show ?case
    using s' s(3,4,5) same_frame_trans [OF s(3) s'(3)] by auto
qed

text \<open>A colour change at one vertex leaves every amplitude as it is.\<close>

definition to_Z :: "VertexData \<Rightarrow> VertexData" where
  "to_Z x = x\<lparr>vtype := Z\<rparr>"

lemma recolour_amp:
  assumes ok: "graph_ok (D, G)" and x: "D v = Some x" "vtype x = X"
  shows "amp s V (D(v \<mapsto> to_Z x), toggled v UNIV G) S = amp s V (D, G) S"
proof -
  let ?D = "D(v \<mapsto> to_Z x)" and ?G = "toggled v UNIV G"
  have "vweight s ?D w b = vweight s D w b" for w b
    using x by (simp add: vweight_def to_Z_def)
  moreover have "eweight (?D, ?G) a b p q = eweight (D, G) a b p q" if "a \<noteq> b" for a b p q
  proof -
    have isX: "is_X ?D w = (w \<noteq> v \<and> is_X D w)" "is_X D v" for w
      using x by (simp_all add: is_X_def to_Z_def)
    show ?thesis
      using that isX by (cases "G a b") (auto simp: eweight_def toggled_def eff_def)
  qed
  ultimately show ?thesis
    unfolding amp_def by (intro arg_cong2 [where f = times] prod.cong) (auto simp: pairs_def)
qed

lemma toggled_all:
  assumes ok: "zx_ok d" and lv: "live d v"
  shows "toggled v (fst ` set (edges d ! v)) (adj d) = toggled v UNIV (adj d)"
proof -
  have none: "adj d v w = None \<and> adj d w v = None" if "w \<notin> fst ` set (edges d ! v)" for w
  proof -
    have "(w, t) \<notin> set (edges d ! v)" for t using that by force
    then have "adj d v w = None" using zx_ok_incident [OF ok lv, of w] by (cases "adj d v w") auto
    then show ?thesis using zx_ok_sym [OF ok, of v w] by simp
  qed
  show ?thesis
    using none by (fastforce simp: toggled_def fun_eq_iff)
qed

lemma recolour_X:
  assumes ok: "zx_ok d" and x: "vdata d v = Some x" "vtype x = X"
  shows "\<exists>d'. recolour v d = Some d' \<and> zx_ok d' \<and> same_frame d d' \<and>
    length (vertices d') = length (vertices d) \<and>
    vdata d' = (vdata d)(v \<mapsto> to_Z x) \<and> adj d' = toggled v UNIV (adj d)"
proof -
  have lv: "live d v" using x by (simp add: live_vdata)
  let ?n = "length (edges d ! v)"
  obtain s where s: "fold_opt (toggle_edge_pair v) [0..<?n] d = Some s" "zx_ok s" "same_frame d s"
    "length (vertices s) = length (vertices d)" "vdata s = vdata d"
    "adj s = toggled v (fst ` set (edges d ! v)) (adj d)"
    using toggle_loop [OF ok lv order.refl] by auto
  have ls: "live s v" using lv s(5) by (simp add: live_vdata)
  have st: "setType v Z = map_vertex to_Z v" by (simp add: setType_def to_Z_def [abs_def])
  obtain d' where d': "setType v Z s = Some d'" "zx_ok d'" "edges d' = edges s" "same_frame s d'"
    "graph_of d' = (upd_data to_Z v (vdata s), adj s)"
    unfolding st using map_vertex_ok [OF s(2) ls] by blast
  have "recolour v d = Some d'"
    using lv ok x s(1) d'(1) by (simp add: recolour_def diag_simps)
  moreover have "length (vertices d') = length (vertices d)"
    using d'(2,3) s(2,4) zx_ok_length [of d'] zx_ok_length [of s] by simp
  moreover have "vdata d' = (vdata d)(v \<mapsto> to_Z x)" "adj d' = toggled v UNIV (adj d)"
    using d'(5) s(5,6) x toggled_all [OF ok lv] by (simp_all add: graph_of_eq upd_data_def)
  ultimately show ?thesis using d'(2,4) same_frame_trans [OF s(3) d'(4)] by blast
qed

lemma recolour_ok:
  assumes inv: "zx_inv d" and v: "v < length (vertices d)"
  shows "\<exists>d'. recolour v d = Some d' \<and> zx_inv d' \<and> same_map d d' \<and> verts d' = verts d \<and>
    length (vertices d') = length (vertices d) \<and> (\<forall>w. is_X (vdata d') w \<longleftrightarrow> w \<noteq> v \<and> is_X (vdata d) w)"
proof (cases "is_X (vdata d) v")
  case False
  have "recolour v d = Some d"
    using v False by (auto simp: recolour_def getVData_def vec_simps is_X_def vdata_def split: option.split)
  then show ?thesis using inv False by auto
next
  case True
  have ok: "zx_ok d" and ph: "phases_ok d" and thin: "thin_boundary d"
    using inv by (simp_all add: zx_inv_def)
  obtain x where x: "vdata d v = Some x" "vtype x = X"
    using True by (auto simp: is_X_def split: option.splits)
  obtain d' where d': "recolour v d = Some d'" "zx_ok d'" "same_frame d d'"
    "length (vertices d') = length (vertices d)" "vdata d' = (vdata d)(v \<mapsto> to_Z x)"
    "adj d' = toggled v UNIV (adj d)"
    using recolour_X [OF ok x] by blast
  have gok: "graph_ok (vdata d, adj d)" using graph_ok_diagram [OF ok ph] by (simp add: graph_of_def)
  have dom: "verts d' = verts d" using d'(5) x by (auto simp: verts_vdata)
  have bd: "is_boundary (vdata d') = is_boundary (vdata d)"
    using d'(5) x by (auto simp: is_boundary_def fun_eq_iff to_Z_def)
  have ad: "adj d' a b \<noteq> None \<longleftrightarrow> adj d a b \<noteq> None" for a b
    by (simp add: d'(6) toggled_def)
  have "phases_ok d'"
    using ph d'(3,5) x by (auto simp: phases_ok_def same_frame_def to_Z_def)
  moreover have "thin_boundary d'" using thin unfolding thin_boundary_def bd ad .
  moreover have "same_map d d'"
  proof (rule same_mapI [where V = "verts d" and R = "{}" and F = "\<lambda>_ _. 1" and K = "\<lambda>_ _. 1" and c = 1])
    show "amp s (verts d) (graph_of d') T = amp s (verts d) (graph_of d) T * 1" for s T
      using recolour_amp [OF gok x] by (simp add: graph_of_def d'(5,6))
  qed (use d'(3) dom bd in \<open>auto simp: same_frame_def verts_vdata\<close>)
  moreover have "is_X (vdata d') w \<longleftrightarrow> w \<noteq> v \<and> is_X (vdata d) w" for w
    by (simp add: d'(5) is_X_def to_Z_def)
  ultimately show ?thesis using d'(1,2,4) dom by (auto simp: zx_inv_def)
qed

lemma toGraphlike_result:
  assumes inv: "zx_inv d"
  shows "\<exists>d'. toGraphlike d = Some d' \<and> zx_inv d' \<and> same_map d d' \<and> verts d' = verts d \<and>
    length (vertices d') = length (vertices d) \<and> (\<forall>w. \<not> is_X (vdata d') w)"
proof -
  have "\<exists>d'. fold_opt recolour [0..<k] d = Some d' \<and> zx_inv d' \<and> same_map d d' \<and> verts d' = verts d \<and>
      length (vertices d') = length (vertices d) \<and> (\<forall>w. is_X (vdata d') w \<longleftrightarrow> k \<le> w \<and> is_X (vdata d) w)"
    if "k \<le> length (vertices d)" for k
    using that
  proof (induction k)
    case 0
    then show ?case using inv by simp
  next
    case (Suc k)
    then obtain d1 where d1: "fold_opt recolour [0..<k] d = Some d1" "zx_inv d1" "same_map d d1"
      "verts d1 = verts d" "length (vertices d1) = length (vertices d)"
      "\<forall>w. is_X (vdata d1) w \<longleftrightarrow> k \<le> w \<and> is_X (vdata d) w"
      by auto
    then obtain d2 where d2: "recolour k d1 = Some d2" "zx_inv d2" "same_map d1 d2" "verts d2 = verts d1"
      "length (vertices d2) = length (vertices d1)" "\<forall>w. is_X (vdata d2) w \<longleftrightarrow> w \<noteq> k \<and> is_X (vdata d1) w"
      using recolour_ok [OF d1(2), of k] Suc.prems by auto
    then show ?case
      using d1 same_map_trans [OF d1(3) d2(3)] by (auto simp: fold_opt_append)
  qed
  from this [OF order.refl] obtain d' where d': "toGraphlike d = Some d'" "zx_inv d'" "same_map d d'"
    "verts d' = verts d" "length (vertices d') = length (vertices d)"
    "\<forall>w. is_X (vdata d') w \<longleftrightarrow> length (vertices d) \<le> w \<and> is_X (vdata d) w"
    by (auto simp: toGraphlike_def)
  moreover have "\<not> is_X (vdata d) w" if "length (vertices d) \<le> w" for w
    using that by (simp add: is_X_def vdata_def)
  ultimately show ?thesis by blast
qed

section \<open>The constructor\<close>

lemma addVertex_fresh:
  assumes "deleted d = []" "zx_ok d" "length (vertices d) < 2 ^ 64"
  shows "addVertex x d = Some (length (vertices d), d\<lparr>nvertices := nvertices d + 1,
    vertices := vertices d @ [Some x], edges := edges d @ [[]]\<rparr>)"
  using assms nvertices_no_deleted [OF assms(2,1)] by (simp add: addVertex_def Let_def unat_size_t)

definition port :: "Col \<Rightarrow> nat \<Rightarrow> VertexData" where
  "port c i = \<lparr>col = c, qubit = int i, phase = expr_empty, vtype = Boundary\<rparr>"

lemma zx_ok_empty: "zx_ok empty_diagram"
  by (simp add: zx_ok_def empty_diagram_def symmetric_adj_def adj_def live_def verts_def edge_set_def)

text \<open>A diagram without deleted slots, as far as the constructor has got.\<close>

definition built :: "nat \<Rightarrow> Vertex list \<Rightarrow> Vertex list \<Rightarrow> (Vertex \<Rightarrow> VertexData option) \<Rightarrow>
    (Vertex \<Rightarrow> Vertex \<Rightarrow> EdgeType option) \<Rightarrow> ZXDiagram \<Rightarrow> bool" where
  "built m ins outs D G d \<longleftrightarrow> zx_ok d \<and> deleted d = [] \<and> length (vertices d) = m \<and>
     inputs d = ins \<and> outputs d = outs \<and> globalPhase d = expr_empty \<and> vdata d = D \<and> adj d = G"

lemma built_addVertex:
  assumes b: "built m ins outs D G d" and m: "m < 2 ^ 64"
  shows "\<exists>d'. addVertex x d = Some (m, d') \<and> built (Suc m) ins outs (D(m \<mapsto> x)) G d'"
proof -
  have d: "zx_ok d" "deleted d = []" "length (vertices d) = m" using b by (simp_all add: built_def)
  then have room: "length (vertices d) < 2 ^ 64" using m by simp
  obtain v d' where d': "addVertex x d = Some (v, d')" "zx_ok d'" "vdata d' = (vdata d)(v := Some x)"
    "adj d' = adj d" "same_frame d d'"
    using addVertex_ok [OF d(1) room, of x] by blast
  have e: "addVertex x d = Some (m, d\<lparr>nvertices := nvertices d + 1, vertices := vertices d @ [Some x],
      edges := edges d @ [[]]\<rparr>)"
    using addVertex_fresh [OF d(2,1) room] d(3) by simp
  then have "v = m" "deleted d' = []" "length (vertices d') = Suc m"
    using d'(1) d(2,3) by auto
  then show ?thesis using d' b by (auto simp: built_def same_frame_def)
qed

lemma ports_update:
  "live (d\<lparr>inputs := x\<rparr>) = live d" "live (d\<lparr>outputs := x\<rparr>) = live d"
  "vdata (d\<lparr>inputs := x\<rparr>) = vdata d" "vdata (d\<lparr>outputs := x\<rparr>) = vdata d"
  "adj (d\<lparr>inputs := x\<rparr>) = adj d" "adj (d\<lparr>outputs := x\<rparr>) = adj d"
  "zx_ok (d\<lparr>inputs := x\<rparr>) \<longleftrightarrow> zx_ok d" "zx_ok (d\<lparr>outputs := x\<rparr>) \<longleftrightarrow> zx_ok d"
proof -
  show l: "live (d\<lparr>inputs := x\<rparr>) = live d" "live (d\<lparr>outputs := x\<rparr>) = live d"
    by (simp_all add: live_def fun_eq_iff)
  show v: "vdata (d\<lparr>inputs := x\<rparr>) = vdata d" "vdata (d\<lparr>outputs := x\<rparr>) = vdata d"
    by (simp_all add: vdata_def fun_eq_iff)
  show a: "adj (d\<lparr>inputs := x\<rparr>) = adj d" "adj (d\<lparr>outputs := x\<rparr>) = adj d"
    by (simp_all add: adj_def fun_eq_iff l)
  show "zx_ok (d\<lparr>inputs := x\<rparr>) \<longleftrightarrow> zx_ok d" "zx_ok (d\<lparr>outputs := x\<rparr>) \<longleftrightarrow> zx_ok d"
    by (simp_all add: zx_ok_def symmetric_adj_def verts_def edge_set_def a l)
qed

lemma initGraph_built:
  assumes "n < 2 ^ 64"
  shows "\<exists>d. initGraph n empty_diagram = Some ([0..<n], d) \<and>
    built n [0..<n] [] (\<lambda>v. if v < n then Some (port 1 v) else None) (\<lambda>_ _. None) d"
  using assms
proof (induction n)
  case 0
  then show ?case
    by (simp add: initGraph_def built_def zx_ok_empty)
      (simp add: empty_diagram_def vdata_def adj_def live_def fun_eq_iff)
next
  case (Suc n)
  then obtain d where d: "initGraph n empty_diagram = Some ([0..<n], d)"
    "built n [0..<n] [] (\<lambda>v. if v < n then Some (port 1 v) else None) (\<lambda>_ _. None) d"
    by auto
  obtain d' where d': "addVertex (port 1 n) d = Some (n, d')"
    "built (Suc n) [0..<n] [] ((\<lambda>v. if v < n then Some (port 1 v) else None)(n \<mapsto> port 1 n)) (\<lambda>_ _. None) d'"
    using built_addVertex [OF d(2), of "port 1 n"] Suc.prems by auto
  have fn: "(\<lambda>v. if v < n then Some (port 1 v) else None)(n \<mapsto> port 1 n)
      = (\<lambda>v. if v < Suc n then Some (port 1 v) else None)"
    by (auto simp: fun_eq_iff)
  let ?e = "d'\<lparr>inputs := inputs d' @ [n]\<rparr>"
  have "zx_ok ?e \<longleftrightarrow> zx_ok d'" "vdata ?e = vdata d'" "adj ?e = adj d'"
    by (simp_all add: ports_update)
  then have "built (Suc n) [0..<Suc n] [] (\<lambda>v. if v < Suc n then Some (port 1 v) else None) (\<lambda>_ _. None) ?e"
    using d'(2) unfolding fn by (simp add: built_def)
  moreover have "initGraph (Suc n) empty_diagram = Some ([0..<Suc n], ?e)"
    using d(1) d'(1) by (simp add: initGraph_def fold_opt_append port_def)
  ultimately show ?case by blast
qed

definition wire_data :: "nat \<Rightarrow> nat \<Rightarrow> Vertex \<Rightarrow> VertexData option" where
  "wire_data n j v = (if v < n then Some (port 1 v)
     else if v < n + j then Some (port 2 (v - n)) else None)"

definition wire_adj :: "nat \<Rightarrow> nat \<Rightarrow> Vertex \<Rightarrow> Vertex \<Rightarrow> EdgeType option" where
  "wire_adj n j u v = (if u < j \<and> v = n + u \<or> v < j \<and> u = n + v then Some Simple else None)"

lemma closeGraph_built:
  assumes n: "n + n < 2 ^ 64" and d0: "built n [0..<n] [] (wire_data n 0) (wire_adj n 0) d0" and j: "j \<le> n"
  shows "\<exists>d. closeGraph [0..<j] d0 = Some d \<and>
    built (n + j) [0..<n] [n..<n + j] (wire_data n j) (wire_adj n j) d"
  using j
proof (induction j)
  case 0
  then show ?case using d0 by (simp add: closeGraph_def)
next
  case (Suc j)
  then obtain d where d: "closeGraph [0..<j] d0 = Some d"
    "built (n + j) [0..<n] [n..<n + j] (wire_data n j) (wire_adj n j) d"
    by auto
  have vd: "vdata d = wire_data n j" and okd: "zx_ok d" using d(2) by (simp_all add: built_def)
  have jn: "j < n" using Suc.prems by simp
  have w: "getVData d j = Some (Some (port 1 j))"
    using jn getVData_live [of d j] by (simp add: live_vdata vd wire_data_def)
  have bound: "n + j < 2 ^ 64" using n jn by linarith
  obtain d1 where d1: "addVertex (port 2 j) d = Some (n + j, d1)"
    "built (Suc (n + j)) [0..<n] [n..<n + j] ((wire_data n j)(n + j \<mapsto> port 2 j)) (wire_adj n j) d1"
    using built_addVertex [OF d(2) bound] by blast
  have l1: "live d1 j" "live d1 (n + j)" "zx_ok d1" "adj d1 j (n + j) = None"
    using d1(2) jn by (auto simp: built_def live_vdata wire_data_def wire_adj_def)
  have neq: "j \<noteq> n + j" using jn by simp
  obtain d2 where d2: "addEdge j (n + j) Simple d1 = Some d2" "zx_ok d2" "touches {j, n + j} d1 d2"
    "graph_of d2 = (vdata d1, set_edge (adj d1) j (n + j) (Some Simple))"
    using addEdge_ok [OF l1(3,1,2) neq l1(4)] by blast
  have del: "deleted d2 = []"
    using d2(1) d1(2) by (auto simp: addEdge_def modify_incident_def built_def split: Option.bind_splits)
  have fn: "(wire_data n j)(n + j \<mapsto> port 2 j) = wire_data n (Suc j)"
    by (auto simp: fun_eq_iff wire_data_def)
  have fe: "set_edge (wire_adj n j) j (n + j) (Some Simple) = wire_adj n (Suc j)"
    using jn by (auto simp: fun_eq_iff wire_adj_def set_edge_apply)
  let ?e = "d2\<lparr>outputs := outputs d2 @ [n + j]\<rparr>"
  have "zx_ok ?e \<longleftrightarrow> zx_ok d2" "vdata ?e = vdata d2" "adj ?e = adj d2"
    by (simp_all add: ports_update)
  then have "built (n + Suc j) [0..<n] [n..<n + Suc j] (wire_data n (Suc j)) (wire_adj n (Suc j)) ?e"
    using d1(2) d2 del fn fe
    by (simp add: built_def touches_def same_frame_def graph_of_def)
  moreover have "closeGraph [0..<Suc j] d0 = Some ?e"
    using d(1) w d1(1) d2(1) by (simp add: closeGraph_def fold_opt_append port_def)
  ultimately show ?case by blast
qed

lemma ZXDiagram_new_built:
  assumes "n + n < 2 ^ 64"
  shows "\<exists>d. ZXDiagram_new n = Some d \<and>
    built (n + n) [0..<n] [n..<n + n] (wire_data n n) (wire_adj n n) d"
proof -
  obtain d0 where d0: "initGraph n empty_diagram = Some ([0..<n], d0)"
    "built n [0..<n] [] (\<lambda>v. if v < n then Some (port 1 v) else None) (\<lambda>_ _. None) d0"
    using initGraph_built [of n] assms by auto
  have "wire_data n 0 = (\<lambda>v. if v < n then Some (port 1 v) else None)" "wire_adj n 0 = (\<lambda>_ _. None)"
    by (simp_all add: wire_data_def wire_adj_def fun_eq_iff)
  then show ?thesis using closeGraph_built [OF assms, of d0 n] d0 by (simp add: ZXDiagram_new_def)
qed

text \<open>The new diagram is well-formed, and its linear map is the identity.\<close>

lemma wire_boundary: "is_boundary (wire_data n n) v \<longleftrightarrow> v < n + n"
  by (auto simp: is_boundary_def wire_data_def port_def)

lemma prod_zero_one:
  fixes P :: "'a \<Rightarrow> bool"
  assumes "finite A"
  shows "(\<Prod>x\<in>A. if P x then 1 else (0::complex)) = (if \<forall>x\<in>A. P x then 1 else 0)"
  using assms by (induction A rule: finite_induct) auto

lemma wire_amp:
  "amp s {..<n + n} (wire_data n n, wire_adj n n) B = (if \<forall>i<n. i \<in> B \<longleftrightarrow> n + i \<in> B then 1 else 0)"
proof -
  let ?g = "(wire_data n n, wire_adj n n)"
  have "vweight s (wire_data n n) v b = 1" for v b
    by (simp add: vweight_def wire_data_def port_def)
  then have "amp s {..<n + n} ?g B = (\<Prod>(u, v)\<in>pairs {..<n + n}. eweight ?g u v (u \<in> B) (v \<in> B))"
    by (simp add: amp_def)
  also have "\<dots> = (\<Prod>p\<in>pairs {..<n + n}. if fst p < n \<and> snd p = n + fst p \<longrightarrow> (fst p \<in> B \<longleftrightarrow> snd p \<in> B) then 1 else 0)"
  proof (rule prod.cong [OF refl])
    fix p
    assume "p \<in> pairs {..<n + n}"
    then obtain u v where p: "p = (u, v)" "u < v" by (auto simp: pairs_def)
    have "is_X (wire_data n n) w = False" for w by (simp add: is_X_def wire_data_def port_def)
    then show "(case p of (u, v) \<Rightarrow> eweight ?g u v (u \<in> B) (v \<in> B))
        = (if fst p < n \<and> snd p = n + fst p \<longrightarrow> (fst p \<in> B \<longleftrightarrow> snd p \<in> B) then 1 else 0)"
      using p by (auto simp: eweight_def wire_adj_def eff_def)
  qed
  also have "\<dots> = (if \<forall>i<n. i \<in> B \<longleftrightarrow> n + i \<in> B then 1 else 0)"
  proof -
    have "(\<forall>p\<in>pairs {..<n + n}. fst p < n \<and> snd p = n + fst p \<longrightarrow> (fst p \<in> B \<longleftrightarrow> snd p \<in> B))
        \<longleftrightarrow> (\<forall>i<n. i \<in> B \<longleftrightarrow> n + i \<in> B)"
      by (force simp: pairs_def)
    then show ?thesis by (simp add: prod_zero_one)
  qed
  finally show ?thesis .
qed

lemma ZXDiagram_new_result:
  assumes "n + n < 2 ^ 64"
  shows "\<exists>d. ZXDiagram_new n = Some d \<and> zx_inv d \<and> ports_ok d \<and>
    inputs d = [0..<n] \<and> outputs d = [n..<n + n] \<and>
    (\<forall>s. \<forall>B \<subseteq> boundary_verts d. zx_sem s d B = (if \<forall>i<n. i \<in> B \<longleftrightarrow> n + i \<in> B then 1 else 0))"
proof -
  obtain d where d: "ZXDiagram_new n = Some d"
    "built (n + n) [0..<n] [n..<n + n] (wire_data n n) (wire_adj n n) d"
    using ZXDiagram_new_built [OF assms] by blast
  have p: "zx_ok d" "inputs d = [0..<n]" "outputs d = [n..<n + n]" "globalPhase d = expr_empty"
    "vdata d = wire_data n n" "adj d = wire_adj n n"
    using d(2) by (simp_all add: built_def)
  have "phases_ok d" by (auto simp: phases_ok_def p wire_data_def port_def split: if_splits)
  moreover have "thin_boundary d"
    by (auto simp: thin_boundary_def p wire_adj_def split: if_splits)
  moreover have "ports_ok d" by (auto simp: ports_ok_def p live_vdata wire_data_def)
  moreover have "zx_sem s d B = (if \<forall>i<n. i \<in> B \<longleftrightarrow> n + i \<in> B then 1 else 0)" for s B
  proof -
    have "interior (wire_data n n) = {}"
      by (auto simp: interior_def wire_boundary) (auto simp: wire_data_def split: if_splits)
    moreover have "dom (wire_data n n) = {..<n + n}"
      by (auto simp: wire_data_def split: if_splits)
    ultimately show ?thesis
      by (simp add: zx_sem_def sem_def graph_of_def p wire_amp)
  qed
  ultimately show ?thesis using d(1) p(1-3) by (auto simp: zx_inv_def)
qed

section \<open>Inversion\<close>

definition conj_data :: "VertexData \<Rightarrow> VertexData" where
  "conj_data x = x\<lparr>phase := expr_neg (phase x)\<rparr>"

lemma invert_reads:
  "vdata (invert d) v = map_option conj_data (vdata d v)"
  "live (invert d) v \<longleftrightarrow> live d v" "adj (invert d) = adj d" "verts (invert d) = verts d"
  "zx_ok (invert d) \<longleftrightarrow> zx_ok d"
proof -
  show "vdata (invert d) v = map_option conj_data (vdata d v)" for v
    by (simp add: vdata_def invert_def conj_data_def [abs_def])
  then show l: "live (invert d) v \<longleftrightarrow> live d v" for v by (simp add: live_vdata)
  show a: "adj (invert d) = adj d" by (simp add: adj_def fun_eq_iff l) (simp add: invert_def)
  show w: "verts (invert d) = verts d" by (simp add: verts_def l)
  show "zx_ok (invert d) \<longleftrightarrow> zx_ok d"
    by (simp add: zx_ok_def symmetric_adj_def edge_set_def l a w) (simp add: invert_def)
qed

lemma phase_cnj: "phase_ok p \<Longrightarrow> phase_cis s (expr_neg p) = cnj (phase_cis s p)"
  by (simp add: phase_neg(2)) (simp add: phase_cis_def pr_cis_def cis_cnj)

lemma expr_neg_neg:
  assumes "phase_ok p"
  shows "expr_neg (expr_neg p) = p"
proof -
  have "pr_ok (const p)" using assms by (simp add: phase_ok_def)
  then have "- (- const p) = const p"
    by (intro PiRational.expand) (auto simp: uminus_PiRational_def pr_neg_def frac_modPi pr_ok_def)
  moreover have "map term_neg (map term_neg ts) = ts" for ts
    by (induction ts) (simp_all add: term_neg_def)
  ultimately show ?thesis by (simp add: expr_neg_def)
qed

lemma conj_data_types: "vtype (conj_data x) = vtype x" "phase (conj_data x) = expr_neg (phase x)"
  by (simp_all add: conj_data_def)

lemma invert_shape:
  "is_X (vdata (invert d)) = is_X (vdata d)" "is_boundary (vdata (invert d)) = is_boundary (vdata d)"
  "dom (vdata (invert d)) = dom (vdata d)"
  by (auto simp: is_X_def is_boundary_def invert_reads conj_data_types fun_eq_iff split: option.split)

lemma invert_sem:
  assumes ph: "phases_ok d"
  shows "sem s (graph_of (invert d)) B = cnj (sem s (graph_of d) B)"
proof -
  have v: "vweight s (vdata (invert d)) v b = cnj (vweight s (vdata d) v b)" for v b
    using phases_ok_vdata [OF ph]
    by (auto simp: vweight_def invert_reads conj_data_types phase_cnj split: option.split)
  have w: "cnj (wt t a b) = wt t a b" for t a b by (simp add: wt_def)
  have e: "eweight (graph_of (invert d)) u v a b = cnj (eweight (graph_of d) u v a b)" for u v a b
    by (auto simp: eweight_def graph_of_def invert_reads eff_def invert_shape w split: option.split)
  have f: "fst (graph_of x) = vdata x" for x by (simp add: graph_of_def)
  have "amp s V (graph_of (invert d)) S = cnj (amp s V (graph_of d) S)" for V S
    unfolding amp_def f complex_cnj_mult cnj_prod v
    by (intro arg_cong2 [where f = times] prod.cong refl) (simp add: e split_def)
  then show ?thesis
    by (simp add: sem_def f interior_def invert_shape cnj_sum)
qed

end
