(* ===== verification/ZXReach.thy ===== *)
theory ZXReach
  imports ZXConstruct
begin

text \<open>
  Reachability of the ports: the work list of \<open>removeDisconnectedSpiders\<close> decides it, and the
  operation keeps exactly the vertices from which an input or output can be reached.  The set
  that \<open>getConnectedSet\<close> collects is the sorted list of neighbours.
\<close>

definition edge_rel :: "ZXDiagram \<Rightarrow> (Vertex \<times> Vertex) set" where
  "edge_rel d = {(u, v). adj d u v \<noteq> None}"

definition is_port :: "ZXDiagram \<Rightarrow> Vertex \<Rightarrow> bool" where
  "is_port d v \<longleftrightarrow> isInput d v \<or> isOutput d v"

definition reaches_port :: "ZXDiagram \<Rightarrow> Vertex \<Rightarrow> bool" where
  "reaches_port d v \<longleftrightarrow> (\<exists>p. (v, p) \<in> (edge_rel d)\<^sup>* \<and> is_port d p)"

lemma incident_neighbours:
  assumes "zx_ok d" "live d w"
  shows "fst ` set (edges d ! w) = {x. adj d w x \<noteq> None}"
  using zx_ok_incident [OF assms] by force

lemma connectedToBoundary_total:
  assumes "zx_ok d" "\<forall>w \<in> set stack. live d w"
  shows "\<exists>b. connectedToBoundary d visited stack = Some b"
  using assms
proof (induction d visited stack rule: connectedToBoundary.induct)
  case (1 d visited)
  show ?case by (intro exI [of _ False]) simp
next
  case (2 d visited w stack)
  have lw: "live d w" using "2.prems" by simp
  have inc: "incidentEdges d w = Some (edges d ! w)" by (rule incidentEdges_live [OF "2.prems"(1) lw])
  have "\<forall>x \<in> set (rev (map fst (edges d ! w)) @ stack). live d x"
    using "2.prems" zx_ok_incident_live [OF "2.prems"(1) lw] by auto
  then show ?case using 2 inc by auto
qed

lemma connectedToBoundary_True:
  assumes "connectedToBoundary d visited stack = Some True" "zx_ok d" "\<forall>w \<in> set stack. live d w"
  shows "\<exists>w \<in> set stack. reaches_port d w"
  using assms
proof (induction d visited stack rule: connectedToBoundary.induct)
  case (2 d visited w stack)
  have lw: "live d w" using "2.prems" by simp
  have inc: "incidentEdges d w = Some (edges d ! w)" by (rule incidentEdges_live [OF "2.prems"(2) lw])
  show ?case
  proof (cases "w \<in> set visited")
    case True
    then show ?thesis using 2 by auto
  next
    case v: False
    show ?thesis
    proof (cases "isInput d w \<or> isOutput d w")
      case True
      then have "reaches_port d w" by (auto simp: reaches_port_def is_port_def)
      then show ?thesis by simp
    next
      case False
      let ?st = "rev (map fst (edges d ! w)) @ stack"
      have res: "connectedToBoundary d (w # visited) ?st = Some True"
        using "2.prems"(1) v False inc by simp
      have live: "\<forall>x \<in> set ?st. live d x"
        using "2.prems"(3) zx_ok_incident_live [OF "2.prems"(2) lw] by auto
      obtain x where x: "x \<in> set ?st" "reaches_port d x"
        using "2.IH"(2) [OF v False inc res "2.prems"(2) live] by blast
      show ?thesis
      proof (cases "x \<in> set stack")
        case True
        then show ?thesis using x by auto
      next
        case False
        then have "adj d w x \<noteq> None" using x(1) incident_neighbours [OF "2.prems"(2) lw] by auto
        then have "(w, x) \<in> edge_rel d" by (simp add: edge_rel_def)
        then have "reaches_port d w"
          using x(2) unfolding reaches_port_def by (meson converse_rtrancl_into_rtrancl)
        then show ?thesis by simp
      qed
    qed
  qed
qed simp

lemma connectedToBoundary_False:
  assumes "connectedToBoundary d visited stack = Some False" "zx_ok d" "\<forall>w \<in> set stack. live d w"
  shows "\<exists>V. set visited \<union> set stack \<subseteq> V \<and>
    (\<forall>w \<in> V - set visited. \<not> is_port d w \<and> (\<forall>x. adj d w x \<noteq> None \<longrightarrow> x \<in> V))"
  using assms
proof (induction d visited stack rule: connectedToBoundary.induct)
  case (1 d visited)
  then show ?case by (intro exI [of _ "set visited"]) simp
next
  case (2 d visited w stack)
  have lw: "live d w" using "2.prems" by simp
  have inc: "incidentEdges d w = Some (edges d ! w)" by (rule incidentEdges_live [OF "2.prems"(2) lw])
  show ?case
  proof (cases "w \<in> set visited")
    case True
    then have "connectedToBoundary d visited stack = Some False" using "2.prems"(1) by simp
    moreover have "\<forall>w \<in> set stack. live d w" using "2.prems"(3) by simp
    ultimately obtain V where "set visited \<union> set stack \<subseteq> V"
      "\<forall>w \<in> V - set visited. \<not> is_port d w \<and> (\<forall>x. adj d w x \<noteq> None \<longrightarrow> x \<in> V)"
      using "2.IH"(1) [OF True _ "2.prems"(2)] by blast
    moreover from this have "set visited \<union> set (w # stack) \<subseteq> V" using True by auto
    ultimately show ?thesis by blast
  next
    case v: False
    have np: "\<not> (isInput d w \<or> isOutput d w)" using "2.prems"(1) v by auto
    let ?st = "rev (map fst (edges d ! w)) @ stack"
    have res: "connectedToBoundary d (w # visited) ?st = Some False"
      using "2.prems"(1) v np inc by simp
    have live: "\<forall>x \<in> set ?st. live d x"
      using "2.prems"(3) zx_ok_incident_live [OF "2.prems"(2) lw] by auto
    obtain V where V: "set (w # visited) \<union> set ?st \<subseteq> V"
      "\<forall>y \<in> V - set (w # visited). \<not> is_port d y \<and> (\<forall>x. adj d y x \<noteq> None \<longrightarrow> x \<in> V)"
      using "2.IH"(2) [OF v np inc res "2.prems"(2) live] by blast
    have nbw: "x \<in> V" if "adj d w x \<noteq> None" for x
      using that V(1) incident_neighbours [OF "2.prems"(2) lw] by auto
    have nw: "\<not> is_port d w" using np by (simp add: is_port_def)
    have "\<forall>y \<in> V - set visited. \<not> is_port d y \<and> (\<forall>x. adj d y x \<noteq> None \<longrightarrow> x \<in> V)"
    proof (intro ballI)
      fix y
      assume y: "y \<in> V - set visited"
      show "\<not> is_port d y \<and> (\<forall>x. adj d y x \<noteq> None \<longrightarrow> x \<in> V)"
      proof (cases "y = w")
        case True
        then show ?thesis using nw nbw by blast
      next
        case False
        then have "y \<in> V - set (w # visited)" using y by simp
        then show ?thesis using V(2) by blast
      qed
    qed
    moreover have "set visited \<union> set (w # stack) \<subseteq> V" using V(1) by auto
    ultimately show ?thesis by blast
  qed
qed

lemma connectedToBoundary_eq:
  assumes ok: "zx_ok d" and v: "live d v"
  shows "connectedToBoundary d [] [v] = Some (reaches_port d v)"
proof -
  obtain b where b: "connectedToBoundary d [] [v] = Some b"
    using connectedToBoundary_total [OF ok, of "[v]" "[]"] v by auto
  show ?thesis
  proof (cases b)
    case True
    then show ?thesis using connectedToBoundary_True [of d "[]" "[v]"] b ok v by simp
  next
    case False
    then obtain V where V: "v \<in> V" "\<forall>w \<in> V. \<not> is_port d w \<and> (\<forall>x. adj d w x \<noteq> None \<longrightarrow> x \<in> V)"
      using connectedToBoundary_False [of d "[]" "[v]"] b ok v by auto
    have "p \<in> V" if "(v, p) \<in> (edge_rel d)\<^sup>*" for p
      using that V by (induction rule: rtrancl_induct) (auto simp: edge_rel_def)
    then have "\<not> reaches_port d v" using V(2) by (auto simp: reaches_port_def)
    then show ?thesis using b False by simp
  qed
qed

section \<open>Removing what is disconnected\<close>

text \<open>A sub-diagram on a set of vertices that contains everything connected to a port.\<close>

definition kept :: "ZXDiagram \<Rightarrow> Vertex set \<Rightarrow> ZXDiagram \<Rightarrow> bool" where
  "kept d V s \<longleftrightarrow> zx_ok s \<and> same_frame d s \<and> length (vertices s) = length (vertices d) \<and> V \<subseteq> verts d \<and>
     (\<forall>v. vdata s v = (if v \<in> V then vdata d v else None)) \<and>
     (\<forall>u v. adj s u v = (if u \<in> V \<and> v \<in> V then adj d u v else None))"

lemma kept_live: "kept d V s \<Longrightarrow> live s v \<longleftrightarrow> v \<in> V"
  unfolding live_vdata kept_def by (auto simp: verts_def live_vdata)

lemma kept_reaches:
  assumes ok: "zx_ok d" and k: "kept d V s" and V: "\<forall>v \<in> verts d. reaches_port d v \<longrightarrow> v \<in> V" and v: "v \<in> V"
  shows "reaches_port s v \<longleftrightarrow> reaches_port d v"
proof
  have port: "is_port s p = is_port d p" for p
    using k by (simp add: kept_def same_frame_def is_port_def isInput_def isOutput_def)
  have sub: "edge_rel s \<subseteq> edge_rel d" using k by (auto simp: edge_rel_def kept_def split: if_splits)
  show "reaches_port s v \<Longrightarrow> reaches_port d v"
    using rtrancl_mono [OF sub] port by (auto simp: reaches_port_def)
  assume "reaches_port d v"
  then obtain p where p: "(v, p) \<in> (edge_rel d)\<^sup>*" "is_port d p" by (auto simp: reaches_port_def)
  have "(v, p) \<in> (edge_rel s)\<^sup>*"
    using p(1) v
  proof (induction rule: converse_rtrancl_induct)
    case base
    then show ?case by simp
  next
    case (step y z)
    have "adj d y z \<noteq> None" using step.hyps(1) by (simp add: edge_rel_def)
    have yd: "y \<in> V" by (fact step.prems)
    have "reaches_port d z" using step.hyps(2) p(2) by (auto simp: reaches_port_def)
    moreover have "z \<in> verts d" using neighbours_live [OF ok \<open>adj d y z \<noteq> None\<close>] by (simp add: verts_def)
    ultimately have z: "z \<in> V" using V by blast
    then have "(y, z) \<in> edge_rel s"
      using k yd \<open>adj d y z \<noteq> None\<close> by (simp add: edge_rel_def kept_def)
    then show ?case using step.IH [OF z] by (rule converse_rtrancl_into_rtrancl)
  qed
  then show "reaches_port s v" using p(2) port by (auto simp: reaches_port_def)
qed

lemma kept_remove:
  assumes k: "kept d V s" and v: "v \<in> V"
  shows "\<exists>s'. removeVertex v s = Some s' \<and> kept d (V - {v}) s'"
proof -
  have ks: "zx_ok s" "same_frame d s" "length (vertices s) = length (vertices d)" "V \<subseteq> verts d"
    "\<And>w. vdata s w = (if w \<in> V then vdata d w else None)"
    "\<And>u w. adj s u w = (if u \<in> V \<and> w \<in> V then adj d u w else None)"
    using k by (simp_all add: kept_def)
  have "live s v" using kept_live [OF k] v by simp
  from removeVertex_ok [OF ks(1) this] obtain s' where s': "removeVertex v s = Some s'" "zx_ok s'"
    "same_frame s s'" "vdata s' = (vdata s)(v := None)"
    "adj s' = (\<lambda>u w. if u = v \<or> w = v then None else adj s u w)"
    "length (vertices s') = length (vertices s)"
    by blast
  then have "kept d (V - {v}) s'"
    using ks same_frame_trans [OF ks(2) s'(3)] unfolding kept_def by auto
  with s'(1) show ?thesis by blast
qed

lemma removeDisconnected_result:
  assumes ok: "zx_ok d"
  shows "\<exists>d'. removeDisconnectedSpiders d = Some d' \<and> kept d {v \<in> verts d. reaches_port d v} d'"
proof -
  let ?V = "\<lambda>k. {v \<in> verts d. k \<le> v \<or> reaches_port d v}"
  let ?f = "\<lambda>v s. do { del \<leftarrow> isDeleted s v;
      if del then Some s else do { c \<leftarrow> connectedToBoundary s [] [v];
        if c then Some s else removeVertex v s } }"
  have step: "\<exists>s. fold_opt ?f [0..<k] d = Some s \<and> kept d (?V k) s" if "k \<le> length (vertices d)" for k
    using that
  proof (induction k)
    case 0
    have "kept d (verts d) d"
      using ok unfolding kept_def
      by (auto simp: verts_def live_vdata dest: neighbours_live intro: adj_live)
    then show ?case by simp
  next
    case (Suc k)
    then obtain s where s: "fold_opt ?f [0..<k] d = Some s" "kept d (?V k) s" by auto
    have oks: "zx_ok s" "length (vertices s) = length (vertices d)" using s(2) by (simp_all add: kept_def)
    have del: "isDeleted s k = Some (\<not> live s k)" using Suc.prems oks(2) by (simp add: isDeleted_eq)
    have eq: "fold_opt ?f [0..<Suc k] d = ?f k s" using s(1) by (simp add: fold_opt_snoc)
    show ?case
    proof (cases "live s k")
      case False
      then have "k \<notin> ?V k" using kept_live [OF s(2)] by simp
      then have "?V (Suc k) = ?V k" by (auto simp: Suc_le_eq order_le_less)
      then show ?thesis using eq del False s(2) by simp
    next
      case True
      then have kV: "k \<in> ?V k" using kept_live [OF s(2)] by simp
      have c: "connectedToBoundary s [] [k] = Some (reaches_port d k)"
        using connectedToBoundary_eq [OF oks(1) True] kept_reaches [OF ok s(2) _ kV] by simp
      show ?thesis
      proof (cases "reaches_port d k")
        case True
        then have "?V (Suc k) = ?V k" by (auto simp: Suc_le_eq order_le_less)
        then show ?thesis using eq del c True \<open>live s k\<close> s(2) by simp
      next
        case False
        then have "?V (Suc k) = ?V k - {k}" by (auto simp: Suc_le_eq order_le_less)
        then show ?thesis using eq del c False \<open>live s k\<close> kept_remove [OF s(2) kV] by simp
      qed
    qed
  qed
  have "?V (length (vertices d)) = {v \<in> verts d. reaches_port d v}"
    by (auto simp: verts_def live_def)
  then show ?thesis using step [OF order.refl] by (simp add: removeDisconnectedSpiders_def)
qed

section \<open>Neighbourhoods\<close>

lemma insert_vertex_sorted:
  "sorted xs \<Longrightarrow> distinct xs \<Longrightarrow>
    sorted (insert_vertex v xs) \<and> distinct (insert_vertex v xs) \<and> set (insert_vertex v xs) = insert v (set xs)"
proof (induction xs)
  case (Cons x xs)
  then show ?case by (auto simp: not_less)
qed simp

definition neighbours_outside :: "ZXDiagram \<Rightarrow> Vertex list \<Rightarrow> Vertex list \<Rightarrow> Vertex set" where
  "neighbours_outside d vs ex = {w. (\<exists>v \<in> set vs. adj d v w \<noteq> None) \<and> w \<notin> set ex}"

lemma insert_neighbours:
  "sorted acc \<Longrightarrow> distinct acc \<Longrightarrow>
    (let r = fold (\<lambda>e a. if isIn (fst e) ex then a else insert_vertex (fst e) a) es acc
     in sorted r \<and> distinct r \<and> set r = set acc \<union> (fst ` set es - set ex))"
proof (induction es arbitrary: acc)
  case Nil
  then show ?case by simp
next
  case (Cons e es)
  let ?acc = "if isIn (fst e) ex then acc else insert_vertex (fst e) acc"
  have "sorted ?acc" "distinct ?acc" "set ?acc = set acc \<union> ({fst e} - set ex)"
    using insert_vertex_sorted [OF Cons.prems, of "fst e"] Cons.prems by (auto simp: isIn_def)
  then show ?case using Cons.IH [of ?acc] by (auto simp: Let_def)
qed

lemma getConnectedSet_result:
  assumes ok: "zx_ok d" and l: "\<forall>v \<in> set vs. live d v"
  shows "\<exists>r. getConnectedSet d vs ex = Some r \<and> sorted r \<and> distinct r \<and> set r = neighbours_outside d vs ex"
proof -
  let ?f = "\<lambda>v acc. do { es \<leftarrow> vec_at (edges d) v;
      Some (fold (\<lambda>e a. if isIn (fst e) ex then a else insert_vertex (fst e) a) es acc) }"
  have "\<exists>r. fold_opt ?f vs acc = Some r \<and> sorted r \<and> distinct r \<and>
      set r = set acc \<union> neighbours_outside d vs ex" if "sorted acc" "distinct acc" for acc
    using l that
  proof (induction vs arbitrary: acc)
    case Nil
    then show ?case by (simp add: neighbours_outside_def)
  next
    case (Cons v vs)
    have lv: "live d v" using Cons.prems(1) by simp
    then have at: "vec_at (edges d) v = Some (edges d ! v)"
      using ok by (simp add: vec_simps live_def zx_ok_length)
    define r where "r = fold (\<lambda>e a. if isIn (fst e) ex then a else insert_vertex (fst e) a) (edges d ! v) acc"
    have r: "sorted r" "distinct r" "set r = set acc \<union> (fst ` set (edges d ! v) - set ex)"
      using insert_neighbours [OF Cons.prems(2,3), of ex "edges d ! v"] by (simp_all add: Let_def r_def)
    have "fst ` set (edges d ! v) - set ex \<union> neighbours_outside d vs ex = neighbours_outside d (v # vs) ex"
      unfolding incident_neighbours [OF ok lv] by (auto simp: neighbours_outside_def)
    then have un: "set acc \<union> neighbours_outside d (v # vs) ex = set r \<union> neighbours_outside d vs ex"
      using r(3) by blast
    have "\<forall>v \<in> set vs. live d v" using Cons.prems(1) by simp
    from Cons.IH [OF this r(1,2)] show ?case
      unfolding un using at by (simp add: r_def [symmetric])
  qed
  from this [of "[]"] show ?thesis by (simp add: getConnectedSet_def)
qed

end
