(* ===== verification/ZXIterators.thy ===== *)
theory ZXIterators
  imports ZXReach
begin

text \<open>
  The iterators of \<open>Utils.cpp\<close>.  A position is a vertex, for edges together with an index into
  its incidence list; the end iterator of the edges is a constructor of its own.  Iterating from
  \<open>begin\<close> to \<open>end\<close> yields exactly \<open>getVertices\<close> and \<open>getEdges\<close>: every live vertex, and every
  edge once.  \<open>operator++()\<close> returns the old position and \<open>operator++(int)\<close> the new one.
\<close>

section \<open>Vertices\<close>

function nextValidVertex :: "VertexData option list \<Rightarrow> nat \<Rightarrow> nat" where
  "nextValidVertex vs v = (if v < length vs \<and> vs ! v = None then nextValidVertex vs (Suc v) else v)"
  by pat_completeness auto
termination by (relation "measure (\<lambda>(vs, v). length vs - v)") auto

declare nextValidVertex.simps [simp del]

definition vertex_begin :: "VertexData option list \<Rightarrow> nat" where
  "vertex_begin vs = nextValidVertex vs 0"

text \<open>Result of the operator and the new position.\<close>

definition vertex_prefix_inc :: "VertexData option list \<Rightarrow> nat \<Rightarrow> nat \<times> nat" where
  "vertex_prefix_inc vs v = (v, nextValidVertex vs (Suc v))"

definition vertex_postfix_inc :: "VertexData option list \<Rightarrow> nat \<Rightarrow> nat \<times> nat" where
  "vertex_postfix_inc vs v = (nextValidVertex vs (Suc v), nextValidVertex vs (Suc v))"

lemma nextValidVertex_ge: "v \<le> nextValidVertex vs v"
proof (induction vs v rule: nextValidVertex.induct)
  case (1 vs v)
  then show ?case by (subst nextValidVertex.simps) (auto simp: Suc_le_eq)
qed

function vertex_walk :: "VertexData option list \<Rightarrow> nat \<Rightarrow> nat list" where
  "vertex_walk vs v = (if v < length vs then v # vertex_walk vs (snd (vertex_prefix_inc vs v)) else [])"
  by pat_completeness auto
termination
proof (relation "measure (\<lambda>(vs, v). length vs - v)", goal_cases)
  case (2 vs v)
  then show ?case using nextValidVertex_ge [of "Suc v" vs] by (simp add: vertex_prefix_inc_def)
qed simp

declare vertex_walk.simps [simp del]

definition live_from :: "VertexData option list \<Rightarrow> nat \<Rightarrow> nat list" where
  "live_from vs v = filter (\<lambda>v. vs ! v \<noteq> None) [v..<length vs]"

lemma live_from_simps:
  "length vs \<le> v \<Longrightarrow> live_from vs v = []"
  "v < length vs \<Longrightarrow> vs ! v = None \<Longrightarrow> live_from vs v = live_from vs (Suc v)"
  "v < length vs \<Longrightarrow> vs ! v \<noteq> None \<Longrightarrow> live_from vs v = v # live_from vs (Suc v)"
  by (simp_all add: live_from_def upt_conv_Cons)

lemma nextValidVertex_spec:
  "live_from vs (nextValidVertex vs v) = live_from vs v \<and>
   (nextValidVertex vs v < length vs \<longrightarrow> vs ! nextValidVertex vs v \<noteq> None) \<and>
   (v \<le> length vs \<longrightarrow> nextValidVertex vs v \<le> length vs)"
proof (induction vs v rule: nextValidVertex.induct)
  case (1 vs v)
  show ?case
  proof (cases "v < length vs \<and> vs ! v = None")
    case True
    then show ?thesis using 1 by (simp add: nextValidVertex.simps [of vs v] live_from_simps(2))
  next
    case False
    then have "nextValidVertex vs v = v" by (subst nextValidVertex.simps) auto
    then show ?thesis using False by auto
  qed
qed

lemma vertex_walk_live:
  "(v < length vs \<longrightarrow> vs ! v \<noteq> None) \<Longrightarrow> vertex_walk vs v = live_from vs v"
proof (induction vs v rule: vertex_walk.induct)
  case (1 vs v)
  show ?case
  proof (cases "v < length vs")
    case True
    have "vertex_walk vs (nextValidVertex vs (Suc v)) = live_from vs (nextValidVertex vs (Suc v))"
      using 1(1) [OF True] nextValidVertex_spec [of vs "Suc v"] by (simp add: vertex_prefix_inc_def)
    then show ?thesis
      using True 1(2) nextValidVertex_spec [of vs "Suc v"]
      by (subst vertex_walk.simps) (simp add: vertex_prefix_inc_def live_from_simps(3))
  next
    case False
    then show ?thesis by (subst vertex_walk.simps) (simp add: live_from_simps(1))
  qed
qed

lemma vertex_iterator_result: "vertex_walk (vertices d) (vertex_begin (vertices d)) = getVertices d"
  using nextValidVertex_spec [of "vertices d" 0]
  by (simp add: vertex_walk_live vertex_begin_def) (simp add: live_from_def getVertices_def)

section \<open>Edges\<close>

datatype edge_pos = At Vertex nat | EdgesEnd

text \<open>The loop that skips the edges already met from their other end.\<close>

function skip_back :: "Edge list \<Rightarrow> Vertex \<Rightarrow> nat \<Rightarrow> nat" where
  "skip_back es v p = (if p < length es \<and> fst (es ! p) < v then skip_back es v (Suc p) else p)"
  by pat_completeness auto
termination by (relation "measure (\<lambda>(es, v, p). length es - p)") auto

declare skip_back.simps [simp del]

text \<open>Looking for the next vertex with data below \<open>edges.size()\<close>; \<open>None\<close> is a read out of range.\<close>

function next_with_data :: "ZXDiagram \<Rightarrow> nat \<Rightarrow> nat option" where
  "next_with_data d v = (if v < length (edges d) then
     (case vec_at (vertices d) v of None \<Rightarrow> None
      | Some None \<Rightarrow> next_with_data d (Suc v)
      | Some (Some x) \<Rightarrow> Some v) else Some v)"
  by pat_completeness auto
termination by (relation "measure (\<lambda>(d, v). length (edges d) - v)") auto

declare next_with_data.simps [simp del]

lemma next_with_data_ge: "next_with_data d v = Some w \<Longrightarrow> v \<le> w"
proof (induction d v arbitrary: w rule: next_with_data.induct)
  case (1 d v)
  have "next_with_data d v = (if v < length (edges d) then
     (case vec_at (vertices d) v of None \<Rightarrow> None
      | Some None \<Rightarrow> next_with_data d (Suc v)
      | Some (Some x) \<Rightarrow> Some v) else Some v)"
    by (subst next_with_data.simps) simp
  then show ?case using 1 by (auto split: if_splits option.splits intro: Suc_leD dest: sym)
qed

function checkNextVertex :: "ZXDiagram \<Rightarrow> Vertex \<Rightarrow> nat \<Rightarrow> edge_pos option" where
  "checkNextVertex d v p =
     (case vec_at (edges d) v of None \<Rightarrow> None
      | Some es \<Rightarrow>
          (let p1 = skip_back es v p in
           if p1 \<noteq> length es then Some (At v p1)
           else (case next_with_data d (Suc v) of None \<Rightarrow> None
                 | Some w \<Rightarrow> if w = length (edges d) then Some EdgesEnd else checkNextVertex d w 0)))"
  by pat_completeness auto
termination
proof (relation "measure (\<lambda>(d, v, p). length (edges d) - v)", goal_cases)
  case (2 d v p es p1 w)
  have "v < length (edges d)" using 2(1) by (simp add: vec_at_eq_Some)
  moreover have "Suc v \<le> w" using 2(4) by (rule next_with_data_ge)
  ultimately show ?case by simp
qed simp

declare checkNextVertex.simps [simp del]

definition edge_begin :: "ZXDiagram \<Rightarrow> edge_pos option" where
  "edge_begin d = (if edges d = [] then None
     else if vertices d = [] then Some EdgesEnd
     else (case next_with_data d 0 of None \<Rightarrow> None
           | Some v \<Rightarrow> if v < length (edges d) then checkNextVertex d v 0 else Some EdgesEnd))"

definition edge_deref :: "ZXDiagram \<Rightarrow> edge_pos \<Rightarrow> (Vertex \<times> Vertex) option" where
  "edge_deref d pos = (case pos of EdgesEnd \<Rightarrow> None
     | At v p \<Rightarrow> do { es \<leftarrow> vec_at (edges d) v; e \<leftarrow> vec_at es p; Some (v, fst e) })"

text \<open>Result of the operator and the new position.\<close>

definition edge_prefix_inc :: "ZXDiagram \<Rightarrow> edge_pos \<Rightarrow> (edge_pos \<times> edge_pos) option" where
  "edge_prefix_inc d pos = (case pos of EdgesEnd \<Rightarrow> None
     | At v p \<Rightarrow> do { n \<leftarrow> checkNextVertex d v (Suc p); Some (pos, n) })"

definition edge_postfix_inc :: "ZXDiagram \<Rightarrow> edge_pos \<Rightarrow> (edge_pos \<times> edge_pos) option" where
  "edge_postfix_inc d pos = (case pos of EdgesEnd \<Rightarrow> None
     | At v p \<Rightarrow> do { n \<leftarrow> checkNextVertex d v (Suc p); Some (n, n) })"

text \<open>What a range-based loop from a position collects.\<close>

partial_function (option) edge_walk :: "ZXDiagram \<Rightarrow> edge_pos \<Rightarrow> (Vertex \<times> Vertex) list option" where
  "edge_walk d pos =
     (if pos = EdgesEnd then Some []
      else Option.bind (edge_deref d pos) (\<lambda>e.
           Option.bind (edge_prefix_inc d pos) (\<lambda>r.
           Option.bind (edge_walk d (snd r)) (\<lambda>es. Some (e # es)))))"

definition forward :: "ZXDiagram \<Rightarrow> Vertex \<Rightarrow> nat \<Rightarrow> (Vertex \<times> Vertex) list" where
  "forward d v p = map (\<lambda>e. (v, fst e)) (filter (\<lambda>e. v \<le> fst e) (drop p (edges d ! v)))"

definition edges_from :: "ZXDiagram \<Rightarrow> Vertex \<Rightarrow> (Vertex \<times> Vertex) list" where
  "edges_from d v = concat (map (\<lambda>v. forward d v 0) (live_from (vertices d) v))"

lemma forward_skip:
  "v < length (edges d) \<Longrightarrow> forward d v (skip_back (edges d ! v) v p) = forward d v p \<and>
    (p \<le> length (edges d ! v) \<longrightarrow> skip_back (edges d ! v) v p \<le> length (edges d ! v)) \<and>
    (skip_back (edges d ! v) v p < length (edges d ! v) \<longrightarrow> v \<le> fst (edges d ! v ! skip_back (edges d ! v) v p)) \<and>
    p \<le> skip_back (edges d ! v) v p"
proof (induction "edges d ! v" v p rule: skip_back.induct)
  case (1 v p)
  let ?es = "edges d ! v"
  show ?case
  proof (cases "p < length ?es \<and> fst (?es ! p) < v")
    case True
    then have "skip_back ?es v p = skip_back ?es v (Suc p)" by (simp add: skip_back.simps [of ?es v p])
    moreover have "forward d v (Suc p) = forward d v p"
      using True by (simp add: forward_def Cons_nth_drop_Suc [symmetric])
    ultimately show ?thesis using 1 True by simp
  next
    case False
    then have "skip_back ?es v p = p" by (subst skip_back.simps) auto
    then show ?thesis using False by auto
  qed
qed

lemma next_with_data_eq:
  assumes "length (edges d) = length (vertices d)"
  shows "next_with_data d v = Some (nextValidVertex (vertices d) v)"
  using assms
proof (induction "vertices d" v rule: nextValidVertex.induct)
  case (1 v)
  then show ?case
    by (subst next_with_data.simps, subst nextValidVertex.simps) (auto simp: vec_at_def split: option.split)
qed

lemma edge_walk_At:
  assumes len: "length (edges d) = length (vertices d)"
    and v: "v < length (edges d)" "vertices d ! v \<noteq> None" and p: "p \<le> length (edges d ! v)"
  shows "\<exists>pos. checkNextVertex d v p = Some pos \<and> edge_walk d pos = Some (forward d v p @ edges_from d (Suc v))"
  using v p
proof (induction "(length (edges d) - v, length (edges d ! v) - p)" arbitrary: v p
    rule: wf_induct_rule [OF wf_lex_prod [OF wf_less_than wf_less_than]])
  case (1 v p)
  let ?es = "edges d ! v" and ?q = "skip_back (edges d ! v) v p"
  have at: "vec_at (edges d) v = Some ?es" using "1.prems" by (simp add: vec_simps)
  note q = forward_skip [OF "1.prems"(1), of p]
  show ?case
  proof (cases "?q = length ?es")
    case False
    then have ql: "?q < length ?es" using q "1.prems"(3) by simp
    have c: "checkNextVertex d v p = Some (At v ?q)"
      using at False by (simp add: checkNextVertex.simps [of d v p] Let_def)
    obtain pos where pos: "checkNextVertex d v (Suc ?q) = Some pos"
      "edge_walk d pos = Some (forward d v (Suc ?q) @ edges_from d (Suc v))"
    proof -
      have "((length (edges d) - v, length ?es - Suc ?q), (length (edges d) - v, length ?es - p))
          \<in> less_than <*lex*> less_than"
        using ql q by auto
      from "1.hyps" [OF this "1.prems"(1,2)] ql show thesis using that by auto
    qed
    have "forward d v p = (v, fst (?es ! ?q)) # forward d v (Suc ?q)"
    proof -
      have "forward d v ?q = (v, fst (?es ! ?q)) # forward d v (Suc ?q)"
        using ql q by (simp add: forward_def Cons_nth_drop_Suc [OF ql, symmetric])
      then show ?thesis using q by simp
    qed
    then have "edge_walk d (At v ?q) = Some (forward d v p @ edges_from d (Suc v))"
      using pos at ql
      by (subst edge_walk.simps) (simp add: edge_deref_def edge_prefix_inc_def vec_simps)
    with c show ?thesis by blast
  next
    case True
    then have nil: "forward d v p = []" using q by (simp add: forward_def)
    let ?w = "nextValidVertex (vertices d) (Suc v)"
    note spec = nextValidVertex_spec [of "vertices d" "Suc v"]
    have w: "Suc v \<le> ?w" "?w \<le> length (vertices d)"
      using nextValidVertex_ge spec "1.prems"(1) len by auto
    have c: "checkNextVertex d v p
        = (if ?w = length (edges d) then Some EdgesEnd else checkNextVertex d ?w 0)"
      using at True by (simp add: checkNextVertex.simps [of d v p] Let_def next_with_data_eq [OF len])
    have ef: "edges_from d (Suc v) = edges_from d ?w" using spec by (simp add: edges_from_def)
    show ?thesis
    proof (cases "?w = length (edges d)")
      case True
      then show ?thesis
        using c nil ef len by (simp add: edges_from_def live_from_simps(1) edge_walk.simps)
    next
      case False
      then have wl: "?w < length (edges d)" "vertices d ! ?w \<noteq> None" using w spec len by auto
      then obtain pos where pos: "checkNextVertex d ?w 0 = Some pos"
        "edge_walk d pos = Some (forward d ?w 0 @ edges_from d (Suc ?w))"
      proof -
        have "length (edges d) - ?w < length (edges d) - v" using w(1) "1.prems"(1) by linarith
        then have "((length (edges d) - ?w, length (edges d ! ?w) - 0), (length (edges d) - v, length ?es - p))
            \<in> less_than <*lex*> less_than"
          by simp
        from "1.hyps" [OF this wl] show thesis using that by auto
      qed
      have "edges_from d ?w = forward d ?w 0 @ edges_from d (Suc ?w)"
        using wl len by (simp add: edges_from_def live_from_simps(3))
      then show ?thesis using c False pos nil ef by simp
    qed
  qed
qed

lemma edge_iterator_result:
  assumes ok: "zx_ok d" and ne: "vertices d \<noteq> []"
  shows "\<exists>pos. edge_begin d = Some pos \<and> edge_walk d pos = getEdges d"
proof -
  have len: "length (edges d) = length (vertices d)" using ok by (rule zx_ok_length)
  then have ne': "edges d \<noteq> []" using ne by auto
  let ?w = "nextValidVertex (vertices d) 0"
  note spec = nextValidVertex_spec [of "vertices d" 0]
  have "concat (map (\<lambda>v. forward d v 0) (getVertices d)) = edges_from d 0"
    by (simp add: edges_from_def live_from_def getVertices_def)
  then have ge: "getEdges d = Some (edges_from d ?w)"
    using ne' spec by (simp add: getEdges_def forward_def edges_from_def)
  show ?thesis
  proof (cases "?w < length (edges d)")
    case True
    then have d: "vertices d ! ?w \<noteq> None" using spec len by simp
    have "edges_from d ?w = forward d ?w 0 @ edges_from d (Suc ?w)"
      using True d len by (simp add: edges_from_def live_from_simps(3))
    then show ?thesis
      using edge_walk_At [OF len True d, of 0] True ne ne' ge
      by (auto simp: edge_begin_def next_with_data_eq [OF len])
  next
    case False
    then have "edges_from d ?w = []" using len by (simp add: edges_from_def live_from_simps(1))
    then show ?thesis
      using False ne ne' ge by (simp add: edge_begin_def next_with_data_eq [OF len] edge_walk.simps)
  qed
qed

end
