(* ===== verification/ZXSamples.thy ===== *)
theory ZXSamples
  imports ZXIterators
begin

text \<open>
  A decidable form of the invariant, and three small diagrams on which the rules apply.  They are
  the concrete inputs at which the general theorems are instantiated.
\<close>

definition edge_list :: "ZXDiagram \<Rightarrow> (Vertex \<times> Vertex) list" where
  "edge_list d = concat (map (\<lambda>v. map (\<lambda>e. (v, fst e)) (filter (\<lambda>e. v < fst e) (edges d ! v))) (getVertices d))"

definition zx_check :: "ZXDiagram \<Rightarrow> bool" where
  "zx_check d \<longleftrightarrow>
     length (edges d) = length (vertices d) \<and>
     list_all (\<lambda>u. distinct (map fst (edges d ! u)) \<and>
       list_all (\<lambda>(v, t). v \<noteq> u \<and> v \<in> set (getVertices d) \<and> (u, t) \<in> set (edges d ! v)) (edges d ! u) \<and>
       (vtype (the (vertices d ! u)) = Boundary \<longrightarrow> length (edges d ! u) \<le> 1) \<and>
       isConstant (phase (the (vertices d ! u))) \<and> pr_ok (const (phase (the (vertices d ! u)))))
       (getVertices d) \<and>
     deleted d = [] \<and> list_all (\<lambda>x. x \<noteq> None) (vertices d) \<and>
     nvertices d = of_nat (length (vertices d)) \<and>
     distinct (edge_list d) \<and> nedges d = of_nat (length (edge_list d)) \<and>
     isConstant (globalPhase d) \<and> pr_ok (const (globalPhase d))"

lemma zx_check_inv:
  assumes c: "zx_check d"
  shows "zx_inv d"
proof -
  have len: "length (edges d) = length (vertices d)" and del: "deleted d = []"
    and all: "\<forall>x \<in> set (vertices d). x \<noteq> None" and nv: "nvertices d = of_nat (length (vertices d))"
    and de: "distinct (edge_list d)" and ne: "nedges d = of_nat (length (edge_list d))"
    and gp: "isConstant (globalPhase d)" "pr_ok (const (globalPhase d))"
    using c by (simp_all add: zx_check_def list_all_iff)
  have per: "distinct (map fst (edges d ! u)) \<and>
      (\<forall>e \<in> set (edges d ! u). fst e \<noteq> u \<and> live d (fst e) \<and> (u, snd e) \<in> set (edges d ! fst e)) \<and>
      (vtype (the (vdata d u)) = Boundary \<longrightarrow> length (edges d ! u) \<le> 1) \<and>
      isConstant (phase (the (vdata d u))) \<and> pr_ok (const (phase (the (vdata d u))))"
    if "live d u" for u
  proof -
    have "u \<in> set (getVertices d)" using that by (simp add: set_getVertices verts_def)
    moreover have "vertices d ! u = vdata d u" using that by (simp add: vdata_def live_def)
    ultimately show ?thesis
      using c by (fastforce simp: zx_check_def list_all_iff set_getVertices verts_def)
  qed
  have lv: "live d v \<longleftrightarrow> v < length (vertices d)" for v
    using all by (auto simp: live_def)
  then have vs: "verts d = {..<length (vertices d)}" by (auto simp: verts_def)
  have mem: "adj d u v = Some t \<longleftrightarrow> (v, t) \<in> set (edges d ! u)" if "live d u" for u v t
    using that per [OF that] by (simp add: adj_def)
  have sym: "symmetric_adj d"
    unfolding symmetric_adj_def
  proof (intro allI impI)
    fix u v t
    assume a: "adj d u v = Some t"
    then have lu: "live d u" by (auto intro: adj_live)
    then have "(v, t) \<in> set (edges d ! u)" using a mem by simp
    then have "v \<noteq> u \<and> live d v \<and> (u, t) \<in> set (edges d ! v)" using per [OF lu] by fastforce
    then show "u \<noteq> v \<and> live d v \<and> adj d v u = Some t" using mem by auto
  qed
  have "edge_set d = set (edge_list d)"
  proof (intro equalityI subsetI)
    fix p
    assume "p \<in> edge_set d"
    then obtain u v t where p: "p = (u, v)" "u < v" "adj d u v = Some t" by (auto simp: edge_set_def)
    then have lu: "live d u" by (auto intro: adj_live)
    then have "(v, t) \<in> set (edges d ! u)" "u \<in> set (getVertices d)"
      using p mem by (simp_all add: set_getVertices verts_def)
    then show "p \<in> set (edge_list d)" using p by (force simp: edge_list_def)
  next
    fix p
    assume "p \<in> set (edge_list d)"
    then obtain u v t where p: "p = (u, v)" "u < v" "live d u" "(v, t) \<in> set (edges d ! u)"
      by (auto simp: edge_list_def set_getVertices verts_def)
    then have "adj d u v = Some t" using mem by simp
    then show "p \<in> edge_set d" using p by (simp add: edge_set_def)
  qed
  then have "card (edge_set d) = length (edge_list d)" using de by (simp add: distinct_card)
  then have "zx_ok d"
    unfolding zx_ok_def using len per sym del vs nv ne by simp
  moreover have "phases_ok d"
    unfolding phases_ok_def
  proof (intro conjI allI impI)
    have const: "phase_ok p" if "isConstant p" "pr_ok (const p)" for p
      using that by (simp add: phase_ok_def isConstant_def)
    show "phase_ok (globalPhase d)" by (rule const [OF gp])
    show "phase_ok (phase x)" if x: "vdata d v = Some x" for v x
      using per [of v] x by (intro const) (simp_all add: live_vdata)
  qed
  moreover have "thin_boundary d"
    unfolding thin_boundary_def
  proof (intro allI impI)
    fix v u w
    assume *: "is_boundary (vdata d) v" "adj d v u \<noteq> None" "adj d v w \<noteq> None"
    then have l: "live d v" by (auto intro: adj_live)
    then have "length (edges d ! v) \<le> 1" using *(1) per by (simp add: is_boundary_vdata)
    moreover obtain s t where "(u, s) \<in> set (edges d ! v)" "(w, t) \<in> set (edges d ! v)"
      using *(2,3) mem [OF l] by auto
    ultimately show "u = w" by (cases "edges d ! v") auto
  qed
  ultimately show ?thesis by (simp add: zx_inv_def)
qed

definition spider :: "VertexType \<Rightarrow> rat \<Rightarrow> VertexData" where
  "spider t p = \<lparr>col = 0, qubit = 0, phase = expr_const (PiRational p), vtype = t\<rparr>"

definition sample :: "VertexData list \<Rightarrow> Edge list list \<Rightarrow> size_t \<Rightarrow> ZXDiagram" where
  "sample vs es n = \<lparr>edges = es, vertices = map Some vs, deleted = [], inputs = [0], outputs = [1],
     nvertices = of_nat (length vs), nedges = n, globalPhase = expr_empty\<rparr>"

text \<open>Two fusable spiders (2, 3) and an identity (4); an X spider (5) hangs off 2.\<close>

definition sample_fuse :: ZXDiagram where
  "sample_fuse = sample [spider Boundary 0, spider Boundary 0, spider Z (1/4), spider Z (1/2), spider Z 0, spider X 1]
     [[(2, Simple)], [(4, Hadamard)], [(0, Simple), (3, Simple), (5, Simple)], [(2, Simple), (4, Hadamard)],
      [(3, Hadamard), (1, Hadamard)], [(2, Simple)]] 5"

text \<open>A proper Clifford spider (4) between two Z spiders.\<close>

definition sample_comp :: ZXDiagram where
  "sample_comp = sample [spider Boundary 0, spider Boundary 0, spider Z (1/4), spider Z (1/4), spider Z (-1/2)]
     [[(2, Simple)], [(3, Simple)], [(0, Simple), (4, Hadamard)], [(1, Simple), (4, Hadamard)],
      [(2, Hadamard), (3, Hadamard)]] 4"

text \<open>Two connected Pauli spiders (4, 5).\<close>

definition sample_pivot :: ZXDiagram where
  "sample_pivot = sample [spider Boundary 0, spider Boundary 0, spider Z (1/4), spider Z (1/4), spider Z 1, spider Z 1]
     [[(2, Simple)], [(3, Simple)], [(0, Simple), (4, Hadamard)], [(1, Simple), (5, Hadamard)],
      [(2, Hadamard), (5, Hadamard)], [(3, Hadamard), (4, Hadamard)]] 5"

lemma pr_ok_sample [simp]:
  "pr_ok (PiRational q) \<longleftrightarrow> -1 < q \<and> q \<le> 1"
  by (simp add: pr_ok_def)

lemmas sample_defs = zx_check_def getVertices_def edge_list_def sample_def spider_def upt_conv_Cons

lemma sample_inv: "zx_inv sample_fuse" "zx_inv sample_comp" "zx_inv sample_pivot"
proof -
  have z: "pr_ok (const (expr_empty :: PiExpression))" by (simp add: zero_PiRational_def)
  show "zx_inv sample_fuse" by (rule zx_check_inv) (simp add: sample_fuse_def sample_defs z)
  show "zx_inv sample_comp" by (rule zx_check_inv) (simp add: sample_comp_def sample_defs z)
  show "zx_inv sample_pivot" by (rule zx_check_inv) (simp add: sample_pivot_def sample_defs z)
qed

lemma sample_nonempty: "vertices sample_fuse \<noteq> []" "vertices sample_comp \<noteq> []" "vertices sample_pivot \<noteq> []"
  by (simp_all add: sample_fuse_def sample_comp_def sample_pivot_def sample_def)

lemma sample_checks:
  "checkSpiderFusion sample_fuse 2 3 = Some True" "checkIdSimp sample_fuse 4 = Some True"
  "checkLocalComp sample_comp 4 = Some True" "checkPivotPauli sample_pivot 4 5 = Some True"
  by code_simp+

lemma sample_live:
  "live sample_fuse v \<longleftrightarrow> v < 6" "live sample_comp v \<longleftrightarrow> v < 5" "live sample_pivot v \<longleftrightarrow> v < 6"
  by (auto simp: live_def sample_fuse_def sample_comp_def sample_pivot_def sample_def nth_Cons less_Suc_eq
      numeral_eq_Suc split: nat.split)

end
