(* ===== verification/IRTypes.thy ===== *)
theory IRTypes
  imports Prelude
begin

text \<open>
  Basic types of the circuit representation: exceptions as values, the ordered containers
  \<open>std::map\<close> and \<open>std::set\<close> as strictly increasing lists, and the classes \<open>Permutation\<close>
  (\<open>ir/Permutation.hpp\<close>, \<open>src/ir/Permutation.cpp\<close>), \<open>Register\<close> (\<open>ir/Register.hpp\<close>) and
  \<open>Control\<close> (\<open>ir/operations/Control.hpp\<close>).

  Qubit and bit indices are natural numbers; where the code computes an index with unsigned
  arithmetic that can wrap (\<open>getEndIndex\<close>, the casts to \<open>Qubit\<close>), the reduction modulo the
  width is written out.  An operation that throws returns \<open>Inl\<close> of the exception's class;
  \<open>Undefined\<close> stands for undefined behaviour (a failed assertion, a null dereference, an
  unchecked access out of bounds).
\<close>

section \<open>Exceptions as values\<close>

datatype Error = RuntimeError | InvalidArgument | OutOfRange | BadCast | NotFinite | Undefined

type_synonym 'a result = "Error + 'a"

fun and_then :: "'a result \<Rightarrow> ('a \<Rightarrow> 'b result) \<Rightarrow> 'b result" where
  "and_then (Inl e) f = Inl e"
| "and_then (Inr x) f = f x"

definition guard_res :: "bool \<Rightarrow> Error \<Rightarrow> unit result" where
  "guard_res b e = (if b then Inr () else Inl e)"

fun map_res :: "('a \<Rightarrow> 'b result) \<Rightarrow> 'a list \<Rightarrow> 'b list result" where
  "map_res f [] = Inr []"
| "map_res f (x # xs) = and_then (f x) (\<lambda>y. and_then (map_res f xs) (\<lambda>ys. Inr (y # ys)))"

fun fold_res :: "('a \<Rightarrow> 's \<Rightarrow> 's result) \<Rightarrow> 'a list \<Rightarrow> 's \<Rightarrow> 's result" where
  "fold_res f [] s = Inr s"
| "fold_res f (x # xs) s = and_then (f x s) (fold_res f xs)"

definition at_res :: "'a list \<Rightarrow> nat \<Rightarrow> 'a result" where
  "at_res xs i = (if i < length xs then Inr (xs ! i) else Inl OutOfRange)"

definition deref_res :: "'a list \<Rightarrow> nat \<Rightarrow> 'a result" where
  "deref_res xs i = (if i < length xs then Inr (xs ! i) else Inl Undefined)"

lemma and_then_cong [fundef_cong]:
  "r = r' \<Longrightarrow> (\<And>x. r' = Inr x \<Longrightarrow> f x = f' x) \<Longrightarrow> and_then r f = and_then r' f'"
  by (cases r') auto

lemma map_res_cong [fundef_cong]:
  "xs = ys \<Longrightarrow> (\<And>x. x \<in> set ys \<Longrightarrow> f x = g x) \<Longrightarrow> map_res f xs = map_res g ys"
proof (induction ys arbitrary: xs)
  case (Cons y ys)
  then have "map_res f ys = map_res g ys" by simp
  with Cons show ?case by simp
qed simp

lemma fold_res_cong [fundef_cong]:
  "xs = ys \<Longrightarrow> s = t \<Longrightarrow> (\<And>x u. x \<in> set ys \<Longrightarrow> f x u = g x u) \<Longrightarrow>
    fold_res f xs s = fold_res g ys t"
proof (induction ys arbitrary: xs s t)
  case (Cons y ys)
  have "fold_res f ys u = fold_res g ys u" for u using Cons.IH [OF refl refl] Cons.prems(3) by simp
  then have "fold_res f ys = fold_res g ys" by (rule ext)
  with Cons.prems show ?case by simp
qed simp

lemma and_then_eq_Inr: "and_then r f = Inr y \<longleftrightarrow> (\<exists>x. r = Inr x \<and> f x = Inr y)"
  by (cases r) auto

lemma and_then_assoc: "and_then (and_then r f) g = and_then r (\<lambda>x. and_then (f x) g)"
  by (cases r) auto

lemma and_then_Inr [simp]: "and_then r Inr = r"
  by (cases r) auto

lemma map_res_Inr: "map_res f xs = Inr ys \<longleftrightarrow> list_all2 (\<lambda>x y. f x = Inr y) xs ys"
  by (induction xs arbitrary: ys) (auto simp: and_then_eq_Inr list_all2_Cons1)

lemma map_res_total: "(\<And>x. x \<in> set xs \<Longrightarrow> f x = Inr (g x)) \<Longrightarrow> map_res f xs = Inr (map g xs)"
  by (induction xs) auto

lemma map_res_append:
  "map_res f (xs @ ys) = and_then (map_res f xs) (\<lambda>us. and_then (map_res f ys) (\<lambda>vs. Inr (us @ vs)))"
  by (induction xs) (auto simp: and_then_assoc intro: and_then_cong)

lemma fold_res_append: "fold_res f (xs @ ys) s = and_then (fold_res f xs s) (fold_res f ys)"
  by (induction xs arbitrary: s) (auto simp: and_then_assoc intro: and_then_cong)

lemma fold_res_invariant:
  assumes "fold_res f xs s = Inr t" and "I s"
    and "\<And>x u v. x \<in> set xs \<Longrightarrow> I u \<Longrightarrow> f x u = Inr v \<Longrightarrow> I v"
  shows "I t"
  using assms
proof (induction xs arbitrary: s)
  case (Cons x xs)
  from Cons.prems(1) obtain u where u: "f x s = Inr u" "fold_res f xs u = Inr t"
    by (auto simp: and_then_eq_Inr)
  from Cons.prems(2,3) u(1) have "I u" by auto
  then show ?case using Cons.IH [OF u(2)] Cons.prems(3) by (metis list.set_intros(2))
qed simp

section \<open>Ordered sets and maps\<close>

text \<open>
  \<open>std::set\<close> and \<open>std::map\<close> iterate in increasing order and two of them are equal iff they
  hold the same elements, so a strictly increasing list represents each exactly.
\<close>

fun set_emplace :: "'a::linorder \<Rightarrow> 'a list \<Rightarrow> 'a list" where
  "set_emplace x [] = [x]"
| "set_emplace x (y # ys) = (if x < y then x # y # ys else if x = y then y # ys
     else y # set_emplace x ys)"

definition set_of_list :: "'a::linorder list \<Rightarrow> 'a list" where
  "set_of_list xs = fold set_emplace xs []"

abbreviation strictly_sorted :: "'a::linorder list \<Rightarrow> bool" where
  "strictly_sorted xs \<equiv> sorted_wrt (<) xs"

type_synonym ('k, 'v) std_map = "('k \<times> 'v) list"

abbreviation map_ok :: "('k::linorder, 'v) std_map \<Rightarrow> bool" where
  "map_ok m \<equiv> strictly_sorted (map fst m)"

fun map_emplace :: "'k::linorder \<Rightarrow> 'v \<Rightarrow> ('k, 'v) std_map \<Rightarrow> ('k, 'v) std_map" where
  "map_emplace k v [] = [(k, v)]"
| "map_emplace k v ((k', v') # m) = (if k < k' then (k, v) # (k', v') # m
     else if k = k' then (k', v') # m else (k', v') # map_emplace k v m)"

fun map_assign :: "'k::linorder \<Rightarrow> 'v \<Rightarrow> ('k, 'v) std_map \<Rightarrow> ('k, 'v) std_map" where
  "map_assign k v [] = [(k, v)]"
| "map_assign k v ((k', v') # m) = (if k < k' then (k, v) # (k', v') # m
     else if k = k' then (k, v) # m else (k', v') # map_assign k v m)"

definition map_erase :: "'k \<Rightarrow> ('k, 'v) std_map \<Rightarrow> ('k, 'v) std_map" where
  "map_erase k m = filter (\<lambda>p. fst p \<noteq> k) m"

definition map_at :: "('k, 'v) std_map \<Rightarrow> 'k \<Rightarrow> 'v result" where
  "map_at m k = (case map_of m k of None \<Rightarrow> Inl OutOfRange | Some v \<Rightarrow> Inr v)"

definition map_contains :: "('k, 'v) std_map \<Rightarrow> 'k \<Rightarrow> bool" where
  "map_contains m k \<longleftrightarrow> map_of m k \<noteq> None"

lemma set_set_emplace [simp]: "set (set_emplace x xs) = insert x (set xs)"
  by (induction xs) auto

lemma set_emplace_sorted: "strictly_sorted xs \<Longrightarrow> strictly_sorted (set_emplace x xs)"
  by (induction xs) auto

lemma set_emplace_member: "strictly_sorted xs \<Longrightarrow> x \<in> set xs \<Longrightarrow> set_emplace x xs = xs"
  by (induction xs) auto

lemma fold_set_emplace:
  "strictly_sorted ys \<Longrightarrow> strictly_sorted (fold set_emplace xs ys) \<and>
    set (fold set_emplace xs ys) = set xs \<union> set ys"
  by (induction xs arbitrary: ys) (simp_all add: set_emplace_sorted)

lemma set_of_list_sorted [simp]: "strictly_sorted (set_of_list xs)"
  by (simp add: set_of_list_def fold_set_emplace)

lemma set_set_of_list [simp]: "set (set_of_list xs) = set xs"
  by (simp add: set_of_list_def fold_set_emplace)

lemma set_of_list_eq: "set_of_list xs = set_of_list ys \<longleftrightarrow> set xs = set ys"
  by (metis set_of_list_sorted set_set_of_list strict_sorted_equal)

lemma set_of_list_id: "strictly_sorted xs \<Longrightarrow> set_of_list xs = xs"
  by (metis set_of_list_sorted set_set_of_list strict_sorted_equal)

lemma set_of_list_Nil [simp]: "set_of_list [] = []" "set_of_list xs = [] \<longleftrightarrow> xs = []"
  using set_set_of_list [of xs] by (auto simp: set_of_list_def simp del: set_set_of_list)

lemma fst_map_emplace: "map fst (map_emplace k v m) = set_emplace k (map fst m)"
  by (induction m) auto

lemma fst_map_assign: "map fst (map_assign k v m) = set_emplace k (map fst m)"
  by (induction m) auto

lemma map_emplace_ok: "map_ok m \<Longrightarrow> map_ok (map_emplace k v m)"
  by (simp add: fst_map_emplace set_emplace_sorted)

lemma map_assign_ok: "map_ok m \<Longrightarrow> map_ok (map_assign k v m)"
  by (simp add: fst_map_assign set_emplace_sorted)

lemma map_erase_ok: "map_ok m \<Longrightarrow> map_ok (map_erase k m)"
  by (induction m) (auto simp: map_erase_def)

lemma map_of_notin: "\<forall>x \<in> set m. k < fst x \<Longrightarrow> map_of m (k::'a::linorder) = None"
  by (induction m) auto

lemma map_of_map_emplace:
  "map_ok m \<Longrightarrow> map_of (map_emplace k v m) =
    (if map_contains m k then map_of m else (map_of m)(k \<mapsto> v))"
proof (induction m)
  case (Cons p m)
  obtain k' v' where p: "p = (k', v')" by force
  have none: "k < k' \<Longrightarrow> map_of m k = None"
    using Cons.prems by (intro map_of_notin) (auto simp: p)
  from Cons show ?case by (auto simp: p map_contains_def none fun_eq_iff)
qed (simp add: map_contains_def)

lemma map_of_map_assign: "map_ok m \<Longrightarrow> map_of (map_assign k v m) = (map_of m)(k \<mapsto> v)"
  by (induction m) (auto simp: fun_eq_iff)

lemma map_of_map_erase: "map_of (map_erase k m) = (map_of m)(k := None)"
  by (induction m) (auto simp: map_erase_def fun_eq_iff)

lemma map_emplace_snoc:
  "\<forall>x \<in> set m. fst x < k \<Longrightarrow> map_emplace k v m = m @ [(k, v)]"
  by (induction m) auto

lemma map_ok_distinct: "map_ok m \<Longrightarrow> distinct (map fst m)"
  by (simp add: strict_sorted_iff)

section \<open>Permutation\<close>

type_synonym Permutation = "(nat, nat) std_map"

definition perm_apply :: "Permutation \<Rightarrow> nat \<Rightarrow> nat result" where
  "perm_apply p q = (if p = [] then Inr q else map_at p q)"

definition perm_apply_targets :: "Permutation \<Rightarrow> nat list \<Rightarrow> nat list result" where
  "perm_apply_targets p ts = (if p = [] then Inr ts else map_res (map_at p) ts)"

definition perm_maxKey :: "Permutation \<Rightarrow> nat" where
  "perm_maxKey p = (if p = [] then 0 else fst (last p))"

definition perm_maxValue :: "Permutation \<Rightarrow> nat" where
  "perm_maxValue p = (if p = [] then 0 else fold (\<lambda>q m. max m (snd q)) p 0)"

lemma perm_apply_Nil [simp]: "perm_apply [] q = Inr q"
  by (simp add: perm_apply_def)

lemma perm_apply_targets_Nil [simp]: "perm_apply_targets [] ts = Inr ts"
  by (simp add: perm_apply_targets_def)

text \<open>Applying a permutation to a list applies it to each qubit.\<close>

lemma perm_apply_targets_map: "perm_apply_targets p ts = map_res (perm_apply p) ts"
proof (cases "p = []")
  case True
  have "map_res (perm_apply []) ts = Inr (map id ts)" by (rule map_res_total) simp
  with True show ?thesis by simp
next
  case False
  then have "perm_apply p = map_at p" by (auto simp: perm_apply_def)
  with False show ?thesis by (simp add: perm_apply_targets_def)
qed

lemma perm_apply_defined:
  "p = [] \<or> map_contains p q \<Longrightarrow> \<exists>q'. perm_apply p q = Inr q'"
  by (auto simp: perm_apply_def map_at_def map_contains_def)

lemma sorted_last_upper: "strictly_sorted xs \<Longrightarrow> q \<in> set xs \<Longrightarrow> q \<le> last xs"
  by (induction xs) (auto simp: less_imp_le)

lemma map_contains_iff: "map_contains m k \<longleftrightarrow> k \<in> set (map fst m)"
  by (simp add: map_contains_def map_of_eq_None_iff)

lemma perm_maxKey_upper:
  assumes "map_ok p" and "map_contains p q"
  shows "q \<le> perm_maxKey p"
proof -
  from assms(2) have q: "q \<in> set (map fst p)" by (simp only: map_contains_iff)
  then have "p \<noteq> []" by auto
  with sorted_last_upper [OF assms(1) q] show ?thesis by (simp add: perm_maxKey_def last_map)
qed

lemma fold_max_upper: "(m::nat) \<le> fold (\<lambda>q m. max m (snd q)) p m"
  "x \<in> set p \<Longrightarrow> snd x \<le> fold (\<lambda>q m. max m (snd q)) p m"
proof (induction p arbitrary: m)
  case (Cons y p)
  { case 1 show ?case using Cons.IH(1) [of "max m (snd y)"] by simp }
  { case 2 then show ?case using Cons.IH(1) [of "max m (snd y)"] Cons.IH(2) by auto }
qed simp_all

lemma perm_maxValue_upper: "x \<in> set p \<Longrightarrow> snd x \<le> perm_maxValue p"
  using fold_max_upper(2) [of x p 0] by (cases p) (simp_all add: perm_maxValue_def)

section \<open>Registers\<close>

record Register =
  startIndex :: nat
  regSize :: nat
  regName :: string

fun digits :: "nat \<Rightarrow> nat list" where
  "digits n = (if n < 10 then [n] else digits (n div 10) @ [n mod 10])"

definition to_string :: "nat \<Rightarrow> string" where
  "to_string n = map (\<lambda>d. char_of (48 + d)) (digits n)"

definition reg_getEndIndex :: "nat \<Rightarrow> Register \<Rightarrow> nat" where
  "reg_getEndIndex w r = (startIndex r + regSize r + (2 ^ 64 - 1)) mod 2 ^ 64 mod 2 ^ w"

definition reg_eq :: "Register \<Rightarrow> Register \<Rightarrow> bool" where
  "reg_eq r s \<longleftrightarrow> regName r = regName s \<and> regSize r = regSize s"

definition reg_contains :: "Register \<Rightarrow> nat \<Rightarrow> bool" where
  "reg_contains r i \<longleftrightarrow> startIndex r \<le> i \<and> i < startIndex r + regSize r"

definition reg_getLocalIndex :: "Register \<Rightarrow> nat \<Rightarrow> nat result" where
  "reg_getLocalIndex r g = (if \<not> reg_contains r g then Inl OutOfRange else Inr (g - startIndex r))"

definition reg_getGlobalIndex :: "Register \<Rightarrow> nat \<Rightarrow> nat result" where
  "reg_getGlobalIndex r l = (if regSize r \<le> l then Inl OutOfRange else Inr (startIndex r + l))"

definition reg_toString :: "Register \<Rightarrow> nat \<Rightarrow> string result" where
  "reg_toString r g = and_then (reg_getLocalIndex r g)
     (\<lambda>l. Inr (regName r @ ''['' @ to_string l @ '']''))"

text \<open>
  The constructors of \<open>QuantumRegister\<close> and \<open>ClassicalRegister\<close> invent a name from a static
  counter when they are given none.
\<close>

definition generateName :: "string \<Rightarrow> nat \<Rightarrow> string \<times> nat" where
  "generateName prefix counter = (prefix @ to_string counter, counter + 1)"

definition Register_new :: "string \<Rightarrow> nat \<Rightarrow> nat \<Rightarrow> nat \<Rightarrow> string \<Rightarrow> Register \<times> nat" where
  "Register_new prefix counter start sz nm =
     (let (n, c) = (if nm = [] then generateName prefix counter else (nm, counter))
      in (\<lparr>startIndex = start, regSize = sz, regName = n\<rparr>, c))"

lemma reg_index_round_trip:
  "reg_getLocalIndex r g = Inr l \<longleftrightarrow> reg_getGlobalIndex r l = Inr g"
  by (auto simp: reg_getLocalIndex_def reg_getGlobalIndex_def reg_contains_def)

lemma reg_getEndIndex_nonempty:
  "0 < regSize r \<Longrightarrow> startIndex r + regSize r \<le> 2 ^ w \<Longrightarrow> w \<le> 64 \<Longrightarrow>
    reg_getEndIndex w r = startIndex r + regSize r - 1"
proof -
  assume r: "0 < regSize r" "startIndex r + regSize r \<le> 2 ^ w" "w \<le> 64"
  let ?n = "startIndex r + regSize r - 1"
  have "(2::nat) ^ w \<le> 2 ^ 64" using r(3) by (intro power_increasing) auto
  with r have n: "?n < 2 ^ 64" "?n < 2 ^ w" by linarith+
  have "startIndex r + regSize r + (2 ^ 64 - 1) = ?n + 2 ^ 64" using r(1) by simp
  with n show ?thesis unfolding reg_getEndIndex_def by (metis mod_add_self2 mod_less)
qed

section \<open>Controls\<close>

datatype CType = Neg | Pos

datatype Control = Control (qubit: nat) (ctype: CType)

instantiation CType :: linorder
begin

definition less_CType :: "CType \<Rightarrow> CType \<Rightarrow> bool" where
  "less_CType a b \<longleftrightarrow> a = Neg \<and> b = Pos"

definition less_eq_CType :: "CType \<Rightarrow> CType \<Rightarrow> bool" where
  "less_eq_CType a b \<longleftrightarrow> a = Neg \<or> b = Pos"

instance
proof
  fix a b c :: CType
  show "a < b \<longleftrightarrow> a \<le> b \<and> \<not> b \<le> a" "a \<le> a" "a \<le> b \<or> b \<le> a"
    "a \<le> b \<Longrightarrow> b \<le> a \<Longrightarrow> a = b" "a \<le> b \<Longrightarrow> b \<le> c \<Longrightarrow> a \<le> c"
    by (cases a; cases b; cases c; simp add: less_CType_def less_eq_CType_def)+
qed

end

definition control_less :: "Control \<Rightarrow> Control \<Rightarrow> bool" where
  "control_less l r \<longleftrightarrow> qubit l < qubit r \<or> (qubit l = qubit r \<and> ctype l < ctype r)"

instantiation Control :: linorder
begin

definition less_Control :: "Control \<Rightarrow> Control \<Rightarrow> bool" where
  "less_Control l r \<longleftrightarrow> control_less l r"

definition less_eq_Control :: "Control \<Rightarrow> Control \<Rightarrow> bool" where
  "less_eq_Control l r \<longleftrightarrow> control_less l r \<or> l = r"

instance
proof
  fix a b c :: Control
  show "a < b \<longleftrightarrow> a \<le> b \<and> \<not> b \<le> a" "a \<le> a" "a \<le> b \<or> b \<le> a"
    "a \<le> b \<Longrightarrow> b \<le> a \<Longrightarrow> a = b" "a \<le> b \<Longrightarrow> b \<le> c \<Longrightarrow> a \<le> c"
    by (cases a; cases b; cases c;
      auto simp: less_Control_def less_eq_Control_def control_less_def)+
qed

end

type_synonym Controls = "Control list"

text \<open>The comparator is transparent: a lookup by qubit finds a control of either polarity.\<close>

definition controls_contain :: "Controls \<Rightarrow> nat \<Rightarrow> bool" where
  "controls_contain cs q \<longleftrightarrow> (\<exists>c \<in> set cs. qubit c = q)"

definition perm_apply_controls :: "Permutation \<Rightarrow> Controls \<Rightarrow> Controls result" where
  "perm_apply_controls p cs = (if p = [] then Inr cs else
     and_then (map_res (\<lambda>c. and_then (map_at p (qubit c)) (\<lambda>q. Inr (Control q (ctype c)))) cs)
       (\<lambda>cs'. Inr (set_of_list cs')))"

lemma perm_apply_controls_Nil [simp]: "perm_apply_controls [] cs = Inr cs"
  by (simp add: perm_apply_controls_def)

end
