(* ===== verification/IROpType.thy ===== *)
theory IROpType
  imports IRTypes
begin

unbundle bit_operations_syntax

text \<open>
  The enumeration of operation types, \<open>ir/operations/OpType.hpp\<close>, \<open>OpType.inc\<close> and
  \<open>src/ir/operations/OpType.cpp\<close>.  Every constructor carries the prefix \<open>op\<close>, since the
  names of the source are single letters.  The eight bits of an enumerator hold a number and
  two flags, for inverses and for diagonal gates.

  The theory proves that the encoding is injective and that an inverse differs from its gate
  in the inverse flag alone, that the binary search of \<open>opTypeFromString\<close> is a lookup in the
  table, and which names \<open>toString\<close> gives that the table does not know.
\<close>

datatype OpType =
  opNone | opGPhase | opI | opBarrier | opH | opX | opY | opZ | opS | opSdg | opT | opTdg |
  opV | opVdg | opU | opU2 | opP | opSX | opSXdg | opRX | opRY | opRZ | opR | opSWAP |
  opiSWAP | opiSWAPdg | opPeres | opPeresdg | opDCX | opECR | opRXX | opRYY | opRZZ | opRZX |
  opXXminusYY | opXXplusYY | opRCCX | opCompound | opMeasure | opReset | opIfElse | opMove |
  opBridge | opAodActivate | opAodDeactivate | opAodMove

section \<open>Encoding\<close>

definition OpTypeNone :: "8 word" where "OpTypeNone = 0"

definition OpTypeInv :: "8 word" where "OpTypeInv = 1"

definition OpTypeDiag :: "8 word" where "OpTypeDiag = 2"

definition NUM_OP_TYPE_FLAG_BITS :: nat where "NUM_OP_TYPE_FLAG_BITS = 2"

definition handle_op_type :: "nat \<Rightarrow> 8 word \<Rightarrow> 8 word" where
  "handle_op_type N flags = push_bit NUM_OP_TYPE_FLAG_BITS (of_nat N) OR flags"

fun op_code :: "OpType \<Rightarrow> 8 word" where
  "op_code opNone = handle_op_type 0 OpTypeNone"
| "op_code opGPhase = handle_op_type 1 OpTypeNone"
| "op_code opI = handle_op_type 2 OpTypeDiag"
| "op_code opBarrier = handle_op_type 3 OpTypeDiag"
| "op_code opH = handle_op_type 4 OpTypeNone"
| "op_code opX = handle_op_type 5 OpTypeNone"
| "op_code opY = handle_op_type 6 OpTypeNone"
| "op_code opZ = handle_op_type 7 OpTypeDiag"
| "op_code opS = handle_op_type 8 OpTypeDiag"
| "op_code opSdg = handle_op_type 8 (OpTypeDiag OR OpTypeInv)"
| "op_code opT = handle_op_type 9 OpTypeDiag"
| "op_code opTdg = handle_op_type 9 (OpTypeDiag OR OpTypeInv)"
| "op_code opV = handle_op_type 10 OpTypeNone"
| "op_code opVdg = handle_op_type 10 OpTypeInv"
| "op_code opU = handle_op_type 11 OpTypeNone"
| "op_code opU2 = handle_op_type 12 OpTypeNone"
| "op_code opP = handle_op_type 13 OpTypeDiag"
| "op_code opSX = handle_op_type 14 OpTypeNone"
| "op_code opSXdg = handle_op_type 14 OpTypeInv"
| "op_code opRX = handle_op_type 15 OpTypeNone"
| "op_code opRY = handle_op_type 16 OpTypeNone"
| "op_code opRZ = handle_op_type 17 OpTypeDiag"
| "op_code opR = handle_op_type 41 OpTypeNone"
| "op_code opSWAP = handle_op_type 18 OpTypeNone"
| "op_code opiSWAP = handle_op_type 19 OpTypeNone"
| "op_code opiSWAPdg = handle_op_type 19 OpTypeInv"
| "op_code opPeres = handle_op_type 20 OpTypeNone"
| "op_code opPeresdg = handle_op_type 20 OpTypeInv"
| "op_code opDCX = handle_op_type 21 OpTypeNone"
| "op_code opECR = handle_op_type 22 OpTypeNone"
| "op_code opRXX = handle_op_type 23 OpTypeNone"
| "op_code opRYY = handle_op_type 24 OpTypeNone"
| "op_code opRZZ = handle_op_type 25 OpTypeDiag"
| "op_code opRZX = handle_op_type 26 OpTypeNone"
| "op_code opXXminusYY = handle_op_type 27 OpTypeNone"
| "op_code opXXplusYY = handle_op_type 28 OpTypeNone"
| "op_code opRCCX = handle_op_type 33 OpTypeNone"
| "op_code opCompound = handle_op_type 29 OpTypeNone"
| "op_code opMeasure = handle_op_type 30 OpTypeNone"
| "op_code opReset = handle_op_type 31 OpTypeNone"
| "op_code opIfElse = handle_op_type 32 OpTypeNone"
| "op_code opMove = handle_op_type 37 OpTypeNone"
| "op_code opBridge = handle_op_type 42 OpTypeNone"
| "op_code opAodActivate = handle_op_type 38 OpTypeNone"
| "op_code opAodDeactivate = handle_op_type 39 OpTypeNone"
| "op_code opAodMove = handle_op_type 40 OpTypeNone"

section \<open>Names\<close>

fun op_toString :: "OpType \<Rightarrow> string" where
  "op_toString opNone = ''none''"
| "op_toString opGPhase = ''gphase''"
| "op_toString opI = ''i''"
| "op_toString opBarrier = ''barrier''"
| "op_toString opH = ''h''"
| "op_toString opX = ''x''"
| "op_toString opY = ''y''"
| "op_toString opZ = ''z''"
| "op_toString opS = ''s''"
| "op_toString opSdg = ''sdg''"
| "op_toString opT = ''t''"
| "op_toString opTdg = ''tdg''"
| "op_toString opV = ''v''"
| "op_toString opVdg = ''vdg''"
| "op_toString opU = ''u''"
| "op_toString opU2 = ''u2''"
| "op_toString opP = ''p''"
| "op_toString opSX = ''sx''"
| "op_toString opSXdg = ''sxdg''"
| "op_toString opRX = ''rx''"
| "op_toString opRY = ''ry''"
| "op_toString opRZ = ''rz''"
| "op_toString opR = ''r''"
| "op_toString opSWAP = ''swap''"
| "op_toString opiSWAP = ''iswap''"
| "op_toString opiSWAPdg = ''iswapdg''"
| "op_toString opPeres = ''peres''"
| "op_toString opPeresdg = ''peresdg''"
| "op_toString opDCX = ''dcx''"
| "op_toString opECR = ''ecr''"
| "op_toString opRXX = ''rxx''"
| "op_toString opRYY = ''ryy''"
| "op_toString opRZZ = ''rzz''"
| "op_toString opRZX = ''rzx''"
| "op_toString opXXminusYY = ''xx_minus_yy''"
| "op_toString opXXplusYY = ''xx_plus_yy''"
| "op_toString opRCCX = ''rccx''"
| "op_toString opCompound = ''compound''"
| "op_toString opMeasure = ''measure''"
| "op_toString opReset = ''reset''"
| "op_toString opIfElse = ''if_else''"
| "op_toString opMove = ''move''"
| "op_toString opBridge = ''bridge''"
| "op_toString opAodActivate = ''aod_activate''"
| "op_toString opAodDeactivate = ''aod_deactivate''"
| "op_toString opAodMove = ''aod_move''"

fun shortName :: "OpType \<Rightarrow> string" where
  "shortName opGPhase = ''GPh''"
| "shortName opSXdg = ''sxd''"
| "shortName opSWAP = ''sw''"
| "shortName opiSWAP = ''isw''"
| "shortName opiSWAPdg = ''isd''"
| "shortName opPeres = ''pr''"
| "shortName opPeresdg = ''prd''"
| "shortName opXXminusYY = ''x-y''"
| "shortName opXXplusYY = ''x+y''"
| "shortName opBarrier = ''====''"
| "shortName opMeasure = ''msr''"
| "shortName opReset = ''rst''"
| "shortName opIfElse = ''if''"
| "shortName t = op_toString t"

definition isTwoQubitGate :: "OpType \<Rightarrow> bool" where
  "isTwoQubitGate t \<longleftrightarrow> t \<in> {opSWAP, opiSWAP, opiSWAPdg, opPeres, opPeresdg, opDCX, opECR, opRXX, opRYY, opRZZ, opRZX,
    opXXminusYY, opXXplusYY}"

definition isThreeQubitGate :: "OpType \<Rightarrow> bool" where
  "isThreeQubitGate t \<longleftrightarrow> t \<in> {opRCCX}"

definition isSingleQubitGate :: "OpType \<Rightarrow> bool" where
  "isSingleQubitGate t \<longleftrightarrow> t \<in> {opI, opU, opU2, opP, opX, opY, opZ, opH, opS, opSdg, opT, opSX, opSXdg, opTdg, opV, opVdg,
    opRX, opRY, opRZ, opR}"

definition OP_NAME_TO_TYPE :: "(string \<times> OpType) list" where
  "OP_NAME_TO_TYPE = [
    (''aod_activate'', opAodActivate), (''aod_deactivate'', opAodDeactivate),
    (''aod_move'', opAodMove), (''barrier'', opBarrier), (''ch'', opH), (''cnot'', opX),
    (''compound'', opCompound), (''cp'', opP), (''cphase'', opP), (''cr'', opR),
    (''crx'', opRX), (''cry'', opRY), (''crz'', opRZ), (''cs'', opS), (''csdg'', opSdg),
    (''cswap'', opSWAP), (''csx'', opSX), (''csxdg'', opSXdg), (''ct'', opT),
    (''ctdg'', opTdg), (''cu'', opU), (''cu1'', opP), (''cu2'', opU2), (''cu3'', opU),
    (''cx'', opX), (''cy'', opY), (''cz'', opZ), (''dcx'', opDCX), (''ecr'', opECR),
    (''gphase'', opGPhase), (''h'', opH), (''i'', opI), (''id'', opI), (''if_else'', opIfElse),
    (''iswap'', opiSWAP), (''iswapdg'', opiSWAPdg), (''mcp'', opP), (''mcphase'', opP),
    (''mcx'', opX), (''measure'', opMeasure), (''move'', opMove), (''none'', opNone),
    (''p'', opP), (''peres'', opPeres), (''peresdg'', opPeresdg), (''phase'', opP),
    (''prx'', opR), (''r'', opR), (''rccx'', opRCCX), (''reset'', opReset), (''rx'', opRX),
    (''rxx'', opRXX), (''ry'', opRY), (''ryy'', opRYY), (''rz'', opRZ), (''rzx'', opRZX),
    (''rzz'', opRZZ), (''s'', opS), (''sdg'', opSdg), (''swap'', opSWAP), (''sx'', opSX),
    (''sxdg'', opSXdg), (''t'', opT), (''tdg'', opTdg), (''u'', opU), (''u1'', opP),
    (''u2'', opU2), (''u3'', opU), (''v'', opV), (''vdg'', opVdg), (''x'', opX),
    (''xx_minus_yy'', opXXminusYY), (''xx_plus_yy'', opXXplusYY), (''y'', opY), (''z'', opZ)]"

section \<open>Looking a name up\<close>

text \<open>\<open>std::string_view\<close> compares by unsigned characters, lexicographically.\<close>

fun string_less :: "string \<Rightarrow> string \<Rightarrow> bool" where
  "string_less s [] = False"
| "string_less [] (b # t) = True"
| "string_less (a # s) (b # t) =
     ((of_char a :: nat) < of_char b \<or> (a = b \<and> string_less s t))"

text \<open>
  \<open>std::ranges::lower_bound\<close>: the remaining range starts at \<open>first\<close> and has \<open>len\<close> elements;
  the projected middle element is compared with the key.
\<close>

function lower_bound :: "(nat \<Rightarrow> bool) \<Rightarrow> nat \<Rightarrow> nat \<Rightarrow> nat" where
  "lower_bound below first len =
     (if len = 0 then first
      else let half = len div 2 in
        if below (first + half) then lower_bound below (first + half + 1) (len - half - 1)
        else lower_bound below first half)"
  by auto
termination
  by (relation "measure (\<lambda>(_, _, len). len)") auto

declare lower_bound.simps [simp del]

definition lookup_name :: "(string \<times> 'a) list \<Rightarrow> string \<Rightarrow> 'a option" where
  "lookup_name tab s =
     (let i = lower_bound (\<lambda>j. string_less (fst (tab ! j)) s) 0 (length tab)
      in if i < length tab \<and> fst (tab ! i) = s then Some (snd (tab ! i)) else None)"

definition opTypeFromString :: "string \<Rightarrow> OpType result" where
  "opTypeFromString s = (case lookup_name OP_NAME_TO_TYPE s of
     Some t \<Rightarrow> Inr t | None \<Rightarrow> Inl InvalidArgument)"

section \<open>Laws of the encoding\<close>

definition all_op_types :: "OpType list" where
  "all_op_types = [
    opNone, opGPhase, opI, opBarrier, opH, opX, opY, opZ, opS, opSdg, opT, opTdg, opV, opVdg,
    opU, opU2, opP, opSX, opSXdg, opRX, opRY, opRZ, opR, opSWAP, opiSWAP, opiSWAPdg, opPeres,
    opPeresdg, opDCX, opECR, opRXX, opRYY, opRZZ, opRZX, opXXminusYY, opXXplusYY, opRCCX,
    opCompound, opMeasure, opReset, opIfElse, opMove, opBridge, opAodActivate, opAodDeactivate,
    opAodMove]"

lemma in_all_op_types: "t \<in> set all_op_types"
  by (cases t) (simp_all add: all_op_types_def)

lemma all_op_typesD: "list_all Q all_op_types \<Longrightarrow> Q t"
  by (metis in_all_op_types list_all_iff)

lemma op_code_inject: "op_code s = op_code t \<longleftrightarrow> s = t"
proof -
  have "distinct (map op_code all_op_types)" by code_simp
  then have "inj_on op_code (set all_op_types)" by (simp add: distinct_map)
  then show ?thesis using in_all_op_types by (auto dest: inj_onD)
qed

definition diagonal_type :: "OpType \<Rightarrow> bool" where
  "diagonal_type t \<longleftrightarrow> op_code t AND OpTypeDiag \<noteq> 0"

lemma diagonal_type_iff: "diagonal_type t \<longleftrightarrow>
  t \<in> {opI, opBarrier, opZ, opS, opSdg, opT, opTdg, opP, opRZ, opRZZ}"
proof -
  have "list_all (\<lambda>t. diagonal_type t \<longleftrightarrow>
    t \<in> {opI, opBarrier, opZ, opS, opSdg, opT, opTdg, opP, opRZ, opRZZ}) all_op_types"
    by code_simp
  then show ?thesis by (rule all_op_typesD)
qed

text \<open>The flag for inverses tells a gate from its inverse.\<close>

definition dagger_pairs :: "(OpType \<times> OpType) list" where
  "dagger_pairs = [(opS, opSdg), (opT, opTdg), (opV, opVdg), (opSX, opSXdg),
     (opiSWAP, opiSWAPdg), (opPeres, opPeresdg)]"

lemma dagger_pairs_code: "(s, t) \<in> set dagger_pairs \<Longrightarrow> op_code t = op_code s XOR OpTypeInv"
proof -
  have "list_all (\<lambda>(s, t). op_code t = op_code s XOR OpTypeInv) dagger_pairs" by code_simp
  then show "(s, t) \<in> set dagger_pairs \<Longrightarrow> op_code t = op_code s XOR OpTypeInv"
    by (auto simp: list_all_iff)
qed

section \<open>Laws of the lookup\<close>

lemma string_less_trans: "string_less s t \<Longrightarrow> string_less t u \<Longrightarrow> string_less s u"
proof (induction s t arbitrary: u rule: string_less.induct)
  case (2 b t)
  then show ?case by (cases u) simp_all
next
  case (3 a s b t)
  then show ?case by (cases u) auto
qed simp

lemma string_less_irrefl [simp]: "\<not> string_less s s"
  by (induction s) simp_all

lemma string_less_linear: "string_less s t \<or> s = t \<or> string_less t s"
proof (induction s t rule: string_less.induct)
  case (1 s)
  show ?case by (cases s) simp_all
next
  case (3 a s b t)
  have "(of_char a :: nat) = of_char b \<longleftrightarrow> a = b" by simp
  with 3 show ?case by fastforce
qed simp

lemma lower_bound_range:
  "first \<le> lower_bound below first len \<and> lower_bound below first len \<le> first + len"
proof (induction below first len rule: lower_bound.induct)
  case (1 below first len)
  show ?case
  proof (cases "len = 0")
    case False
    then have "len div 2 < len" by simp
    with False 1 [OF False refl] show ?thesis
      by (subst (1 2) lower_bound.simps) (auto simp: Let_def)
  qed (simp add: lower_bound.simps)
qed

definition partitioned :: "(nat \<Rightarrow> bool) \<Rightarrow> nat \<Rightarrow> bool" where
  "partitioned below n \<longleftrightarrow> (\<forall>i j. i \<le> j \<and> j < n \<and> below j \<longrightarrow> below i)"

lemma partitionedD: "partitioned below n \<Longrightarrow> i \<le> j \<Longrightarrow> j < n \<Longrightarrow> below j \<Longrightarrow> below i"
  unfolding partitioned_def by blast

lemma partitioned_le: "partitioned below n \<Longrightarrow> m \<le> n \<Longrightarrow> partitioned below m"
  unfolding partitioned_def by (meson less_le_trans)

lemma lower_bound_splits:
  assumes "partitioned below (first + len)"
  shows "(\<forall>i. first \<le> i \<longrightarrow> i < lower_bound below first len \<longrightarrow> below i) \<and>
    (\<forall>i. lower_bound below first len \<le> i \<longrightarrow> i < first + len \<longrightarrow> \<not> below i)"
  using assms
proof (induction below first len rule: lower_bound.induct)
  case (1 below first len)
  show ?case
  proof (cases "len = 0")
    case False
    define half where "half = len div 2"
    have half: "half < len" using False by (simp add: half_def)
    show ?thesis
    proof (cases "below (first + half)")
      case True
      have eq: "lower_bound below first len = lower_bound below (first + half + 1) (len - half - 1)"
        using False True by (subst lower_bound.simps) (simp add: Let_def half_def)
      have len: "first + half + 1 + (len - half - 1) = first + len" using half by simp
      note ih = 1(1) [OF False half_def True, unfolded len, OF 1(3)]
      have "below i" if "first \<le> i" "i < lower_bound below first len" for i
      proof (cases "i \<le> first + half")
        case le: True
        show ?thesis by (rule partitionedD [OF 1(3) le _ True]) (use half in simp)
      next
        case gt: False
        then have "first + half + 1 \<le> i" by simp
        then show ?thesis using ih that(2) unfolding eq by blast
      qed
      with ih show ?thesis unfolding eq by blast
    next
      case below: False
      have eq: "lower_bound below first len = lower_bound below first half"
        using False below by (subst lower_bound.simps) (simp add: Let_def half_def)
      have part: "partitioned below (first + half)" using partitioned_le [OF 1(3)] half by simp
      note ih = 1(2) [OF False half_def below part]
      have "\<not> below i" if i: "lower_bound below first half \<le> i" "i < first + len" for i
      proof (cases "i < first + half")
        case True
        then show ?thesis using ih i(1) by blast
      next
        case ge: False
        then have "first + half \<le> i" by simp
        then show ?thesis using partitionedD [OF 1(3)] i(2) below by blast
      qed
      with ih show ?thesis unfolding eq by blast
    qed
  qed (simp add: lower_bound.simps)
qed

theorem lookup_name_map_of:
  assumes sorted: "sorted_wrt string_less (map fst tab)"
  shows "lookup_name tab s = map_of tab s"
proof -
  let ?b = "\<lambda>j. string_less (fst (tab ! j)) s"
  define i where "i = lower_bound ?b 0 (length tab)"
  have less: "string_less (fst (tab ! j)) (fst (tab ! k))" if "j < k" "k < length tab" for j k
    using sorted_wrt_nth_less [OF sorted that(1)] that by simp
  have part: "partitioned ?b (0 + length tab)"
    unfolding partitioned_def by (metis add_0 le_neq_implies_less less string_less_trans)
  note ls = lower_bound_splits [OF part, folded i_def]
  have split: "?b j" if "j < i" for j
    using ls that by blast
  have split': "\<not> ?b j" if "i \<le> j" "j < length tab" for j
    using ls that by simp
  have distinct: "distinct (map fst tab)"
    using sorted unfolding distinct_conv_nth
    by (metis (no_types, lifting) less length_map linorder_neqE_nat nth_map string_less_irrefl)
  show ?thesis
  proof (cases "map_of tab s")
    case None
    then have "s \<notin> fst ` set tab" by (simp add: map_of_eq_None_iff)
    then have "i < length tab \<Longrightarrow> fst (tab ! i) \<noteq> s" using nth_mem by force
    with None show ?thesis by (auto simp: lookup_name_def Let_def simp flip: i_def)
  next
    case (Some t)
    from map_of_SomeD [OF Some] obtain k where k: "k < length tab" "tab ! k = (s, t)"
      by (auto simp: in_set_conv_nth)
    have "k = i"
    proof (rule linorder_cases [of k i])
      assume "k < i" with split [of k] k show ?thesis by simp
    next
      assume "i < k"
      with less [of i k] k split' [of i] show ?thesis by simp
    qed
    with k Some show ?thesis by (simp add: lookup_name_def Let_def flip: i_def)
  qed
qed

lemma OP_NAME_TO_TYPE_sorted: "sorted_wrt string_less (map fst OP_NAME_TO_TYPE)"
proof -
  have "successively string_less (map fst OP_NAME_TO_TYPE)" by code_simp
  then show ?thesis
    by (subst (asm) successively_conv_sorted_wrt) (auto intro: transpI string_less_trans)
qed

lemma opTypeFromString_table:
  "opTypeFromString s = (case map_of OP_NAME_TO_TYPE s of Some t \<Rightarrow> Inr t | None \<Rightarrow> Inl InvalidArgument)"
  by (simp add: opTypeFromString_def lookup_name_map_of OP_NAME_TO_TYPE_sorted)

lemma opTypeFromString_toString:
  "opTypeFromString (op_toString t) = (if t = opBridge then Inl InvalidArgument else Inr t)"
proof -
  have "list_all (\<lambda>t. map_of OP_NAME_TO_TYPE (op_toString t) =
    (if t = opBridge then None else Some t)) all_op_types" by code_simp
  then have "map_of OP_NAME_TO_TYPE (op_toString t) = (if t = opBridge then None else Some t)"
    using in_all_op_types by (simp add: list_all_iff)
  then show ?thesis by (simp add: opTypeFromString_table)
qed

end
