(* ===== verification/IRStandard.thy ===== *)
theory IRStandard
  imports IROpType
begin

text \<open>
  The data of \<open>qc::Operation\<close> (\<open>ir/operations/Operation.hpp\<close>) and the class
  \<open>StandardOperation\<close> (\<open>ir/operations/StandardOperation.hpp\<close>,
  \<open>src/ir/operations/StandardOperation.cpp\<close>): the constructors, which rewrite a generic
  \<open>U\<close>, \<open>U2\<close> or \<open>P\<close> gate into a named gate when its angles are close to special values, the
  changes of controls, inversion, and the Clifford and globality checks.

  The constants \<open>PI\<close>, \<open>PI_2\<close>, \<open>PI_4\<close> are the exact values of the doubles.  Parameters are
  rationals: a step whose result is no finite double returns \<open>NotFinite\<close>.
\<close>

record OpBase =
  controls :: Controls
  targets :: "nat list"
  parameter :: "fp list"
  optype :: OpType
  opname :: string

section \<open>Constants and snapping\<close>

definition PI :: fp where "PI = 884279719003555 / 281474976710656"

definition PI_2 :: fp where "PI_2 = PI / 2"

definition PI_4 :: fp where "PI_4 = PI / 4"

definition PARAMETER_TOLERANCE :: fp where "PARAMETER_TOLERANCE = 1 / 10 ^ 13"

definition near :: "fp \<Rightarrow> fp \<Rightarrow> bool" where
  "near x c \<longleftrightarrow> \<bar>x - c\<bar> < PARAMETER_TOLERANCE"

definition nearbyint :: "fp \<Rightarrow> int" where
  "nearbyint x = (let f = \<lfloor>x\<rfloor>; d = x - of_int f in
     if d < 1 / 2 then f else if 1 / 2 < d then f + 1 else if even f then f else f + 1)"

definition checkInteger :: "fp \<Rightarrow> fp" where
  "checkInteger ld = (let nearest = of_int (nearbyint ld) in if near ld nearest then nearest else ld)"

text \<open>
  For a zero angle the quotient is infinite and the comparison with its nearest integer is
  false.  For a huge angle the nearest integer of the quotient is zero, and the angle is
  replaced by an infinity.
\<close>

definition checkFractionPi :: "fp \<Rightarrow> fp result" where
  "checkFractionPi ld = (if ld = 0 then Inr ld else
     let quot = PI / ld; nearest = nearbyint quot in
     if near quot (of_int nearest) then (if nearest = 0 then Inl NotFinite else Inr (PI / of_int nearest))
     else Inr ld)"

definition snap :: "fp \<Rightarrow> fp result" where
  "snap ld = checkFractionPi (checkInteger ld)"

section \<open>Recognising special gates\<close>

definition parseU1 :: "fp \<Rightarrow> (OpType \<times> fp list) result" where
  "parseU1 lam = (if near lam 0 then Inr (opI, [])
     else let sgn = lam < 0 in
     if near \<bar>lam\<bar> PI then Inr (opZ, [])
     else if near \<bar>lam\<bar> PI_2 then Inr (if sgn then opSdg else opS, [])
     else if near \<bar>lam\<bar> PI_4 then Inr (if sgn then opTdg else opT, [])
     else and_then (snap lam) (\<lambda>lam. Inr (opP, [lam])))"

definition parseU2 :: "fp \<Rightarrow> fp \<Rightarrow> (OpType \<times> fp list) result" where
  "parseU2 phi lam = (
     if near phi 0 \<and> near \<bar>lam\<bar> PI then Inr (opH, [])
     else if near phi 0 \<and> near lam 0 then Inr (opRY, [PI_2])
     else let phi = (if near phi 0 then 0 else phi) in
     if near lam PI_2 \<and> near phi (- PI_2) then Inr (opV, [])
     else let lam = (if near lam PI_2 then PI_2 else lam) in
     if near lam (- PI_2) \<and> near phi PI_2 then Inr (opVdg, [])
     else let lam = (if near lam (- PI_2) then - PI_2 else lam) in
     and_then (snap lam) (\<lambda>lam. and_then (snap phi) (\<lambda>phi. Inr (opU2, [phi, lam]))))"

definition parseU3 :: "fp \<Rightarrow> fp \<Rightarrow> fp \<Rightarrow> (OpType \<times> fp list) result" where
  "parseU3 theta phi lam = (
     if near theta 0 \<and> near phi 0 then parseU1 lam
     else if near theta PI_2 then parseU2 phi lam
     else if near lam 0 \<and> near phi 0 then and_then (snap theta) (\<lambda>theta. Inr (opRY, [theta]))
     else let lam = (if near lam 0 then 0 else lam) in
     if near lam PI_2 \<and> near phi (- PI_2) then and_then (snap theta) (\<lambda>theta. Inr (opRX, [theta]))
     else if near lam PI_2 \<and> near phi PI_2 \<and> near theta PI then Inr (opY, [])
     else let phi = (if near lam PI_2 \<and> near phi PI_2 then PI_2 else phi);
              lam = (if near lam PI_2 then PI_2 else lam) in
     if near lam (- PI_2) \<and> near phi PI_2 then Inr (opRX, [- theta])
     else let lam = (if near lam (- PI_2) then - PI_2 else lam) in
     if near lam PI \<and> near phi 0 \<and> near theta PI then Inr (opX, [])
     else let phi = (if near lam PI \<and> near phi 0 then 0 else phi);
              lam = (if near lam PI then PI else lam) in
     and_then (snap lam) (\<lambda>lam. and_then (snap phi) (\<lambda>phi. and_then (snap theta)
       (\<lambda>theta. Inr (opU, [theta, phi, lam])))))"

definition checkUgate :: "OpType \<Rightarrow> fp list \<Rightarrow> (OpType \<times> fp list) result" where
  "checkUgate t ps = (if ps = [] then Inr (t, ps)
     else if t = opP then (case ps of [lam] \<Rightarrow> parseU1 lam | _ \<Rightarrow> Inl Undefined)
     else if t = opU2 then (case ps of [phi, lam] \<Rightarrow> parseU2 phi lam | _ \<Rightarrow> Inl Undefined)
     else if t = opU then (case ps of [theta, phi, lam] \<Rightarrow> parseU3 theta phi lam | _ \<Rightarrow> Inl Undefined)
     else Inr (t, ps))"

section \<open>Members of Operation\<close>

definition op_actsOn :: "OpBase \<Rightarrow> nat \<Rightarrow> bool" where
  "op_actsOn op i \<longleftrightarrow> i \<in> set (targets op) \<or> controls_contain (controls op) i"

definition op_isControlled :: "OpBase \<Rightarrow> bool" where
  "op_isControlled op \<longleftrightarrow> controls op \<noteq> []"

definition op_isSingleQubitGate :: "OpBase \<Rightarrow> bool" where
  "op_isSingleQubitGate op \<longleftrightarrow> \<not> op_isControlled op \<and> isSingleQubitGate (optype op)"

definition op_getNcontrols :: "OpBase \<Rightarrow> nat" where
  "op_getNcontrols op = length (controls op)"

definition op_getNtargets :: "OpBase \<Rightarrow> nat" where
  "op_getNtargets op = length (targets op)"

definition op_setGate :: "OpType \<Rightarrow> OpBase \<Rightarrow> OpBase" where
  "op_setGate g op = op\<lparr>optype := g, opname := op_toString g\<rparr>"

definition op_getUsedQubitsPermuted :: "Permutation \<Rightarrow> OpBase \<Rightarrow> nat list result" where
  "op_getUsedQubitsPermuted p op =
     and_then (map_res (perm_apply p) (targets op)) (\<lambda>ts.
     and_then (map_res (\<lambda>c. perm_apply p (qubit c)) (controls op)) (\<lambda>cs.
     Inr (set_of_list (ts @ cs))))"

definition op_usedQubits :: "OpBase \<Rightarrow> nat list" where
  "op_usedQubits op = set_of_list (targets op @ map qubit (controls op))"

definition op_apply :: "Permutation \<Rightarrow> OpBase \<Rightarrow> OpBase result" where
  "op_apply p op = and_then (perm_apply_targets p (targets op)) (\<lambda>ts.
     and_then (perm_apply_controls p (controls op)) (\<lambda>cs.
     Inr (op\<lparr>targets := ts, controls := cs\<rparr>)))"

text \<open>
  The depths are indexed without a bounds check: an index outside the vector is undefined
  behaviour.
\<close>

definition op_qubit_list :: "OpBase \<Rightarrow> nat list" where
  "op_qubit_list op = targets op @ map qubit (controls op)"

definition op_addDepthContribution :: "OpBase \<Rightarrow> nat list \<Rightarrow> nat list result" where
  "op_addDepthContribution op depths = (if optype op = opBarrier then Inr depths else
     and_then (map_res (deref_res depths) (op_qubit_list op)) (\<lambda>ds.
       let maxDepth = fold max ds 0 + 1
       in Inr (fold (\<lambda>q d. d[q := maxDepth]) (op_qubit_list op) depths)))"

definition neg_controls :: "Permutation \<Rightarrow> Controls \<Rightarrow> nat list result" where
  "neg_controls p cs = and_then (map_res (\<lambda>c. perm_apply p (qubit c)) (filter (\<lambda>c. ctype c = Neg) cs))
     (\<lambda>qs. Inr (set_of_list qs))"

text \<open>
  \<open>Operation::equals\<close>.  The qubits of the two operations come from a virtual function and are
  passed in.
\<close>

definition op_equals :: "OpBase \<Rightarrow> OpBase \<Rightarrow> nat list result \<Rightarrow> nat list result \<Rightarrow>
    Permutation \<Rightarrow> Permutation \<Rightarrow> bool result" where
  "op_equals a b used1 used2 p1 p2 = (
     if optype a \<noteq> optype b then Inr False
     else if length (controls a) \<noteq> length (controls b) then Inr False
     else if parameter a \<noteq> parameter b then Inr False
     else if diagonal_type (optype a) then
       and_then used1 (\<lambda>u1. and_then used2 (\<lambda>u2.
       if u1 \<noteq> u2 then Inr False else
       and_then (neg_controls p1 (controls a)) (\<lambda>n1.
       and_then (neg_controls p2 (controls b)) (\<lambda>n2. Inr (n1 = n2)))))
     else
       and_then (if controls a = [] then Inr True else
         and_then (perm_apply_controls p1 (controls a)) (\<lambda>c1.
         and_then (perm_apply_controls p2 (controls b)) (\<lambda>c2. Inr (c1 = c2)))) (\<lambda>same.
       if \<not> same then Inr False else
       and_then (perm_apply_targets p1 (targets a)) (\<lambda>t1.
       and_then (perm_apply_targets p2 (targets b)) (\<lambda>t2. Inr (t1 = t2)))))"

section \<open>StandardOperation\<close>

definition std_addControl :: "Control \<Rightarrow> OpBase \<Rightarrow> OpBase result" where
  "std_addControl c op = (if op_actsOn op (qubit c) then Inl RuntimeError
     else Inr (op\<lparr>controls := set_emplace c (controls op)\<rparr>))"

definition std_addControls :: "Controls \<Rightarrow> OpBase \<Rightarrow> OpBase result" where
  "std_addControls cs op = fold_res std_addControl cs op"

definition std_clearControls :: "OpBase \<Rightarrow> OpBase" where
  "std_clearControls op = op\<lparr>controls := []\<rparr>"

definition std_removeControl :: "Control \<Rightarrow> OpBase \<Rightarrow> OpBase result" where
  "std_removeControl c op = (if c \<notin> set (controls op) then Inl RuntimeError
     else Inr (op\<lparr>controls := remove1 c (controls op)\<rparr>))"

definition std_setControls :: "Controls \<Rightarrow> OpBase \<Rightarrow> OpBase result" where
  "std_setControls cs op = std_addControls cs (std_clearControls op)"

definition StandardOperation_new :: "nat list \<Rightarrow> OpType \<Rightarrow> fp list \<Rightarrow> OpBase result" where
  "StandardOperation_new targ g params = and_then (checkUgate g params) (\<lambda>(t, ps).
     Inr \<lparr>controls = [], targets = targ, parameter = ps, optype = t, opname = op_toString t\<rparr>)"

definition StandardOperation_controlled ::
    "Controls \<Rightarrow> nat list \<Rightarrow> OpType \<Rightarrow> fp list \<Rightarrow> OpBase result" where
  "StandardOperation_controlled c targ g params =
     and_then (StandardOperation_new targ g params) (std_addControls c)"

definition std_isGlobal :: "nat \<Rightarrow> OpBase \<Rightarrow> bool" where
  "std_isGlobal n op \<longleftrightarrow> length (op_usedQubits op) = n"

definition std_isClifford :: "OpBase \<Rightarrow> bool" where
  "std_isClifford op \<longleftrightarrow>
     (if optype op = opI then True
      else if optype op \<in> {opX, opY, opZ} then length (controls op) \<le> 1
      else if optype op \<in> {opH, opS, opSdg, opSX, opSXdg, opDCX, opSWAP, opiSWAP, opECR}
        then \<not> op_isControlled op
      else False)"

section \<open>Inversion\<close>

definition self_inverse_types :: "OpType list" where
  "self_inverse_types = [opI, opX, opY, opZ, opH, opSWAP, opECR, opRCCX, opBarrier]"

definition negate_first_types :: "OpType list" where
  "negate_first_types = [opGPhase, opP, opRX, opRY, opRZ, opR, opRXX, opRYY, opRZZ, opRZX,
     opXXminusYY, opXXplusYY]"

fun dagger_type :: "OpType \<Rightarrow> OpType option" where
  "dagger_type opS = Some opSdg"
| "dagger_type opSdg = Some opS"
| "dagger_type opT = Some opTdg"
| "dagger_type opTdg = Some opT"
| "dagger_type opV = Some opVdg"
| "dagger_type opVdg = Some opV"
| "dagger_type opSX = Some opSXdg"
| "dagger_type opSXdg = Some opSX"
| "dagger_type opPeres = Some opPeresdg"
| "dagger_type opPeresdg = Some opPeres"
| "dagger_type opiSWAP = Some opiSWAPdg"
| "dagger_type opiSWAPdg = Some opiSWAP"
| "dagger_type _ = None"

definition std_invert :: "OpBase \<Rightarrow> OpBase result" where
  "std_invert op = (
     if optype op \<in> set self_inverse_types then Inr op
     else if optype op \<in> set negate_first_types then
       (case parameter op of p # ps \<Rightarrow> Inr (op\<lparr>parameter := - p # ps\<rparr>) | [] \<Rightarrow> Inl Undefined)
     else if optype op = opU2 then
       (case parameter op of p0 # p1 # ps \<Rightarrow> Inr (op\<lparr>parameter := (- p1 + PI) # (- p0 - PI) # ps\<rparr>)
        | _ \<Rightarrow> Inl Undefined)
     else if optype op = opU then
       (case parameter op of p0 # p1 # p2 # ps \<Rightarrow> Inr (op\<lparr>parameter := - p0 # - p2 # - p1 # ps\<rparr>)
        | _ \<Rightarrow> Inl Undefined)
     else if optype op = opDCX then
       (case targets op of t0 # t1 # ts \<Rightarrow> Inr (op\<lparr>targets := t1 # t0 # ts\<rparr>)
        | _ \<Rightarrow> Inl Undefined)
     else case dagger_type (optype op) of
       Some t \<Rightarrow> Inr (op\<lparr>optype := t\<rparr>)
     | None \<Rightarrow> Inl RuntimeError)"

end
