(* ===== verification/IROperation.thy ===== *)
theory IROperation
  imports IRSymbolic
begin

text \<open>
  The class hierarchy below \<open>qc::Operation\<close> as one datatype, and its virtual functions by
  case distinction on the dynamic type: \<open>StandardOperation\<close>, \<open>SymbolicOperation\<close>,
  \<open>NonUnitaryOperation\<close>, \<open>CompoundOperation\<close> and \<open>IfElseOperation\<close>
  (\<open>src/ir/operations/\<close>).  \<open>AodOperation\<close> is not modelled.  Every object owns its
  sub-operations, so a copy is the same value.
\<close>

section \<open>Data\<close>

datatype ComparisonKind = Eq | Neq | Lt | Leq | Gt | Geq

record Condition =
  controlRegister :: "Register option"
  controlBit :: "nat option"
  expectedValueRegister :: nat
  expectedValueBit :: bool
  comparisonKind :: ComparisonKind

datatype Operation =
    StandardOp OpBase
  | SymbolicOp SymOp
  | NonUnitaryOp OpBase "nat list"
  | CompoundOp OpBase "Operation list" bool
  | IfElseOp OpBase "Operation option" "Operation option" Condition

fun getBase :: "Operation \<Rightarrow> OpBase" where
  "getBase (StandardOp b) = b"
| "getBase (SymbolicOp s) = base s"
| "getBase (NonUnitaryOp b cs) = b"
| "getBase (CompoundOp b ops cust) = b"
| "getBase (IfElseOp b t e cnd) = b"

abbreviation getType :: "Operation \<Rightarrow> OpType" where "getType op \<equiv> optype (getBase op)"

abbreviation getTargets :: "Operation \<Rightarrow> nat list" where "getTargets op \<equiv> targets (getBase op)"

abbreviation getControls :: "Operation \<Rightarrow> Controls" where "getControls op \<equiv> controls (getBase op)"

section \<open>Queries\<close>

fun isCompoundOperation :: "Operation \<Rightarrow> bool" where
  "isCompoundOperation (CompoundOp b ops cust) = True"
| "isCompoundOperation _ = False"

fun isIfElseOperation :: "Operation \<Rightarrow> bool" where
  "isIfElseOperation (IfElseOp b t e cnd) = True"
| "isIfElseOperation _ = False"

fun isUnitary :: "Operation \<Rightarrow> bool" where
  "isUnitary (NonUnitaryOp b cs) = False"
| "isUnitary (IfElseOp b t e cnd) = False"
| "isUnitary _ = True"

fun isNonUnitaryOperation :: "Operation \<Rightarrow> bool" where
  "isNonUnitaryOperation (NonUnitaryOp b cs) = True"
| "isNonUnitaryOperation (IfElseOp b t e cnd) = True"
| "isNonUnitaryOperation (CompoundOp b ops cust) = list_ex isNonUnitaryOperation ops"
| "isNonUnitaryOperation _ = False"

fun isStandardOperation :: "Operation \<Rightarrow> bool" where
  "isStandardOperation (StandardOp b) = True"
| "isStandardOperation (SymbolicOp s) = sym_isStandardOperation s"
| "isStandardOperation _ = False"

fun isSymbolicOperation :: "Operation \<Rightarrow> bool" where
  "isSymbolicOperation (SymbolicOp s) = sym_isSymbolicOperation s"
| "isSymbolicOperation (CompoundOp b ops cust) = list_ex isSymbolicOperation ops"
| "isSymbolicOperation _ = False"

fun isControlled :: "Operation \<Rightarrow> bool" where
  "isControlled (IfElseOp b t e cnd) = False"
| "isControlled op = op_isControlled (getBase op)"

definition isDiagonalGate :: "Operation \<Rightarrow> bool" where
  "isDiagonalGate op \<longleftrightarrow> diagonal_type (getType op)"

fun op_isClifford :: "Operation \<Rightarrow> bool" where
  "op_isClifford (StandardOp b) = std_isClifford b"
| "op_isClifford (SymbolicOp s) = std_isClifford (base s)"
| "op_isClifford (CompoundOp b ops cust) = list_all op_isClifford ops"
| "op_isClifford _ = False"

fun actsOn :: "Operation \<Rightarrow> nat \<Rightarrow> bool" where
  "actsOn (CompoundOp b ops cust) i = list_ex (\<lambda>op. actsOn op i) ops"
| "actsOn op i = op_actsOn (getBase op) i"

fun getUsedQubitsPermuted :: "Permutation \<Rightarrow> Operation \<Rightarrow> nat list result" where
  "getUsedQubitsPermuted p (CompoundOp b ops cust) =
     and_then (map_res (getUsedQubitsPermuted p) ops) (\<lambda>us. Inr (set_of_list (concat us)))"
| "getUsedQubitsPermuted p op = op_getUsedQubitsPermuted p (getBase op)"

fun getUsedQubits :: "Operation \<Rightarrow> nat list" where
  "getUsedQubits (CompoundOp b ops cust) = set_of_list (concat (map getUsedQubits ops))"
| "getUsedQubits op = op_usedQubits (getBase op)"

definition getNqubits_op :: "Operation \<Rightarrow> nat" where
  "getNqubits_op op = (case op of
     CompoundOp b ops cust \<Rightarrow> length (getUsedQubits op)
   | _ \<Rightarrow> op_getNcontrols (getBase op) + op_getNtargets (getBase op))"

fun isGlobal :: "nat \<Rightarrow> Operation \<Rightarrow> bool result" where
  "isGlobal n (StandardOp b) = Inr (std_isGlobal n b)"
| "isGlobal n (SymbolicOp s) = Inr (std_isGlobal n (base s))"
| "isGlobal n (CompoundOp b ops cust) = (case ops of
     [] \<Rightarrow> Inl Undefined
   | front # rest \<Rightarrow> Inr (length (getUsedQubits (CompoundOp b ops cust)) = n \<and>
       list_all (\<lambda>op. isStandardOperation op \<and> op_getNcontrols (getBase op) = 0 \<and>
         getType op = getType front \<and>
         parameter (getBase op) = parameter (getBase front)) rest))"
| "isGlobal n op = Inr False"

section \<open>Depth\<close>

fun addDepthContribution :: "Operation \<Rightarrow> nat list \<Rightarrow> nat list result" where
  "addDepthContribution (CompoundOp b ops cust) ds = fold_res (\<lambda>op ds. addDepthContribution op ds) ops ds"
| "addDepthContribution (NonUnitaryOp b cs) ds =
     fold_res (\<lambda>t ds. and_then (deref_res ds t) (\<lambda>d. Inr (ds[t := d + 1]))) (targets b) ds"
| "addDepthContribution op ds = op_addDepthContribution (getBase op) ds"

section \<open>Comparison\<close>

fun all2_res :: "('a \<Rightarrow> 'b \<Rightarrow> bool result) \<Rightarrow> 'a list \<Rightarrow> 'b list \<Rightarrow> bool result" where
  "all2_res f (x # xs) (y # ys) = and_then (f x y) (\<lambda>b. if b then all2_res f xs ys else Inr False)"
| "all2_res f xs ys = Inr True"

lemma all2_res_cong [fundef_cong]:
  "xs = xs' \<Longrightarrow> ys = ys' \<Longrightarrow> (\<And>x y. x \<in> set xs' \<Longrightarrow> f x y = g x y) \<Longrightarrow>
    all2_res f xs ys = all2_res g xs' ys'"
proof (induction xs' ys' arbitrary: xs ys rule: list_induct2')
  case (4 x xs' y ys')
  then have "all2_res f xs' ys' = all2_res g xs' ys'" by simp
  with 4 show ?case by (simp cong: if_cong)
qed simp_all

fun opt2_res :: "('a \<Rightarrow> 'b \<Rightarrow> bool result) \<Rightarrow> 'a option \<Rightarrow> 'b option \<Rightarrow> bool result" where
  "opt2_res f (Some x) (Some y) = f x y"
| "opt2_res f None None = Inr True"
| "opt2_res f _ _ = Inr False"

lemma opt2_res_cong [fundef_cong]:
  "x = x' \<Longrightarrow> y = y' \<Longrightarrow> (\<And>a b. x' = Some a \<Longrightarrow> f a b = g a b) \<Longrightarrow>
    opt2_res f x y = opt2_res g x' y'"
  by (cases x'; cases y') auto

text \<open>The measurements of an operation: qubit, permuted, and classical bit.\<close>

definition measurements :: "Permutation \<Rightarrow> nat list \<Rightarrow> nat list \<Rightarrow> (nat \<times> nat) set result" where
  "measurements p ts cs = and_then (map_res (\<lambda>(q, c). and_then (if p = [] then Inr q else map_at p q)
     (\<lambda>q. Inr (q, c))) (zip ts cs)) (\<lambda>ms. Inr (set ms))"

definition nonunitary_equals :: "OpBase \<Rightarrow> nat list \<Rightarrow> OpBase \<Rightarrow> nat list \<Rightarrow>
    Permutation \<Rightarrow> Permutation \<Rightarrow> bool result" where
  "nonunitary_equals a ca b cb p1 p2 = (
     if optype a \<noteq> optype b then Inr False
     else if optype a = opMeasure then
       if length (targets a) \<noteq> length (targets b) then Inr False
       else if length (targets a) \<noteq> length ca \<or> length (targets b) \<noteq> length cb then Inl Undefined
       else and_then (measurements p1 (targets a) ca) (\<lambda>m1.
         and_then (measurements p2 (targets b) cb) (\<lambda>m2. Inr (m1 = m2)))
     else op_equals a b (op_getUsedQubitsPermuted p1 a) (op_getUsedQubitsPermuted p2 b) p1 p2)"

text \<open>
  The comparison of symbolic parameters ends at the first index where both are symbolic.
\<close>

fun sym_params_equal ::
    "fp Expression option list \<Rightarrow> fp Expression option list \<Rightarrow> bool result" where
  "sym_params_equal [] ys = Inr True"
| "sym_params_equal (x # xs) [] = Inl OutOfRange"
| "sym_params_equal (None # xs) (None # ys) = sym_params_equal xs ys"
| "sym_params_equal (Some e # xs) (Some f # ys) = Inr (expr_eq e f)"
| "sym_params_equal (x # xs) (y # ys) = Inr False"

definition symbolic_equals :: "SymOp \<Rightarrow> Operation \<Rightarrow> nat list result \<Rightarrow> nat list result \<Rightarrow>
    Permutation \<Rightarrow> Permutation \<Rightarrow> bool result" where
  "symbolic_equals s op used1 used2 p1 p2 = (
     if \<not> isSymbolicOperation op \<and> \<not> sym_isStandardOperation s then Inr False
     else and_then (if sym_isStandardOperation s
         then op_equals (base s) (getBase op) used1 used2 p1 p2 else Inr False) (\<lambda>same.
       if same then Inr True
       else if \<not> isSymbolicOperation op then Inr False
       else case op of
         SymbolicOp s' \<Rightarrow> sym_params_equal (symbolicParameter s) (symbolicParameter s')
       | _ \<Rightarrow> Inl BadCast))"

definition same_optional_register :: "Register option \<Rightarrow> Register option \<Rightarrow> bool" where
  "same_optional_register r s = (case (r, s) of
     (Some r, Some s) \<Rightarrow> reg_eq r s | (None, None) \<Rightarrow> True | _ \<Rightarrow> False)"

definition same_condition :: "Condition \<Rightarrow> Condition \<Rightarrow> bool" where
  "same_condition c d \<longleftrightarrow>
     same_optional_register (controlRegister c) (controlRegister d) \<and>
     controlBit c = controlBit d \<and>
     expectedValueRegister c = expectedValueRegister d \<and>
     expectedValueBit c = expectedValueBit d \<and>
     comparisonKind c = comparisonKind d"

fun equals :: "Permutation \<Rightarrow> Permutation \<Rightarrow> Operation \<Rightarrow> Operation \<Rightarrow> bool result" where
  "equals p1 p2 (StandardOp a) op =
     op_equals a (getBase op) (op_getUsedQubitsPermuted p1 a) (getUsedQubitsPermuted p2 op) p1 p2"
| "equals p1 p2 (SymbolicOp s) op =
     symbolic_equals s op (op_getUsedQubitsPermuted p1 (base s)) (getUsedQubitsPermuted p2 op) p1 p2"
| "equals p1 p2 (NonUnitaryOp a ca) op = (case op of
     NonUnitaryOp b cb \<Rightarrow> nonunitary_equals a ca b cb p1 p2
   | _ \<Rightarrow> Inr False)"
| "equals p1 p2 (CompoundOp a ops cust) op = (case op of
     CompoundOp b ops' cust' \<Rightarrow>
       if length ops' \<noteq> length ops then Inr False
       else all2_res (\<lambda>x y. equals p1 p2 x y) ops ops'
   | _ \<Rightarrow> Inr False)"
| "equals p1 p2 (IfElseOp a t e c) op = (case op of
     IfElseOp b t' e' d \<Rightarrow>
       if \<not> same_condition c d then Inr False
       else and_then (opt2_res (\<lambda>x y. equals p1 p2 x y) t t') (\<lambda>same.
         if \<not> same then Inr False else opt2_res (\<lambda>x y. equals p1 p2 x y) e e')
   | _ \<Rightarrow> Inr False)"

abbreviation op_eq :: "Operation \<Rightarrow> Operation \<Rightarrow> bool result" where
  "op_eq \<equiv> equals [] []"

section \<open>Changing an operation\<close>

fun op_invert :: "Operation \<Rightarrow> Operation result" where
  "op_invert (StandardOp b) = and_then (std_invert b) (\<lambda>b. Inr (StandardOp b))"
| "op_invert (SymbolicOp s) = and_then (sym_invert s) (\<lambda>s. Inr (SymbolicOp s))"
| "op_invert (CompoundOp b ops cust) =
     and_then (map_res op_invert ops) (\<lambda>ops. Inr (CompoundOp b (rev ops) cust))"
| "op_invert (NonUnitaryOp b cs) = Inl RuntimeError"
| "op_invert (IfElseOp b t e cnd) = Inl RuntimeError"

fun opt_map_res :: "('a \<Rightarrow> 'b result) \<Rightarrow> 'a option \<Rightarrow> 'b option result" where
  "opt_map_res f None = Inr None"
| "opt_map_res f (Some x) = and_then (f x) (\<lambda>y. Inr (Some y))"

lemma opt_map_res_cong [fundef_cong]:
  "x = y \<Longrightarrow> (\<And>a. y = Some a \<Longrightarrow> f a = g a) \<Longrightarrow> opt_map_res f x = opt_map_res g y"
  by (cases y) auto

fun apply_perm :: "Permutation \<Rightarrow> Operation \<Rightarrow> Operation result" where
  "apply_perm p (StandardOp b) = and_then (op_apply p b) (\<lambda>b. Inr (StandardOp b))"
| "apply_perm p (SymbolicOp s) = and_then (op_apply p (base s)) (\<lambda>b. Inr (SymbolicOp (s\<lparr>base := b\<rparr>)))"
| "apply_perm p (NonUnitaryOp b cs) =
     and_then (perm_apply_targets p (targets b)) (\<lambda>ts. Inr (NonUnitaryOp (b\<lparr>targets := ts\<rparr>) cs))"
| "apply_perm p (CompoundOp b ops cust) = and_then (op_apply p b) (\<lambda>b.
     and_then (map_res (apply_perm p) ops) (\<lambda>ops. Inr (CompoundOp b ops cust)))"
| "apply_perm p (IfElseOp b t e cnd) = and_then (opt_map_res (apply_perm p) t) (\<lambda>t.
     and_then (opt_map_res (apply_perm p) e) (\<lambda>e. Inr (IfElseOp b t e cnd)))"

fun addControl :: "Control \<Rightarrow> Operation \<Rightarrow> Operation result" where
  "addControl c (StandardOp b) = and_then (std_addControl c b) (\<lambda>b. Inr (StandardOp b))"
| "addControl c (SymbolicOp s) = and_then (std_addControl c (base s)) (\<lambda>b. Inr (SymbolicOp (s\<lparr>base := b\<rparr>)))"
| "addControl c (CompoundOp b ops cust) = and_then (map_res (addControl c) ops) (\<lambda>ops.
     Inr (CompoundOp (b\<lparr>controls := set_emplace c (controls b)\<rparr>) ops cust))"
| "addControl c (NonUnitaryOp b cs) = Inl RuntimeError"
| "addControl c (IfElseOp b t e cnd) = Inl RuntimeError"

fun removeControl :: "Control \<Rightarrow> Operation \<Rightarrow> Operation result" where
  "removeControl c (StandardOp b) = and_then (std_removeControl c b) (\<lambda>b. Inr (StandardOp b))"
| "removeControl c (SymbolicOp s) =
     and_then (std_removeControl c (base s)) (\<lambda>b. Inr (SymbolicOp (s\<lparr>base := b\<rparr>)))"
| "removeControl c (CompoundOp b ops cust) = (if c \<notin> set (controls b) then Inl RuntimeError else
     and_then (map_res (removeControl c) ops) (\<lambda>ops.
     Inr (CompoundOp (b\<lparr>controls := remove1 c (controls b)\<rparr>) ops cust)))"
| "removeControl c (NonUnitaryOp b cs) = Inl RuntimeError"
| "removeControl c (IfElseOp b t e cnd) = Inl RuntimeError"

text \<open>
  A compound operation removes its own controls, in order, from every sub-operation.
\<close>

definition clearControls :: "Operation \<Rightarrow> Operation result" where
  "clearControls op = (case op of
     StandardOp b \<Rightarrow> Inr (StandardOp (std_clearControls b))
   | SymbolicOp s \<Rightarrow> Inr (SymbolicOp (s\<lparr>base := std_clearControls (base s)\<rparr>))
   | CompoundOp b ops cust \<Rightarrow>
       and_then (fold_res (\<lambda>c ops. map_res (removeControl c) ops) (controls b) ops) (\<lambda>ops.
       Inr (CompoundOp (b\<lparr>controls := []\<rparr>) ops cust))
   | _ \<Rightarrow> Inl RuntimeError)"

definition addControls :: "Controls \<Rightarrow> Operation \<Rightarrow> Operation result" where
  "addControls cs op = fold_res addControl cs op"

definition setControls :: "Controls \<Rightarrow> Operation \<Rightarrow> Operation result" where
  "setControls cs op = (case op of
     IfElseOp b t e cnd \<Rightarrow> Inl RuntimeError
   | _ \<Rightarrow> and_then (clearControls op) (addControls cs))"

section \<open>Commutation on a qubit\<close>

definition std_commutesAtQubit :: "OpBase \<Rightarrow> Operation \<Rightarrow> nat \<Rightarrow> bool" where
  "std_commutesAtQubit a other q = (
     if \<not> op_actsOn a q \<or> \<not> actsOn other q then True
     else if controls_contain (controls a) q then
       (if controls_contain (getControls other) q then True else isDiagonalGate other)
     else if controls_contain (getControls other) q then diagonal_type (optype a)
     else if diagonal_type (optype a) \<and> isDiagonalGate other then True
     else if length (parameter a) \<le> 1 then
       optype a = getType other \<and> targets a = getTargets other
     else optype a = getType other \<and> targets a = getTargets other \<and>
       parameter a = parameter (getBase other))"

definition compound_ops :: "Operation \<Rightarrow> Operation list" where
  "compound_ops op = (case op of CompoundOp b ops cust \<Rightarrow> ops | _ \<Rightarrow> [])"

lemma compound_ops_size: "x \<in> set (compound_ops op) \<Longrightarrow> size x < size op"
  by (cases op) (auto simp: compound_ops_def less_Suc_eq_le intro: size_list_estimation')

function commutesAtQubit :: "Operation \<Rightarrow> Operation \<Rightarrow> nat \<Rightarrow> bool" where
  "commutesAtQubit a other q = (case a of
     CompoundOp b ops cust \<Rightarrow> list_all (\<lambda>op. commutesAtQubit op other q) (compound_ops a)
   | StandardOp b \<Rightarrow> if isCompoundOperation other then commutesAtQubit other a q
       else std_commutesAtQubit b other q
   | SymbolicOp s \<Rightarrow> if isCompoundOperation other then commutesAtQubit other a q
       else std_commutesAtQubit (base s) other q
   | _ \<Rightarrow> False)"
  by auto
termination
  by (relation "measures [\<lambda>(a, b, q). size a + size b, \<lambda>(a, b, q). if isCompoundOperation a then 0 else 1]")
    (auto dest: compound_ops_size)

declare commutesAtQubit.simps [simp del]

section \<open>Compound operations\<close>

definition empty_base :: "OpType \<Rightarrow> string \<Rightarrow> OpBase" where
  "empty_base t nm = \<lparr>controls = [], targets = [], parameter = [], optype = t, opname = nm\<rparr>"

definition CompoundOperation_new :: "Operation list \<Rightarrow> bool \<Rightarrow> Operation" where
  "CompoundOperation_new ops isCustom =
     CompoundOp (empty_base opCompound ''Compound operation:'') ops isCustom"

text \<open>\<open>merge\<close> moves the operations of the second operand to the end of the first.\<close>

fun comp_merge :: "Operation \<Rightarrow> Operation \<Rightarrow> (Operation \<times> Operation) result" where
  "comp_merge (CompoundOp b ops cust) (CompoundOp b' ops' cust') =
     Inr (CompoundOp b (ops @ ops') cust, CompoundOp b' [] cust')"
| "comp_merge _ _ = Inl Undefined"

fun isConvertibleToSingleOperation :: "Operation \<Rightarrow> bool" where
  "isConvertibleToSingleOperation (CompoundOp b [op] cust) =
     (if isCompoundOperation op then isConvertibleToSingleOperation op else True)"
| "isConvertibleToSingleOperation _ = False"

fun collapseToSingleOperation :: "Operation \<Rightarrow> Operation result" where
  "collapseToSingleOperation (CompoundOp b [op] cust) =
     (if isCompoundOperation op then collapseToSingleOperation op else Inr op)"
| "collapseToSingleOperation _ = Inl Undefined"

section \<open>Non-unitary operations\<close>

definition NonUnitaryOperation_measure :: "nat list \<Rightarrow> nat list \<Rightarrow> Operation result" where
  "NonUnitaryOperation_measure qs cs = (if length qs \<noteq> length cs then Inl InvalidArgument
     else Inr (NonUnitaryOp ((empty_base opMeasure (op_toString opMeasure))\<lparr>targets := qs\<rparr>) cs))"

definition NonUnitaryOperation_new :: "nat list \<Rightarrow> OpType \<Rightarrow> Operation" where
  "NonUnitaryOperation_new qs t = NonUnitaryOp ((empty_base t (op_toString t))\<lparr>targets := sort qs\<rparr>) []"

end
