(* ===== verification/IRControlFlow.thy ===== *)
theory IRControlFlow
  imports IROperation
begin

text \<open>
  \<open>IfElseOperation\<close> (\<open>ir/operations/IfElseOperation.hpp\<close>,
  \<open>src/ir/operations/IfElseOperation.cpp\<close>): the constructors, which bring the operation into a
  canonical form, and what that form means.

  The meaning of the operation is which of its two blocks runs for given values of the
  classical bits; a null block is \<open>None\<close>.  The theory proves that canonicalisation never
  changes it, and which shapes it leaves.
\<close>

section \<open>Construction\<close>

fun getInvertedComparisonKind :: "ComparisonKind \<Rightarrow> ComparisonKind" where
  "getInvertedComparisonKind Lt = Geq"
| "getInvertedComparisonKind Leq = Gt"
| "getInvertedComparisonKind Gt = Leq"
| "getInvertedComparisonKind Geq = Lt"
| "getInvertedComparisonKind Eq = Neq"
| "getInvertedComparisonKind Neq = Eq"

fun cmp_toString :: "ComparisonKind \<Rightarrow> string" where
  "cmp_toString Eq = ''==''"
| "cmp_toString Neq = ''!=''"
| "cmp_toString Lt = ''<''"
| "cmp_toString Leq = ''<=''"
| "cmp_toString Gt = ''>''"
| "cmp_toString Geq = ''>=''"

type_synonym 'a blocks = "'a option \<times> 'a option \<times> Condition"

definition canonicalize :: "'a blocks \<Rightarrow> 'a blocks result" where
  "canonicalize blocks = (let (t, e, c) = blocks;
     (t, e, c) = (if t = None
       then (e, t, c\<lparr>comparisonKind := getInvertedComparisonKind (comparisonKind c)\<rparr>)
       else (t, e, c))
   in if controlBit c \<noteq> None then
        let c = (if comparisonKind c = Neq
          then c\<lparr>comparisonKind := Eq, expectedValueBit := \<not> expectedValueBit c\<rparr> else c)
        in if comparisonKind c \<noteq> Eq then Inl InvalidArgument
           else if \<not> expectedValueBit c \<and> e \<noteq> None
             then Inr (e, t, c\<lparr>expectedValueBit := True\<rparr>)
             else Inr (t, e, c)
      else Inr (t, e, c))"

definition IfElseOperation_build :: "Operation blocks \<Rightarrow> Operation result" where
  "IfElseOperation_build blocks = and_then (canonicalize blocks) (\<lambda>(t, e, c).
     Inr (IfElseOp (empty_base opIfElse ''if_else'') t e c))"

definition IfElseOperation_register :: "Operation option \<Rightarrow> Operation option \<Rightarrow> Register \<Rightarrow> nat \<Rightarrow>
    ComparisonKind \<Rightarrow> Operation result" where
  "IfElseOperation_register t e r expected kind = IfElseOperation_build (t, e,
     \<lparr>controlRegister = Some r, controlBit = None, expectedValueRegister = expected,
      expectedValueBit = True, comparisonKind = kind\<rparr>)"

definition IfElseOperation_bit :: "Operation option \<Rightarrow> Operation option \<Rightarrow> nat \<Rightarrow> bool \<Rightarrow>
    ComparisonKind \<Rightarrow> Operation result" where
  "IfElseOperation_bit t e b expected kind = IfElseOperation_build (t, e,
     \<lparr>controlRegister = None, controlBit = Some b, expectedValueRegister = 1,
      expectedValueBit = expected, comparisonKind = kind\<rparr>)"

section \<open>Meaning\<close>

fun compare :: "ComparisonKind \<Rightarrow> nat \<Rightarrow> nat \<Rightarrow> bool" where
  "compare Eq a b = (a = b)"
| "compare Neq a b = (a \<noteq> b)"
| "compare Lt a b = (a < b)"
| "compare Leq a b = (a \<le> b)"
| "compare Gt a b = (b < a)"
| "compare Geq a b = (b \<le> a)"

definition register_value :: "(nat \<Rightarrow> bool) \<Rightarrow> Register \<Rightarrow> nat" where
  "register_value v r = (\<Sum>i < regSize r. of_bool (v (startIndex r + i)) * 2 ^ i)"

definition condition_holds :: "(nat \<Rightarrow> bool) \<Rightarrow> Condition \<Rightarrow> bool" where
  "condition_holds v c = (case controlBit c of
     Some b \<Rightarrow> compare (comparisonKind c) (of_bool (v b)) (of_bool (expectedValueBit c))
   | None \<Rightarrow> (case controlRegister c of
       Some r \<Rightarrow> compare (comparisonKind c) (register_value v r) (expectedValueRegister c)
     | None \<Rightarrow> compare (comparisonKind c) 0 0))"

definition selected_block :: "(nat \<Rightarrow> bool) \<Rightarrow> 'a blocks \<Rightarrow> 'a option" where
  "selected_block v blocks = (case blocks of (t, e, c) \<Rightarrow> if condition_holds v c then t else e)"

lemma compare_inverted: "compare (getInvertedComparisonKind k) a b \<longleftrightarrow> \<not> compare k a b"
  by (cases k) auto

lemma getInvertedComparisonKind_involution [simp]:
  "getInvertedComparisonKind (getInvertedComparisonKind k) = k"
  by (cases k) simp_all

lemma condition_inverted:
  "condition_holds v (c\<lparr>comparisonKind := getInvertedComparisonKind (comparisonKind c)\<rparr>)
     \<longleftrightarrow> \<not> condition_holds v c"
  by (auto simp: condition_holds_def compare_inverted split: option.split)

lemma condition_bit:
  "controlBit c = Some b \<Longrightarrow> condition_holds v c \<longleftrightarrow>
     compare (comparisonKind c) (of_bool (v b)) (of_bool (expectedValueBit c))"
  by (simp add: condition_holds_def)

lemma canonicalize_selected:
  assumes "canonicalize blocks = Inr blocks'"
  shows "selected_block v blocks' = selected_block v blocks"
proof -
  obtain t e c where b: "blocks = (t, e, c)" by (cases blocks)
  show ?thesis
    using assms condition_inverted [of v c]
    by (cases "controlBit c")
      (auto simp: b canonicalize_def selected_block_def Let_def condition_bit
        split: if_splits)
qed

text \<open>The shapes that canonicalisation leaves.\<close>

definition canonical_blocks :: "'a blocks \<Rightarrow> bool" where
  "canonical_blocks blocks = (case blocks of (t, e, c) \<Rightarrow>
     (t = None \<longrightarrow> e = None) \<and>
     (controlBit c \<noteq> None \<longrightarrow> comparisonKind c = Eq \<and> (e \<noteq> None \<longrightarrow> expectedValueBit c)))"

lemma canonicalize_canonical: "canonicalize blocks = Inr blocks' \<Longrightarrow> canonical_blocks blocks'"
  by (cases blocks) (auto simp: canonicalize_def canonical_blocks_def Let_def split: if_splits)

lemma canonicalize_id: "canonical_blocks (t, e, c) \<Longrightarrow> t \<noteq> None \<Longrightarrow> canonicalize (t, e, c) = Inr (t, e, c)"
  by (auto simp: canonicalize_def canonical_blocks_def)

lemma canonicalize_error:
  "canonicalize (t, e, c) = Inl err \<longleftrightarrow>
     err = InvalidArgument \<and> controlBit c \<noteq> None \<and> comparisonKind c \<notin> {Eq, Neq}"
  by (cases "comparisonKind c") (auto simp: canonicalize_def Let_def)

end
