(* ===== verification/IRCircuit.thy ===== *)
theory IRCircuit
  imports IRControlFlow
begin

text \<open>
  \<open>QuantumComputation\<close> (\<open>ir/QuantumComputation.hpp\<close>, \<open>src/ir/QuantumComputation.cpp\<close>): the
  state of a circuit, its registers, the bookkeeping of ancillary and garbage qubits, and the
  functions that append operations.

  A hash map of registers is an association list whose order stands for the iteration order;
  insertion appends.  The random number generator is not modelled.  Counters have 64 bits and
  are only reduced where the code decrements them; a cast to \<open>Qubit\<close> is a reduction modulo
  \<open>2 ^ 32\<close>.
\<close>

type_synonym RegisterMap = "(string \<times> Register) list"

record QuantumComputation =
  qc_ops :: "Operation list"
  nqubits :: nat
  nclassics :: nat
  nancillae :: nat
  qc_name :: string
  quantumRegisters :: RegisterMap
  classicalRegisters :: RegisterMap
  ancillaRegisters :: RegisterMap
  ancillary :: "bool list"
  garbage :: "bool list"
  seed :: nat
  qc_globalPhase :: fp
  occurringVariables :: "Variable set"
  initialLayout :: Permutation
  outputPermutation :: Permutation

definition cast32 :: "nat \<Rightarrow> nat" where "cast32 n = n mod 2 ^ 32"

definition dec64 :: "nat \<Rightarrow> nat" where "dec64 n = (n + (2 ^ 64 - 1)) mod 2 ^ 64"

section \<open>Register maps\<close>

definition regs_try_emplace :: "string \<Rightarrow> Register \<Rightarrow> RegisterMap \<Rightarrow> RegisterMap" where
  "regs_try_emplace k r m = (if map_of m k \<noteq> None then m else m @ [(k, r)])"

definition regs_erase :: "string \<Rightarrow> RegisterMap \<Rightarrow> RegisterMap" where
  "regs_erase k m = filter (\<lambda>p. fst p \<noteq> k) m"

definition regs_modify :: "string \<Rightarrow> (Register \<Rightarrow> Register) \<Rightarrow> RegisterMap \<Rightarrow> RegisterMap" where
  "regs_modify k f m = map (\<lambda>(n, r). (n, if n = k then f r else r)) m"

definition regs_equal :: "RegisterMap \<Rightarrow> RegisterMap \<Rightarrow> bool" where
  "regs_equal m m' \<longleftrightarrow> length m = length m' \<and>
     list_all (\<lambda>(k, r). case map_of m' k of Some s \<Rightarrow> reg_eq r s | None \<Rightarrow> False) m"

definition mk_register :: "string \<Rightarrow> nat \<Rightarrow> nat \<Rightarrow> Register" where
  "mk_register nm start sz = \<lparr>startIndex = start, regSize = sz, regName = nm\<rparr>"

definition ends_with_l :: "string \<Rightarrow> bool" where
  "ends_with_l s \<longleftrightarrow> 2 \<le> length s \<and> drop (length s - 2) s = ''_l''"

text \<open>
  One round of \<open>consolidateRegister\<close>: only the first register whose name ends with \<open>_l\<close> is
  considered; the loop goes on when it was fused with its upper part.
\<close>

definition consolidate_round :: "RegisterMap \<Rightarrow> RegisterMap option" where
  "consolidate_round regs = (case find (\<lambda>(nm, r). ends_with_l nm) regs of
     None \<Rightarrow> None
   | Some (nm, low) \<Rightarrow>
       let highname = take (length nm - 1) nm @ ''h''
       in case map_of regs highname of
         None \<Rightarrow> None
       | Some high \<Rightarrow>
           if startIndex low + regSize low = startIndex high then
             let targetname = take (length nm - 2) nm
             in Some (regs_try_emplace targetname
                  (mk_register targetname (startIndex low) (regSize low + regSize high))
                  (regs_erase highname (regs_erase nm regs)))
           else None)"

lemma consolidate_round_shrinks: "consolidate_round regs = Some regs' \<Longrightarrow> length regs' < length regs"
proof -
  assume "consolidate_round regs = Some regs'"
  then obtain nm low high h tn r where f: "find (\<lambda>(nm, r). ends_with_l nm) regs = Some (nm, low)"
    and h: "map_of regs h = Some high" and hn: "h = take (length nm - 1) nm @ ''h''"
    and r: "regs' = regs_try_emplace tn r (regs_erase h (regs_erase nm regs))"
    by (auto simp: consolidate_round_def Let_def split: option.splits if_splits)
  from f obtain i where i: "i < length regs" "regs ! i = (nm, low)" and nm2: "ends_with_l nm"
    by (auto simp: find_Some_iff)
  then have nm: "(nm, low) \<in> set regs" "ends_with_l nm" by (metis nth_mem, simp)
  have "h \<noteq> nm"
  proof
    assume "h = nm"
    with hn have "last nm = CHR ''h''" by (metis last_snoc)
    moreover from nm(2) have "last nm = CHR ''l''"
      by (metis (full_types) append_take_drop_id ends_with_l_def last.simps last_appendR
          list.distinct(1))
    ultimately show False by simp
  qed
  have sub: "length (filter P (filter Q xs)) + 2 \<le> length xs"
    if "x \<in> set xs" "\<not> Q x" "y \<in> set xs" "\<not> P y" "Q y" for P Q x y and xs :: "(string \<times> Register) list"
    using that
  proof (induction xs)
    case (Cons a xs)
    have le: "z \<in> set xs \<Longrightarrow> \<not> (P z \<and> Q z) \<Longrightarrow> length (filter P (filter Q xs)) < length xs" for z
      by (simp only: filter_filter) (rule length_filter_less, auto)
    from Cons le [of x] le [of y] show ?case
      by (auto simp: Suc_le_eq)
  qed simp
  have "length (regs_erase h (regs_erase nm regs)) + 2 \<le> length regs"
    unfolding regs_erase_def
    by (rule sub [of "(nm, low)" _ _ "(h, high)"])
      (use nm(1) h \<open>h \<noteq> nm\<close> in \<open>auto dest: map_of_SomeD\<close>)
  then show ?thesis by (auto simp: r regs_try_emplace_def)
qed

function consolidateRegister :: "RegisterMap \<Rightarrow> RegisterMap" where
  "consolidateRegister regs = (case consolidate_round regs of
     None \<Rightarrow> regs | Some regs' \<Rightarrow> consolidateRegister regs')"
  by auto
termination
  by (relation "measure length") (auto simp: consolidate_round_shrinks)

declare consolidateRegister.simps [simp del]

definition removeQubitfromQubitRegister :: "RegisterMap \<Rightarrow> Register \<Rightarrow> nat \<Rightarrow> RegisterMap" where
  "removeQubitfromQubitRegister regs reg idx = (
     if idx = 0 then
       if regSize reg = 1 then regs_erase (regName reg) regs
       else regs_modify (regName reg)
         (\<lambda>r. r\<lparr>startIndex := startIndex r + 1, regSize := dec64 (regSize r)\<rparr>) regs
     else if idx = dec64 (regSize reg) then
       regs_modify (regName reg) (\<lambda>r. r\<lparr>regSize := dec64 (regSize r)\<rparr>) regs
     else
       let lowPart = regName reg @ ''_l''; highPart = regName reg @ ''_h''
       in regs_try_emplace highPart
            (mk_register highPart (startIndex reg + idx + 1) (regSize reg - idx - 1))
            (regs_try_emplace lowPart (mk_register lowPart (startIndex reg) idx)
              (regs_erase (regName reg) regs)))"

text \<open>The first register of the iteration that the qubit can be appended to is extended.\<close>

fun extend_first :: "nat \<Rightarrow> RegisterMap \<Rightarrow> RegisterMap option" where
  "extend_first q [] = None"
| "extend_first q ((nm, r) # m) =
     (if startIndex r = q + 1 then
        Some ((nm, r\<lparr>startIndex := startIndex r - 1, regSize := regSize r + 1\<rparr>) # m)
      else if startIndex r + regSize r = q then Some ((nm, r\<lparr>regSize := regSize r + 1\<rparr>) # m)
      else map_option ((#) (nm, r)) (extend_first q m))"

definition addQubitToQubitRegister :: "RegisterMap \<Rightarrow> nat \<Rightarrow> string \<Rightarrow> RegisterMap" where
  "addQubitToQubitRegister regs q defaultRegName =
     (let fused = extend_first q regs;
          regs = consolidateRegister (case fused of Some m \<Rightarrow> m | None \<Rightarrow> regs)
      in if regs = [] then regs_try_emplace defaultRegName (mk_register defaultRegName q 1) regs
         else if fused = None then
           let nm = defaultRegName @ ''_'' @ to_string q
           in regs_try_emplace nm (mk_register nm q 1) regs
         else regs)"

section \<open>Construction and counting\<close>

definition empty_qc :: "nat \<Rightarrow> QuantumComputation" where
  "empty_qc s = \<lparr>qc_ops = [], nqubits = 0, nclassics = 0, nancillae = 0, qc_name = [],
     quantumRegisters = [], classicalRegisters = [], ancillaRegisters = [],
     ancillary = [], garbage = [], seed = s, qc_globalPhase = 0, occurringVariables = {},
     initialLayout = [], outputPermutation = []\<rparr>"

definition getNqubits :: "QuantumComputation \<Rightarrow> nat" where
  "getNqubits qc = nqubits qc + nancillae qc"

definition resize_bits :: "nat \<Rightarrow> bool list \<Rightarrow> bool list" where
  "resize_bits n xs = take n xs @ replicate (n - length xs) False"

definition add_identity :: "nat list \<Rightarrow> Permutation \<Rightarrow> Permutation" where
  "add_identity js p = fold (\<lambda>j. map_emplace j j) js p"

definition addQubitRegister :: "nat \<Rightarrow> string \<Rightarrow> QuantumComputation \<Rightarrow> QuantumComputation result" where
  "addQubitRegister nq nm qc = (
     if map_of (quantumRegisters qc) nm \<noteq> None then Inl RuntimeError
     else if nq = 0 then Inl RuntimeError
     else if nancillae qc \<noteq> 0 then Inl RuntimeError
     else let js = map (\<lambda>i. cast32 (nqubits qc + i)) [0..<nq]; n = nqubits qc + nq
     in Inr (qc\<lparr>quantumRegisters := regs_try_emplace nm
                  (mk_register nm (cast32 (nqubits qc)) nq) (quantumRegisters qc),
                initialLayout := add_identity js (initialLayout qc),
                outputPermutation := add_identity js (outputPermutation qc),
                nqubits := n,
                ancillary := resize_bits (n + nancillae qc) (ancillary qc),
                garbage := resize_bits (n + nancillae qc) (garbage qc)\<rparr>))"

definition addClassicalRegister :: "nat \<Rightarrow> string \<Rightarrow> QuantumComputation \<Rightarrow> QuantumComputation result" where
  "addClassicalRegister nc nm qc = (
     if map_of (classicalRegisters qc) nm \<noteq> None then Inl RuntimeError
     else if nc = 0 then Inl RuntimeError
     else Inr (qc\<lparr>classicalRegisters := regs_try_emplace nm
                    (mk_register nm (nclassics qc) nc) (classicalRegisters qc),
                  nclassics := nclassics qc + nc\<rparr>))"

definition addAncillaryRegister :: "nat \<Rightarrow> string \<Rightarrow> QuantumComputation \<Rightarrow> QuantumComputation result" where
  "addAncillaryRegister nq nm qc = (
     if map_of (ancillaRegisters qc) nm \<noteq> None then Inl RuntimeError
     else if nq = 0 then Inl RuntimeError
     else let tot = cast32 (nqubits qc + nancillae qc);
              js = map (\<lambda>i. cast32 (tot + i)) [0..<nq]
     in Inr (qc\<lparr>ancillaRegisters := regs_try_emplace nm (mk_register nm tot nq)
                  (ancillaRegisters qc),
                garbage := resize_bits (tot + nq) (garbage qc),
                initialLayout := add_identity js (initialLayout qc),
                outputPermutation := add_identity js (outputPermutation qc),
                ancillary := fold (\<lambda>j a. a[j := True]) js (resize_bits (tot + nq) (ancillary qc)),
                nancillae := nancillae qc + nq\<rparr>))"

definition QuantumComputation_new :: "nat \<Rightarrow> nat \<Rightarrow> nat \<Rightarrow> QuantumComputation result" where
  "QuantumComputation_new nq nc s =
     and_then (if 0 < nq then addQubitRegister nq ''q'' (empty_qc s) else Inr (empty_qc s)) (\<lambda>qc.
     if 0 < nc then addClassicalRegister nc ''c'' qc else Inr qc)"

fun comp_size :: "Operation \<Rightarrow> nat option" where
  "comp_size (CompoundOp b xs cust) = Some (length xs)"
| "comp_size _ = None"

definition getNindividualOps :: "QuantumComputation \<Rightarrow> nat" where
  "getNindividualOps qc = (\<Sum>op \<leftarrow> qc_ops qc. case comp_size op of Some n \<Rightarrow> n | None \<Rightarrow> 1)"

definition single_qubit_op :: "Operation \<Rightarrow> bool" where
  "single_qubit_op op \<longleftrightarrow> isUnitary op \<and> \<not> isControlled op \<and> op_getNtargets (getBase op) = 1"

definition getNsingleQubitOps :: "QuantumComputation \<Rightarrow> nat" where
  "getNsingleQubitOps qc = (\<Sum>op \<leftarrow> qc_ops qc. if \<not> isUnitary op then 0
     else if isCompoundOperation op then length (filter single_qubit_op (compound_ops op))
     else if single_qubit_op op then 1 else 0)"

definition getDepth :: "QuantumComputation \<Rightarrow> nat result" where
  "getDepth qc = (if qc_ops qc = [] then Inr 0 else
     and_then (fold_res addDepthContribution (qc_ops qc) (replicate (getNqubits qc) 0)) (\<lambda>ds.
     if ds = [] then Inl Undefined else Inr (fold max ds 0)))"

definition getNgarbageQubits :: "QuantumComputation \<Rightarrow> nat" where
  "getNgarbageQubits qc = length (filter id (garbage qc))"

definition getNmeasuredQubits :: "QuantumComputation \<Rightarrow> nat" where
  "getNmeasuredQubits qc = (getNqubits qc + (2 ^ 64 - getNgarbageQubits qc)) mod 2 ^ 64"

section \<open>Lookups\<close>

definition getPhysicalQubitIndex :: "nat \<Rightarrow> QuantumComputation \<Rightarrow> nat result" where
  "getPhysicalQubitIndex l qc = (case find (\<lambda>p. snd p = l) (initialLayout qc) of
     Some p \<Rightarrow> Inr (fst p) | None \<Rightarrow> Inl RuntimeError)"

definition containsLogicalQubit :: "nat \<Rightarrow> QuantumComputation \<Rightarrow> bool \<times> nat option" where
  "containsLogicalQubit l qc = (case find (\<lambda>p. snd p = l) (initialLayout qc) of
     Some p \<Rightarrow> (True, Some (fst p)) | None \<Rightarrow> (False, None))"

definition getHighestLogicalQubitIndex :: "QuantumComputation \<Rightarrow> nat" where
  "getHighestLogicalQubitIndex qc = perm_maxValue (initialLayout qc)"

definition getHighestPhysicalQubitIndex :: "QuantumComputation \<Rightarrow> nat" where
  "getHighestPhysicalQubitIndex qc = perm_maxKey (initialLayout qc)"

text \<open>The register of a qubit, with the flag that it was found among the ancillary registers.\<close>

definition getQubitRegister :: "nat \<Rightarrow> QuantumComputation \<Rightarrow> (bool \<times> Register) result" where
  "getQubitRegister q qc = (case find (\<lambda>(nm, r). reg_contains r q) (quantumRegisters qc) of
     Some (nm, r) \<Rightarrow> Inr (False, r)
   | None \<Rightarrow> (case find (\<lambda>(nm, r). reg_contains r q) (ancillaRegisters qc) of
       Some (nm, r) \<Rightarrow> Inr (True, r)
     | None \<Rightarrow> Inl RuntimeError))"

definition physicalQubitIsAncillary :: "nat \<Rightarrow> QuantumComputation \<Rightarrow> bool" where
  "physicalQubitIsAncillary q qc \<longleftrightarrow> list_ex (\<lambda>(nm, r). reg_contains r q) (ancillaRegisters qc)"

definition logicalQubitIsAncillary :: "nat \<Rightarrow> QuantumComputation \<Rightarrow> bool result" where
  "logicalQubitIsAncillary l qc = deref_res (ancillary qc) l"

definition logicalQubitIsGarbage :: "nat \<Rightarrow> QuantumComputation \<Rightarrow> bool result" where
  "logicalQubitIsGarbage l qc = deref_res (garbage qc) l"

definition isIdleQubit :: "nat \<Rightarrow> QuantumComputation \<Rightarrow> bool" where
  "isIdleQubit q qc \<longleftrightarrow> \<not> list_ex (\<lambda>op. actsOn op q) (qc_ops qc)"

text \<open>The iterator \<open>opIt\<close> is an index below \<open>end\<close>, or \<open>end\<close> itself.\<close>

definition isLastOperationOnQubit :: "nat \<Rightarrow> nat \<Rightarrow> QuantumComputation \<Rightarrow> bool result" where
  "isLastOperationOnQubit opIt end_it qc = (if opIt = end_it then Inr True else
     and_then (deref_res (qc_ops qc) opIt) (\<lambda>op.
       let qs = filter (actsOn op) [0..<getNqubits qc]
       in Inr (list_all (\<lambda>other. list_all (\<lambda>q. \<not> actsOn other q) qs)
            (drop (Suc opIt) (take end_it (qc_ops qc))))))"

section \<open>Ancillary and garbage qubits\<close>

definition setLogicalQubitAncillary :: "nat \<Rightarrow> QuantumComputation \<Rightarrow> QuantumComputation result" where
  "setLogicalQubitAncillary l qc = and_then (logicalQubitIsAncillary l qc) (\<lambda>anc.
     if anc then Inr qc
     else Inr (qc\<lparr>nqubits := dec64 (nqubits qc), nancillae := nancillae qc + 1,
                  ancillary := (ancillary qc)[l := True]\<rparr>))"

definition setLogicalQubitsAncillary :: "nat \<Rightarrow> nat \<Rightarrow> QuantumComputation \<Rightarrow> QuantumComputation result" where
  "setLogicalQubitsAncillary lo hi qc = fold_res setLogicalQubitAncillary [lo..<hi + 1] qc"

fun erase_first_value :: "nat \<Rightarrow> Permutation \<Rightarrow> Permutation" where
  "erase_first_value v [] = []"
| "erase_first_value v (p # ps) = (if snd p = v then ps else p # erase_first_value v ps)"

definition setLogicalQubitGarbage :: "nat \<Rightarrow> QuantumComputation \<Rightarrow> QuantumComputation result" where
  "setLogicalQubitGarbage l qc = and_then (logicalQubitIsGarbage l qc) (\<lambda>_.
     Inr (qc\<lparr>garbage := (garbage qc)[l := True],
             outputPermutation := erase_first_value l (outputPermutation qc)\<rparr>))"

definition setLogicalQubitsGarbage :: "nat \<Rightarrow> nat \<Rightarrow> QuantumComputation \<Rightarrow> QuantumComputation result" where
  "setLogicalQubitsGarbage lo hi qc = fold_res setLogicalQubitGarbage [lo..<hi + 1] qc"

text \<open>The loop that closes the gap at \<open>l\<close> in a vector of flags and clears the last one used.\<close>

definition shift_down :: "nat \<Rightarrow> nat \<Rightarrow> bool list \<Rightarrow> bool list result" where
  "shift_down l tot xs = (if length xs \<le> tot then Inl Undefined
     else Inr ((fold (\<lambda>i xs. xs[i := xs ! (i + 1)]) [l..<tot] xs)[tot := False]))"

text \<open>
  \<open>removeQubit\<close>.  The register found for the qubit and the map it is changed in agree as
  long as no qubit belongs to a quantum register and to an ancillary register at once;
  the other case is \<open>Undefined\<close> here.
\<close>

definition removeQubit ::
    "nat \<Rightarrow> QuantumComputation \<Rightarrow> ((nat \<times> nat option) \<times> QuantumComputation) result" where
  "removeQubit l qc =
     and_then (getPhysicalQubitIndex l qc) (\<lambda>phys.
     and_then (getQubitRegister phys qc) (\<lambda>(inAnc, reg).
     and_then (reg_getLocalIndex reg phys) (\<lambda>idx.
     and_then (if physicalQubitIsAncillary phys qc
       then if \<not> inAnc then Inl Undefined
         else Inr (qc\<lparr>ancillaRegisters := removeQubitfromQubitRegister (ancillaRegisters qc) reg idx,
                      nancillae := dec64 (nancillae qc)\<rparr>)
       else and_then (at_res (ancillary qc) l) (\<lambda>anc.
         let qc = qc\<lparr>quantumRegisters := removeQubitfromQubitRegister (quantumRegisters qc) reg idx\<rparr>
         in Inr (if anc then qc\<lparr>nancillae := dec64 (nancillae qc)\<rparr>
                 else qc\<lparr>nqubits := dec64 (nqubits qc)\<rparr>))) (\<lambda>qc.
     let out = map_of (outputPermutation qc) phys;
         tot = nqubits qc + nancillae qc
     in and_then (shift_down l tot (ancillary qc)) (\<lambda>anc.
        and_then (shift_down l tot (garbage qc)) (\<lambda>garb.
        Inr ((phys, out), qc\<lparr>initialLayout := map_erase phys (initialLayout qc),
               outputPermutation := map_erase phys (outputPermutation qc),
               ancillary := anc, garbage := garb\<rparr>)))))))"

definition addAncillaryQubit :: "nat \<Rightarrow> nat option \<Rightarrow> QuantumComputation \<Rightarrow> QuantumComputation result" where
  "addAncillaryQubit phys out qc = (
     if map_contains (initialLayout qc) phys \<or> map_contains (outputPermutation qc) phys
     then Inl RuntimeError
     else let l = nqubits qc + nancillae qc;
              qc = qc\<lparr>ancillaRegisters := addQubitToQubitRegister (ancillaRegisters qc) phys ''anc'',
                      ancillary := (resize_bits (l + 1) (ancillary qc))[l := True],
                      garbage := resize_bits (l + 1) (garbage qc),
                      nancillae := nancillae qc + 1,
                      initialLayout := map_emplace phys (cast32 l) (initialLayout qc)\<rparr>
     in case out of
          Some j \<Rightarrow> Inr (qc\<lparr>outputPermutation := map_emplace phys j (outputPermutation qc)\<rparr>)
        | None \<Rightarrow> Inr (qc\<lparr>garbage := (garbage qc)[l := True]\<rparr>))"

text \<open>The loop that opens a gap at \<open>l\<close> in a vector of flags.\<close>

definition shift_up :: "nat \<Rightarrow> nat \<Rightarrow> bool list \<Rightarrow> bool list" where
  "shift_up l tot xs =
     (fold (\<lambda>i xs. xs[i := xs ! (i - 1)]) (rev [l + 1..<tot]) xs)[l := False]"

definition qc_addQubit :: "nat \<Rightarrow> nat \<Rightarrow> nat option \<Rightarrow> QuantumComputation \<Rightarrow> QuantumComputation result" where
  "qc_addQubit l phys out qc = (
     if map_contains (initialLayout qc) phys \<or> map_contains (outputPermutation qc) phys
     then Inl RuntimeError
     else if nqubits qc < l then Inl RuntimeError
     else let n = nqubits qc + 1; tot = n + nancillae qc
     in Inr (qc\<lparr>quantumRegisters := addQubitToQubitRegister (quantumRegisters qc) phys ''q'',
                nqubits := n,
                initialLayout := map_emplace phys l (initialLayout qc),
                outputPermutation := (case out of
                  Some j \<Rightarrow> map_emplace phys j (outputPermutation qc)
                | None \<Rightarrow> outputPermutation qc),
                ancillary := shift_up l tot (resize_bits tot (ancillary qc)),
                garbage := shift_up l tot (resize_bits tot (garbage qc))\<rparr>))"

definition unifyQuantumRegisters :: "string \<Rightarrow> QuantumComputation \<Rightarrow> QuantumComputation" where
  "unifyQuantumRegisters nm qc = (let n = nqubits qc + nancillae qc
     in qc\<lparr>ancillaRegisters := [], quantumRegisters := [(nm, mk_register nm 0 n)],
           nqubits := n, nancillae := 0\<rparr>)"

definition qc_reset :: "QuantumComputation \<Rightarrow> QuantumComputation" where
  "qc_reset qc = qc\<lparr>qc_ops := [], nqubits := 0, nclassics := 0, nancillae := 0,
     quantumRegisters := [], classicalRegisters := [], ancillaRegisters := [],
     initialLayout := [], outputPermutation := []\<rparr>"

text \<open>\<open>stripIdleQubits\<close> visits the physical qubits of the layout from the highest down.\<close>

definition strip_qubit :: "bool \<Rightarrow> nat \<Rightarrow> QuantumComputation \<Rightarrow> QuantumComputation result" where
  "strip_qubit force phys qc = (
     if \<not> isIdleQubit phys qc then Inr qc
     else if map_contains (outputPermutation qc) phys \<and> \<not> force then Inr qc
     else and_then (map_at (initialLayout qc) phys) (\<lambda>l.
       let used = list_ex (\<lambda>p. snd p = l) (outputPermutation qc)
       in if used \<and> \<not> force then Inr qc
       else and_then (removeQubit l qc) (\<lambda>(_, qc).
         let dec = map (\<lambda>(p, v). (p, if l < v then v - 1 else v))
         in Inr (if l < nqubits qc + nancillae qc
              then qc\<lparr>initialLayout := dec (initialLayout qc),
                      outputPermutation := dec (outputPermutation qc)\<rparr>
              else qc))))"

definition stripIdleQubits :: "bool \<Rightarrow> QuantumComputation \<Rightarrow> QuantumComputation result" where
  "stripIdleQubits force qc = fold_res (strip_qubit force) (rev (map fst (initialLayout qc))) qc"

section \<open>Input and output mapping\<close>

fun replace_first_value :: "nat \<Rightarrow> nat \<Rightarrow> Permutation \<Rightarrow> Permutation" where
  "replace_first_value v w [] = []"
| "replace_first_value v w (p # ps) =
     (if snd p = v then (fst p, w) # ps else p # replace_first_value v w ps)"

definition set_value :: "nat \<Rightarrow> nat \<Rightarrow> Permutation \<Rightarrow> Permutation" where
  "set_value k v p = map (\<lambda>(k', v'). (k', if k' = k then v else v')) p"

text \<open>
  The loop over the targets of a measurement: the iterator over the classical bits only moves
  on for a qubit that was not measured before.
\<close>

fun gather_measurement :: "bool \<Rightarrow> nat list \<Rightarrow> nat list \<Rightarrow> Permutation \<times> nat list \<Rightarrow>
    (Permutation \<times> nat list) result" where
  "gather_measurement found [] cs (perm, measured) = Inr (perm, measured)"
| "gather_measurement found (q # qs) cs (perm, measured) =
     (if q \<in> set measured then gather_measurement found qs cs (perm, measured)
      else case cs of
        [] \<Rightarrow> Inl Undefined
      | c # cs' \<Rightarrow>
          and_then (if found then and_then (map_at perm q) (\<lambda>current.
              Inr (if current \<noteq> c
                then set_value q (cast32 c) (replace_first_value c current perm) else perm))
            else Inr (map_assign q (cast32 c) perm)) (\<lambda>perm.
          gather_measurement found qs cs' (perm, set_emplace q measured)))"

fun gather_op :: "bool \<Rightarrow> Operation \<Rightarrow> bool \<times> Permutation \<times> nat list \<Rightarrow>
    (bool \<times> Permutation \<times> nat list) result" where
  "gather_op found (NonUnitaryOp b cs) (any, perm, measured) =
     (if optype b \<noteq> opMeasure then Inr (any, perm, measured)
      else if length (targets b) \<noteq> length cs then Inl Undefined
      else and_then (gather_measurement found (targets b) cs (perm, measured)) (\<lambda>r. Inr (True, r)))"
| "gather_op found op st = Inr st"

definition mark_garbage :: "nat \<times> nat \<Rightarrow> QuantumComputation \<Rightarrow> QuantumComputation result" where
  "mark_garbage p qc = (case p of (phys, l) \<Rightarrow>
     and_then (if list_ex (\<lambda>q. snd q = l) (outputPermutation qc) then Inr qc
       else setLogicalQubitGarbage l qc) (\<lambda>qc.
     and_then (logicalQubitIsAncillary l qc) (\<lambda>anc.
     if anc \<and> isIdleQubit phys qc then setLogicalQubitGarbage l qc else Inr qc)))"

definition initializeIOMapping :: "QuantumComputation \<Rightarrow> QuantumComputation result" where
  "initializeIOMapping qc =
     and_then (fold_res (gather_op (outputPermutation qc \<noteq> [])) (qc_ops qc)
       (False, outputPermutation qc, [])) (\<lambda>(any, perm, measured).
     let perm = (if any then filter (\<lambda>p. fst p \<in> set measured) perm else perm);
         qc = qc\<lparr>outputPermutation := perm, garbage := replicate (nqubits qc + nancillae qc) False\<rparr>
     in fold_res mark_garbage (initialLayout qc) qc)"

section \<open>Appending operations\<close>

definition emplace_back :: "Operation \<Rightarrow> QuantumComputation \<Rightarrow> QuantumComputation" where
  "emplace_back op qc = qc\<lparr>qc_ops := qc_ops qc @ [op]\<rparr>"

definition checkQubitRange :: "nat \<Rightarrow> QuantumComputation \<Rightarrow> unit result" where
  "checkQubitRange q qc = (case map_of (initialLayout qc) q of
     None \<Rightarrow> Inl OutOfRange
   | Some l \<Rightarrow> if getNqubits qc \<le> l then Inl OutOfRange else Inr ())"

definition checkQubitRanges :: "nat list \<Rightarrow> QuantumComputation \<Rightarrow> unit result" where
  "checkQubitRanges qs qc = fold_res (\<lambda>q _. checkQubitRange q qc) qs ()"

text \<open>The overloads with controls check the first target, the controls, then the other targets.\<close>

definition checkGateRange :: "nat list \<Rightarrow> Controls \<Rightarrow> QuantumComputation \<Rightarrow> unit result" where
  "checkGateRange ts cs qc = (case ts of
     [] \<Rightarrow> Inr ()
   | t # ts \<Rightarrow> and_then (checkQubitRange t qc) (\<lambda>_.
       and_then (checkQubitRanges (map qubit cs) qc) (\<lambda>_. checkQubitRanges ts qc)))"

definition checkBitRange :: "nat \<Rightarrow> QuantumComputation \<Rightarrow> unit result" where
  "checkBitRange b qc = guard_res (b < nclassics qc) RuntimeError"

definition checkBitRanges :: "nat list \<Rightarrow> QuantumComputation \<Rightarrow> unit result" where
  "checkBitRanges bs qc = fold_res (\<lambda>b _. checkBitRange b qc) bs ()"

definition checkClassicalRegister :: "Register \<Rightarrow> QuantumComputation \<Rightarrow> unit result" where
  "checkClassicalRegister r qc = guard_res (startIndex r + regSize r \<le> nclassics qc) RuntimeError"

fun addVariable :: "SymbolOrNumber \<Rightarrow> QuantumComputation \<Rightarrow> QuantumComputation" where
  "addVariable (Number x) qc = qc"
| "addVariable (Symbol e) qc =
     qc\<lparr>occurringVariables := occurringVariables qc \<union> set (map getVar (terms e))\<rparr>"

definition all_numbers :: "SymbolOrNumber list \<Rightarrow> bool" where
  "all_numbers ps \<longleftrightarrow> list_all (\<lambda>p. symbol_of p = None) ps"

text \<open>The two loops of \<open>gphase\<close>, which bring the phase into the interval from 0 to \<open>2 * PI\<close>.\<close>

lemma one_le_two_PI: "1 \<le> 2 * PI"
  by (simp add: PI_def)

function wrap_up :: "fp \<Rightarrow> fp" where
  "wrap_up x = (if x < 0 then wrap_up (x + 2 * PI) else x)"
  by auto
termination
proof (relation "measure (\<lambda>x. nat \<lceil>- x\<rceil>)", simp)
  fix x :: fp
  assume x: "x < 0"
  have "\<lceil>- (x + 2 * PI)\<rceil> \<le> \<lceil>- x - 1\<rceil>" using one_le_two_PI by (intro ceiling_mono) simp
  also have "\<dots> < \<lceil>- x\<rceil>" by simp
  finally show "(x + 2 * PI, x) \<in> measure (\<lambda>x. nat \<lceil>- x\<rceil>)" using x by (simp add: nat_less_iff)
qed

function wrap_down :: "fp \<Rightarrow> fp" where
  "wrap_down x = (if 2 * PI \<le> x then wrap_down (x - 2 * PI) else x)"
  by auto
termination
proof (relation "measure (\<lambda>x. nat \<lfloor>x\<rfloor>)", simp)
  fix x :: fp
  assume x: "2 * PI \<le> x"
  have "\<lfloor>x - 2 * PI\<rfloor> \<le> \<lfloor>x - 1\<rfloor>" using one_le_two_PI by (intro floor_mono) simp
  also have "\<dots> < \<lfloor>x\<rfloor>" by simp
  finally have "\<lfloor>x - 2 * PI\<rfloor> < \<lfloor>x\<rfloor>" .
  moreover have "1 \<le> \<lfloor>x\<rfloor>" using x one_le_two_PI by (simp add: le_floor_iff)
  ultimately show "(x - 2 * PI, x) \<in> measure (\<lambda>x. nat \<lfloor>x\<rfloor>)" by simp
qed

declare wrap_up.simps [simp del] wrap_down.simps [simp del]

definition gphase :: "fp \<Rightarrow> QuantumComputation \<Rightarrow> QuantumComputation" where
  "gphase angle qc = qc\<lparr>qc_globalPhase := wrap_down (wrap_up (qc_globalPhase qc + angle))\<rparr>"

text \<open>
  The bodies of the macros that define the gate functions, in order: a single target without
  parameters, with one, two and three parameters; two targets without parameters, with one
  and with two; three targets.  The gate is named by its function, and the function without
  prefix and the one with prefix \<open>c\<close> call the one with prefix \<open>mc\<close>.
\<close>

definition append_standard ::
    "Controls \<Rightarrow> nat list \<Rightarrow> string \<Rightarrow> fp list \<Rightarrow> QuantumComputation \<Rightarrow> QuantumComputation result" where
  "append_standard cs ts nm ps qc = and_then (opTypeFromString nm) (\<lambda>t.
     and_then (StandardOperation_controlled cs ts t ps) (\<lambda>b.
     Inr (emplace_back (StandardOp b) qc)))"

definition append_gate :: "Controls \<Rightarrow> nat list \<Rightarrow> string \<Rightarrow> SymbolOrNumber list \<Rightarrow>
    QuantumComputation \<Rightarrow> QuantumComputation result" where
  "append_gate cs ts nm ps qc = (
     if all_numbers ps then append_standard cs ts nm (map number_of ps) qc
     else let qc = fold addVariable ps qc in
       and_then (opTypeFromString nm) (\<lambda>t.
       and_then (SymbolicOperation_controlled cs ts t ps) (\<lambda>s.
       Inr (emplace_back (SymbolicOp s) qc))))"

definition mc_single_target :: "string \<Rightarrow> Controls \<Rightarrow> nat \<Rightarrow> QuantumComputation \<Rightarrow> QuantumComputation result" where
  "mc_single_target nm cs t qc = and_then (checkGateRange [t] cs qc) (\<lambda>_. append_standard cs [t] nm [] qc)"

definition mc_single_target_one :: "string \<Rightarrow> SymbolOrNumber \<Rightarrow> Controls \<Rightarrow> nat \<Rightarrow>
    QuantumComputation \<Rightarrow> QuantumComputation result" where
  "mc_single_target_one nm p cs t qc =
     and_then (checkGateRange [t] cs qc) (\<lambda>_. append_gate cs [t] nm [p] qc)"

definition mc_single_target_two :: "string \<Rightarrow> SymbolOrNumber \<Rightarrow> SymbolOrNumber \<Rightarrow> Controls \<Rightarrow> nat \<Rightarrow>
    QuantumComputation \<Rightarrow> QuantumComputation result" where
  "mc_single_target_two nm p0 p1 cs t qc =
     and_then (checkGateRange [t] cs qc) (\<lambda>_. append_gate cs [t] nm [p0, p1] qc)"

definition mc_single_target_three :: "string \<Rightarrow> SymbolOrNumber \<Rightarrow> SymbolOrNumber \<Rightarrow> SymbolOrNumber \<Rightarrow>
    Controls \<Rightarrow> nat \<Rightarrow> QuantumComputation \<Rightarrow> QuantumComputation result" where
  "mc_single_target_three nm p0 p1 p2 cs t qc =
     and_then (checkGateRange [t] cs qc) (\<lambda>_. append_gate cs [t] nm [p0, p1, p2] qc)"

definition mc_two_target :: "string \<Rightarrow> Controls \<Rightarrow> nat \<Rightarrow> nat \<Rightarrow> QuantumComputation \<Rightarrow> QuantumComputation result" where
  "mc_two_target nm cs t0 t1 qc =
     and_then (checkGateRange [t0, t1] cs qc) (\<lambda>_. append_standard cs [t0, t1] nm [] qc)"

definition mc_two_target_one :: "string \<Rightarrow> SymbolOrNumber \<Rightarrow> Controls \<Rightarrow> nat \<Rightarrow> nat \<Rightarrow>
    QuantumComputation \<Rightarrow> QuantumComputation result" where
  "mc_two_target_one nm p cs t0 t1 qc =
     and_then (checkGateRange [t0, t1] cs qc) (\<lambda>_. append_gate cs [t0, t1] nm [p] qc)"

definition mc_two_target_two :: "string \<Rightarrow> SymbolOrNumber \<Rightarrow> SymbolOrNumber \<Rightarrow> Controls \<Rightarrow> nat \<Rightarrow> nat \<Rightarrow>
    QuantumComputation \<Rightarrow> QuantumComputation result" where
  "mc_two_target_two nm p0 p1 cs t0 t1 qc =
     and_then (checkGateRange [t0, t1] cs qc) (\<lambda>_. append_gate cs [t0, t1] nm [p0, p1] qc)"

definition mc_three_target :: "string \<Rightarrow> Controls \<Rightarrow> nat \<Rightarrow> nat \<Rightarrow> nat \<Rightarrow>
    QuantumComputation \<Rightarrow> QuantumComputation result" where
  "mc_three_target nm cs t0 t1 t2 qc =
     and_then (checkGateRange [t0, t1, t2] cs qc) (\<lambda>_. append_standard cs [t0, t1, t2] nm [] qc)"

definition measure :: "nat \<Rightarrow> nat \<Rightarrow> QuantumComputation \<Rightarrow> QuantumComputation result" where
  "measure q b qc = and_then (checkQubitRange q qc) (\<lambda>_. and_then (checkBitRange b qc) (\<lambda>_.
     and_then (NonUnitaryOperation_measure [q] [b]) (\<lambda>op. Inr (emplace_back op qc))))"

definition measure_list :: "nat list \<Rightarrow> nat list \<Rightarrow> QuantumComputation \<Rightarrow> QuantumComputation result" where
  "measure_list qs bs qc = and_then (checkQubitRanges qs qc) (\<lambda>_. and_then (checkBitRanges bs qc) (\<lambda>_.
     and_then (NonUnitaryOperation_measure qs bs) (\<lambda>op. Inr (emplace_back op qc))))"

definition standard_uncontrolled :: "nat list \<Rightarrow> OpType \<Rightarrow> QuantumComputation \<Rightarrow> QuantumComputation result" where
  "standard_uncontrolled ts t qc = and_then (StandardOperation_new ts t []) (\<lambda>b.
     Inr (emplace_back (StandardOp b) qc))"

definition barrier :: "QuantumComputation \<Rightarrow> QuantumComputation result" where
  "barrier qc = standard_uncontrolled [0..<getNqubits qc] opBarrier qc"

definition barrier_list :: "nat list \<Rightarrow> QuantumComputation \<Rightarrow> QuantumComputation result" where
  "barrier_list ts qc = and_then (checkQubitRanges ts qc) (\<lambda>_. standard_uncontrolled ts opBarrier qc)"

definition bridge :: "nat list \<Rightarrow> QuantumComputation \<Rightarrow> QuantumComputation result" where
  "bridge ts qc = and_then (checkQubitRanges ts qc) (\<lambda>_. standard_uncontrolled ts opBridge qc)"

definition reset_list :: "nat list \<Rightarrow> QuantumComputation \<Rightarrow> QuantumComputation result" where
  "reset_list ts qc = and_then (checkQubitRanges ts qc) (\<lambda>_.
     Inr (emplace_back (NonUnitaryOperation_new ts opReset) qc))"

definition measureAll :: "bool \<Rightarrow> bool \<Rightarrow> QuantumComputation \<Rightarrow> QuantumComputation result" where
  "measureAll addBits addBarrier qc =
     and_then (if addBits then addClassicalRegister (getNqubits qc) ''meas'' qc else Inr qc) (\<lambda>qc.
     if nclassics qc < getNqubits qc then Inl RuntimeError
     else and_then (if addBarrier then barrier qc else Inr qc) (\<lambda>qc.
     and_then (if addBits then (case map_of (classicalRegisters qc) ''meas'' of
         Some r \<Rightarrow> Inr (cast32 (startIndex r)) | None \<Rightarrow> Inl OutOfRange) else Inr 0) (\<lambda>start.
     fold_res (\<lambda>i. measure (cast32 i) (start + cast32 i)) (rev [0..<getNqubits qc]) qc)))"

definition ifElse_register :: "Operation option \<Rightarrow> Operation option \<Rightarrow> Register \<Rightarrow> nat \<Rightarrow>
    ComparisonKind \<Rightarrow> QuantumComputation \<Rightarrow> QuantumComputation result" where
  "ifElse_register t e r expected kind qc = and_then (checkClassicalRegister r qc) (\<lambda>_.
     and_then (IfElseOperation_register t e r expected kind) (\<lambda>op. Inr (emplace_back op qc)))"

definition ifElse_bit :: "Operation option \<Rightarrow> Operation option \<Rightarrow> nat \<Rightarrow> bool \<Rightarrow>
    ComparisonKind \<Rightarrow> QuantumComputation \<Rightarrow> QuantumComputation result" where
  "ifElse_bit t e b expected kind qc =
     and_then (IfElseOperation_bit t e b expected kind) (\<lambda>op. Inr (emplace_back op qc))"

definition if_register :: "OpType \<Rightarrow> nat \<Rightarrow> Controls \<Rightarrow> Register \<Rightarrow> nat \<Rightarrow> ComparisonKind \<Rightarrow>
    fp list \<Rightarrow> QuantumComputation \<Rightarrow> QuantumComputation result" where
  "if_register op t cs r expected kind params qc =
     and_then (checkGateRange [t] cs qc) (\<lambda>_. and_then (checkClassicalRegister r qc) (\<lambda>_.
     and_then (StandardOperation_controlled cs [t] op params) (\<lambda>gate.
     and_then (IfElseOperation_register (Some (StandardOp gate)) None r expected kind) (\<lambda>op.
     Inr (emplace_back op qc)))))"

text \<open>The register passed to the check starts at index one and has \<open>controlBit\<close> bits.\<close>

definition if_bit :: "OpType \<Rightarrow> nat \<Rightarrow> Controls \<Rightarrow> nat \<Rightarrow> bool \<Rightarrow> ComparisonKind \<Rightarrow>
    fp list \<Rightarrow> QuantumComputation \<Rightarrow> QuantumComputation result" where
  "if_bit op t cs b expected kind params qc =
     and_then (checkGateRange [t] cs qc) (\<lambda>_.
     and_then (checkClassicalRegister (mk_register [] 1 b) qc) (\<lambda>_.
     and_then (StandardOperation_controlled cs [t] op params) (\<lambda>gate.
     and_then (IfElseOperation_bit (Some (StandardOp gate)) None b expected kind) (\<lambda>op.
     Inr (emplace_back op qc)))))"

definition appendMeasurementsAccordingToOutputPermutation ::
    "string \<Rightarrow> QuantumComputation \<Rightarrow> QuantumComputation result" where
  "appendMeasurementsAccordingToOutputPermutation nm qc =
     and_then (if classicalRegisters qc = [] then
         addClassicalRegister (length (outputPermutation qc)) nm qc
       else if nclassics qc < length (outputPermutation qc) then
         if map_of (classicalRegisters qc) nm \<noteq> None then Inl RuntimeError
         else addClassicalRegister (length (outputPermutation qc) - nclassics qc) nm qc
       else Inr qc) (\<lambda>qc.
     and_then (barrier qc) (\<lambda>qc.
     fold_res (\<lambda>(q, c). measure q c) (outputPermutation qc) qc))"

section \<open>Whole-circuit operations\<close>

definition qc_invert :: "QuantumComputation \<Rightarrow> QuantumComputation result" where
  "qc_invert qc = and_then (map_res op_invert (qc_ops qc)) (\<lambda>inv.
     let qc = qc\<lparr>qc_ops := rev inv\<rparr>
     in Inr (if length (initialLayout qc) = length (outputPermutation qc)
       then qc\<lparr>initialLayout := outputPermutation qc, outputPermutation := initialLayout qc\<rparr>
       else qc))"

definition qc_reverse :: "QuantumComputation \<Rightarrow> QuantumComputation" where
  "qc_reverse qc = qc\<lparr>qc_ops := rev (qc_ops qc)\<rparr>"

definition qc_equal :: "QuantumComputation \<Rightarrow> QuantumComputation \<Rightarrow> bool result" where
  "qc_equal a b = (
     if nqubits a \<noteq> nqubits b \<or> nancillae a \<noteq> nancillae b \<or> nclassics a \<noteq> nclassics b \<or>
        \<not> regs_equal (quantumRegisters a) (quantumRegisters b) \<or>
        \<not> regs_equal (classicalRegisters a) (classicalRegisters b) \<or>
        \<not> regs_equal (ancillaRegisters a) (ancillaRegisters b) \<or>
        initialLayout a \<noteq> initialLayout b \<or> outputPermutation a \<noteq> outputPermutation b \<or>
        ancillary a \<noteq> ancillary b \<or> garbage a \<noteq> garbage b \<or> seed a \<noteq> seed b \<or>
        qc_globalPhase a \<noteq> qc_globalPhase b \<or> occurringVariables a \<noteq> occurringVariables b
     then Inr False
     else if length (qc_ops a) \<noteq> length (qc_ops b) then Inr False
     else all2_res op_eq (qc_ops a) (qc_ops b))"

definition isVariableFree :: "QuantumComputation \<Rightarrow> bool" where
  "isVariableFree qc \<longleftrightarrow> list_all (\<lambda>op. \<not> isSymbolicOperation op) (qc_ops qc)"

definition instantiate_op :: "VariableAssignment \<Rightarrow> Operation \<Rightarrow> Operation result" where
  "instantiate_op a op = (case op of
     SymbolicOp s \<Rightarrow> and_then (sym_instantiate a s) (\<lambda>s.
       Inr (if sym_isStandardOperation s then StandardOp (base s) else SymbolicOp s))
   | _ \<Rightarrow> Inr op)"

definition instantiateInplace :: "VariableAssignment \<Rightarrow> QuantumComputation \<Rightarrow> QuantumComputation result" where
  "instantiateInplace a qc = and_then (map_res (instantiate_op a) (qc_ops qc)) (\<lambda>new.
     Inr (qc\<lparr>qc_ops := new, occurringVariables := occurringVariables qc - dom a\<rparr>))"

definition asCompoundOperation :: "QuantumComputation \<Rightarrow> Operation \<times> QuantumComputation" where
  "asCompoundOperation qc = (CompoundOperation_new (qc_ops qc) False, qc\<lparr>qc_ops := []\<rparr>)"

definition asOperation :: "QuantumComputation \<Rightarrow> Operation option \<times> QuantumComputation" where
  "asOperation qc = (case qc_ops qc of
     [] \<Rightarrow> (None, qc)
   | [op] \<Rightarrow> (Some op, qc\<lparr>qc_ops := []\<rparr>)
   | _ \<Rightarrow> (let (op, qc) = asCompoundOperation qc in (Some op, qc)))"

definition fromCompoundOperation :: "Operation list \<Rightarrow> QuantumComputation result" where
  "fromCompoundOperation ops =
     (let maxQubit = fold max (concat (map getUsedQubits ops)) 0;
          maxBit = fold max (concat (map (\<lambda>op. case op of
            NonUnitaryOp b cs \<Rightarrow> if optype b = opMeasure then cs else [] | _ \<Rightarrow> []) ops)) 0
      in and_then (addQubitRegister (maxQubit + 1) ''q'' ((empty_qc 0)\<lparr>qc_ops := ops\<rparr>))
         (addClassicalRegister (maxBit + 1) ''c''))"

text \<open>
  \<open>isDynamicCircuit\<close> threads the flags of the measured qubits through the operations and
  stops at the first dynamic one; an operation that is neither is assumed to be compound.
\<close>

fun any_state :: "('a \<Rightarrow> 's \<Rightarrow> (bool \<times> 's) result) \<Rightarrow> 'a list \<Rightarrow> 's \<Rightarrow> (bool \<times> 's) result" where
  "any_state f [] s = Inr (False, s)"
| "any_state f (x # xs) s = and_then (f x s) (\<lambda>r. if fst r then Inr r else any_state f xs (snd r))"

lemma any_state_cong [fundef_cong]:
  "xs = ys \<Longrightarrow> s = t \<Longrightarrow> (\<And>x u. x \<in> set ys \<Longrightarrow> f x u = g x u) \<Longrightarrow>
    any_state f xs s = any_state g ys t"
proof (induction ys arbitrary: xs s t)
  case (Cons y ys)
  have "any_state f ys u = any_state g ys u" for u using Cons.IH [OF refl refl] Cons.prems(3) by simp
  with Cons.prems show ?case by (simp cong: if_cong)
qed simp

fun any_res :: "('a \<Rightarrow> bool result) \<Rightarrow> 'a list \<Rightarrow> bool result" where
  "any_res P [] = Inr False"
| "any_res P (x # xs) = and_then (P x) (\<lambda>b. if b then Inr True else any_res P xs)"

fun isDynamicCircuit :: "Operation \<Rightarrow> bool list \<Rightarrow> (bool \<times> bool list) result" where
  "isDynamicCircuit (CompoundOp b ops cust) measured =
     (if optype b = opReset then Inr (True, measured)
      else if optype b = opMeasure then
        and_then (map_res (deref_res measured) (targets b)) (\<lambda>_.
          Inr (False, fold (\<lambda>q m. m[q := True]) (targets b) measured))
      else any_state (\<lambda>op m. isDynamicCircuit op m) ops measured)"
| "isDynamicCircuit op measured =
     (if getType op = opReset \<or> isIfElseOperation op then Inr (True, measured)
      else if isStandardOperation op then
        and_then (any_res (deref_res measured) (getUsedQubits op)) (\<lambda>d. Inr (d, measured))
      else if getType op = opMeasure then
        and_then (map_res (deref_res measured) (getTargets op)) (\<lambda>_.
          Inr (False, fold (\<lambda>q m. m[q := True]) (getTargets op) measured))
      else Inl Undefined)"

definition isDynamic :: "QuantumComputation \<Rightarrow> bool result" where
  "isDynamic qc = and_then (any_state isDynamicCircuit (qc_ops qc)
     (replicate (getHighestPhysicalQubitIndex qc + 1) False)) (\<lambda>r. Inr (fst r))"

end
