(* ===== verification/IRLaws.thy ===== *)
theory IRLaws
  imports IRCircuit
begin

text \<open>
  Laws of single operations that the circuit-level theories share: used qubits against
  \<open>actsOn\<close>, comparison of an operation with itself, inversion twice, and the depth
  contribution as an action on the qubits an operation uses.
\<close>

section \<open>Used qubits\<close>

lemma op_usedQubits_actsOn: "q \<in> set (op_usedQubits b) \<longleftrightarrow> op_actsOn b q"
  by (auto simp: op_usedQubits_def op_actsOn_def controls_contain_def)

lemma getUsedQubits_actsOn: "q \<in> set (getUsedQubits op) \<longleftrightarrow> actsOn op q"
  by (induction op) (auto simp: op_usedQubits_actsOn list_ex_iff)

lemma getUsedQubits_sorted [simp]: "strictly_sorted (getUsedQubits op)"
  by (cases op) (simp_all add: op_usedQubits_def)

lemma op_getUsedQubitsPermuted_Nil: "op_getUsedQubitsPermuted [] b = Inr (op_usedQubits b)"
proof -
  have "map_res (perm_apply []) ts = Inr (map id ts)" for ts by (rule map_res_total) simp
  moreover have "map_res (\<lambda>c. perm_apply [] (qubit c)) cs = Inr (map qubit cs)" for cs
    by (rule map_res_total) simp
  ultimately show ?thesis by (simp add: op_getUsedQubitsPermuted_def op_usedQubits_def)
qed

lemma getUsedQubitsPermuted_Nil: "getUsedQubitsPermuted [] op = Inr (getUsedQubits op)"
proof (induction op)
  case (CompoundOp b ops cust)
  then have "map_res (getUsedQubitsPermuted []) ops = Inr (map getUsedQubits ops)"
    by (intro map_res_total) simp
  then show ?case by simp
qed (simp_all add: op_getUsedQubitsPermuted_Nil)

section \<open>Comparison\<close>

text \<open>
  An operation is comparable under a permutation when the permutation is empty or maps every
  qubit that the comparison looks up, and measurements have as many bits as qubits.
\<close>

definition base_mapped :: "Permutation \<Rightarrow> OpBase \<Rightarrow> bool" where
  "base_mapped p b \<longleftrightarrow> p = [] \<or> (\<forall>q. op_actsOn b q \<longrightarrow> map_contains p q)"

fun comparable :: "Permutation \<Rightarrow> Operation \<Rightarrow> bool" where
  "comparable p (StandardOp b) = base_mapped p b"
| "comparable p (SymbolicOp s) = base_mapped p (base s)"
| "comparable p (NonUnitaryOp b cs) =
     (base_mapped p b \<and> (optype b = opMeasure \<longrightarrow> length cs = length (targets b)))"
| "comparable p (CompoundOp b ops cust) = list_all (comparable p) ops"
| "comparable p (IfElseOp b t e c) = (pred_option (comparable p) t \<and> pred_option (comparable p) e)"

lemma map_res_defined: "(\<And>x. x \<in> set xs \<Longrightarrow> \<exists>y. f x = Inr y) \<Longrightarrow> \<exists>ys. map_res f xs = Inr ys"
  by (induction xs) (auto, metis and_then.simps(2))

lemma base_mapped_apply: "base_mapped p b \<Longrightarrow> op_actsOn b q \<Longrightarrow> \<exists>q'. perm_apply p q = Inr q'"
  by (rule perm_apply_defined) (auto simp: base_mapped_def)

lemma op_getUsedQubitsPermuted_defined:
  "base_mapped p b \<Longrightarrow> \<exists>us. op_getUsedQubitsPermuted p b = Inr us"
proof -
  assume b: "base_mapped p b"
  obtain ts where "map_res (perm_apply p) (targets b) = Inr ts"
    using map_res_defined base_mapped_apply [OF b] by (metis op_actsOn_def)
  moreover obtain cs where "map_res (\<lambda>c. perm_apply p (qubit c)) (controls b) = Inr cs"
    using map_res_defined [of "controls b" "\<lambda>c. perm_apply p (qubit c)"] base_mapped_apply [OF b]
    by (metis op_actsOn_def controls_contain_def)
  ultimately show ?thesis by (simp add: op_getUsedQubitsPermuted_def)
qed

lemma op_equals_refl:
  assumes b: "base_mapped p b" and u: "used = Inr us"
  shows "op_equals b b used used p p = Inr True"
proof -
  have qc: "\<exists>q'. perm_apply p (qubit c) = Inr q'" if "c \<in> set (controls b)" for c
    using that by (intro base_mapped_apply [OF b]) (auto simp: op_actsOn_def controls_contain_def)
  have "\<exists>ns. map_res (\<lambda>c. perm_apply p (qubit c)) (filter (\<lambda>c. ctype c = Neg) (controls b)) = Inr ns"
    by (rule map_res_defined) (simp add: qc)
  then obtain ns where n: "neg_controls p (controls b) = Inr ns" by (auto simp: neg_controls_def)
  obtain cs where c: "perm_apply_controls p (controls b) = Inr cs"
  proof (cases "p = []")
    case False
    have "\<exists>ds. map_res (\<lambda>c. and_then (map_at p (qubit c)) (\<lambda>q. Inr (Control q (ctype c)))) (controls b)
      = Inr ds"
    proof (rule map_res_defined)
      fix c
      assume "c \<in> set (controls b)"
      from qc [OF this] obtain q where "map_at p (qubit c) = Inr q" using False by (auto simp: perm_apply_def)
      then show "\<exists>d. and_then (map_at p (qubit c)) (\<lambda>q. Inr (Control q (ctype c))) = Inr d" by simp
    qed
    then obtain ds where
      "map_res (\<lambda>c. and_then (map_at p (qubit c)) (\<lambda>q. Inr (Control q (ctype c)))) (controls b) = Inr ds" ..
    then show ?thesis using that by (simp add: perm_apply_controls_def False)
  qed simp
  obtain ts where t: "perm_apply_targets p (targets b) = Inr ts"
    using map_res_defined [of "targets b" "perm_apply p"] base_mapped_apply [OF b]
    by (auto simp: perm_apply_targets_map op_actsOn_def)
  show ?thesis using u n c t by (simp add: op_equals_def)
qed

lemma expr_eq_refl [simp]: "expr_eq e e"
  by (simp add: expr_eq_def TOLERANCE_def list_all2_same)

lemma sym_params_equal_refl: "sym_params_equal xs xs = Inr True"
proof (induction xs)
  case (Cons x xs)
  then show ?case by (cases x) simp_all
qed simp

lemma reg_eq_refl [simp]: "reg_eq r r"
  by (simp add: reg_eq_def)

lemma same_condition_refl [simp]: "same_condition c c"
  by (simp add: same_condition_def same_optional_register_def split: option.split)

lemma all2_res_refl: "(\<And>x. x \<in> set xs \<Longrightarrow> f x x = Inr True) \<Longrightarrow> all2_res f xs xs = Inr True"
  by (induction xs) simp_all

lemma measurements_defined:
  assumes b: "base_mapped p b"
  shows "\<exists>ms. measurements p (targets b) cs = Inr ms"
proof -
  let ?f = "\<lambda>(q, c). and_then (if p = [] then Inr q else map_at p q) (\<lambda>q. Inr (q, c))"
  have "\<exists>ys. map_res ?f (zip (targets b) cs) = Inr ys"
  proof (rule map_res_defined)
    fix x
    assume "x \<in> set (zip (targets b) cs)"
    moreover obtain q c where x: "x = (q, c)" by force
    ultimately have "q \<in> set (targets b)" by (auto elim: in_set_zipE)
    with base_mapped_apply [OF b, of q] obtain q' where "perm_apply p q = Inr q'"
      by (auto simp: op_actsOn_def)
    then show "\<exists>y. ?f x = Inr y" by (auto simp: x perm_apply_def)
  qed
  then obtain ys where "map_res ?f (zip (targets b) cs) = Inr ys" ..
  then show ?thesis by (simp add: measurements_def)
qed

theorem equals_reflexive: "comparable p op \<Longrightarrow> equals p p op op = Inr True"
proof (induction op)
  case (StandardOp b)
  then show ?case using op_getUsedQubitsPermuted_defined [of p b] op_equals_refl [of p b] by auto
next
  case (SymbolicOp s)
  then obtain us where u: "op_getUsedQubitsPermuted p (base s) = Inr us"
    using op_getUsedQubitsPermuted_defined [of p "base s"] by auto
  have "op_equals (base s) (base s) (Inr us) (Inr us) p p = Inr True"
    by (rule op_equals_refl) (use SymbolicOp in auto)
  then show ?case using sym_params_equal_refl [of "symbolicParameter s"]
    by (auto simp: symbolic_equals_def u sym_isStandardOperation_def sym_isSymbolicOperation_def)
next
  case (NonUnitaryOp b cs)
  then show ?case
    using measurements_defined [of p b cs] op_getUsedQubitsPermuted_defined [of p b] op_equals_refl [of p b]
    by (auto simp: nonunitary_equals_def)
next
  case (CompoundOp b ops cust)
  then show ?case by (auto simp: list_all_iff intro!: all2_res_refl)
next
  case (IfElseOp b t e c)
  then show ?case by (cases t; cases e) auto
qed

section \<open>Inversion\<close>

text \<open>Inverting twice restores an operation up to whole turns in the angles of a \<open>U2\<close> gate.\<close>

definition full_turns :: "OpBase \<Rightarrow> OpBase" where
  "full_turns b = (if optype b = opU2 then (case parameter b of
     p0 # p1 # ps \<Rightarrow> b\<lparr>parameter := (p0 + 2 * PI) # (p1 - 2 * PI) # ps\<rparr> | _ \<Rightarrow> b) else b)"

lemma dagger_type_dagger: "dagger_type t = Some u \<Longrightarrow> dagger_type u = Some t \<and>
    u \<notin> set self_inverse_types \<and> u \<notin> set negate_first_types \<and> u \<noteq> opU2 \<and> u \<noteq> opU \<and> u \<noteq> opDCX"
  by (cases t) (auto simp: self_inverse_types_def negate_first_types_def)

lemma base_update_id:
  "parameter b = ps \<Longrightarrow> b\<lparr>parameter := ps\<rparr> = b" "targets b = ts \<Longrightarrow> b\<lparr>targets := ts\<rparr> = b"
  "optype b = t \<Longrightarrow> b\<lparr>optype := t\<rparr> = b"
  by (cases b; simp)+

lemma std_invert_cases:
  assumes "std_invert b = Inr b'"
  obtains (self) "optype b \<in> set self_inverse_types" "b' = b"
    | (neg) p ps where "optype b \<in> set negate_first_types" "optype b \<notin> set self_inverse_types"
        "parameter b = p # ps" "b' = b\<lparr>parameter := - p # ps\<rparr>"
    | (u2) p0 p1 ps where "optype b = opU2" "parameter b = p0 # p1 # ps"
        "b' = b\<lparr>parameter := (- p1 + PI) # (- p0 - PI) # ps\<rparr>"
    | (u) p0 p1 p2 ps where "optype b = opU" "parameter b = p0 # p1 # p2 # ps"
        "b' = b\<lparr>parameter := - p0 # - p2 # - p1 # ps\<rparr>"
    | (dcx) t0 t1 ts where "optype b = opDCX" "targets b = t0 # t1 # ts"
        "b' = b\<lparr>targets := t1 # t0 # ts\<rparr>"
    | (dag) t where "dagger_type (optype b) = Some t" "b' = b\<lparr>optype := t\<rparr>"
proof -
  note inv = assms [unfolded std_invert_def]
  show thesis
  proof (cases "optype b \<in> set self_inverse_types")
    case True
    with inv show thesis by (intro self) simp_all
  next
    case s: False
    show thesis
    proof (cases "optype b \<in> set negate_first_types")
      case True
      with inv s show thesis by (cases "parameter b") (auto intro: neg)
    next
      case n: False
      consider "optype b = opU2" | "optype b = opU" | "optype b = opDCX"
        | "optype b \<noteq> opU2" "optype b \<noteq> opU" "optype b \<noteq> opDCX" by blast
      then show thesis
      proof cases
        case 1
        with inv s n show thesis by (auto split: list.splits intro: u2)
      next
        case 2
        with inv s n show thesis by (auto split: list.splits intro: u)
      next
        case 3
        with inv s n show thesis by (auto split: list.splits intro: dcx)
      next
        case 4
        with inv s n show thesis by (auto split: option.splits intro: dag)
      qed
    qed
  qed
qed

lemma std_invert_twice: "std_invert b = Inr b' \<Longrightarrow> std_invert b' = Inr (full_turns b)"
proof (erule std_invert_cases)
  assume a: "optype b \<in> set self_inverse_types" "b' = b"
  then have "optype b \<noteq> opU2" by (auto simp: self_inverse_types_def)
  with a show ?thesis by (simp add: std_invert_def full_turns_def)
next
  fix p ps
  assume a: "optype b \<in> set negate_first_types" "optype b \<notin> set self_inverse_types"
    "parameter b = p # ps" "b' = b\<lparr>parameter := - p # ps\<rparr>"
  then have "optype b \<noteq> opU2" by (auto simp: negate_first_types_def)
  with a show ?thesis by (simp add: std_invert_def full_turns_def base_update_id)
next
  fix t
  assume a: "dagger_type (optype b) = Some t" "b' = b\<lparr>optype := t\<rparr>"
  then have "optype b \<noteq> opU2" by auto
  with a dagger_type_dagger [OF a(1)] show ?thesis
    by (simp add: std_invert_def full_turns_def base_update_id)
qed (simp_all add: std_invert_def full_turns_def self_inverse_types_def negate_first_types_def
    base_update_id)

end
