(* ===== verification/IRReorder.thy ===== *)
theory IRReorder
  imports IRLaws "HOL-Library.Multiset"
begin

text \<open>
  \<open>QuantumComputation::reorderOperations\<close> (\<open>src/ir/QuantumComputation.cpp\<close>).
  A pointer to an operation is its index in the circuit; the queue of a qubit together with
  its iterator is the list of the indices that the iterator has not passed.

  The theory proves that the loop ends, that no queue is read at its end, and that the result
  arises from the operations that use a qubit by exchanging neighbours on disjoint qubits.
  The locale \<open>independent_effects\<close> states what follows for any effect of operations for which
  those on disjoint qubits commute; its instances are the depth (\<open>IRDepth\<close>) and the action of the
  gate matrices (\<open>IRSemantics\<close>).
\<close>

section \<open>The algorithm\<close>

definition push_use :: "nat \<Rightarrow> nat \<Rightarrow> nat \<Rightarrow> nat list list \<Rightarrow> nat list list result" where
  "push_use n j q dag = (if q < n then Inr (dag[q := dag ! q @ [j]]) else Inl OutOfRange)"

definition build_dag :: "nat \<Rightarrow> Operation list \<Rightarrow> nat list list result" where
  "build_dag n ops = fold_res (\<lambda>j dag. fold_res (push_use n j) (getUsedQubits (ops ! j)) dag)
     [0..<length ops] (replicate n [])"

fun executable :: "nat list list \<Rightarrow> nat \<Rightarrow> nat list \<Rightarrow> bool result" where
  "executable dag j [] = Inr True"
| "executable dag j (qb # qbs) = (case dag ! qb of
     [] \<Rightarrow> Inl Undefined
   | k # _ \<Rightarrow> if k \<noteq> j then Inr False else executable dag j qbs)"

type_synonym schedule = "nat list list \<times> nat list"

definition schedule_qubit :: "nat \<Rightarrow> Operation list \<Rightarrow> nat \<Rightarrow> schedule \<times> bool \<Rightarrow> (schedule \<times> bool) result" where
  "schedule_qubit n ops q st = (case st of ((dag, new), finished) \<Rightarrow>
     (case dag ! q of
        [] \<Rightarrow> Inr st
      | j # _ \<Rightarrow>
          let others = filter (\<lambda>qb. qb \<noteq> q \<and> actsOn (ops ! j) qb) (rev [0..<n])
          in and_then (executable dag j others) (\<lambda>ready.
             if ready then Inr ((fold (\<lambda>i d. d[i := tl (d ! i)]) (q # others) dag, new @ [j]), False)
             else Inr ((dag, new), False))))"

definition sweep :: "nat \<Rightarrow> Operation list \<Rightarrow> schedule \<Rightarrow> (schedule \<times> bool) result" where
  "sweep n ops st = fold_res (schedule_qubit n ops) (rev [0..<n]) (st, True)"

partial_function (option) sweeps :: "nat \<Rightarrow> Operation list \<Rightarrow> schedule \<Rightarrow> schedule result option" where
  "sweeps n ops st = (case sweep n ops st of
     Inl e \<Rightarrow> Some (Inl e)
   | Inr (st', finished) \<Rightarrow> if finished then Some (Inr st') else sweeps n ops st')"

definition reorder_ops :: "nat \<Rightarrow> Operation list \<Rightarrow> Operation list result option" where
  "reorder_ops n ops = (case build_dag n ops of
     Inl e \<Rightarrow> Some (Inl e)
   | Inr dag \<Rightarrow> map_option (\<lambda>r. and_then r (\<lambda>st. Inr (map ((!) ops) (snd st)))) (sweeps n ops (dag, [])))"

definition reorderOperations :: "QuantumComputation \<Rightarrow> QuantumComputation result option" where
  "reorderOperations qc =
     (let highestPhysicalQubit = fold (\<lambda>p m. max (fst p) m) (initialLayout qc) 0
      in map_option (\<lambda>r. and_then r (\<lambda>ops. Inr (qc\<lparr>qc_ops := ops\<rparr>)))
           (reorder_ops (highestPhysicalQubit + 1) (qc_ops qc)))"

section \<open>Reorderings\<close>

definition disjoint_ops :: "Operation \<Rightarrow> Operation \<Rightarrow> bool" where
  "disjoint_ops a b \<longleftrightarrow> (\<forall>q. \<not> (actsOn a q \<and> actsOn b q))"

inductive reordering :: "Operation list \<Rightarrow> Operation list \<Rightarrow> bool" where
  reordering_refl: "reordering xs xs"
| reordering_swap: "reordering xs (us @ a # b # vs) \<Longrightarrow> disjoint_ops a b \<Longrightarrow>
    reordering xs (us @ b # a # vs)"

lemma reordering_trans: "reordering ys zs \<Longrightarrow> reordering xs ys \<Longrightarrow> reordering xs zs"
  by (induction rule: reordering.induct) (auto intro: reordering.intros)

lemma disjoint_ops_sym: "disjoint_ops a b \<longleftrightarrow> disjoint_ops b a"
  by (auto simp: disjoint_ops_def)

lemma reordering_move_front:
  "list_all (\<lambda>a. disjoint_ops a b) xs \<Longrightarrow> reordering (us @ xs @ b # vs) (us @ b # xs @ vs)"
proof (induction xs arbitrary: us)
  case (Cons a xs)
  from Cons.IH [of "us @ [a]"] Cons.prems
  have "reordering (us @ (a # xs) @ b # vs) (us @ a # b # xs @ vs)" by simp
  then show ?case by simp (rule reordering_swap, use Cons.prems in simp_all)
qed (simp add: reordering_refl)

text \<open>A reordering keeps the multiset of operations and the sequence on every qubit.\<close>

lemma reordering_length: "reordering xs ys \<Longrightarrow> length xs = length ys"
  by (induction rule: reordering.induct) simp_all

lemma reordering_set: "reordering xs ys \<Longrightarrow> set xs = set ys"
  by (induction rule: reordering.induct) auto

lemma reordering_mset: "reordering xs ys \<Longrightarrow> mset xs = mset ys"
  by (induction rule: reordering.induct) auto

lemma reordering_qubit:
  "reordering xs ys \<Longrightarrow> filter (\<lambda>op. actsOn op q) xs = filter (\<lambda>op. actsOn op q) ys"
  by (induction rule: reordering.induct) (auto simp: disjoint_ops_def)

section \<open>One visit of a qubit\<close>

text \<open>
  The queues always hold, for some list of remaining indices, those that act on the qubit.
\<close>

definition dag_of :: "nat \<Rightarrow> Operation list \<Rightarrow> nat list \<Rightarrow> nat list list" where
  "dag_of n ops rest = map (\<lambda>q. filter (\<lambda>j. actsOn (ops ! j) q) rest) [0..<n]"

definition rest_ok :: "nat \<Rightarrow> Operation list \<Rightarrow> nat list \<Rightarrow> bool" where
  "rest_ok n ops rest \<longleftrightarrow> distinct rest \<and>
     (\<forall>j \<in> set rest. (\<exists>q. actsOn (ops ! j) q) \<and> (\<forall>q. actsOn (ops ! j) q \<longrightarrow> q < n))"

lemma length_dag_of [simp]: "length (dag_of n ops rest) = n"
  by (simp add: dag_of_def)

lemma dag_of_nth [simp]: "q < n \<Longrightarrow> dag_of n ops rest ! q = filter (\<lambda>j. actsOn (ops ! j) q) rest"
  by (simp add: dag_of_def)

lemma executable_spec:
  assumes "\<And>qb. qb \<in> set qbs \<Longrightarrow> qb < n \<and> actsOn (ops ! j) qb" and "j \<in> set rest"
  shows "executable (dag_of n ops rest) j qbs =
    Inr (\<forall>qb \<in> set qbs. hd (filter (\<lambda>i. actsOn (ops ! i) qb) rest) = j)"
  using assms(1)
proof (induction qbs)
  case (Cons qb qbs)
  then have "j \<in> set (filter (\<lambda>i. actsOn (ops ! i) qb) rest)" using assms(2) by simp
  then obtain k ks where "filter (\<lambda>i. actsOn (ops ! i) qb) rest = k # ks"
    by (cases "filter (\<lambda>i. actsOn (ops ! i) qb) rest") simp_all
  with Cons show ?case by simp
qed simp

lemma fold_tl_nth:
  assumes "distinct qs" and "set qs \<subseteq> {..<length d}"
  shows "fold (\<lambda>i d. d[i := tl (d ! i)]) qs d =
    map (\<lambda>q. if q \<in> set qs then tl (d ! q) else d ! q) [0..<length d]"
  using assms
proof (induction qs arbitrary: d)
  case Nil
  then show ?case by (simp add: map_nth)
next
  case (Cons q qs)
  then show ?case by (auto simp: nth_list_update intro!: nth_equalityI)
qed

lemma filter_remove1_other: "\<not> P x \<Longrightarrow> filter P (remove1 x xs) = filter P xs"
  by (induction xs) auto

lemma filter_remove1_hd:
  "hd (filter P xs) = x \<Longrightarrow> P x \<Longrightarrow> x \<in> set xs \<Longrightarrow> filter P (remove1 x xs) = tl (filter P xs)"
  by (induction xs) auto

lemma schedule_qubit_empty:
  "dag ! q = [] \<Longrightarrow> schedule_qubit n ops q ((dag, new), finished) = Inr ((dag, new), finished)"
  by (simp add: schedule_qubit_def)

lemma schedule_qubit_step:
  assumes "dag ! q = j # js" and "others = filter (\<lambda>qb. qb \<noteq> q \<and> actsOn (ops ! j) qb) (rev [0..<n])"
    and "executable dag j others = Inr ready"
  shows "schedule_qubit n ops q ((dag, new), finished) =
    Inr (if ready then (fold (\<lambda>i d. d[i := tl (d ! i)]) (q # others) dag, new @ [j]) else (dag, new), False)"
  using assms by (simp add: schedule_qubit_def)

lemma schedule_qubit_cases:
  assumes ok: "rest_ok n ops rest" and q: "q < n"
  obtains
    (idle) "\<forall>j \<in> set rest. \<not> actsOn (ops ! j) q"
      "schedule_qubit n ops q ((dag_of n ops rest, new), finished) =
        Inr ((dag_of n ops rest, new), finished)"
  | (blocked) "rest \<noteq> []" "\<not> actsOn (ops ! hd rest) q"
      "schedule_qubit n ops q ((dag_of n ops rest, new), finished) =
        Inr ((dag_of n ops rest, new), False)"
  | (fired) j where "j \<in> set rest"
      "\<And>qb. actsOn (ops ! j) qb \<Longrightarrow> hd (filter (\<lambda>i. actsOn (ops ! i) qb) rest) = j"
      "schedule_qubit n ops q ((dag_of n ops rest, new), finished) =
        Inr ((dag_of n ops (remove1 j rest), new @ [j]), False)"
proof (cases "filter (\<lambda>j. actsOn (ops ! j) q) rest")
  case Nil
  with q show thesis by (intro idle schedule_qubit_empty) (auto simp: filter_empty_conv)
next
  case (Cons j js)
  then have j: "j \<in> set rest" "actsOn (ops ! j) q"
    by (metis list.set_intros(1) mem_Collect_eq set_filter)+
  with ok have j_less: "actsOn (ops ! j) qb \<Longrightarrow> qb < n" for qb by (auto simp: rest_ok_def)
  define others where "others = filter (\<lambda>qb. qb \<noteq> q \<and> actsOn (ops ! j) qb) (rev [0..<n])"
  have set_others: "set others = {qb. qb \<noteq> q \<and> actsOn (ops ! j) qb}"
    using j_less by (auto simp: others_def)
  define first where "first = (\<lambda>qb. hd (filter (\<lambda>i. actsOn (ops ! i) qb) rest) = j)"
  have ex: "executable (dag_of n ops rest) j others = Inr (\<forall>qb \<in> set others. first qb)"
    unfolding first_def by (rule executable_spec) (use j set_others j_less in auto)
  have queue: "dag_of n ops rest ! q = j # js" using q Cons by simp
  note step = schedule_qubit_step [OF queue others_def ex, of new finished]
  show thesis
  proof (cases "\<forall>qb \<in> set others. first qb")
    case True
    have firsts: "hd (filter (\<lambda>i. actsOn (ops ! i) qb) rest) = j" if "actsOn (ops ! j) qb" for qb
      using True set_others Cons that by (cases "qb = q") (auto simp: first_def)
    have "fold (\<lambda>i d. d[i := tl (d ! i)]) (q # others) (dag_of n ops rest) =
      map (\<lambda>qb. if qb \<in> set (q # others) then tl (dag_of n ops rest ! qb) else dag_of n ops rest ! qb)
        [0..<length (dag_of n ops rest)]"
      by (rule fold_tl_nth) (use set_others j_less q others_def in auto)
    also have "\<dots> = dag_of n ops (remove1 j rest)"
      unfolding dag_of_def [of n ops "remove1 j rest"] length_dag_of
    proof (rule map_cong [OF refl])
      fix qb assume "qb \<in> set [0..<n]"
      then have [simp]: "qb < n" by simp
      show "(if qb \<in> set (q # others) then tl (dag_of n ops rest ! qb) else dag_of n ops rest ! qb) =
        filter (\<lambda>i. actsOn (ops ! i) qb) (remove1 j rest)"
      proof (cases "actsOn (ops ! j) qb")
        case True
        then have "qb \<in> set (q # others)" using set_others by simp
        then show ?thesis using filter_remove1_hd [of "\<lambda>i. actsOn (ops ! i) qb" rest j] firsts [OF True] True j(1) by simp
      next
        case False
        then have "qb \<notin> set (q # others)" using set_others j(2) by auto
        then show ?thesis using filter_remove1_other [of "\<lambda>i. actsOn (ops ! i) qb" j rest] False by simp
      qed
    qed
    finally show thesis using step True by (intro fired [OF j(1) firsts]) simp_all
  next
    case False
    from j(1) have "rest \<noteq> []" by auto
    moreover have "\<not> actsOn (ops ! hd rest) q"
    proof
      assume act: "actsOn (ops ! hd rest) q"
      with Cons \<open>rest \<noteq> []\<close> have "hd rest = j" by (cases rest) simp_all
      then have "first qb" if "actsOn (ops ! j) qb" for qb
        using that \<open>rest \<noteq> []\<close> by (cases rest) (simp_all add: first_def)
      with False set_others show False by auto
    qed
    ultimately show thesis using step False by (intro blocked) simp_all
  qed
qed

section \<open>The whole loop\<close>

lemma hd_filter_prefix:
  assumes "hd (filter P (pre @ j # post)) = j" and "j \<notin> set pre" and "a \<in> set pre"
  shows "\<not> P a"
proof
  assume "P a"
  with assms(3) have "filter P pre \<noteq> []" by (auto simp: filter_empty_conv)
  then have "hd (filter P (pre @ j # post)) \<in> set (filter P pre)"
    by (simp del: set_filter)
  with assms(1,2) show False by simp
qed

lemma fired_reordering:
  assumes j: "j \<in> set rest"
    and first: "\<And>q. actsOn (ops ! j) q \<Longrightarrow> hd (filter (\<lambda>i. actsOn (ops ! i) q) rest) = j"
  shows "reordering (map ((!) ops) (us @ rest)) (map ((!) ops) (us @ [j] @ remove1 j rest))"
proof -
  from j obtain pre post where rest: "rest = pre @ j # post" and pre: "j \<notin> set pre"
    by (metis split_list_first)
  have "disjoint_ops (ops ! a) (ops ! j)" if "a \<in> set pre" for a
    using hd_filter_prefix [OF _ pre that] first unfolding rest disjoint_ops_def by blast
  then have "list_all (\<lambda>a. disjoint_ops a (ops ! j)) (map ((!) ops) pre)"
    by (simp add: list_all_iff)
  from reordering_move_front [OF this, of "map ((!) ops) us" "map ((!) ops) post"]
  show ?thesis by (simp add: rest remove1_append pre)
qed

lemma rest_ok_remove1: "rest_ok n ops rest \<Longrightarrow> rest_ok n ops (remove1 j rest)"
  by (auto simp: rest_ok_def dest: notin_set_remove1)

definition swept :: "nat \<Rightarrow> Operation list \<Rightarrow> nat list \<times> nat list \<Rightarrow> nat list \<times> nat list \<Rightarrow> bool" where
  "swept n ops st st' \<longleftrightarrow> rest_ok n ops (fst st') \<and>
     reordering (map ((!) ops) (snd st @ fst st)) (map ((!) ops) (snd st' @ fst st')) \<and>
     (st' = st \<or> length (fst st') < length (fst st))"

lemma swept_refl: "rest_ok n ops (fst st) \<Longrightarrow> swept n ops st st"
  by (simp add: swept_def reordering_refl)

lemma swept_trans: "swept n ops st st' \<Longrightarrow> swept n ops st' st'' \<Longrightarrow> swept n ops st st''"
  by (auto simp: swept_def intro: reordering_trans)

lemma schedule_qubit_swept:
  assumes ok: "rest_ok n ops rest" and q: "q < n"
  shows "\<exists>rest' new' fin'. schedule_qubit n ops q ((dag_of n ops rest, new), fin) =
      Inr ((dag_of n ops rest', new'), fin') \<and> swept n ops (rest, new) (rest', new') \<and>
      (fin' \<longrightarrow> fin \<and> rest' = rest) \<and> (rest = [] \<longrightarrow> fin' = fin) \<and>
      (rest \<noteq> [] \<and> actsOn (ops ! hd rest) q \<longrightarrow> length rest' < length rest)"
proof (cases rule: schedule_qubit_cases [OF ok q, of new fin])
  case 1
  then show ?thesis using ok by (cases rest) (auto simp: swept_refl)
next
  case 2
  then show ?thesis using ok
    by (intro exI [of _ rest] exI [of _ new] exI [of _ False]) (simp add: swept_refl)
next
  case (3 j)
  note fired = this
  have "length (remove1 j rest) < length rest"
    using fired(1) length_pos_if_in_set [OF fired(1)] by (simp add: length_remove1)
  then have "swept n ops (rest, new) (remove1 j rest, new @ [j])"
    using rest_ok_remove1 [OF ok, of j] fired_reordering [OF fired(1,2), of new] by (simp add: swept_def)
  with fired \<open>length (remove1 j rest) < length rest\<close> show ?thesis
    by (intro exI [of _ "remove1 j rest"] exI [of _ "new @ [j]"] exI [of _ False]) auto
qed

lemma sweep_progress:
  assumes "rest_ok n ops rest" and "set qs \<subseteq> {..<n}"
  shows "\<exists>rest' new' fin'. fold_res (schedule_qubit n ops) qs ((dag_of n ops rest, new), fin) =
      Inr ((dag_of n ops rest', new'), fin') \<and> swept n ops (rest, new) (rest', new') \<and>
      (fin' \<longrightarrow> fin \<and> rest' = rest) \<and> (rest = [] \<longrightarrow> fin' = fin) \<and>
      ((\<exists>q \<in> set qs. rest \<noteq> [] \<and> actsOn (ops ! hd rest) q) \<longrightarrow> length rest' < length rest)"
  using assms
proof (induction qs arbitrary: rest new fin)
  case (Cons q qs)
  from schedule_qubit_swept [OF Cons.prems(1), of q new fin] Cons.prems(2)
  obtain rest1 new1 fin1 where
    one: "schedule_qubit n ops q ((dag_of n ops rest, new), fin) = Inr ((dag_of n ops rest1, new1), fin1)"
    and s1: "swept n ops (rest, new) (rest1, new1)" and f1: "fin1 \<longrightarrow> fin \<and> rest1 = rest"
    and e1: "rest = [] \<longrightarrow> fin1 = fin"
    and h1: "rest \<noteq> [] \<and> actsOn (ops ! hd rest) q \<longrightarrow> length rest1 < length rest" by auto
  from s1 have ok1: "rest_ok n ops rest1" by (simp add: swept_def)
  from Cons.IH [OF ok1, of new1 fin1] Cons.prems(2)
  obtain rest2 new2 fin2 where
    two: "fold_res (schedule_qubit n ops) qs ((dag_of n ops rest1, new1), fin1) =
      Inr ((dag_of n ops rest2, new2), fin2)"
    and s2: "swept n ops (rest1, new1) (rest2, new2)" and f2: "fin2 \<longrightarrow> fin1 \<and> rest2 = rest1"
    and e2: "rest1 = [] \<longrightarrow> fin2 = fin1"
    and h2: "(\<exists>q \<in> set qs. rest1 \<noteq> [] \<and> actsOn (ops ! hd rest1) q) \<longrightarrow> length rest2 < length rest1" by auto
  have le: "length rest2 \<le> length rest1" "rest1 = rest \<or> length rest1 < length rest"
    using s1 s2 by (auto simp: swept_def)
  have "rest = [] \<longrightarrow> rest1 = []" using le(2) by auto
  moreover have "length rest2 < length rest"
    if "q' \<in> set (q # qs)" "rest \<noteq> []" "actsOn (ops ! hd rest) q'" for q'
    using that h1 h2 le by (cases "rest1 = rest") auto
  ultimately show ?case
  proof (intro exI conjI)
    show "fold_res (schedule_qubit n ops) (q # qs) ((dag_of n ops rest, new), fin) =
      Inr ((dag_of n ops rest2, new2), fin2)" using one two by simp
    show "swept n ops (rest, new) (rest2, new2)" by (rule swept_trans [OF s1 s2])
  qed (use f1 f2 e1 e2 in blast)+
qed (auto simp: swept_refl)

lemma sweep_nonempty:
  assumes ok: "rest_ok n ops rest" and "rest \<noteq> []"
  shows "\<exists>rest' new'. sweep n ops (dag_of n ops rest, new) = Inr ((dag_of n ops rest', new'), False) \<and>
    swept n ops (rest, new) (rest', new') \<and> length rest' < length rest"
proof -
  have "hd rest \<in> set rest" using assms(2) by simp
  with ok obtain q where "q < n" "actsOn (ops ! hd rest) q" by (auto simp: rest_ok_def)
  then have "\<exists>q \<in> set (rev [0..<n]). rest \<noteq> [] \<and> actsOn (ops ! hd rest) q" using assms(2) by auto
  moreover have "set (rev [0..<n]) \<subseteq> {..<n}" by auto
  ultimately obtain rest' new' fin' where
    "sweep n ops (dag_of n ops rest, new) = Inr ((dag_of n ops rest', new'), fin')"
    "swept n ops (rest, new) (rest', new')" "fin' \<longrightarrow> rest' = rest" "length rest' < length rest"
    using sweep_progress [OF ok, of "rev [0..<n]" new True] unfolding sweep_def by metis
  then show ?thesis by auto
qed

lemma sweep_empty: "sweep n ops (dag_of n ops [], new) = Inr ((dag_of n ops [], new), True)"
proof -
  have "rest_ok n ops []" "set (rev [0..<n]) \<subseteq> {..<n}" by (auto simp: rest_ok_def)
  from sweep_progress [OF this, of new True] show ?thesis
    by (auto simp: sweep_def swept_def)
qed

lemma sweeps_end:
  assumes "rest_ok n ops rest"
  shows "\<exists>new'. sweeps n ops (dag_of n ops rest, new) = Some (Inr (dag_of n ops [], new')) \<and>
    reordering (map ((!) ops) (new @ rest)) (map ((!) ops) new')"
  using assms
proof (induction "length rest" arbitrary: rest new rule: less_induct)
  case less
  show ?case
  proof (cases "rest = []")
    case True
    then show ?thesis by (subst sweeps.simps) (simp add: sweep_empty reordering_refl)
  next
    case False
    from sweep_nonempty [OF less.prems False, of new] obtain rest' new' where
      s: "sweep n ops (dag_of n ops rest, new) = Inr ((dag_of n ops rest', new'), False)"
      and sw: "swept n ops (rest, new) (rest', new')" and l: "length rest' < length rest" by blast
    from less.hyps [OF l, of new'] sw obtain new'' where
      "sweeps n ops (dag_of n ops rest', new') = Some (Inr (dag_of n ops [], new''))"
      "reordering (map ((!) ops) (new' @ rest')) (map ((!) ops) new'')" by (auto simp: swept_def)
    then show ?thesis using s sw
      by (subst sweeps.simps) (auto simp: swept_def intro: reordering_trans)
  qed
qed

section \<open>Building the queues\<close>

definition qubits_below :: "nat \<Rightarrow> Operation \<Rightarrow> bool" where
  "qubits_below n op \<longleftrightarrow> list_all (\<lambda>q. q < n) (getUsedQubits op)"

definition uses_qubits :: "Operation \<Rightarrow> bool" where
  "uses_qubits op \<longleftrightarrow> getUsedQubits op \<noteq> []"

lemma qubits_below_actsOn: "qubits_below n op \<longleftrightarrow> (\<forall>q. actsOn op q \<longrightarrow> q < n)"
  by (auto simp: qubits_below_def list_all_iff getUsedQubits_actsOn)

lemma uses_qubits_actsOn: "uses_qubits op \<longleftrightarrow> (\<exists>q. actsOn op q)"
  using getUsedQubits_actsOn [of _ op] by (auto simp: uses_qubits_def) (metis list.set_intros(1) neq_Nil_conv)

lemma push_uses:
  assumes "distinct qs" and "length dag = n"
  shows "fold_res (push_use n j) qs dag =
    (if list_all (\<lambda>q. q < n) qs
     then Inr (map (\<lambda>q. if q \<in> set qs then dag ! q @ [j] else dag ! q) [0..<n])
     else Inl OutOfRange)"
  using assms
proof (induction qs arbitrary: dag)
  case Nil
  then show ?case using map_nth [of dag] by simp
next
  case (Cons q qs)
  then show ?case
    by (auto simp: push_use_def nth_list_update intro!: nth_equalityI)
qed

lemma push_operation:
  "fold_res (push_use n j) (getUsedQubits (ops ! j)) (dag_of n ops js) =
    (if qubits_below n (ops ! j) then Inr (dag_of n ops (js @ [j])) else Inl OutOfRange)"
proof -
  have "distinct (getUsedQubits (ops ! j))"
    using getUsedQubits_sorted [of "ops ! j"] by (simp add: strict_sorted_iff)
  from push_uses [OF this, of "dag_of n ops js" n j] show ?thesis
    by (simp add: qubits_below_def getUsedQubits_actsOn dag_of_def cong: map_cong)
qed

lemma build_dag_prefix:
  "fold_res (\<lambda>j dag. fold_res (push_use n j) (getUsedQubits (ops ! j)) dag) js (dag_of n ops is) =
    (if list_all (\<lambda>j. qubits_below n (ops ! j)) js then Inr (dag_of n ops (is @ js)) else Inl OutOfRange)"
  by (induction js arbitrary: "is") (simp_all add: push_operation)

lemma dag_of_filter: "dag_of n ops (filter (\<lambda>j. uses_qubits (ops ! j)) js) = dag_of n ops js"
  by (auto simp: dag_of_def uses_qubits_actsOn intro!: filter_cong)

lemma build_dag_eq:
  "build_dag n ops = (if list_all (qubits_below n) ops
     then Inr (dag_of n ops (filter (\<lambda>j. uses_qubits (ops ! j)) [0..<length ops])) else Inl OutOfRange)"
proof -
  have "replicate n [] = dag_of n ops []"
    by (rule nth_equalityI) simp_all
  moreover have "list_all (\<lambda>j. qubits_below n (ops ! j)) [0..<length ops] = list_all (qubits_below n) ops"
    by (auto simp: list_all_length list_all_iff)
  ultimately show ?thesis using build_dag_prefix [of n ops "[0..<length ops]" "[]"]
    by (simp add: build_dag_def dag_of_filter)
qed

theorem reorder_ops_reordering:
  assumes "list_all (qubits_below n) ops"
  shows "\<exists>ops'. reorder_ops n ops = Some (Inr ops') \<and> reordering (filter uses_qubits ops) ops'"
proof -
  let ?rest = "filter (\<lambda>j. uses_qubits (ops ! j)) [0..<length ops]"
  have "rest_ok n ops ?rest"
    using assms by (auto simp: rest_ok_def uses_qubits_actsOn list_all_length qubits_below_actsOn)
  from sweeps_end [OF this, of "[]"] obtain new where
    "sweeps n ops (dag_of n ops ?rest, []) = Some (Inr (dag_of n ops [], new))"
    "reordering (map ((!) ops) ?rest) (map ((!) ops) new)" by auto
  moreover have "map ((!) ops) ?rest = filter uses_qubits ops"
    using filter_map [of uses_qubits "(!) ops" "[0..<length ops]"] by (simp add: map_nth comp_def)
  ultimately show ?thesis using assms by (simp add: reorder_ops_def build_dag_eq)
qed

lemma reorder_ops_error:
  "\<not> list_all (qubits_below n) ops \<Longrightarrow> reorder_ops n ops = Some (Inl OutOfRange)"
  by (simp add: reorder_ops_def build_dag_eq)

section \<open>Effects of operations on disjoint qubits\<close>

locale independent_effects =
  fixes effect :: "Operation \<Rightarrow> 's \<Rightarrow> 's result"
  assumes independent: "disjoint_ops a b \<Longrightarrow>
    and_then (effect a s) (effect b) = and_then (effect b s) (effect a)"
begin

lemma effect_swap:
  assumes "disjoint_ops a b"
  shows "fold_res effect (us @ a # b # vs) s = fold_res effect (us @ b # a # vs) s"
proof -
  have "and_then (effect a t) (\<lambda>t. and_then (effect b t) (fold_res effect vs)) =
    and_then (effect b t) (\<lambda>t. and_then (effect a t) (fold_res effect vs))" for t
    using independent [OF assms, of t] by (simp flip: and_then_assoc)
  moreover have cons: "fold_res effect (x # xs) = (\<lambda>t. and_then (effect x t) (fold_res effect xs))" for x xs
    by (rule ext) simp
  ultimately have "fold_res effect (a # b # vs) = fold_res effect (b # a # vs)" by (simp only: cons)
  then show ?thesis by (simp only: fold_res_append)
qed

lemma effect_reordering: "reordering xs ys \<Longrightarrow> fold_res effect xs s = fold_res effect ys s"
  by (induction rule: reordering.induct) (simp, metis effect_swap)

end

text \<open>Effects that an operation without qubits does not have.\<close>

locale qubit_effects = independent_effects +
  assumes inert: "\<not> uses_qubits op \<Longrightarrow> effect op s = Inr s"
begin

lemma effect_filter: "fold_res effect (filter uses_qubits ops) s = fold_res effect ops s"
  by (induction ops arbitrary: s) (auto simp: inert intro: and_then_cong)

lemma effect_reorder:
  "reordering (filter uses_qubits ops) ops' \<Longrightarrow> fold_res effect ops' s = fold_res effect ops s"
  using effect_reordering [of "filter uses_qubits ops" ops' s] by (simp add: effect_filter)

end

end
