(* ===== verification/IRDepth.thy ===== *)
theory IRDepth
  imports IRReorder
begin

text \<open>
  \<open>QuantumComputation::getDepth\<close> does not depend on the order that
  \<open>reorderOperations\<close> chooses.  An operation reads and writes the depths of its own qubits only
  (\<open>depth_local\<close>), so the depth is an instance of the interface of \<open>IRReorder\<close>.
\<close>

section \<open>Local updates of the depths\<close>

text \<open>
  \<open>f\<close> reads and writes the entries of \<open>W\<close>, a subset of \<open>U\<close> below \<open>n\<close>, and needs \<open>n\<close> entries.
\<close>

definition bounded_by :: "nat set \<Rightarrow> nat \<Rightarrow> bool" where
  "bounded_by W n \<longleftrightarrow> W \<subseteq> {..<n} \<and> (n \<noteq> 0 \<longrightarrow> n - 1 \<in> W)"

definition reads_writes :: "nat set \<Rightarrow> ((nat \<Rightarrow> nat) \<Rightarrow> nat \<Rightarrow> nat) \<Rightarrow> bool" where
  "reads_writes W F \<longleftrightarrow> (\<forall>d q. q \<notin> W \<longrightarrow> F d q = d q) \<and>
     (\<forall>d d' q. (\<forall>r \<in> W. d r = d' r) \<longrightarrow> q \<in> W \<longrightarrow> F d q = F d' q)"

definition lifted :: "nat \<Rightarrow> ((nat \<Rightarrow> nat) \<Rightarrow> nat \<Rightarrow> nat) \<Rightarrow> nat list \<Rightarrow> nat list result" where
  "lifted n F ds = (if n \<le> length ds then Inr (map (F ((!) ds)) [0..<length ds]) else Inl Undefined)"

definition depth_local :: "nat set \<Rightarrow> (nat list \<Rightarrow> nat list result) \<Rightarrow> bool" where
  "depth_local U f \<longleftrightarrow> (\<exists>W n F. W \<subseteq> U \<and> bounded_by W n \<and> reads_writes W F \<and> f = lifted n F)"

lemma depth_localI:
  "W \<subseteq> U \<Longrightarrow> bounded_by W n \<Longrightarrow> reads_writes W F \<Longrightarrow> (\<And>ds. f ds = lifted n F ds) \<Longrightarrow> depth_local U f"
  unfolding depth_local_def by blast

lemma depth_localE:
  assumes "depth_local U f"
  obtains W n F where "W \<subseteq> U" "bounded_by W n" "reads_writes W F" "f = lifted n F"
  using assms unfolding depth_local_def by blast

lemma reads_writes_cong:
  assumes "reads_writes W F" and "\<And>r. r \<in> W \<Longrightarrow> d r = d' r" and "d q = d' q"
  shows "F d q = F d' q"
proof (cases "q \<in> W")
  case True
  have "\<forall>r \<in> W. d r = d' r" using assms(2) by simp
  with True assms(1) show ?thesis unfolding reads_writes_def by blast
next
  case False
  with assms show ?thesis by (simp add: reads_writes_def)
qed

lemma reads_writes_other: "reads_writes W F \<Longrightarrow> q \<notin> W \<Longrightarrow> F d q = d q"
  by (simp add: reads_writes_def)

lemma reads_writesI:
  "(\<And>d q. q \<notin> W \<Longrightarrow> F d q = d q) \<Longrightarrow>
    (\<And>d d' q. (\<And>r. r \<in> W \<Longrightarrow> d r = d' r) \<Longrightarrow> q \<in> W \<Longrightarrow> F d q = F d' q) \<Longrightarrow> reads_writes W F"
  unfolding reads_writes_def by blast

lemma reads_writes_mono: "reads_writes W F \<Longrightarrow> W \<subseteq> V \<Longrightarrow> reads_writes V F"
proof (rule reads_writesI)
  fix d d' :: "nat \<Rightarrow> nat" and q
  assume F: "reads_writes W F" and "W \<subseteq> V" and d: "\<And>r. r \<in> V \<Longrightarrow> d r = d' r" "q \<in> V"
  then show "F d q = F d' q" by (intro reads_writes_cong [OF F]) auto
next
  fix d :: "nat \<Rightarrow> nat" and q
  assume F: "reads_writes W F" and "W \<subseteq> V" "q \<notin> V"
  then have "q \<notin> W" by blast
  then show "F d q = d q" by (rule reads_writes_other [OF F])
qed

lemma reads_writes_comp: "reads_writes W F \<Longrightarrow> reads_writes W G \<Longrightarrow> reads_writes W (\<lambda>d. G (F d))"
proof -
  assume F: "reads_writes W F" and G: "reads_writes W G"
  have "G (F d) q = G (F d') q" if "\<forall>r \<in> W. d r = d' r" "q \<in> W" for d d' q
  proof (rule reads_writes_cong [OF G])
    show "F d r = F d' r" if "r \<in> W" for r
      by (rule reads_writes_cong [OF F]) (use \<open>\<forall>r \<in> W. d r = d' r\<close> that in auto)
    then show "F d q = F d' q" using \<open>q \<in> W\<close> .
  qed
  then show ?thesis
    by (intro reads_writesI) (auto simp: reads_writes_other [OF F] reads_writes_other [OF G])
qed

lemma lifted_comp:
  assumes "reads_writes V G" and "bounded_by V m"
  shows "and_then (lifted n F ds) (lifted m G) = lifted (max n m) (\<lambda>d. G (F d)) ds"
proof -
  have "G ((!) (map (F ((!) ds)) [0..<length ds])) q = G (F ((!) ds)) q"
    if "m \<le> length ds" "q < length ds" for q
    by (rule reads_writes_cong [OF assms(1)]) (use assms(2) that in \<open>auto simp: bounded_by_def\<close>)
  then show ?thesis by (auto simp: lifted_def)
qed

lemma depth_local_id: "depth_local U Inr"
  by (rule depth_localI [of "{}" _ 0 "\<lambda>d. d"]) (auto simp: reads_writes_def lifted_def map_nth bounded_by_def)

lemma depth_local_mono: "depth_local U f \<Longrightarrow> U \<subseteq> V \<Longrightarrow> depth_local V f"
  unfolding depth_local_def by blast

lemma depth_local_then:
  assumes "depth_local U f" and "depth_local U g"
  shows "depth_local U (\<lambda>ds. and_then (f ds) g)"
proof -
  from assms(1) obtain W n F where f: "W \<subseteq> U" "bounded_by W n" "reads_writes W F" "f = lifted n F"
    by (rule depth_localE)
  from assms(2) obtain V m G where g: "V \<subseteq> U" "bounded_by V m" "reads_writes V G" "g = lifted m G"
    by (rule depth_localE)
  show ?thesis
  proof (rule depth_localI [of "W \<union> V" _ "max n m" "\<lambda>d. G (F d)"])
    show "reads_writes (W \<union> V) (\<lambda>d. G (F d))"
      by (rule reads_writes_comp; rule reads_writes_mono [OF f(3)] reads_writes_mono [OF g(3)]) simp_all
    show "bounded_by (W \<union> V) (max n m)" using f(2) g(2) by (auto simp: bounded_by_def max_def)
  qed (use f g in \<open>auto simp: lifted_comp\<close>)
qed

lemma depth_local_fold:
  "(\<And>x. x \<in> set xs \<Longrightarrow> depth_local U (f x)) \<Longrightarrow> depth_local U (fold_res f xs)"
proof (induction xs)
  case Nil
  have "fold_res f [] = Inr" by (rule ext) simp
  then show ?case by (simp add: depth_local_id)
next
  case (Cons x xs)
  then have "depth_local U (\<lambda>ds. and_then (f x ds) (fold_res f xs))" by (intro depth_local_then) simp_all
  moreover have "(\<lambda>ds. and_then (f x ds) (fold_res f xs)) = fold_res f (x # xs)" by (rule ext) simp
  ultimately show ?case by simp
qed

lemma depth_local_commute:
  assumes "depth_local U f" and "depth_local V g" and "U \<inter> V = {}"
  shows "and_then (f ds) g = and_then (g ds) f"
proof -
  from assms(1) obtain W n F where f: "W \<subseteq> U" "bounded_by W n" "reads_writes W F" "f = lifted n F"
    by (rule depth_localE)
  from assms(2) obtain X m G where g: "X \<subseteq> V" "bounded_by X m" "reads_writes X G" "g = lifted m G"
    by (rule depth_localE)
  have "W \<inter> X = {}" using f(1) g(1) assms(3) by blast
  have "G (F d) q = F (G d) q" for d q
  proof (cases "q \<in> W")
    case True
    then have "q \<notin> X" using \<open>W \<inter> X = {}\<close> by auto
    have "F (G d) q = F d q"
    proof (rule reads_writes_cong [OF f(3)])
      fix r assume "r \<in> W"
      then show "G d r = d r" using \<open>W \<inter> X = {}\<close> by (intro reads_writes_other [OF g(3)]) auto
    qed (use \<open>q \<notin> X\<close> in \<open>simp add: reads_writes_other [OF g(3)]\<close>)
    then show ?thesis using \<open>q \<notin> X\<close> by (simp add: reads_writes_other [OF g(3)])
  next
    case False
    have "G (F d) q = G d q"
    proof (rule reads_writes_cong [OF g(3)])
      fix r assume "r \<in> X"
      then show "F d r = d r" using \<open>W \<inter> X = {}\<close> by (intro reads_writes_other [OF f(3)]) auto
    qed (use False in \<open>simp add: reads_writes_other [OF f(3)]\<close>)
    then show ?thesis using False by (simp add: reads_writes_other [OF f(3)])
  qed
  then have "(\<lambda>d. G (F d)) = (\<lambda>d. F (G d))" by (intro ext)
  then show ?thesis
    using lifted_comp [OF f(3,2), of m G ds] lifted_comp [OF g(3,2), of n F ds] f(4) g(4)
    by (simp add: max.commute)
qed

section \<open>The depth contribution of an operation is local\<close>

lemma map_res_deref:
  "map_res (deref_res ds) qs = (if fold max (map Suc qs) 0 \<le> length ds
     then Inr (map ((!) ds) qs) else Inl Undefined)"
proof -
  have "fold max (map Suc qs) k \<le> n \<longleftrightarrow> k \<le> n \<and> (\<forall>q \<in> set qs. q < n)" for k n
    by (induction qs arbitrary: k) auto
  moreover have "map_res (deref_res ds) qs = (if \<forall>q \<in> set qs. q < length ds
      then Inr (map ((!) ds) qs) else Inl Undefined)"
    by (induction qs) (auto simp: deref_res_def)
  ultimately show ?thesis by simp
qed

lemma fold_update_const:
  "fold (\<lambda>q d. d[q := m]) qs ds = map (\<lambda>q. if q \<in> set qs then m else ds ! q) [0..<length ds]"
proof (induction qs arbitrary: ds)
  case Nil
  then show ?case using map_nth [of ds] by simp
next
  case (Cons q qs)
  then show ?case by (auto simp: nth_list_update intro!: nth_equalityI)
qed

lemma op_depth_local: "depth_local {q. op_actsOn b q} (op_addDepthContribution b)"
proof (cases "optype b = opBarrier")
  case True
  then have "op_addDepthContribution b = Inr" by (intro ext) (simp add: op_addDepthContribution_def)
  then show ?thesis by (simp add: depth_local_id)
next
  case False
  let ?qs = "op_qubit_list b"
  let ?F = "\<lambda>d q. if q \<in> set ?qs then fold max (map d ?qs) 0 + 1 else d q"
  have bound: "q < fold max (map Suc qs) k" if "q \<in> set qs" for q k and qs :: "nat list"
  proof -
    have "k \<le> fold max xs k \<and> (\<forall>x \<in> set xs. x \<le> fold max xs k)" for k and xs :: "nat list"
      by (induction xs arbitrary: k) fastforce+
    from this [of k "map Suc qs"] that show ?thesis by auto
  qed
  show ?thesis
  proof (rule depth_localI [of "set ?qs" _ "fold max (map Suc ?qs) 0" ?F])
    have "fold max xs k \<in> insert k (set xs)" for k and xs :: "nat list"
      by (induction xs arbitrary: k) (auto simp: max_def split: if_splits)
    from this [of "map Suc ?qs" 0] show "bounded_by (set ?qs) (fold max (map Suc ?qs) 0)"
      using bound by (auto simp: bounded_by_def)
    show "set ?qs \<subseteq> {q. op_actsOn b q}"
      by (auto simp: op_qubit_list_def op_actsOn_def controls_contain_def)
    show "reads_writes (set ?qs) ?F"
    proof (rule reads_writesI)
      fix d d' :: "nat \<Rightarrow> nat" and q
      assume "\<And>r. r \<in> set ?qs \<Longrightarrow> d r = d' r" "q \<in> set ?qs"
      moreover from this have "map d ?qs = map d' ?qs" by simp
      ultimately show "?F d q = ?F d' q" by presburger
    qed simp
    show "op_addDepthContribution b ds = lifted (fold max (map Suc ?qs) 0) ?F ds" for ds
      using False by (simp add: op_addDepthContribution_def map_res_deref lifted_def fold_update_const
        cong: if_cong)
  qed
qed

lemma increment_local:
  "depth_local {t} (\<lambda>ds. and_then (deref_res ds t) (\<lambda>d. Inr (ds[t := d + 1])))"
  by (rule depth_localI [of "{t}" _ "Suc t" "\<lambda>d q. if q = t then d t + 1 else d q"])
    (auto simp: bounded_by_def reads_writes_def lifted_def deref_res_def nth_list_update intro!: nth_equalityI)

lemma addDepthContribution_local: "depth_local {q. actsOn op q} (addDepthContribution op)"
proof (induction op)
  case (NonUnitaryOp b cs)
  have "addDepthContribution (NonUnitaryOp b cs) =
    fold_res (\<lambda>t ds. and_then (deref_res ds t) (\<lambda>d. Inr (ds[t := d + 1]))) (targets b)"
    by (rule ext) simp
  moreover have "depth_local {q. op_actsOn b q}
    (fold_res (\<lambda>t ds. and_then (deref_res ds t) (\<lambda>d. Inr (ds[t := d + 1]))) (targets b))"
    by (rule depth_local_fold, rule depth_local_mono, rule increment_local) (simp add: op_actsOn_def)
  ultimately show ?case by simp
next
  case (CompoundOp b ops cust)
  have "addDepthContribution (CompoundOp b ops cust) = fold_res addDepthContribution ops"
    by (rule ext) (simp cong: fold_res_cong)
  moreover have "depth_local {q. actsOn (CompoundOp b ops cust) q} (fold_res addDepthContribution ops)"
    by (rule depth_local_fold, rule depth_local_mono, rule CompoundOp.IH) (auto simp: list_ex_iff)
  ultimately show ?case by simp
next
  case (StandardOp b)
  have "addDepthContribution (StandardOp b) = op_addDepthContribution b" by (rule ext) simp
  then show ?case by (simp add: op_depth_local)
next
  case (SymbolicOp s)
  have "addDepthContribution (SymbolicOp s) = op_addDepthContribution (base s)" by (rule ext) simp
  then show ?case by (simp add: op_depth_local)
next
  case (IfElseOp b t e c)
  have "addDepthContribution (IfElseOp b t e c) = op_addDepthContribution b" by (rule ext) simp
  then show ?case by (simp add: op_depth_local)
qed

lemma no_qubits_no_depth:
  assumes "\<not> uses_qubits op"
  shows "addDepthContribution op ds = Inr ds"
proof -
  have "{q. actsOn op q} = {}" using assms by (simp add: uses_qubits_actsOn)
  with addDepthContribution_local [of op] have "depth_local {} (addDepthContribution op)" by simp
  then obtain W n F where "W \<subseteq> {}" "bounded_by W n" "reads_writes W F"
    "addDepthContribution op = lifted n F" by (rule depth_localE)
  then show ?thesis using map_nth [of ds] by (auto simp: bounded_by_def lifted_def reads_writes_def cong: map_cong)
qed

lemma addDepthContribution_defined:
  assumes "qubits_below n op" and "length ds = n"
  shows "\<exists>ds'. addDepthContribution op ds = Inr ds' \<and> length ds' = n"
proof -
  from addDepthContribution_local [of op] obtain W k F where
    W: "W \<subseteq> {q. actsOn op q}" "bounded_by W k" "addDepthContribution op = lifted k F"
    by (rule depth_localE)
  with assms(1) have "k \<le> n" by (cases k) (auto simp: bounded_by_def qubits_below_actsOn Suc_le_eq)
  with W(3) assms(2) show ?thesis by (simp add: lifted_def)
qed

interpretation depths: qubit_effects addDepthContribution
proof
  show "and_then (addDepthContribution a s) (addDepthContribution b) =
    and_then (addDepthContribution b s) (addDepthContribution a)" if "disjoint_ops a b" for a b s
    by (rule depth_local_commute [OF addDepthContribution_local addDepthContribution_local])
      (use that in \<open>auto simp: disjoint_ops_def\<close>)
qed (rule no_qubits_no_depth)

section \<open>Depth of a reordered circuit\<close>

lemma reorderOperations_cases:
  assumes "reorderOperations qc = Some (Inr qc')"
  obtains ops' where "qc' = qc\<lparr>qc_ops := ops'\<rparr>" "reordering (filter uses_qubits (qc_ops qc)) ops'"
proof -
  define n where "n = fold (\<lambda>p m. max (fst p) m) (initialLayout qc) 0 + 1"
  from assms have r: "map_option (\<lambda>r. and_then r (\<lambda>ops. Inr (qc\<lparr>qc_ops := ops\<rparr>)))
      (reorder_ops n (qc_ops qc)) = Some (Inr qc')"
    by (simp add: reorderOperations_def n_def)
  have below: "list_all (qubits_below n) (qc_ops qc)"
    using r reorder_ops_error [of n "qc_ops qc"] by fastforce
  from reorder_ops_reordering [OF this] r that show thesis by auto
qed

lemma reorderOperations_depth:
  assumes "reorderOperations qc = Some (Inr qc')" and "getDepth qc = Inr d"
  shows "getDepth qc' = Inr d"
proof -
  from assms(1) obtain ops' where qc': "qc' = qc\<lparr>qc_ops := ops'\<rparr>"
    and re: "reordering (filter uses_qubits (qc_ops qc)) ops'" by (rule reorderOperations_cases)
  let ?ds = "replicate (getNqubits qc) (0 :: nat)"
  have same: "fold_res addDepthContribution ops' ?ds = fold_res addDepthContribution (qc_ops qc) ?ds"
    using re by (rule depths.effect_reorder)
  have "qc_ops qc = [] \<Longrightarrow> ops' = []" using reordering_length [OF re] by simp
  moreover have "fold max (replicate k 0) 0 = (0 :: nat)" for k by (induction k) simp_all
  ultimately show ?thesis
    using assms(2) same by (auto simp: qc' getDepth_def getNqubits_def and_then_eq_Inr split: if_splits)
qed

end
