(* ===== verification/IRBuilder.thy ===== *)
theory IRBuilder
  imports IRDepth
begin

text \<open>
  The circuits that the functions of \<open>QuantumComputation\<close> build: registers are added, qubits are
  flagged, and operations are appended in any order (\<open>build_step\<close>).  The invariant
  \<open>circuit_ok\<close> holds in every reachable circuit: the layout is the identity on the qubits the
  counters claim, the flag vectors have that length, \<open>nqubits\<close> counts the qubits that are not
  ancillary, and every operation stays inside the circuit.  It is what the functions that index
  without a check (\<open>getDepth\<close>, \<open>isDynamic\<close>) and \<open>reorderOperations\<close> rely on.
\<close>

section \<open>The identity layout\<close>

definition identity_layout :: "nat \<Rightarrow> Permutation" where
  "identity_layout n = map (\<lambda>j. (j, j)) [0..<n]"

lemma length_identity_layout [simp]: "length (identity_layout n) = n"
  by (simp add: identity_layout_def)

lemma identity_layout_Suc: "identity_layout (Suc n) = identity_layout n @ [(n, n)]"
  by (simp add: identity_layout_def)

lemma identity_layout_at: "map_of (identity_layout n) q = (if q < n then Some q else None)"
proof (induction n)
  case (Suc n)
  then show ?case by (auto simp: identity_layout_Suc map_add_def)
qed (simp add: identity_layout_def)

lemma identity_layout_emplace: "map_emplace n n (identity_layout n) = identity_layout (Suc n)"
proof -
  have "map_emplace n n (identity_layout n) = identity_layout n @ [(n, n)]"
    by (rule map_emplace_snoc) (auto simp: identity_layout_def)
  then show ?thesis by (simp add: identity_layout_Suc)
qed

lemma add_identity_layout: "add_identity [n..<n + m] (identity_layout n) = identity_layout (n + m)"
  by (induction m) (simp_all add: add_identity_def identity_layout_emplace)

lemma cast32_qubits: "n + m \<le> 2 ^ 32 \<Longrightarrow> map (\<lambda>i. cast32 (n + i)) [0..<m] = [n..<n + m]"
  by (intro nth_equalityI) (simp_all add: cast32_def)

lemma identity_layout_maxKey: "perm_maxKey (identity_layout (Suc n)) = n"
  by (simp add: perm_maxKey_def identity_layout_Suc)

lemma identity_layout_highest:
  "fold (\<lambda>p m. max (fst p) m) (identity_layout (Suc n)) 0 = n"
proof -
  have "fold (\<lambda>p m. max (fst p) m) (identity_layout k) 0 = k - 1" for k
    by (induction k) (auto simp: identity_layout_Suc identity_layout_def)
  from this [of "Suc n"] show ?thesis by simp
qed

section \<open>The invariant\<close>

text \<open>
  The qubits and the classical bits of an operation are in range, also those in the blocks of
  a conditional operation; a non-unitary operation is a reset or a measurement with a bit for
  every qubit.
\<close>

fun op_ok :: "nat \<Rightarrow> nat \<Rightarrow> Operation \<Rightarrow> bool" where
  "op_ok n m (StandardOp b) = list_all (\<lambda>q. q < n) (op_usedQubits b)"
| "op_ok n m (SymbolicOp s) = list_all (\<lambda>q. q < n) (op_usedQubits (base s))"
| "op_ok n m (NonUnitaryOp b cs) = (list_all (\<lambda>q. q < n) (op_usedQubits b) \<and> list_all (\<lambda>c. c < m) cs \<and>
     (optype b = opReset \<or> optype b = opMeasure \<and> length cs = length (targets b)))"
| "op_ok n m (CompoundOp b ops cust) = (optype b = opCompound \<and> list_all (op_ok n m) ops)"
| "op_ok n m (IfElseOp b t e c) = (list_all (\<lambda>q. q < n) (op_usedQubits b) \<and>
     pred_option (op_ok n m) t \<and> pred_option (op_ok n m) e)"

lemma op_ok_mono: "op_ok n m op \<Longrightarrow> n \<le> n' \<Longrightarrow> m \<le> m' \<Longrightarrow> op_ok n' m' op"
proof (induction op)
  case (IfElseOp b t e c)
  then show ?case by (cases t; cases e) (auto simp: list_all_iff)
qed (auto simp: list_all_iff)

lemma op_ok_qubits: "op_ok n m op \<Longrightarrow> qubits_below n op"
proof (induction op)
  case (CompoundOp b ops cust)
  then show ?case by (fastforce simp: qubits_below_def list_all_iff)
qed (simp_all add: qubits_below_def)

definition circuit_ok :: "QuantumComputation \<Rightarrow> bool" where
  "circuit_ok qc \<longleftrightarrow>
     initialLayout qc = identity_layout (getNqubits qc) \<and> getNqubits qc \<le> 2 ^ 32 \<and>
     length (ancillary qc) = getNqubits qc \<and> length (garbage qc) = getNqubits qc \<and>
     length (filter Not (ancillary qc)) = nqubits qc \<and>
     list_all (op_ok (getNqubits qc) (nclassics qc)) (qc_ops qc)"

lemma circuit_okD:
  assumes "circuit_ok qc"
  shows "initialLayout qc = identity_layout (getNqubits qc)" "getNqubits qc \<le> 2 ^ 32"
    "length (ancillary qc) = getNqubits qc" "length (garbage qc) = getNqubits qc"
    "length (filter Not (ancillary qc)) = nqubits qc"
    "list_all (op_ok (getNqubits qc) (nclassics qc)) (qc_ops qc)"
  using assms unfolding circuit_ok_def by auto

lemma empty_qc_ok: "circuit_ok (empty_qc s)"
  by (simp add: circuit_ok_def empty_qc_def getNqubits_def identity_layout_def)

section \<open>Registers and flags\<close>

lemma ops_ok_mono:
  "list_all (op_ok n m) ops \<Longrightarrow> n \<le> n' \<Longrightarrow> m \<le> m' \<Longrightarrow> list_all (op_ok n' m') ops"
  by (auto simp: list_all_iff intro: op_ok_mono)

lemma resize_bits_longer: "length xs \<le> n \<Longrightarrow> resize_bits n xs = xs @ replicate (n - length xs) False"
  by (simp add: resize_bits_def)

lemma addQubitRegister_ok:
  assumes ok: "circuit_ok qc" and add: "addQubitRegister k nm qc = Inr qc'"
    and small: "getNqubits qc + k \<le> 2 ^ 32"
  shows "circuit_ok qc'"
proof -
  note inv = circuit_okD [OF ok]
  from add have none: "nancillae qc = 0" by (auto simp: addQubitRegister_def split: if_splits)
  let ?n = "nqubits qc"
  have n: "getNqubits qc = ?n" using none by (simp add: getNqubits_def)
  have layout: "add_identity (map (\<lambda>i. cast32 (?n + i)) [0..<k]) (initialLayout qc) = identity_layout (?n + k)"
    using small inv(1) by (simp add: n cast32_qubits add_identity_layout)
  have "list_all (op_ok (?n + k) (nclassics qc)) (qc_ops qc)"
    using inv(6) by (rule ops_ok_mono) (simp_all add: n)
  then show ?thesis
    using add inv layout small none
    by (auto simp: addQubitRegister_def circuit_ok_def getNqubits_def Let_def resize_bits_longer
      split: if_splits)
qed

lemma addClassicalRegister_ok:
  "circuit_ok qc \<Longrightarrow> addClassicalRegister k nm qc = Inr qc' \<Longrightarrow> circuit_ok qc'"
  by (auto simp: addClassicalRegister_def circuit_ok_def getNqubits_def intro: ops_ok_mono
    split: if_splits)

lemma fold_set_true:
  "fold (\<lambda>j a. a[j := True]) [n..<n + k] (xs @ replicate k False) = xs @ replicate k True"
  if "length xs = n"
proof -
  have "fold (\<lambda>j a. a[j := True]) [n..<n + i] (xs @ replicate k False) =
      xs @ replicate i True @ replicate (k - i) False" if "i \<le> k" for i
    using that
  proof (induction i)
    case (Suc i)
    then have "replicate (k - i) False = False # replicate (k - Suc i) False"
      by (metis Suc_diff_Suc Suc_le_eq replicate_Suc)
    with Suc \<open>length xs = n\<close> show ?case
      by (simp add: list_update_append replicate_app_Cons_same)
  qed simp
  from this [of k] show ?thesis by simp
qed

lemma addAncillaryRegister_ok:
  assumes ok: "circuit_ok qc" and add: "addAncillaryRegister k nm qc = Inr qc'"
    and small: "getNqubits qc + k \<le> 2 ^ 32"
  shows "circuit_ok qc'"
proof -
  note inv = circuit_okD [OF ok]
  let ?n = "nqubits qc + nancillae qc"
  from add have "0 < k" by (auto simp: addAncillaryRegister_def split: if_splits)
  with small have cast: "cast32 ?n = ?n" by (simp add: getNqubits_def cast32_def)
  have layout: "add_identity (map (\<lambda>i. cast32 (?n + i)) [0..<k]) (initialLayout qc) = identity_layout (?n + k)"
    using small inv(1) by (simp add: getNqubits_def cast32_qubits add_identity_layout)
  have flags: "fold (\<lambda>j a. a[j := True]) (map (\<lambda>i. cast32 (?n + i)) [0..<k])
      (resize_bits (?n + k) (ancillary qc)) = ancillary qc @ replicate k True"
    using small inv(3) by (simp add: getNqubits_def cast32_qubits resize_bits_longer fold_set_true)
  have "list_all (op_ok (?n + k) (nclassics qc)) (qc_ops qc)"
    using inv(6) by (rule ops_ok_mono) (simp_all add: getNqubits_def)
  then show ?thesis
    using add inv layout flags small
    by (auto simp: addAncillaryRegister_def circuit_ok_def getNqubits_def Let_def cast add.assoc
      resize_bits_longer split: if_splits)
qed

lemma count_flag:
  "l < length xs \<Longrightarrow> \<not> xs ! l \<Longrightarrow>
    length (filter Not (xs[l := True])) + 1 = length (filter Not xs)"
proof (induction xs arbitrary: l)
  case (Cons x xs)
  then show ?case by (cases l) auto
qed simp

lemma setLogicalQubitAncillary_ok:
  assumes ok: "circuit_ok qc" and s: "setLogicalQubitAncillary l qc = Inr qc'"
  shows "circuit_ok qc' \<and> getNqubits qc' = getNqubits qc"
proof (cases "qc' = qc")
  case True
  with ok show ?thesis by simp
next
  case False
  with s have l: "l < length (ancillary qc)" "\<not> ancillary qc ! l"
    and qc': "qc' = qc\<lparr>nqubits := dec64 (nqubits qc), nancillae := nancillae qc + 1,
      ancillary := (ancillary qc)[l := True]\<rparr>"
    by (auto simp: setLogicalQubitAncillary_def logicalQubitIsAncillary_def deref_res_def split: if_splits)
  note inv = circuit_okD [OF ok] and count = count_flag [OF l]
  have "nqubits qc \<le> 2 ^ 32" using inv(2) by (simp add: getNqubits_def)
  with count inv(5) have "dec64 (nqubits qc) + 1 = nqubits qc"
    by (cases "nqubits qc") (simp_all add: dec64_def)
  then have same: "getNqubits qc' = getNqubits qc" by (simp add: qc' getNqubits_def)
  with inv count \<open>dec64 (nqubits qc) + 1 = nqubits qc\<close> show ?thesis
    by (simp add: circuit_ok_def same) (simp add: qc')
qed

lemma setLogicalQubitGarbage_ok:
  "circuit_ok qc \<Longrightarrow> setLogicalQubitGarbage l qc = Inr qc' \<Longrightarrow> circuit_ok qc'"
  by (auto simp: setLogicalQubitGarbage_def and_then_eq_Inr circuit_ok_def getNqubits_def)

lemma gphase_ok: "circuit_ok qc \<Longrightarrow> circuit_ok (gphase x qc)"
  by (simp add: gphase_def circuit_ok_def getNqubits_def)

section \<open>Appended operations\<close>

lemma checkQubitRange_ok:
  "circuit_ok qc \<Longrightarrow> checkQubitRange q qc = (if q < getNqubits qc then Inr () else Inl OutOfRange)"
  using circuit_okD(1) [of qc] by (simp add: checkQubitRange_def identity_layout_at)

lemma checkQubitRanges_ok:
  "circuit_ok qc \<Longrightarrow> checkQubitRanges qs qc =
    (if list_all (\<lambda>q. q < getNqubits qc) qs then Inr () else Inl OutOfRange)"
  unfolding checkQubitRanges_def by (induction qs) (simp_all add: checkQubitRange_ok)

lemma checkGateRange_ok:
  "circuit_ok qc \<Longrightarrow> checkGateRange (t # ts) cs qc =
    (if list_all (\<lambda>q. q < getNqubits qc) (t # map qubit cs @ ts) then Inr () else Inl OutOfRange)"
  by (auto simp: checkGateRange_def checkQubitRange_ok checkQubitRanges_ok)

lemma checkBitRanges_ok:
  "checkBitRanges bs qc = (if list_all (\<lambda>b. b < nclassics qc) bs then Inr () else Inl RuntimeError)"
  unfolding checkBitRanges_def by (induction bs) (simp_all add: checkBitRange_def guard_res_def)

lemma emplace_back_ok:
  "circuit_ok qc \<Longrightarrow> op_ok (getNqubits qc) (nclassics qc) op \<Longrightarrow> circuit_ok (emplace_back op qc)"
  by (simp add: emplace_back_def circuit_ok_def getNqubits_def)

lemma std_addControls_qubits:
  "std_addControls cs b = Inr b' \<Longrightarrow>
    targets b' = targets b \<and> set (controls b') = set cs \<union> set (controls b)"
  unfolding std_addControls_def
  by (induction cs arbitrary: b) (fastforce simp: and_then_eq_Inr std_addControl_def split: if_splits)+

lemma set_op_usedQubits: "set (op_usedQubits b) = set (targets b) \<union> qubit ` set (controls b)"
  by (auto simp: op_usedQubits_def)

lemma StandardOperation_controlled_qubits:
  "StandardOperation_controlled cs ts t ps = Inr b \<Longrightarrow> targets b = ts \<and> set (controls b) = set cs"
  by (auto simp: StandardOperation_controlled_def StandardOperation_new_def and_then_eq_Inr
    dest!: std_addControls_qubits)

lemma SymbolicOperation_controlled_qubits:
  "SymbolicOperation_controlled cs ts t ps = Inr s \<Longrightarrow>
    targets (base s) = ts \<and> set (controls (base s)) = set cs"
  by (auto simp: SymbolicOperation_controlled_def SymbolicOperation_new_def and_then_eq_Inr
    dest!: std_addControls_qubits)

lemma addVariable_fields:
  "getNqubits (fold addVariable ps qc) = getNqubits qc" "nclassics (fold addVariable ps qc) = nclassics qc"
  "circuit_ok (fold addVariable ps qc) = circuit_ok qc"
proof -
  have "getNqubits (addVariable p qc) = getNqubits qc \<and> nclassics (addVariable p qc) = nclassics qc \<and>
      circuit_ok (addVariable p qc) = circuit_ok qc" for p qc
    by (cases p) (simp_all add: getNqubits_def circuit_ok_def)
  then show "getNqubits (fold addVariable ps qc) = getNqubits qc"
    "nclassics (fold addVariable ps qc) = nclassics qc"
    "circuit_ok (fold addVariable ps qc) = circuit_ok qc"
    by (induction ps arbitrary: qc) simp_all
qed

text \<open>What all gate functions have in common: the check, then an operation on the checked qubits.\<close>

lemma append_standard_ok:
  assumes "circuit_ok qc" and "list_all (\<lambda>q. q < getNqubits qc) (ts @ map qubit cs)"
    and "append_standard cs ts nm ps qc = Inr qc'"
  shows "circuit_ok qc'"
  using assms
  by (auto simp: append_standard_def and_then_eq_Inr set_op_usedQubits list_all_iff
    dest!: StandardOperation_controlled_qubits intro!: emplace_back_ok)

lemma append_gate_ok:
  assumes "circuit_ok qc" and "list_all (\<lambda>q. q < getNqubits qc) (ts @ map qubit cs)"
    and "append_gate cs ts nm ps qc = Inr qc'"
  shows "circuit_ok qc'"
proof (cases "all_numbers ps")
  case True
  with assms show ?thesis by (auto simp: append_gate_def intro: append_standard_ok)
next
  case False
  with assms show ?thesis
    by (auto simp: append_gate_def Let_def and_then_eq_Inr set_op_usedQubits list_all_iff addVariable_fields
      dest!: SymbolicOperation_controlled_qubits intro!: emplace_back_ok)
qed

lemma gate_ok:
  assumes ok: "circuit_ok qc"
    and gate: "and_then (checkGateRange (t # ts) cs qc) (\<lambda>_. r) = Inr qc'"
    and r: "list_all (\<lambda>q. q < getNqubits qc) ((t # ts) @ map qubit cs) \<Longrightarrow> r = Inr qc' \<Longrightarrow> circuit_ok qc'"
  shows "circuit_ok qc'"
  using gate by (intro r) (auto simp: checkGateRange_ok [OF ok] split: if_splits)

lemma standard_uncontrolled_ok:
  "circuit_ok qc \<Longrightarrow> list_all (\<lambda>q. q < getNqubits qc) ts \<Longrightarrow>
    standard_uncontrolled ts t qc = Inr qc' \<Longrightarrow> circuit_ok qc'"
  by (auto simp: standard_uncontrolled_def StandardOperation_new_def and_then_eq_Inr
    set_op_usedQubits list_all_iff intro!: emplace_back_ok)

lemma measure_list_ok:
  "circuit_ok qc \<Longrightarrow> measure_list qs bs qc = Inr qc' \<Longrightarrow> circuit_ok qc'"
  by (auto simp: measure_list_def checkQubitRanges_ok checkBitRanges_ok NonUnitaryOperation_measure_def
    and_then_eq_Inr empty_base_def set_op_usedQubits list_all_iff intro!: emplace_back_ok split: if_splits)

lemma fold_res_Nil: "fold_res f [] = Inr"
  by (rule ext) simp

lemma measure_single: "measure q b qc = measure_list [q] [b] qc"
  by (simp add: measure_def measure_list_def checkQubitRanges_def checkBitRanges_def fold_res_Nil)

lemma reset_list_ok: "circuit_ok qc \<Longrightarrow> reset_list ts qc = Inr qc' \<Longrightarrow> circuit_ok qc'"
  by (auto simp: reset_list_def checkQubitRanges_ok NonUnitaryOperation_new_def and_then_eq_Inr
    empty_base_def set_op_usedQubits list_all_iff intro!: emplace_back_ok split: if_splits)

lemma conditional_ok:
  assumes "op_ok n m gate" and "IfElseOperation_build (Some gate, None, c) = Inr op"
  shows "op_ok n m op"
  using assms
  by (auto simp: IfElseOperation_build_def canonicalize_def and_then_eq_Inr Let_def empty_base_def
    op_usedQubits_def split: if_splits)

lemma conditional_gate_ok:
  assumes ok: "circuit_ok qc" and "list_all (\<lambda>q. q < getNqubits qc) ([t] @ map qubit cs)"
    and r: "and_then (StandardOperation_controlled cs [t] g ps) (\<lambda>gate.
      and_then (IfElseOperation_build (Some (StandardOp gate), None, c)) (\<lambda>op.
      Inr (emplace_back op qc))) = Inr qc'"
  shows "circuit_ok qc'"
proof -
  from r obtain b op where b: "StandardOperation_controlled cs [t] g ps = Inr b"
    and op: "IfElseOperation_build (Some (StandardOp b), None, c) = Inr op"
    and qc': "qc' = emplace_back op qc" by (auto simp: and_then_eq_Inr)
  have "op_ok (getNqubits qc) (nclassics qc) (StandardOp b)"
    using StandardOperation_controlled_qubits [OF b] assms(2) by (auto simp: set_op_usedQubits list_all_iff)
  then show ?thesis unfolding qc' by (intro emplace_back_ok ok conditional_ok [OF _ op])
qed

lemma and_then_skip: "and_then r (\<lambda>_. s) = Inr y \<Longrightarrow> s = Inr y"
  by (cases r) simp_all

lemma conditional_functions_ok:
  assumes ok: "circuit_ok qc"
  shows "if_register g t cs r e k ps qc = Inr qc' \<Longrightarrow> circuit_ok qc'"
    and "if_bit g t cs b e' k ps qc = Inr qc' \<Longrightarrow> circuit_ok qc'"
  unfolding if_register_def if_bit_def IfElseOperation_register_def IfElseOperation_bit_def
  by (erule gate_ok [OF ok]; drule and_then_skip; rule conditional_gate_ok [OF ok]; assumption)+

lemmas gate_function_defs = mc_single_target_def mc_single_target_one_def mc_single_target_two_def
  mc_single_target_three_def mc_two_target_def mc_two_target_one_def mc_two_target_two_def
  mc_three_target_def

lemma gate_functions_ok:
  assumes "circuit_ok qc"
  shows
    "mc_single_target nm cs t qc = Inr qc' \<Longrightarrow> circuit_ok qc'"
    "mc_single_target_one nm p cs t qc = Inr qc' \<Longrightarrow> circuit_ok qc'"
    "mc_single_target_two nm p p1 cs t qc = Inr qc' \<Longrightarrow> circuit_ok qc'"
    "mc_single_target_three nm p p1 p2 cs t qc = Inr qc' \<Longrightarrow> circuit_ok qc'"
    "mc_two_target nm cs t t1 qc = Inr qc' \<Longrightarrow> circuit_ok qc'"
    "mc_two_target_one nm p cs t t1 qc = Inr qc' \<Longrightarrow> circuit_ok qc'"
    "mc_two_target_two nm p p1 cs t t1 qc = Inr qc' \<Longrightarrow> circuit_ok qc'"
    "mc_three_target nm cs t t1 t2 qc = Inr qc' \<Longrightarrow> circuit_ok qc'"
  unfolding gate_function_defs
  by (erule gate_ok [OF assms]; (rule append_standard_ok [OF assms]; simp; fail | rule append_gate_ok [OF assms]; simp))+

section \<open>Reachable circuits\<close>

inductive build_step :: "QuantumComputation \<Rightarrow> QuantumComputation \<Rightarrow> bool" where
  "addQubitRegister k nm qc = Inr qc' \<Longrightarrow> getNqubits qc + k \<le> 2 ^ 32 \<Longrightarrow> build_step qc qc'"
| "addAncillaryRegister k nm qc = Inr qc' \<Longrightarrow> getNqubits qc + k \<le> 2 ^ 32 \<Longrightarrow> build_step qc qc'"
| "addClassicalRegister k nm qc = Inr qc' \<Longrightarrow> build_step qc qc'"
| "setLogicalQubitAncillary l qc = Inr qc' \<Longrightarrow> build_step qc qc'"
| "setLogicalQubitGarbage l qc = Inr qc' \<Longrightarrow> build_step qc qc'"
| "build_step qc (gphase x qc)"
| "mc_single_target nm cs t qc = Inr qc' \<Longrightarrow> build_step qc qc'"
| "mc_single_target_one nm p cs t qc = Inr qc' \<Longrightarrow> build_step qc qc'"
| "mc_single_target_two nm p p1 cs t qc = Inr qc' \<Longrightarrow> build_step qc qc'"
| "mc_single_target_three nm p p1 p2 cs t qc = Inr qc' \<Longrightarrow> build_step qc qc'"
| "mc_two_target nm cs t t1 qc = Inr qc' \<Longrightarrow> build_step qc qc'"
| "mc_two_target_one nm p cs t t1 qc = Inr qc' \<Longrightarrow> build_step qc qc'"
| "mc_two_target_two nm p p1 cs t t1 qc = Inr qc' \<Longrightarrow> build_step qc qc'"
| "mc_three_target nm cs t t1 t2 qc = Inr qc' \<Longrightarrow> build_step qc qc'"
| "measure q b qc = Inr qc' \<Longrightarrow> build_step qc qc'"
| "measure_list qs bs qc = Inr qc' \<Longrightarrow> build_step qc qc'"
| "barrier qc = Inr qc' \<Longrightarrow> build_step qc qc'"
| "barrier_list ts qc = Inr qc' \<Longrightarrow> build_step qc qc'"
| "bridge ts qc = Inr qc' \<Longrightarrow> build_step qc qc'"
| "reset_list ts qc = Inr qc' \<Longrightarrow> build_step qc qc'"
| "if_register op t cs r e kind ps qc = Inr qc' \<Longrightarrow> build_step qc qc'"
| "if_bit op t cs b e' kind ps qc = Inr qc' \<Longrightarrow> build_step qc qc'"

inductive reachable :: "QuantumComputation \<Rightarrow> bool" where
  reachable_new: "reachable (empty_qc s)"
| reachable_step: "reachable qc \<Longrightarrow> build_step qc qc' \<Longrightarrow> reachable qc'"

lemma barrier_functions_ok:
  assumes "circuit_ok qc"
  shows "measure q b qc = Inr qc' \<Longrightarrow> circuit_ok qc'" "barrier qc = Inr qc' \<Longrightarrow> circuit_ok qc'"
    "barrier_list ts qc = Inr qc' \<Longrightarrow> circuit_ok qc'" "bridge ts qc = Inr qc' \<Longrightarrow> circuit_ok qc'"
    "setLogicalQubitAncillary l qc = Inr qc' \<Longrightarrow> circuit_ok qc'"
proof -
  note uncontrolled = standard_uncontrolled_ok [OF assms] and ranges = checkQubitRanges_ok [OF assms, of ts]
  show "measure q b qc = Inr qc' \<Longrightarrow> circuit_ok qc'"
    by (simp add: measure_single measure_list_ok [OF assms])
  show "barrier qc = Inr qc' \<Longrightarrow> circuit_ok qc'"
    unfolding barrier_def by (erule uncontrolled [rotated]) (simp add: list_all_iff)
  show "barrier_list ts qc = Inr qc' \<Longrightarrow> circuit_ok qc'" "bridge ts qc = Inr qc' \<Longrightarrow> circuit_ok qc'"
    unfolding barrier_list_def bridge_def ranges by (auto intro: uncontrolled split: if_splits)
  show "setLogicalQubitAncillary l qc = Inr qc' \<Longrightarrow> circuit_ok qc'"
    using setLogicalQubitAncillary_ok [OF assms] by simp
qed

lemmas builder_ok = addQubitRegister_ok addAncillaryRegister_ok addClassicalRegister_ok
  barrier_functions_ok setLogicalQubitGarbage_ok gate_functions_ok measure_list_ok reset_list_ok
  conditional_functions_ok

lemma build_step_ok: "build_step qc qc' \<Longrightarrow> circuit_ok qc \<Longrightarrow> circuit_ok qc'"
  by (induction rule: build_step.induct) ((erule builder_ok; assumption) | erule gphase_ok)+

lemma reachable_ok: "reachable qc \<Longrightarrow> circuit_ok qc"
  by (induction rule: reachable.induct) (auto intro: empty_qc_ok build_step_ok)

section \<open>What the invariant guarantees\<close>

lemma depth_defined:
  assumes "circuit_ok qc" and "0 < getNqubits qc"
  shows "\<exists>d. getDepth qc = Inr d"
proof -
  have "\<exists>ds'. fold_res addDepthContribution ops ds = Inr ds' \<and> length ds' = n"
    if "list_all (qubits_below n) ops" "length ds = n" for n ops ds
    using that
  proof (induction ops arbitrary: ds)
    case (Cons op ops)
    with addDepthContribution_defined [of n op ds] obtain ds1 where
      "addDepthContribution op ds = Inr ds1" "length ds1 = n" by auto
    with Cons show ?case by auto
  qed simp
  moreover have "list_all (qubits_below (getNqubits qc)) (qc_ops qc)"
    using circuit_okD(6) [OF assms(1)] by (auto simp: list_all_iff intro: op_ok_qubits)
  ultimately obtain ds where
    "fold_res addDepthContribution (qc_ops qc) (replicate (getNqubits qc) 0) = Inr ds"
    "length ds = getNqubits qc" by (metis length_replicate)
  with assms(2) show ?thesis by (auto simp: getDepth_def)
qed

lemma reorder_defined:
  assumes "circuit_ok qc" and "0 < getNqubits qc"
  shows "\<exists>qc'. reorderOperations qc = Some (Inr qc')"
proof -
  from assms(2) obtain n where n: "getNqubits qc = Suc n" by (cases "getNqubits qc") simp_all
  have highest: "fold (\<lambda>p m. max (fst p) m) (initialLayout qc) 0 + 1 = Suc n"
    using circuit_okD(1) [OF assms(1)] by (simp add: n identity_layout_highest)
  have "list_all (qubits_below (Suc n)) (qc_ops qc)"
    using circuit_okD(6) [OF assms(1)] by (auto simp: n list_all_iff intro: op_ok_qubits)
  from reorder_ops_reordering [OF this] show ?thesis
    by (auto simp: reorderOperations_def highest [simplified])
qed

lemma fold_mark_length: "length (fold (\<lambda>q m. m[q := True]) qs ms) = length ms"
  by (induction qs arbitrary: ms) simp_all

lemma any_deref: "list_all (\<lambda>q. q < length ms) qs \<Longrightarrow> \<exists>d. any_res (deref_res ms) qs = Inr d"
  by (induction qs) (auto simp: deref_res_def)

lemma map_deref: "list_all (\<lambda>q. q < length ms) qs \<Longrightarrow> \<exists>ds. map_res (deref_res ms) qs = Inr ds"
  by (rule map_res_defined) (simp add: deref_res_def list_all_iff)

lemma any_state_defined:
  "(\<And>x u. x \<in> set xs \<Longrightarrow> P u \<Longrightarrow> \<exists>d v. f x u = Inr (d, v) \<and> P v) \<Longrightarrow> P u \<Longrightarrow>
    \<exists>d v. any_state f xs u = Inr (d, v) \<and> P v"
proof (induction xs arbitrary: u)
  case Nil
  then have "any_state f [] u = Inr (False, u) \<and> P u" by simp
  then show ?case by blast
next
  case (Cons x xs)
  from Cons.prems(1) [of x u] Cons.prems(2) obtain d v where "f x u = Inr (d, v)" "P v" by auto
  with Cons show ?case by (cases d) auto
qed

lemma isDynamicCircuit_defined:
  "op_ok n m op \<Longrightarrow> \<not> isSymbolicOperation op \<Longrightarrow> n \<le> length ms \<Longrightarrow>
    \<exists>d ms'. isDynamicCircuit op ms = Inr (d, ms') \<and> length ms' = length ms"
proof (induction op arbitrary: ms)
  case (StandardOp b)
  then have "list_all (\<lambda>q. q < length ms) (op_usedQubits b)" by (auto simp: list_all_iff)
  with any_deref show ?case by (fastforce split: if_splits)
next
  case (SymbolicOp s)
  then have "list_all (\<lambda>q. q < length ms) (op_usedQubits (base s))" by (auto simp: list_all_iff)
  with any_deref SymbolicOp show ?case
    by (fastforce simp: sym_isSymbolicOperation_def sym_isStandardOperation_def split: if_splits)
next
  case (NonUnitaryOp b cs)
  then have "\<forall>q \<in> set (targets b). q < n" by (auto simp: list_all_iff set_op_usedQubits)
  with NonUnitaryOp.prems(3) have "list_all (\<lambda>q. q < length ms) (targets b)"
    by (auto simp: list_all_iff intro: less_le_trans)
  with map_deref [of ms "targets b"] NonUnitaryOp show ?case by (auto simp: fold_mark_length)
next
  case (CompoundOp b ops cust)
  have "\<exists>d ms'. any_state (\<lambda>op m. isDynamicCircuit op m) ops ms = Inr (d, ms') \<and> length ms' = length ms"
  proof (rule any_state_defined)
    fix x and u :: "bool list"
    assume x: "x \<in> set ops" and u: "length u = length ms"
    with CompoundOp.IH [OF x, of u] CompoundOp.prems
    show "\<exists>d v. isDynamicCircuit x u = Inr (d, v) \<and> length v = length ms"
      by (auto simp: list_all_iff list_ex_iff)
  qed simp
  with CompoundOp.prems show ?case by simp
qed (simp add: ex_bool_eq)

lemma isDynamic_defined:
  assumes "circuit_ok qc" and "isVariableFree qc"
  shows "\<exists>b. isDynamic qc = Inr b"
proof -
  let ?ms = "replicate (getHighestPhysicalQubitIndex qc + 1) False"
  have "getNqubits qc \<le> length ?ms"
    using circuit_okD(1) [OF assms(1)] identity_layout_maxKey
    by (cases "getNqubits qc") (simp_all add: getHighestPhysicalQubitIndex_def)
  then have "\<exists>d ms'. any_state isDynamicCircuit (qc_ops qc) ?ms = Inr (d, ms') \<and> length ms' = length ?ms"
    using circuit_okD(6) [OF assms(1)] assms(2) isDynamicCircuit_defined
    by (intro any_state_defined) (auto simp: list_all_iff isVariableFree_def, metis)
  then show ?thesis by (auto simp: isDynamic_def)
qed

text \<open>A reordered circuit keeps the invariant.\<close>

lemma reorder_ok:
  assumes "circuit_ok qc" and "reorderOperations qc = Some (Inr qc')"
  shows "circuit_ok qc'"
proof -
  from assms(2) obtain ops' where qc': "qc' = qc\<lparr>qc_ops := ops'\<rparr>"
    and re: "reordering (filter uses_qubits (qc_ops qc)) ops'" by (rule reorderOperations_cases)
  have "set ops' \<subseteq> set (qc_ops qc)" using reordering_set [OF re] by auto
  with circuit_okD [OF assms(1)] show ?thesis
    by (auto simp: circuit_ok_def qc' getNqubits_def list_all_iff)
qed

section \<open>Measuring all qubits\<close>

definition measurement :: "nat \<Rightarrow> nat \<Rightarrow> Operation" where
  "measurement q b = NonUnitaryOp ((empty_base opMeasure (op_toString opMeasure))\<lparr>targets := [q]\<rparr>) [b]"

lemma measure_appends:
  assumes "circuit_ok qc" and "q < getNqubits qc" and "b < nclassics qc"
  shows "measure q b qc = Inr (emplace_back (measurement q b) qc)"
  using assms
  by (simp add: measure_def checkQubitRange_ok checkBitRange_def guard_res_def
    NonUnitaryOperation_measure_def measurement_def)

lemma measure_all_qubits:
  assumes "circuit_ok qc" and "\<forall>i \<in> set is. i < getNqubits qc \<and> start + i < nclassics qc"
  shows "fold_res (\<lambda>i. measure (cast32 i) (start + cast32 i)) is qc =
    Inr (qc\<lparr>qc_ops := qc_ops qc @ map (\<lambda>i. measurement i (start + i)) is\<rparr>)"
  using assms
proof (induction "is" arbitrary: qc)
  case (Cons i "is")
  let ?qc = "emplace_back (measurement i (start + i)) qc"
  have "cast32 i = i" using Cons.prems circuit_okD(2) [OF Cons.prems(1)] by (simp add: cast32_def)
  with measure_appends [OF Cons.prems(1), of i "start + i"] Cons.prems(2)
  have step: "measure (cast32 i) (start + cast32 i) qc = Inr ?qc" by simp
  have ok: "circuit_ok ?qc" by (rule builder_ok(4) [OF Cons.prems(1) step])
  have "\<forall>i \<in> set is. i < getNqubits ?qc \<and> start + i < nclassics ?qc"
    using Cons.prems(2) by (simp add: emplace_back_def getNqubits_def)
  from Cons.IH [OF ok this] show ?case by (simp add: step emplace_back_def)
qed simp

lemma measureAll_spec:
  assumes ok: "circuit_ok qc" and n: "0 < getNqubits qc"
    and fresh: "map_of (classicalRegisters qc) ''meas'' = None" and small: "nclassics qc < 2 ^ 32"
  shows "\<exists>qc'. measureAll True False qc = Inr qc' \<and>
    qc_ops qc' = qc_ops qc @ map (\<lambda>i. measurement i (nclassics qc + i)) (rev [0..<getNqubits qc])"
proof -
  let ?n = "getNqubits qc"
  obtain qc1 where add: "addClassicalRegister ?n ''meas'' qc = Inr qc1"
    and qc1: "qc1 = qc\<lparr>classicalRegisters := regs_try_emplace ''meas'' (mk_register ''meas'' (nclassics qc) ?n)
      (classicalRegisters qc), nclassics := nclassics qc + ?n\<rparr>"
    using n fresh by (simp add: addClassicalRegister_def)
  have ok1: "circuit_ok qc1" by (rule addClassicalRegister_ok [OF ok add])
  have same: "getNqubits qc1 = ?n" "nclassics qc1 = nclassics qc + ?n" "qc_ops qc1 = qc_ops qc"
    by (simp_all add: qc1 getNqubits_def)
  have "map_of (classicalRegisters qc1) ''meas'' = Some (mk_register ''meas'' (nclassics qc) ?n)"
    using fresh by (simp add: qc1 regs_try_emplace_def map_add_def)
  moreover have "cast32 (nclassics qc) = nclassics qc" using small by (simp add: cast32_def)
  moreover have "fold_res (\<lambda>i. measure (cast32 i) (nclassics qc + cast32 i)) (rev [0..<?n]) qc1 =
      Inr (qc1\<lparr>qc_ops := qc_ops qc1 @ map (\<lambda>i. measurement i (nclassics qc + i)) (rev [0..<?n])\<rparr>)"
    by (rule measure_all_qubits [OF ok1]) (simp add: same)
  ultimately show ?thesis
    by (simp add: measureAll_def add same mk_register_def)
qed

section \<open>The global phase\<close>

lemma wrap_up_spec: "0 \<le> wrap_up x \<and> (\<exists>k :: int. wrap_up x = x + of_int k * (2 * PI))"
proof (induction x rule: wrap_up.induct)
  case (1 x)
  show ?case
  proof (cases "x < 0")
    case True
    with 1 obtain k :: int where "0 \<le> wrap_up (x + 2 * PI)" "wrap_up (x + 2 * PI) = x + 2 * PI + of_int k * (2 * PI)"
      by blast
    then have "0 \<le> wrap_up x \<and> wrap_up x = x + of_int (k + 1) * (2 * PI)"
      using True by (subst (1 2) wrap_up.simps) (simp add: algebra_simps)
    then show ?thesis by blast
  next
    case False
    then have "0 \<le> wrap_up x \<and> wrap_up x = x + of_int 0 * (2 * PI)" by (subst (1 2) wrap_up.simps) simp
    then show ?thesis by blast
  qed
qed

lemma wrap_down_spec: "0 \<le> x \<Longrightarrow> 0 \<le> wrap_down x \<and> wrap_down x < 2 * PI \<and>
    (\<exists>k :: int. wrap_down x = x + of_int k * (2 * PI))"
proof (induction x rule: wrap_down.induct)
  case (1 x)
  show ?case
  proof (cases "2 * PI \<le> x")
    case True
    with 1 obtain k :: int where "0 \<le> wrap_down (x - 2 * PI)" "wrap_down (x - 2 * PI) < 2 * PI"
      "wrap_down (x - 2 * PI) = x - 2 * PI + of_int k * (2 * PI)" by auto
    then have "0 \<le> wrap_down x \<and> wrap_down x < 2 * PI \<and> wrap_down x = x + of_int (k - 1) * (2 * PI)"
      using True by (subst (1 2 3) wrap_down.simps) (simp add: algebra_simps)
    then show ?thesis by blast
  next
    case False
    with 1 have "0 \<le> wrap_down x \<and> wrap_down x < 2 * PI \<and> wrap_down x = x + of_int 0 * (2 * PI)"
      by (subst (1 2 3) wrap_down.simps) simp
    then show ?thesis by blast
  qed
qed

end
