(* ===== verification/IRInverse.thy ===== *)
theory IRInverse
  imports IRBuilder
begin

text \<open>
  \<open>Operation::isInverseOf\<close> and \<open>CompoundOperation::isInverseOf\<close>
  (\<open>src/ir/operations/Operation.cpp\<close>, \<open>CompoundOperation.cpp\<close>), and \<open>QuantumComputation::invert\<close>.
  The comparison of compound operations reorders one of them and the inverse of the other and
  compares position by position.  The theory proves that it ends, what a positive answer means,
  and that a compound of standard operations is recognised as the inverse of its inverse.
\<close>

section \<open>Definitions\<close>

text \<open>
  The comparison with three iterators: the second list is read past its end when it is shorter.
\<close>

fun std_equal :: "('a \<Rightarrow> 'a \<Rightarrow> bool result) \<Rightarrow> 'a list \<Rightarrow> 'a list \<Rightarrow> bool result" where
  "std_equal eq [] ys = Inr True"
| "std_equal eq (x # xs) [] = Inl Undefined"
| "std_equal eq (x # xs) (y # ys) = and_then (eq x y) (\<lambda>b. if b then std_equal eq xs ys else Inr False)"

definition compound_circuit :: "Operation list \<Rightarrow> QuantumComputation result" where
  "compound_circuit ops = (case set_of_list (concat (map getUsedQubits ops)) of
     [] \<Rightarrow> Inl Undefined
   | q # qs \<Rightarrow> and_then (QuantumComputation_new (fold max qs q + 1) 0 0)
       (\<lambda>qc. Inr (fold emplace_back ops qc)))"

definition and_then_opt :: "'a result option \<Rightarrow> ('a \<Rightarrow> 'b result option) \<Rightarrow> 'b result option" where
  "and_then_opt r f = (case r of None \<Rightarrow> None | Some (Inl e) \<Rightarrow> Some (Inl e) | Some (Inr x) \<Rightarrow> f x)"

definition comp_isInverseOf :: "Operation list \<Rightarrow> Operation \<Rightarrow> bool result option" where
  "comp_isInverseOf ops other = (case other of
     CompoundOp b ops' cust \<Rightarrow>
       if length ops \<noteq> length ops' then Some (Inr False)
       else if ops = [] then Some (Inr True)
       else and_then_opt (Some (compound_circuit ops)) (\<lambda>thisQc.
            and_then_opt (Some (compound_circuit ops')) (\<lambda>otherQc.
            and_then_opt (reorderOperations thisQc) (\<lambda>thisQc.
            and_then_opt (Some (qc_invert otherQc)) (\<lambda>otherQc.
            and_then_opt (reorderOperations otherQc) (\<lambda>otherQc.
            Some (std_equal op_eq (qc_ops thisQc) (qc_ops otherQc)))))))
   | _ \<Rightarrow> Some (Inr False))"

definition op_isInverseOf :: "Operation \<Rightarrow> Operation \<Rightarrow> bool result option" where
  "op_isInverseOf op other = (case op of
     CompoundOp b ops cust \<Rightarrow> comp_isInverseOf ops other
   | _ \<Rightarrow> Some (and_then (op_invert other) (\<lambda>inv. op_eq op inv)))"

section \<open>Circuits of compound operations\<close>

lemma fold_emplace: "fold emplace_back ops qc = qc\<lparr>qc_ops := qc_ops qc @ ops\<rparr>"
  by (induction ops arbitrary: qc) (simp_all add: emplace_back_def)

lemma QuantumComputation_new_ok:
  assumes "n < 2 ^ 32"
  shows "\<exists>qc. QuantumComputation_new (n + 1) 0 0 = Inr qc \<and> circuit_ok qc \<and> getNqubits qc = n + 1 \<and>
    qc_ops qc = [] \<and> outputPermutation qc = initialLayout qc"
proof -
  have add: "\<exists>qc. addQubitRegister (n + 1) ''q'' (empty_qc 0) = Inr qc \<and> getNqubits qc = n + 1 \<and>
      qc_ops qc = [] \<and> outputPermutation qc = initialLayout qc"
    by (simp add: addQubitRegister_def empty_qc_def getNqubits_def Let_def)
  then obtain qc where qc: "addQubitRegister (n + 1) ''q'' (empty_qc 0) = Inr qc" "getNqubits qc = n + 1"
      "qc_ops qc = []" "outputPermutation qc = initialLayout qc" by blast
  have "circuit_ok qc"
    by (rule addQubitRegister_ok [OF empty_qc_ok qc(1)]) (use assms in \<open>simp add: empty_qc_def getNqubits_def\<close>)
  with qc show ?thesis by (simp add: QuantumComputation_new_def)
qed

definition used_by :: "Operation list \<Rightarrow> nat \<Rightarrow> bool" where
  "used_by ops q \<longleftrightarrow> list_ex (\<lambda>op. actsOn op q) ops"

lemma set_used: "set (concat (map getUsedQubits ops)) = {q. used_by ops q}"
  using getUsedQubits_actsOn by (auto simp: used_by_def list_ex_iff)

text \<open>The circuit covers the qubits in use and nothing above them.\<close>

lemma compound_circuit_spec:
  assumes used: "used_by ops q" and small: "\<And>q. used_by ops q \<Longrightarrow> q < 2 ^ 32"
  obtains n qc where "compound_circuit ops = Inr qc" "qc_ops qc = ops"
    "initialLayout qc = identity_layout (Suc n)" "outputPermutation qc = initialLayout qc"
    "used_by ops n" "\<And>q. used_by ops q \<Longrightarrow> q \<le> n"
proof -
  let ?us = "set_of_list (concat (map getUsedQubits ops))"
  have set_us: "set ?us = {q. used_by ops q}" by (simp only: set_set_of_list set_used)
  with used obtain r rs where us: "?us = r # rs" by (cases ?us) auto
  define n where "n = fold max rs r"
  have "fold max xs k \<in> insert k (set xs) \<and> (\<forall>x \<in> insert k (set xs). x \<le> fold max xs k)" for k and xs :: "nat list"
    by (induction xs arbitrary: k) (auto simp: max_def split: if_splits, (meson dual_order.trans nle_le)+)
  then have n: "n \<in> set ?us" "\<forall>x \<in> set ?us. x \<le> n" by (simp_all only: us n_def list.set) blast+
  then have n: "used_by ops n" "\<And>q. used_by ops q \<Longrightarrow> q \<le> n" unfolding set_us by simp_all
  then have "n < 2 ^ 32" using small by blast
  from QuantumComputation_new_ok [OF this] obtain qc where qc: "QuantumComputation_new (n + 1) 0 0 = Inr qc"
    "circuit_ok qc" "getNqubits qc = n + 1" "qc_ops qc = []" "outputPermutation qc = initialLayout qc" by blast
  show thesis
  proof (rule that)
    show "compound_circuit ops = Inr (qc\<lparr>qc_ops := ops\<rparr>)"
      using qc by (simp add: compound_circuit_def us fold_emplace flip: n_def)
    show "initialLayout (qc\<lparr>qc_ops := ops\<rparr>) = identity_layout (Suc n)"
      using circuit_okD(1) [OF qc(2)] qc(3) by simp
    show "used_by ops n" "\<And>q. used_by ops q \<Longrightarrow> q \<le> n" using n by simp_all
  qed (simp_all add: qc)
qed

lemma compound_circuit_error: "(\<And>q. \<not> used_by ops q) \<Longrightarrow> compound_circuit ops = Inl Undefined"
proof -
  assume "\<And>q. \<not> used_by ops q"
  then have "set (set_of_list (concat (map getUsedQubits ops))) = {}" by (simp only: set_set_of_list set_used) simp
  then have "set_of_list (concat (map getUsedQubits ops)) = []" by (simp only: set_empty)
  then show ?thesis by (simp only: compound_circuit_def list.case)
qed

section \<open>Termination and soundness\<close>

lemma reorderOperations_total: "\<exists>r. reorderOperations qc = Some r"
proof -
  have "\<exists>r. reorder_ops n ops = Some r" for n ops
    using reorder_ops_reordering [of n ops] reorder_ops_error [of n ops] by blast
  then show ?thesis by (auto simp: reorderOperations_def Let_def)
qed

lemma and_then_opt_total:
  "\<exists>y. r = Some y \<Longrightarrow> (\<And>x. r = Some (Inr x) \<Longrightarrow> \<exists>y. f x = Some y) \<Longrightarrow> \<exists>y. and_then_opt r f = Some y"
  by (cases r) (auto simp: and_then_opt_def split: sum.split)

lemma and_then_opt_Inr:
  "and_then_opt r f = Some (Inr y) \<longleftrightarrow> (\<exists>x. r = Some (Inr x) \<and> f x = Some (Inr y))"
  by (auto simp: and_then_opt_def split: option.splits sum.splits)

lemma op_isInverseOf_total: "\<exists>r. op_isInverseOf op other = Some r"
  by (auto simp: op_isInverseOf_def comp_isInverseOf_def reorderOperations_total
    split: Operation.split intro!: and_then_opt_total)

lemma std_equal_prefix:
  "std_equal eq xs ys = Inr True \<longleftrightarrow> (\<exists>zs us. ys = zs @ us \<and> list_all2 (\<lambda>x y. eq x y = Inr True) xs zs)"
proof (induction eq xs ys rule: std_equal.induct)
  case (3 eq x xs y ys)
  have "(\<exists>zs us. y # ys = zs @ us \<and> list_all2 (\<lambda>x y. eq x y = Inr True) (x # xs) zs) \<longleftrightarrow>
    eq x y = Inr True \<and> (\<exists>zs us. ys = zs @ us \<and> list_all2 (\<lambda>x y. eq x y = Inr True) xs zs)"
    by (auto simp: list_all2_Cons1 Cons_eq_append_conv)
  with 3 show ?case by (auto simp: and_then_eq_Inr split: if_splits)
qed auto

lemma compound_circuit_ops: "compound_circuit ops = Inr qc \<Longrightarrow> qc_ops qc = ops"
  by (auto simp: compound_circuit_def and_then_eq_Inr fold_emplace QuantumComputation_new_def
    addQubitRegister_def empty_qc_def Let_def split: list.splits if_splits)

text \<open>
  A positive answer: the operations in use, reordered, agree one by one with a prefix of the
  inverse of the other operations, reordered.
\<close>

lemma comp_isInverseOf_sound:
  assumes "comp_isInverseOf ops (CompoundOp b ops' cust) = Some (Inr True)" and "ops \<noteq> []"
  shows "\<exists>inv xs ys us. map_res op_invert ops' = Inr inv \<and>
    reordering (filter uses_qubits ops) xs \<and> reordering (filter uses_qubits (rev inv)) (ys @ us) \<and>
    list_all2 (\<lambda>x y. op_eq x y = Inr True) xs ys"
proof -
  from assms obtain this1 other1 this2 other2 other3 where
    c: "compound_circuit ops = Inr this1" "compound_circuit ops' = Inr other1"
    and this2: "reorderOperations this1 = Some (Inr this2)" and inv: "qc_invert other1 = Inr other2"
    and other3: "reorderOperations other2 = Some (Inr other3)"
    and eq: "std_equal op_eq (qc_ops this2) (qc_ops other3) = Inr True"
    by (auto simp: comp_isInverseOf_def and_then_opt_Inr split: if_splits)
  from this2 c(1) have t: "reordering (filter uses_qubits ops) (qc_ops this2)"
    by (auto elim!: reorderOperations_cases simp: compound_circuit_ops)
  from inv obtain invs where i: "map_res op_invert ops' = Inr invs" "qc_ops other2 = rev invs"
    using compound_circuit_ops [OF c(2)] by (auto simp: qc_invert_def and_then_eq_Inr Let_def)
  from other3 i(2) have other: "reordering (filter uses_qubits (rev invs)) (qc_ops other3)"
    by (auto elim!: reorderOperations_cases)
  from eq obtain ys us where "qc_ops other3 = ys @ us"
    "list_all2 (\<lambda>x y. op_eq x y = Inr True) (qc_ops this2) ys" by (auto simp: std_equal_prefix)
  with t other i(1) show ?thesis by metis
qed

section \<open>Recognising an inverse\<close>

text \<open>
  The operations whose double inverse is the operation itself: standard operations other than
  \<open>U2\<close> gates.
\<close>

fun plain :: "Operation \<Rightarrow> bool" where
  "plain (StandardOp b) = (optype b \<noteq> opU2)"
| "plain _ = False"

lemma plain_cases: "plain op \<Longrightarrow> (\<And>b. op = StandardOp b \<Longrightarrow> optype b \<noteq> opU2 \<Longrightarrow> P) \<Longrightarrow> P"
  by (cases op) simp_all

lemma plain_invert_twice: "plain op \<Longrightarrow> op_invert op = Inr op' \<Longrightarrow> op_invert op' = Inr op"
  by (erule plain_cases) (auto simp: and_then_eq_Inr full_turns_def dest: std_invert_twice)

lemma plain_invert_actsOn: "plain op \<Longrightarrow> op_invert op = Inr op' \<Longrightarrow> actsOn op' q = actsOn op q"
  by (erule plain_cases) (auto simp: and_then_eq_Inr op_actsOn_def elim!: std_invert_cases)

lemma plain_equal: "plain op \<Longrightarrow> op_eq op op = Inr True"
  using equals_reflexive [of "[]" op] by (elim plain_cases) (simp add: base_mapped_def)

lemma map_res_rev: "map_res f xs = Inr ys \<Longrightarrow> map_res f (rev xs) = Inr (rev ys)"
  by (simp add: map_res_Inr)

lemma std_equal_refl: "list_all (\<lambda>x. eq x x = Inr True) xs \<Longrightarrow> std_equal eq xs xs = Inr True"
  by (induction xs) simp_all

lemma comp_isInverseOf_inverse:
  assumes plain: "list_all plain ops" and used: "used_by ops q"
    and small: "\<And>q. used_by ops q \<Longrightarrow> q < 2 ^ 32"
    and inv: "op_invert (CompoundOp b ops cust) = Inr other"
  shows "comp_isInverseOf ops other = Some (Inr True)"
proof -
  from inv obtain invs where i: "map_res op_invert ops = Inr invs" "other = CompoundOp b (rev invs) cust"
    by (auto simp: and_then_eq_Inr)
  then have l2: "list_all2 (\<lambda>x y. op_invert x = Inr y) ops invs" by (simp add: map_res_Inr)
  then have len: "length invs = length ops" by (simp add: list_all2_lengthD)
  have "list_all2 (\<lambda>y x. op_invert y = Inr x) invs ops"
    using l2 plain by (auto simp: list_all2_conv_all_nth list_all_length intro: plain_invert_twice)
  then have undo: "map_res op_invert (rev invs) = Inr (rev ops)"
    by (intro map_res_rev) (simp add: map_res_Inr)
  have "used_by invs q = used_by ops q" for q
    using l2 plain len by (fastforce simp: used_by_def list_ex_length list_all2_conv_all_nth list_all_length
      dest: plain_invert_actsOn)
  then have same: "used_by (rev invs) = used_by ops" by (auto simp: used_by_def list_ex_iff fun_eq_iff)
  obtain n qc1 where c1: "compound_circuit ops = Inr qc1" "qc_ops qc1 = ops"
    "initialLayout qc1 = identity_layout (Suc n)" "used_by ops n" "\<And>q. used_by ops q \<Longrightarrow> q \<le> n"
    using compound_circuit_spec [OF used small] by metis
  obtain n2 qc2 where c2: "compound_circuit (rev invs) = Inr qc2" "qc_ops qc2 = rev invs"
    "initialLayout qc2 = identity_layout (Suc n2)" "outputPermutation qc2 = initialLayout qc2"
    "used_by ops n2" "\<And>q. used_by ops q \<Longrightarrow> q \<le> n2"
    using compound_circuit_spec [of "rev invs" q] used small unfolding same by metis
  have n2: "n2 = n" using c1(4,5) c2(5,6) by (meson order_antisym)
  define qc3 where "qc3 = qc2\<lparr>qc_ops := ops\<rparr>"
  have c3: "qc_invert qc2 = Inr qc3" "qc_ops qc3 = ops" "initialLayout qc3 = identity_layout (Suc n)"
    using c2 undo by (simp_all add: qc_invert_def qc3_def n2)
  have "list_all (qubits_below (Suc n)) ops"
    using c1(5) by (fastforce simp: list_all_iff qubits_below_actsOn used_by_def list_ex_iff less_Suc_eq_le)
  from reorder_ops_reordering [OF this] obtain ops' where
    re: "reorder_ops (Suc n) ops = Some (Inr ops')" "reordering (filter uses_qubits ops) ops'" by blast
  have reorder: "reorderOperations qc = Some (Inr (qc\<lparr>qc_ops := ops'\<rparr>))"
    if "qc_ops qc = ops" "initialLayout qc = identity_layout (Suc n)" for qc
    using re(1) that identity_layout_highest [of n] by (simp add: reorderOperations_def)
  have "std_equal op_eq ops' ops' = Inr True"
    using reordering_set [OF re(2)] plain
    by (intro std_equal_refl) (auto simp: list_all_iff intro: plain_equal)
  moreover have "ops \<noteq> []" using used by (auto simp: used_by_def)
  ultimately show ?thesis
    by (simp add: comp_isInverseOf_def i(2) len c1(1) c2(1) c3(1) and_then_opt_def
      reorder [OF c1(2,3)] reorder [OF c3(2,3)])
qed

text \<open>
  Operations without qubits are not compared: two compounds whose global phases do not cancel
  are reported as inverse to each other.
\<close>

definition phase_op :: "fp \<Rightarrow> Operation" where
  "phase_op x = StandardOp \<lparr>controls = [], targets = [], parameter = [x], optype = opGPhase,
     opname = op_toString opGPhase\<rparr>"

definition hadamard_op :: "nat \<Rightarrow> Operation" where
  "hadamard_op q = StandardOp \<lparr>controls = [], targets = [q], parameter = [], optype = opH,
     opname = op_toString opH\<rparr>"

lemma used_by_hadamard: "used_by ops q \<longleftrightarrow> q = 0" if "mset ops = {#phase_op x, hadamard_op 0#}"
proof -
  have "set ops = {phase_op x, hadamard_op 0}" using that by (metis set_mset_add_mset_insert set_mset_empty set_mset_mset)
  then show ?thesis
    by (auto simp: used_by_def list_ex_iff phase_op_def hadamard_op_def op_actsOn_def controls_contain_def)
qed

lemma reorder_hadamard:
  assumes "initialLayout qc = identity_layout (Suc 0)" and "mset (qc_ops qc) = {#phase_op x, hadamard_op 0#}"
  shows "reorderOperations qc = Some (Inr (qc\<lparr>qc_ops := [hadamard_op 0]\<rparr>))"
proof -
  have acts: "actsOn op q \<longleftrightarrow> op = hadamard_op 0 \<and> q = 0" if "op \<in> set (qc_ops qc)" for op q
  proof -
    have "op \<in># {#phase_op x, hadamard_op 0#}" using that assms(2) by (metis set_mset_mset)
    then show ?thesis
      by (auto simp: phase_op_def hadamard_op_def op_actsOn_def controls_contain_def)
  qed
  have "list_all (qubits_below (Suc 0)) (qc_ops qc)"
    by (auto simp: list_all_iff qubits_below_actsOn acts)
  from reorder_ops_reordering [OF this] obtain ops' where
    re: "reorder_ops (Suc 0) (qc_ops qc) = Some (Inr ops')" "reordering (filter uses_qubits (qc_ops qc)) ops'" by blast
  have "mset ops' = filter_mset uses_qubits {#phase_op x, hadamard_op 0#}"
    using reordering_mset [OF re(2)] assms(2) by simp
  also have "\<dots> = {#hadamard_op 0#}"
    by (auto simp: uses_qubits_actsOn phase_op_def hadamard_op_def op_actsOn_def controls_contain_def)
  finally have "ops' = [hadamard_op 0]" by simp
  with re(1) assms(1) show ?thesis
    using identity_layout_highest [of 0] by (simp add: reorderOperations_def)
qed

theorem isInverseOf_ignores_phases:
  "comp_isInverseOf [hadamard_op 0, phase_op x] (CompoundOp b [phase_op y, hadamard_op 0] cust) = Some (Inr True)"
proof -
  let ?ops = "[hadamard_op 0, phase_op x]" and ?ops' = "[phase_op y, hadamard_op 0]"
  have circuit: "\<exists>qc. compound_circuit ops = Inr qc \<and> qc_ops qc = ops \<and>
    initialLayout qc = identity_layout (Suc 0) \<and> outputPermutation qc = initialLayout qc"
    if "mset ops = {#phase_op z, hadamard_op 0#}" for ops z
  proof (rule compound_circuit_spec [of ops 0])
    note used = used_by_hadamard [OF that]
    show "used_by ops 0" "\<And>q. used_by ops q \<Longrightarrow> q < 2 ^ 32" by (simp_all add: used)
    fix n qc
    assume "compound_circuit ops = Inr qc" "qc_ops qc = ops" "initialLayout qc = identity_layout (Suc n)"
      "outputPermutation qc = initialLayout qc" "used_by ops n"
    then show ?thesis by (auto simp: used)
  qed
  obtain qc1 where c1: "compound_circuit ?ops = Inr qc1" "qc_ops qc1 = ?ops"
    "initialLayout qc1 = identity_layout (Suc 0)" using circuit [of ?ops x] by auto
  obtain qc2 where c2: "compound_circuit ?ops' = Inr qc2" "qc_ops qc2 = ?ops'"
    "initialLayout qc2 = identity_layout (Suc 0)" "outputPermutation qc2 = initialLayout qc2"
    using circuit [of ?ops' y] by auto
  have inv: "op_invert (phase_op y) = Inr (phase_op (- y))" "op_invert (hadamard_op 0) = Inr (hadamard_op 0)"
    by (simp_all add: phase_op_def hadamard_op_def std_invert_def self_inverse_types_def negate_first_types_def)
  define qc3 where "qc3 = qc2\<lparr>qc_ops := [hadamard_op 0, phase_op (- y)]\<rparr>"
  have c3: "qc_invert qc2 = Inr qc3" using c2 inv by (simp add: qc_invert_def qc3_def)
  have "reorderOperations qc1 = Some (Inr (qc1\<lparr>qc_ops := [hadamard_op 0]\<rparr>))"
    by (rule reorder_hadamard [of _ x]) (simp_all add: c1)
  moreover have "reorderOperations qc3 = Some (Inr (qc3\<lparr>qc_ops := [hadamard_op 0]\<rparr>))"
    by (rule reorder_hadamard [of _ "- y"]) (simp_all add: c2 qc3_def)
  moreover have "op_eq (hadamard_op 0) (hadamard_op 0) = Inr True"
    by (rule plain_equal) (simp add: hadamard_op_def)
  ultimately show ?thesis
    by (simp add: comp_isInverseOf_def c1(1) c2(1) c3 and_then_opt_def del: equals.simps)
qed

end
