(* ===== verification/IRGates.thy ===== *)
theory IRGates
  imports IRStandard
begin

text \<open>
  The gate matrices of \<open>src/dd/GateMatrixDefinitions.cpp\<close> and what they say of the gates of
  the circuit representation: \<open>StandardOperation::invert\<close> produces the adjoint matrix, and
  the constructor's rewriting of generic gates keeps the matrix when the angles are exact.

  A matrix entry is a complex number.  The double \<open>PI\<close> stands for the number pi here: an
  angle is read as the parameter scaled by the quotient of the two, which is linear and maps
  \<open>PI\<close> to pi.
\<close>

section \<open>Matrices\<close>

definition angle :: "fp \<Rightarrow> real" where
  "angle x = of_rat x * (pi / of_rat PI)"

definition SQRT2_2 :: real where "SQRT2_2 = sqrt 2 / 2"

type_synonym GateMatrix = "complex list"
type_synonym QubitGateMatrix = "complex list list"

abbreviation cx :: "real \<Rightarrow> real \<Rightarrow> complex" where "cx \<equiv> Complex"

definition uMat :: "fp \<Rightarrow> fp \<Rightarrow> fp \<Rightarrow> GateMatrix" where
  "uMat lam phi theta = (let c = cos (angle theta / 2); s = sin (angle theta / 2) in
     [cx c 0,
      cx (- cos (angle lam) * s) (- sin (angle lam) * s),
      cx (cos (angle phi) * s) (sin (angle phi) * s),
      cx (cos (angle lam + angle phi) * c) (sin (angle lam + angle phi) * c)])"

definition u2Mat :: "fp \<Rightarrow> fp \<Rightarrow> GateMatrix" where
  "u2Mat lam phi =
     [of_real SQRT2_2,
      cx (- cos (angle lam) * SQRT2_2) (- sin (angle lam) * SQRT2_2),
      cx (cos (angle phi) * SQRT2_2) (sin (angle phi) * SQRT2_2),
      cx (cos (angle lam + angle phi) * SQRT2_2) (sin (angle lam + angle phi) * SQRT2_2)]"

definition pMat :: "fp \<Rightarrow> GateMatrix" where
  "pMat lam = [1, 0, 0, cx (cos (angle lam)) (sin (angle lam))]"

definition rxMat :: "fp \<Rightarrow> GateMatrix" where
  "rxMat lam = (let c = cos (angle lam / 2); s = sin (angle lam / 2) in
     [cx c 0, cx 0 (- s), cx 0 (- s), cx c 0])"

definition ryMat :: "fp \<Rightarrow> GateMatrix" where
  "ryMat lam = (let c = cos (angle lam / 2); s = sin (angle lam / 2) in
     [cx c 0, cx (- s) 0, cx s 0, cx c 0])"

definition rzMat :: "fp \<Rightarrow> GateMatrix" where
  "rzMat lam = (let c = cos (angle lam / 2); s = sin (angle lam / 2) in
     [cx c (- s), 0, 0, cx c s])"

definition rMat :: "fp \<Rightarrow> fp \<Rightarrow> GateMatrix" where
  "rMat theta phi = (let c = cos (angle theta / 2); s = sin (angle theta / 2);
       sinPhi = sin (angle phi); cosPhi = cos (angle phi);
       diag = cx c 0; m01 = cx (- s * sinPhi) (- s * cosPhi); m10 = cx (s * sinPhi) (- s * cosPhi)
     in [diag, m01, m10, diag])"

definition rxxMat :: "fp \<Rightarrow> QubitGateMatrix" where
  "rxxMat theta = (let c = of_real (cos (angle theta / 2)); s = sin (angle theta / 2) in
     [[c, 0, 0, cx 0 (- s)],
      [0, c, cx 0 (- s), 0],
      [0, cx 0 (- s), c, 0],
      [cx 0 (- s), 0, 0, c]])"

definition ryyMat :: "fp \<Rightarrow> QubitGateMatrix" where
  "ryyMat theta = (let c = of_real (cos (angle theta / 2)); s = sin (angle theta / 2) in
     [[c, 0, 0, cx 0 s],
      [0, c, cx 0 (- s), 0],
      [0, cx 0 (- s), c, 0],
      [cx 0 s, 0, 0, c]])"

definition rzzMat :: "fp \<Rightarrow> QubitGateMatrix" where
  "rzzMat theta = (let c = cos (angle theta / 2); s = sin (angle theta / 2) in
     [[cx c (- s), 0, 0, 0],
      [0, cx c s, 0, 0],
      [0, 0, cx c s, 0],
      [0, 0, 0, cx c (- s)]])"

definition rzxMat :: "fp \<Rightarrow> QubitGateMatrix" where
  "rzxMat theta = (let c = of_real (cos (angle theta / 2)); s = sin (angle theta / 2) in
     [[c, cx 0 (- s), 0, 0],
      [cx 0 (- s), c, 0, 0],
      [0, 0, c, cx 0 s],
      [0, 0, cx 0 s, c]])"

definition xxMinusYYMat :: "fp \<Rightarrow> fp \<Rightarrow> QubitGateMatrix" where
  "xxMinusYYMat theta beta = (let c = of_real (cos (angle theta / 2)); s = sin (angle theta / 2);
       cosBeta = cos (angle beta); sinBeta = sin (angle beta) in
     [[c, 0, 0, cx (- sinBeta * s) (- cosBeta * s)],
      [0, 1, 0, 0],
      [0, 0, 1, 0],
      [cx (sinBeta * s) (- cosBeta * s), 0, 0, c]])"

definition xxPlusYYMat :: "fp \<Rightarrow> fp \<Rightarrow> QubitGateMatrix" where
  "xxPlusYYMat theta beta = (let c = of_real (cos (angle theta / 2)); s = sin (angle theta / 2);
       cosBeta = cos (angle beta); sinBeta = sin (angle beta) in
     [[1, 0, 0, 0],
      [0, c, cx (sinBeta * s) (- cosBeta * s), 0],
      [0, cx (- sinBeta * s) (- cosBeta * s), c, 0],
      [0, 0, 0, 1]])"

definition opToSingleQubitGateMatrix :: "OpType \<Rightarrow> fp list \<Rightarrow> GateMatrix result" where
  "opToSingleQubitGateMatrix t params = (case t of
       opI \<Rightarrow> Inr [1, 0, 0, 1]
     | opH \<Rightarrow> Inr [of_real SQRT2_2, of_real SQRT2_2, of_real SQRT2_2, - of_real SQRT2_2]
     | opX \<Rightarrow> Inr [0, 1, 1, 0]
     | opY \<Rightarrow> Inr [0, cx 0 (- 1), cx 0 1, 0]
     | opZ \<Rightarrow> Inr [1, 0, 0, - 1]
     | opS \<Rightarrow> Inr [1, 0, 0, cx 0 1]
     | opSdg \<Rightarrow> Inr [1, 0, 0, cx 0 (- 1)]
     | opT \<Rightarrow> Inr [1, 0, 0, cx SQRT2_2 SQRT2_2]
     | opTdg \<Rightarrow> Inr [1, 0, 0, cx SQRT2_2 (- SQRT2_2)]
     | opSX \<Rightarrow> Inr [cx (1/2) (1/2), cx (1/2) (- 1/2), cx (1/2) (- 1/2), cx (1/2) (1/2)]
     | opSXdg \<Rightarrow> Inr [cx (1/2) (- 1/2), cx (1/2) (1/2), cx (1/2) (1/2), cx (1/2) (- 1/2)]
     | opV \<Rightarrow> Inr [of_real SQRT2_2, cx 0 (- SQRT2_2), cx 0 (- SQRT2_2), of_real SQRT2_2]
     | opVdg \<Rightarrow> Inr [of_real SQRT2_2, cx 0 SQRT2_2, cx 0 SQRT2_2, of_real SQRT2_2]
     | opU \<Rightarrow> and_then (at_res params 2) (\<lambda>lam. and_then (at_res params 1) (\<lambda>phi.
         and_then (at_res params 0) (\<lambda>theta. Inr (uMat lam phi theta))))
     | opU2 \<Rightarrow> and_then (at_res params 1) (\<lambda>lam. and_then (at_res params 0) (\<lambda>phi.
         Inr (u2Mat lam phi)))
     | opP \<Rightarrow> and_then (at_res params 0) (\<lambda>lam. Inr (pMat lam))
     | opRX \<Rightarrow> and_then (at_res params 0) (\<lambda>lam. Inr (rxMat lam))
     | opRY \<Rightarrow> and_then (at_res params 0) (\<lambda>lam. Inr (ryMat lam))
     | opRZ \<Rightarrow> and_then (at_res params 0) (\<lambda>lam. Inr (rzMat lam))
     | opR \<Rightarrow> and_then (at_res params 0) (\<lambda>theta. and_then (at_res params 1) (\<lambda>phi.
         Inr (rMat theta phi)))
     | _ \<Rightarrow> Inl InvalidArgument)"

definition opToTwoQubitGateMatrix :: "OpType \<Rightarrow> fp list \<Rightarrow> QubitGateMatrix result" where
  "opToTwoQubitGateMatrix t params = (case t of
       opSWAP \<Rightarrow> Inr [[1, 0, 0, 0], [0, 0, 1, 0], [0, 1, 0, 0], [0, 0, 0, 1]]
     | opiSWAP \<Rightarrow> Inr [[1, 0, 0, 0], [0, 0, cx 0 1, 0], [0, cx 0 1, 0, 0], [0, 0, 0, 1]]
     | opiSWAPdg \<Rightarrow>
         Inr [[1, 0, 0, 0], [0, 0, cx 0 (- 1), 0], [0, cx 0 (- 1), 0, 0], [0, 0, 0, 1]]
     | opECR \<Rightarrow> Inr [[0, 0, of_real SQRT2_2, cx 0 SQRT2_2],
                   [0, 0, cx 0 SQRT2_2, of_real SQRT2_2],
                   [of_real SQRT2_2, cx 0 (- SQRT2_2), 0, 0],
                   [cx 0 (- SQRT2_2), of_real SQRT2_2, 0, 0]]
     | opDCX \<Rightarrow> Inr [[1, 0, 0, 0], [0, 0, 1, 0], [0, 0, 0, 1], [0, 1, 0, 0]]
     | opPeres \<Rightarrow> Inr [[0, 0, 0, 1], [0, 0, 1, 0], [1, 0, 0, 0], [0, 1, 0, 0]]
     | opPeresdg \<Rightarrow> Inr [[0, 0, 1, 0], [0, 0, 0, 1], [0, 1, 0, 0], [1, 0, 0, 0]]
     | opRXX \<Rightarrow> and_then (at_res params 0) (\<lambda>theta. Inr (rxxMat theta))
     | opRYY \<Rightarrow> and_then (at_res params 0) (\<lambda>theta. Inr (ryyMat theta))
     | opRZZ \<Rightarrow> and_then (at_res params 0) (\<lambda>theta. Inr (rzzMat theta))
     | opRZX \<Rightarrow> and_then (at_res params 0) (\<lambda>theta. Inr (rzxMat theta))
     | opXXminusYY \<Rightarrow> and_then (at_res params 0) (\<lambda>theta. and_then (at_res params 1) (\<lambda>beta.
         Inr (xxMinusYYMat theta beta)))
     | opXXplusYY \<Rightarrow> and_then (at_res params 0) (\<lambda>theta. and_then (at_res params 1) (\<lambda>beta.
         Inr (xxPlusYYMat theta beta)))
     | _ \<Rightarrow> Inl InvalidArgument)"

definition opToThreeQubitGateMatrix :: "OpType \<Rightarrow> fp list \<Rightarrow> QubitGateMatrix result" where
  "opToThreeQubitGateMatrix t params = (if t = opRCCX then
       let m = map (\<lambda>i. map (\<lambda>j. if i = j then 1 else 0) [0..<8]) [0..<8];
           set_entry = (\<lambda>m i j v. m[i := (m ! i)[j := v]]);
           m = set_entry m 5 5 (- 1);
           m = set_entry m 6 6 0;
           m = set_entry m 7 7 0;
           m = set_entry m 6 7 (cx 0 (- 1));
           m = set_entry m 7 6 (cx 0 1)
       in Inr m
     else Inl InvalidArgument)"

section \<open>Angles\<close>

lemma angle_simps [simp]:
  "angle 0 = 0" "angle (- x) = - angle x" "angle (x + y) = angle x + angle y"
  "angle (x - y) = angle x - angle y" "angle PI = pi" "angle PI_2 = pi / 2" "angle PI_4 = pi / 4"
  by (simp_all add: angle_def of_rat_minus of_rat_add of_rat_diff of_rat_divide algebra_simps
      PI_2_def PI_4_def) (simp_all add: PI_def of_rat_divide)

lemma SQRT2_2_cos: "cos (pi / 4) = SQRT2_2" "sin (pi / 4) = SQRT2_2"
  by (simp_all add: SQRT2_2_def cos_45 sin_45)

section \<open>The adjoint\<close>

fun adjoint1 :: "GateMatrix \<Rightarrow> GateMatrix" where
  "adjoint1 [a, b, c, d] = [cnj a, cnj c, cnj b, cnj d]"
| "adjoint1 m = m"

definition adjointM :: "QubitGateMatrix \<Rightarrow> QubitGateMatrix" where
  "adjointM m = map (\<lambda>i. map (\<lambda>j. cnj (m ! j ! i)) [0..<length m]) [0..<length m]"

text \<open>Exchanging the two qubits of a two-qubit matrix exchanges its two middle basis states.\<close>

definition swap_qubits :: "QubitGateMatrix \<Rightarrow> QubitGateMatrix" where
  "swap_qubits m = (let \<sigma> = (\<lambda>i. [0, 2, 1, 3] ! i)
     in map (\<lambda>i. map (\<lambda>j. m ! \<sigma> i ! \<sigma> j) [0..<4]) [0..<4])"

lemmas single_mats = uMat_def u2Mat_def pMat_def rxMat_def ryMat_def rzMat_def rMat_def Let_def

lemmas double_mats = rxxMat_def ryyMat_def rzzMat_def rzxMat_def xxMinusYYMat_def xxPlusYYMat_def
  Let_def

lemma upt_4: "[0..<4] = [0, 1, 2, 3]"
  by code_simp

lemma upt_8: "[0..<8] = [0, 1, 2, 3, 4, 5, 6, 7]"
  by code_simp

lemma cos_plus_pi': "cos (pi + x) = - cos x" "sin (pi + x) = - sin x"
  "cos (- pi - x) = - cos x" "sin (- pi - x) = sin x"
  "cos (pi - x) = - cos x" "sin (pi - x) = sin (x :: real)"
  by (simp_all add: cos_add sin_add cos_diff sin_diff)

lemma std_invert_matrix1:
  assumes "std_invert op = Inr op'"
    and "opToSingleQubitGateMatrix (optype op) (parameter op) = Inr M"
  shows "opToSingleQubitGateMatrix (optype op') (parameter op') = Inr (adjoint1 M)"
  using assms
  by (cases "optype op")
    (auto simp: opToSingleQubitGateMatrix_def std_invert_def self_inverse_types_def
      negate_first_types_def and_then_eq_Inr at_res_def single_mats complex_eq_iff
      cos_plus_pi' cos_add sin_add cos_diff sin_diff algebra_simps split: list.splits if_splits)

lemma std_invert_matrix2:
  assumes "std_invert op = Inr op'"
    and "opToTwoQubitGateMatrix (optype op) (parameter op) = Inr M"
  shows "opToTwoQubitGateMatrix (optype op') (parameter op') =
    Inr (if optype op = opDCX then swap_qubits (adjointM M) else adjointM M)"
  using assms
  by (cases "optype op")
    (auto simp: opToTwoQubitGateMatrix_def std_invert_def self_inverse_types_def
      negate_first_types_def and_then_eq_Inr at_res_def double_mats complex_eq_iff
      adjointM_def swap_qubits_def upt_4 split: list.splits if_splits)

lemma std_invert_matrix3:
  assumes "std_invert op = Inr op'"
    and "opToThreeQubitGateMatrix (optype op) (parameter op) = Inr M"
  shows "opToThreeQubitGateMatrix (optype op') (parameter op') = Inr (adjointM M)"
  using assms
  by (auto simp: opToThreeQubitGateMatrix_def std_invert_def self_inverse_types_def
      Let_def adjointM_def upt_8 complex_eq_iff split: if_splits)

section \<open>Rewriting generic gates\<close>

text \<open>
  An angle is exact when it equals every special value that it is within the tolerance of,
  and snapping it to an integer or to a fraction of \<open>PI\<close> does not change it.
\<close>

definition special_angles :: "fp list" where
  "special_angles = [0, PI, - PI, PI_2, - PI_2, PI_4, - PI_4]"

definition exact_angle :: "fp \<Rightarrow> bool" where
  "exact_angle x \<longleftrightarrow> list_all (\<lambda>c. near x c \<longrightarrow> x = c) special_angles \<and> snap x = Inr x"

lemma near_refl [simp]: "near x x"
  by (simp add: near_def PARAMETER_TOLERANCE_def)

lemma near_abs: "near \<bar>x\<bar> c \<Longrightarrow> near x c \<or> near x (- c)"
  by (auto simp: near_def abs_if split: if_splits)

lemma PI_pos [simp]: "0 < PI" "0 < PI_2" "0 < PI_4" "\<not> PI_2 < 0" "\<not> PI_4 < 0"
  by (simp_all add: PI_def PI_2_def PI_4_def)

lemma exact_near:
  assumes "exact_angle x"
  shows "near x 0 \<longleftrightarrow> x = 0" "near x PI \<longleftrightarrow> x = PI" "near x PI_2 \<longleftrightarrow> x = PI_2"
    "near x (- PI_2) \<longleftrightarrow> x = - PI_2" "near \<bar>x\<bar> PI \<longleftrightarrow> x = PI \<or> x = - PI"
    "near \<bar>x\<bar> PI_2 \<longleftrightarrow> x = PI_2 \<or> x = - PI_2" "near \<bar>x\<bar> PI_4 \<longleftrightarrow> x = PI_4 \<or> x = - PI_4"
proof -
  have *: "near x c \<longleftrightarrow> x = c" if "c \<in> set special_angles" for c
    using assms that by (auto simp: exact_angle_def list_all_iff)
  have abs: "near \<bar>x\<bar> c \<longleftrightarrow> x = c \<or> x = - c"
    if "c \<in> set special_angles" "- c \<in> set special_angles" "0 < c" for c
  proof
    assume "near \<bar>x\<bar> c"
    with near_abs * that show "x = c \<or> x = - c" by blast
  next
    assume "x = c \<or> x = - c"
    with that(3) show "near \<bar>x\<bar> c" by auto
  qed
  show "near x 0 \<longleftrightarrow> x = 0" "near x PI \<longleftrightarrow> x = PI" "near x PI_2 \<longleftrightarrow> x = PI_2"
    "near x (- PI_2) \<longleftrightarrow> x = - PI_2" by (rule *, simp add: special_angles_def)+
  show "near \<bar>x\<bar> PI \<longleftrightarrow> x = PI \<or> x = - PI" "near \<bar>x\<bar> PI_2 \<longleftrightarrow> x = PI_2 \<or> x = - PI_2"
    "near \<bar>x\<bar> PI_4 \<longleftrightarrow> x = PI_4 \<or> x = - PI_4"
    by (rule abs; simp add: special_angles_def)+
qed

lemma exact_snap: "exact_angle x \<Longrightarrow> snap x = Inr x"
  by (simp add: exact_angle_def)

abbreviation single_matrix :: "OpType \<times> fp list \<Rightarrow> GateMatrix result" where
  "single_matrix r \<equiv> opToSingleQubitGateMatrix (fst r) (snd r)"

lemma parseU1_matrix:
  assumes "exact_angle lam" and "parseU1 lam = Inr r"
  shows "single_matrix r = Inr (pMat lam)"
  using assms(2) unfolding parseU1_def exact_near [OF assms(1)] exact_snap [OF assms(1)] Let_def
  by (auto simp: opToSingleQubitGateMatrix_def at_res_def pMat_def complex_eq_iff SQRT2_2_cos
      split: if_splits)

lemma parseU2_matrix:
  assumes "exact_angle phi" "exact_angle lam" and "parseU2 phi lam = Inr r"
  shows "single_matrix r = Inr (u2Mat lam phi)"
proof -
  have id: "(if x = c then c else x) = x" for x c :: fp by simp
  show ?thesis
    using assms(3)
    unfolding parseU2_def exact_near [OF assms(1)] exact_near [OF assms(2)] Let_def id
      exact_snap [OF assms(1)] exact_snap [OF assms(2)]
    by (auto simp: opToSingleQubitGateMatrix_def at_res_def single_mats complex_eq_iff SQRT2_2_cos
        exact_near [OF assms(1)] exact_near [OF assms(2)]
        exact_snap [OF assms(1)] exact_snap [OF assms(2)] split: if_splits)
qed

lemma pi_half_half: "pi / 2 / 2 = pi / 4" "cos (pi / 2 / 2) = SQRT2_2" "sin (pi / 2 / 2) = SQRT2_2"
  by (simp_all add: SQRT2_2_cos)

lemma uMat_special: "uMat lam 0 0 = pMat lam" "uMat lam phi PI_2 = u2Mat lam phi"
  by (simp_all add: single_mats complex_eq_iff SQRT2_2_cos)

lemma parseU3_matrix:
  assumes ex: "exact_angle theta" "exact_angle phi" "exact_angle lam"
    and "parseU3 theta phi lam = Inr r"
  shows "single_matrix r = Inr (uMat lam phi theta)"
proof -
  have id: "(if x = c then c else x) = x" "(if P \<and> x = c then c else x) = x" for x c :: fp and P
    by simp_all
  note eqs = exact_near [OF ex(1)] exact_near [OF ex(2)] exact_near [OF ex(3)]
    exact_snap [OF ex(1)] exact_snap [OF ex(2)] exact_snap [OF ex(3)]
  consider (p) "theta = 0" "phi = 0" "parseU1 lam = Inr r"
    | (u2) "theta = PI_2" "parseU2 phi lam = Inr r"
    | (ry) "lam = 0" "phi = 0" "r = (opRY, [theta])"
    | (rx) "lam = PI_2" "phi = - PI_2" "r = (opRX, [theta])"
    | (y) "lam = PI_2" "phi = PI_2" "theta = PI" "r = (opY, [])"
    | (rxn) "lam = - PI_2" "phi = PI_2" "r = (opRX, [- theta])"
    | (x) "lam = PI" "phi = 0" "theta = PI" "r = (opX, [])"
    | (u) "r = (opU, [theta, phi, lam])"
    using assms(4) unfolding parseU3_def eqs Let_def id and_then.simps
    by (auto simp: eqs split: if_splits)
  then show ?thesis
  proof cases
    case p
    then show ?thesis using parseU1_matrix [OF ex(3)] by (simp add: uMat_special)
  next
    case u2
    then show ?thesis using parseU2_matrix [OF ex(2,3)] by (simp add: uMat_special)
  qed (simp_all add: opToSingleQubitGateMatrix_def at_res_def single_mats complex_eq_iff)
qed

lemma checkUgate_matrix:
  assumes "list_all exact_angle ps" and "checkUgate t ps = Inr (t', ps')"
    and "t \<in> {opP, opU2, opU}"
  shows "opToSingleQubitGateMatrix t' ps' = opToSingleQubitGateMatrix t ps"
  using assms parseU1_matrix [of _ "(t', ps')"] parseU2_matrix [of _ _ "(t', ps')"]
    parseU3_matrix [of _ _ _ "(t', ps')"]
  by (auto simp: checkUgate_def opToSingleQubitGateMatrix_def [of opP]
      opToSingleQubitGateMatrix_def [of opU2] opToSingleQubitGateMatrix_def [of opU] at_res_def
      split: if_splits list.splits)

end
