(* ===== verification/IRSamples.thy ===== *)
theory IRSamples
  imports IRInverse IRGates
begin

text \<open>
  Concrete circuits and operations at which the properties of the circuit representation are
  applied: a circuit built through the interface of \<open>QuantumComputation\<close> with a Hadamard gate, a
  controlled X gate, a measurement of both qubits and a reset.
\<close>

definition build_sample :: "QuantumComputation result" where
  "build_sample =
     and_then (addQubitRegister 2 ''q'' (empty_qc 0)) (\<lambda>qc.
     and_then (addClassicalRegister 2 ''c'' qc) (\<lambda>qc.
     and_then (mc_single_target ''h'' [] 0 qc) (\<lambda>qc.
     and_then (mc_single_target ''x'' [Control 0 Pos] 1 qc) (\<lambda>qc.
     and_then (measure_list [0, 1] [0, 1] qc) (\<lambda>qc.
     reset_list [1] qc)))))"

fun the_Inr :: "'a result \<Rightarrow> 'a" where
  "the_Inr (Inr x) = x"
| "the_Inr (Inl e) = undefined"

definition sample_qc :: QuantumComputation where
  "sample_qc = the_Inr build_sample"

lemma op_names: "opTypeFromString ''h'' = Inr opH" "opTypeFromString ''x'' = Inr opX"
  by code_simp+

lemma upt_2: "[0..<2] = [0, 1 :: nat]"
  by code_simp

lemmas builder_defs = addQubitRegister_def addClassicalRegister_def empty_qc_def Let_def upt_2
  cast32_def add_identity_def regs_try_emplace_def mc_single_target_def checkGateRange_def checkQubitRange_def
  checkQubitRanges_def getNqubits_def append_standard_def op_names StandardOperation_controlled_def
  StandardOperation_new_def checkUgate_def std_addControls_def std_addControl_def op_actsOn_def
  controls_contain_def emplace_back_def measure_list_def checkBitRanges_def checkBitRange_def guard_res_def
  NonUnitaryOperation_measure_def reset_list_def NonUnitaryOperation_new_def empty_base_def

definition sample_gates :: "Operation list" where
  "sample_gates = [
     StandardOp \<lparr>controls = [], targets = [0], parameter = [], optype = opH, opname = op_toString opH\<rparr>,
     StandardOp \<lparr>controls = [Control 0 Pos], targets = [1], parameter = [], optype = opX, opname = op_toString opX\<rparr>]"

definition sample_ops :: "Operation list" where
  "sample_ops = sample_gates @ [
     NonUnitaryOp \<lparr>controls = [], targets = [0, 1], parameter = [], optype = opMeasure,
       opname = op_toString opMeasure\<rparr> [0, 1],
     NonUnitaryOp \<lparr>controls = [], targets = [1], parameter = [], optype = opReset,
       opname = op_toString opReset\<rparr> []]"

lemma build_sample_spec:
  "\<exists>qc. build_sample = Inr qc \<and> qc_ops qc = sample_ops \<and> nqubits qc = 2 \<and> nancillae qc = 0 \<and>
    nclassics qc = 2 \<and> classicalRegisters qc = [(''c'', mk_register ''c'' 0 2)]"
  by (simp add: build_sample_def builder_defs sample_ops_def sample_gates_def)

lemma build_sample_result: "build_sample = Inr sample_qc"
  using build_sample_spec unfolding sample_qc_def by (metis the_Inr.simps(1))

lemma sample_qc_fields:
  "qc_ops sample_qc = sample_ops" "getNqubits sample_qc = 2" "nclassics sample_qc = 2"
  "map_of (classicalRegisters sample_qc) ''meas'' = None"
  using build_sample_spec by (auto simp: build_sample_result getNqubits_def)

lemma sample_reachable: "reachable sample_qc"
proof -
  from build_sample_result obtain qc1 qc2 qc3 qc4 qc5 where
    1: "addQubitRegister 2 ''q'' (empty_qc 0) = Inr qc1" and 2: "addClassicalRegister 2 ''c'' qc1 = Inr qc2"
    and 3: "mc_single_target ''h'' [] 0 qc2 = Inr qc3"
    and 4: "mc_single_target ''x'' [Control 0 Pos] 1 qc3 = Inr qc4"
    and 5: "measure_list [0, 1] [0, 1] qc4 = Inr qc5" and 6: "reset_list [1] qc5 = Inr sample_qc"
    unfolding build_sample_def and_then_eq_Inr by blast
  have "getNqubits (empty_qc 0) + 2 \<le> 2 ^ 32" by (simp add: empty_qc_def getNqubits_def)
  with 1 have "reachable qc1" by (intro reachable_step [OF reachable_new] build_step.intros(1))
  from reachable_step [OF this build_step.intros(3) [OF 2]] have "reachable qc2" .
  from reachable_step [OF this build_step.intros(7) [OF 3]] have "reachable qc3" .
  from reachable_step [OF this build_step.intros(7) [OF 4]] have "reachable qc4" .
  from reachable_step [OF this build_step.intros(16) [OF 5]] have "reachable qc5" .
  from reachable_step [OF this build_step.intros(20) [OF 6]] show ?thesis .
qed

lemma sample_gates_plain: "list_all plain sample_gates"
  by (simp add: sample_gates_def)

lemma sample_gates_used: "used_by sample_gates q \<longleftrightarrow> q = 0 \<or> q = 1"
  by (auto simp: sample_gates_def used_by_def op_actsOn_def controls_contain_def)

lemma sample_gates_invert: "op_invert (CompoundOp b sample_gates c) = Inr (CompoundOp b (rev sample_gates) c)"
  by (simp add: sample_gates_def std_invert_def self_inverse_types_def)

lemma sample_ops_below: "list_all (qubits_below 2) sample_ops"
  by (auto simp: sample_ops_def sample_gates_def qubits_below_actsOn op_actsOn_def controls_contain_def)

lemma sample_depth: "getDepth sample_qc = Inr 4"
  by (simp add: getDepth_def sample_qc_fields sample_ops_def sample_gates_def op_addDepthContribution_def
    op_qubit_list_def deref_res_def numeral_2_eq_2)

lemma sample_variable_free: "isVariableFree sample_qc"
  by (simp add: isVariableFree_def sample_qc_fields sample_ops_def sample_gates_def)

end
