(* ===== verification/DDNode.thy ===== *)
theory DDNode
  imports IRGates
begin

text \<open>
  Matrix decision diagrams (\<open>src/dd/\<close>, \<open>include/mqt-core/dd/\<close>): nodes and edges, normalisation
  (\<open>CachedEdge::normalize\<close>), \<open>Package::makeDDNode\<close> with its removal of identity nodes, and the
  matrix that an edge denotes.

  A pointer to a node is the tree below it, and the null pointer of the terminal is
  \<open>MTerminal\<close>: the unique table makes equal nodes equal pointers, so pointer comparison is
  equality of trees.  The numerical side of the package is the record \<open>Numbers\<close>: the tolerance
  \<open>RealNumber::eps\<close>, a static variable that can be set, and the entry that the table of
  numbers returns for a value.  Numbers are exact complex numbers; the theorems about matrices
  are for the tolerance zero, at which the table returns the value itself.
\<close>

section \<open>Numbers\<close>

record Numbers =
  num_eps :: real
  cn_lookup :: "complex \<Rightarrow> complex"

definition exact :: "Numbers \<Rightarrow> bool" where
  "exact N \<longleftrightarrow> num_eps N = 0 \<and> cn_lookup N = id"

definition exact_numbers :: Numbers where
  "exact_numbers = \<lparr>num_eps = 0, cn_lookup = id\<rparr>"

lemma exact_exact_numbers: "exact exact_numbers"
  by (simp add: exact_def exact_numbers_def)

definition approximatelyZero :: "Numbers \<Rightarrow> complex \<Rightarrow> bool" where
  "approximatelyZero N w \<longleftrightarrow> \<bar>Re w\<bar> \<le> num_eps N \<and> \<bar>Im w\<bar> \<le> num_eps N"

definition mag2 :: "complex \<Rightarrow> real" where
  "mag2 w = Re w * Re w + Im w * Im w"

lemma exact_zero: "exact N \<Longrightarrow> approximatelyZero N w \<longleftrightarrow> w = 0"
  by (auto simp: exact_def approximatelyZero_def complex_eq_iff)

lemma exact_lookup: "exact N \<Longrightarrow> cn_lookup N w = w"
  by (simp add: exact_def)

section \<open>Nodes and edges\<close>

datatype mNode = MTerminal | MNode nat "(mNode \<times> complex) list"

type_synonym mEdge = "mNode \<times> complex"

definition mterminal :: "complex \<Rightarrow> mEdge" where "mterminal w = (MTerminal, w)"

definition mzero :: mEdge where "mzero = (MTerminal, 0)"

definition mone :: mEdge where "mone = (MTerminal, 1)"

fun isTerminal :: "mEdge \<Rightarrow> bool" where
  "isTerminal (p, w) = (p = MTerminal)"

fun edge_isIdentity :: "mEdge \<Rightarrow> bool" where
  "edge_isIdentity (p, w) = (p = MTerminal \<and> w \<noteq> 0)"

fun node_var :: "mNode \<Rightarrow> nat" where
  "node_var (MNode v es) = v"
| "node_var MTerminal = 0"

fun node_edges :: "mNode \<Rightarrow> mEdge list" where
  "node_edges (MNode v es) = es"
| "node_edges MTerminal = []"

section \<open>Normalisation\<close>

text \<open>The loop that looks for the entry with the largest magnitude, and the weights that result.\<close>

definition scan_weight :: "Numbers \<Rightarrow> mEdge list \<Rightarrow> nat \<Rightarrow>
    nat option \<times> real \<times> complex \<Rightarrow> nat option \<times> real \<times> complex" where
  "scan_weight N es i st = (case st of (argMax, maxMag2, maxVal) \<Rightarrow>
     let w = snd (es ! i)
     in if approximatelyZero N w then st
        else case argMax of
          None \<Rightarrow> (Some i, mag2 w, w)
        | Some _ \<Rightarrow> if num_eps N < mag2 w - maxMag2 then (Some i, mag2 w, w) else st)"

definition normalize_child :: "Numbers \<Rightarrow> nat \<Rightarrow> complex \<Rightarrow> nat \<Rightarrow> mEdge \<Rightarrow> mEdge" where
  "normalize_child N argMax maxVal i e = (
     if approximatelyZero N (snd e) then mzero
     else if i = argMax then (fst e, 1)
     else let w = cn_lookup N (snd e / maxVal) in (if w = 0 then MTerminal else fst e, w))"

definition mnormalize :: "Numbers \<Rightarrow> nat \<Rightarrow> mEdge list \<Rightarrow> mEdge" where
  "mnormalize N v es = (
     if list_all (\<lambda>e. approximatelyZero N (snd e)) es then mzero
     else case fold (scan_weight N es) [0..<4] (None, 0, 1) of (argMax, _, maxVal) \<Rightarrow>
       (MNode v (map (\<lambda>i. normalize_child N (the argMax) maxVal i (es ! i)) [0..<4]), maxVal))"

text \<open>The table of numbers gives the edge its weight back; an edge of weight zero ends in the terminal.\<close>

definition lookup_edge :: "Numbers \<Rightarrow> mEdge \<Rightarrow> mEdge" where
  "lookup_edge N e = (let w = cn_lookup N (snd e) in (if w = 0 then MTerminal else fst e, w))"

text \<open>A node that \<open>makeDDNode\<close> skips: both diagonal successors are the same, and the others are zero.\<close>

definition identity_node :: "mEdge list \<Rightarrow> bool" where
  "identity_node cs \<longleftrightarrow> fst (cs ! 0) = fst (cs ! 3) \<and>
     snd (cs ! 0) = 1 \<and> snd (cs ! 1) = 0 \<and> snd (cs ! 2) = 0 \<and> snd (cs ! 3) = 1"

definition makeDDNode :: "Numbers \<Rightarrow> nat \<Rightarrow> mEdge list \<Rightarrow> mEdge" where
  "makeDDNode N v es = (let e = mnormalize N v es; cs = node_edges (fst e)
     in if \<not> isTerminal e \<and> identity_node cs then (fst (cs ! 0), snd e) else e)"

text \<open>Facts that evaluate \<open>makeDDNode\<close> on concrete edges.\<close>

lemma exact_numbers_eps [simp]: "num_eps exact_numbers = 0"
  by (simp add: exact_numbers_def)

lemmas makeDDNode_eval = makeDDNode_def mnormalize_def scan_weight_def normalize_child_def identity_node_def
  exact_zero [OF exact_exact_numbers] exact_lookup [OF exact_exact_numbers] upt_4 Let_def mzero_def mone_def
  mag2_def

section \<open>The matrix of an edge\<close>

text \<open>
  \<open>den k e x y\<close> is the entry in row \<open>x\<close> and column \<open>y\<close> of the matrix that the edge denotes on
  the qubits below \<open>k\<close>.  A qubit without a node on the path carries the identity.
\<close>

definition child_index :: "nat \<Rightarrow> (nat \<Rightarrow> bool) \<Rightarrow> (nat \<Rightarrow> bool) \<Rightarrow> nat" where
  "child_index v x y = 2 * of_bool (x v) + of_bool (y v)"

fun den :: "nat \<Rightarrow> mEdge \<Rightarrow> (nat \<Rightarrow> bool) \<Rightarrow> (nat \<Rightarrow> bool) \<Rightarrow> complex" where
  "den 0 e x y = snd e"
| "den (Suc k) e x y = (
     if fst e \<noteq> MTerminal \<and> node_var (fst e) = k
     then snd e * den k (node_edges (fst e) ! child_index k x y) x y
     else if x k = y k then den k e x y else 0)"

text \<open>Diagrams below level \<open>k\<close>: ordered, with four successors at every node.\<close>

inductive mwf :: "nat \<Rightarrow> mNode \<Rightarrow> bool" where
  mwf_terminal: "mwf k MTerminal"
| mwf_node: "v < k \<Longrightarrow> length es = 4 \<Longrightarrow> \<forall>i < 4. mwf v (fst (es ! i)) \<Longrightarrow> mwf k (MNode v es)"

inductive_simps mwf_MNode: "mwf k (MNode v es)"

definition edges_ok :: "nat \<Rightarrow> mEdge list \<Rightarrow> bool" where
  "edges_ok v es \<longleftrightarrow> length es = 4 \<and> (\<forall>i < 4. mwf v (fst (es ! i)))"

lemma mwf_node_iff: "mwf k (MNode v es) \<longleftrightarrow> v < k \<and> edges_ok v es"
  by (simp add: mwf_MNode edges_ok_def)

lemma mwf_Terminal [simp]: "mwf k MTerminal"
  by (rule mwf_terminal)

lemma mwf_mono: "mwf k p \<Longrightarrow> k \<le> l \<Longrightarrow> mwf l p"
  by (cases p) (auto simp: mwf_node_iff)

lemma child_index_less: "child_index v x y < 4"
  by (simp add: child_index_def)

lemma den_scale: "den k (p, w) x y = w * den k (p, 1) x y"
proof (induction k)
  case (Suc k)
  then show ?case by (cases "p \<noteq> MTerminal \<and> node_var p = k") auto
qed simp

lemma den_zero [simp]: "den k (p, 0) x y = 0"
  by (subst den_scale) simp

lemma den_cong:
  "(\<And>i. i < k \<Longrightarrow> x i = x' i) \<Longrightarrow> (\<And>i. i < k \<Longrightarrow> y i = y' i) \<Longrightarrow> den k e x y = den k e x' y'"
  by (induction k arbitrary: e) (simp_all add: child_index_def)

lemma den_skip:
  "mwf k p \<Longrightarrow> den (Suc k) (p, w) x y = (if x k = y k then den k (p, w) x y else 0)"
  by (cases p) (auto simp: mwf_node_iff)

lemma den_node:
  "den (Suc k) (MNode k es, w) x y = w * den k (es ! child_index k x y) x y"
  by simp

section \<open>Normalisation keeps the matrix\<close>

text \<open>
  The successors of a node are normalised when the first entry of largest magnitude is one.
\<close>

definition normalized :: "mEdge list \<Rightarrow> bool" where
  "normalized cs \<longleftrightarrow> (\<exists>i < 4. snd (cs ! i) = 1 \<and> (\<forall>j < i. mag2 (snd (cs ! j)) < 1)) \<and>
     (\<forall>j < 4. mag2 (snd (cs ! j)) \<le> 1)"

lemma mag2_simps [simp]: "mag2 0 = 0" "mag2 1 = 1"
  by (simp_all add: mag2_def)

lemma mag2_cmod: "mag2 w = (cmod w)\<^sup>2"
  unfolding mag2_def cmod_power2 by (simp add: power2_eq_square)

lemma mag2_mult: "mag2 (v * w) = mag2 v * mag2 w" and mag2_divide: "mag2 (v / w) = mag2 v / mag2 w"
  by (simp_all add: mag2_cmod norm_mult norm_divide power_mult_distrib power_divide)

lemma mag2_pos [simp]: "0 < mag2 w \<longleftrightarrow> w \<noteq> 0"
  by (simp add: mag2_cmod)

definition scan_ok :: "mEdge list \<Rightarrow> nat \<Rightarrow> nat option \<times> real \<times> complex \<Rightarrow> bool" where
  "scan_ok es n st \<longleftrightarrow> (case st of (argMax, maxMag2, maxVal) \<Rightarrow>
     (case argMax of
        None \<Rightarrow> \<forall>i < n. snd (es ! i) = 0
      | Some i \<Rightarrow> i < n \<and> maxVal = snd (es ! i) \<and> maxMag2 = mag2 maxVal \<and> 0 < maxMag2 \<and>
          (\<forall>j < i. mag2 (snd (es ! j)) < maxMag2) \<and> (\<forall>j < n. mag2 (snd (es ! j)) \<le> maxMag2)))"

lemma scan_weight_ok:
  assumes "exact N" and "scan_ok es n st"
  shows "scan_ok es (Suc n) (scan_weight N es n st)"
proof -
  obtain am mm w where st: "st = (am, mm, w)" by (metis prod_cases3)
  note defs = scan_weight_def exact_zero [OF assms(1)] st Let_def
  have eps: "num_eps N = 0" using assms(1) by (simp add: exact_def)
  consider "snd (es ! n) = 0" | "snd (es ! n) \<noteq> 0" "am = None"
    | i where "snd (es ! n) \<noteq> 0" "am = Some i" by (cases am) auto
  then show ?thesis
  proof cases
    case 1
    then have "scan_weight N es n st = st" by (simp add: defs)
    with 1 assms(2) show ?thesis
      by (simp add: scan_ok_def st less_Suc_eq split: option.splits) (auto simp: less_imp_le)
  next
    case 2
    then show ?thesis using assms(2) by (auto simp: scan_ok_def defs less_Suc_eq less_imp_le)
  next
    case 3
    show ?thesis
    proof (cases "mm < mag2 (snd (es ! n))")
      case True
      with 3 assms(2) show ?thesis
        by (force simp: scan_ok_def defs eps less_Suc_eq)
    next
      case False
      with 3 assms(2) show ?thesis
        by (auto simp: scan_ok_def defs eps less_Suc_eq)
    qed
  qed
qed

lemma scan_weights_ok: "exact N \<Longrightarrow> scan_ok es n (fold (scan_weight N es) [0..<n] (None, 0, 1))"
  by (induction n) (simp_all add: scan_weight_ok, simp add: scan_ok_def)

lemma mnormalize_cases:
  assumes "exact N" and "length es = 4"
  obtains (zero) "mnormalize N v es = mzero" "\<forall>i < 4. snd (es ! i) = 0"
    | (node) cs w where "mnormalize N v es = (MNode v cs, w)" "length cs = 4"
      "\<And>j. j < 4 \<Longrightarrow> cs ! j = (if snd (es ! j) = 0 then mzero else (fst (es ! j), snd (es ! j) / w))" "w \<noteq> 0"
      "normalized cs"
proof (cases "list_all (\<lambda>e. snd e = 0) es")
  case True
  then show thesis using zero assms by (simp add: mnormalize_def exact_zero [OF assms(1)] list_all_length)
next
  case False
  obtain am mm w where f: "fold (scan_weight N es) [0..<4] (None, 0, 1) = (am, mm, w)" by (metis prod_cases3)
  from scan_weights_ok [OF assms(1), of es 4] f have "scan_ok es 4 (am, mm, w)" by simp
  with False assms(2) obtain i where i: "am = Some i" "i < 4" "w = snd (es ! i)" "w \<noteq> 0"
    "\<forall>j < i. mag2 (snd (es ! j)) < mag2 w" "\<forall>j < 4. mag2 (snd (es ! j)) \<le> mag2 w"
    by (cases am) (auto simp: scan_ok_def list_all_length)
  define cs where "cs = map (\<lambda>j. normalize_child N i w j (es ! j)) [0..<4]"
  have cs: "cs ! j = (if snd (es ! j) = 0 then mzero else (fst (es ! j), snd (es ! j) / w))"
    if j: "j < 4" for j
  proof -
    from j have cs_j: "cs ! j = normalize_child N i w j (es ! j)" by (simp add: cs_def)
    note child = normalize_child_def exact_zero [OF assms(1)] exact_lookup [OF assms(1)] Let_def
    show ?thesis
    proof (cases "j = i")
      case True
      then have one: "snd (es ! j) / w = 1" and nz: "snd (es ! j) \<noteq> 0" using i(3,4) by simp_all
      show ?thesis unfolding cs_j child one using nz True by simp
    next
      case False
      show ?thesis unfolding cs_j child using False i(4) by simp
    qed
  qed
  have weight: "snd (cs ! j) = snd (es ! j) / w" if "j < 4" for j
    by (simp add: cs [OF that] mzero_def)
  show thesis
  proof (rule node)
    show "mnormalize N v es = (MNode v cs, w)"
      using False by (simp add: mnormalize_def exact_zero [OF assms(1)] f i(1) cs_def)
    show "length cs = 4" by (simp add: cs_def)
    show "w \<noteq> 0" by (rule i(4))
    have "mag2 (snd (cs ! j)) < 1" if "j < i" for j
      using i(2,4,5) that weight [of j] by (simp add: mag2_divide)
    moreover have "mag2 (snd (cs ! j)) \<le> 1" if "j < 4" for j
      using i(4,6) that weight [of j] by (simp add: mag2_divide)
    moreover have "snd (cs ! i) = 1" using weight [OF i(2)] i(3,4) by simp
    ultimately show "normalized cs" using i(2) unfolding normalized_def by blast
  qed (rule cs)
qed

lemma den_pair: "den k e x y = snd e * den k (fst e, 1) x y"
  using den_scale [of k "fst e" "snd e"] by simp

lemma lookup_edge_ok:
  "exact N \<Longrightarrow> mwf k (fst e) \<Longrightarrow> mwf k (fst (lookup_edge N e)) \<and> den k (lookup_edge N e) x y = den k e x y"
  using den_pair [of k e x y] by (simp add: lookup_edge_def exact_lookup Let_def)

lemma mnormalize_ok:
  assumes ex: "exact N" and es: "edges_ok v es"
  shows "mwf (Suc v) (fst (mnormalize N v es)) \<and> (fst (mnormalize N v es) \<noteq> MTerminal \<longrightarrow>
      node_var (fst (mnormalize N v es)) = v) \<and>
    den (Suc v) (mnormalize N v es) x y = den v (es ! child_index v x y) x y"
proof -
  have "length es = 4" using es by (simp add: edges_ok_def)
  from ex this show ?thesis
  proof (cases rule: mnormalize_cases [where v = v])
    case zero
    then show ?thesis
      using den_pair [of v "es ! child_index v x y" x y] child_index_less [of v x y] by (simp add: mzero_def)
  next
    case (node cs w)
    have "mwf v (fst (cs ! j))" if "j < 4" for j
      using es that by (simp add: node(3) edges_ok_def mzero_def)
    then have "mwf (Suc v) (MNode v cs)"
      using node(2) by (auto simp: mwf_node_iff edges_ok_def)
    moreover have "w * den v (cs ! j) x y = den v (es ! j) x y" if "j < 4" for j
      using node(4) that den_pair [of v "es ! j" x y] den_pair [of v "cs ! j" x y]
      by (simp add: node(3) mzero_def)
    ultimately show ?thesis using child_index_less [of v x y] by (simp add: node(1))
  qed
qed

lemma node_list_4: "length cs = 4 \<Longrightarrow> cs = [cs ! 0, cs ! 1, cs ! 2, cs ! 3]"
  by (rule nth_equalityI) (auto simp: less_Suc_eq numeral_eq_Suc)

text \<open>A node that looks like the identity denotes what its first successor denotes.\<close>

lemma den_identity_node:
  assumes "mwf v p" and "cs ! 0 = (p, 1)" "snd (cs ! 1) = 0" "snd (cs ! 2) = 0" "cs ! 3 = (p, 1)"
  shows "den (Suc v) (MNode v cs, w) x y = den (Suc v) (p, w) x y"
proof -
  have "den v (cs ! child_index v x y) x y = (if x v = y v then den v (p, 1) x y else 0)"
  proof -
    have zero: "den v (cs ! 1) x y = 0" "den v (cs ! 2) x y = 0"
      using assms(3,4) den_pair [of v "cs ! 1" x y] den_pair [of v "cs ! 2" x y] by simp_all
    show ?thesis
      using zero assms(2,5) by (cases "x v"; cases "y v") (simp_all add: child_index_def)
  qed
  then show ?thesis
    by (simp only: den_node den_skip [OF assms(1)] den_scale [of v p w]) simp
qed

lemma makeDDNode_ok:
  assumes ex: "exact N" and es: "edges_ok v es"
  shows "mwf (Suc v) (fst (makeDDNode N v es)) \<and>
    den (Suc v) (makeDDNode N v es) x y = den v (es ! child_index v x y) x y"
proof -
  obtain p w where e: "mnormalize N v es = (p, w)" by force
  note norm = mnormalize_ok [OF ex es, of x y, unfolded e fst_conv]
  show ?thesis
  proof (cases "\<not> isTerminal (p, w) \<and> identity_node (node_edges p)")
    case False
    then have "makeDDNode N v es = (p, w)" unfolding makeDDNode_def e Let_def fst_conv by (simp only: if_False)
    then show ?thesis using norm by simp
  next
    case True
    then obtain cs where p: "p = MNode v cs" using norm by (cases p) auto
    define q where "q = fst (cs ! 0)"
    have cs: "cs ! 0 = (q, 1)" "cs ! 3 = (q, 1)" "snd (cs ! 1) = 0" "snd (cs ! 2) = 0"
      using True by (simp_all add: p q_def prod_eq_iff identity_node_def)
    have "mwf v q" using norm p by (auto simp: mwf_node_iff edges_ok_def q_def)
    moreover have "makeDDNode N v es = (q, w)" using True by (simp add: makeDDNode_def e Let_def p q_def)
    moreover have "mwf (Suc v) q" by (rule mwf_mono [OF \<open>mwf v q\<close>]) simp
    ultimately show ?thesis
      using norm den_identity_node [OF \<open>mwf v q\<close> cs(1,3,4,2), of w x y] by (simp only: p fst_conv)
  qed
qed

end
