(* ===== verification/DDCanonical.thy ===== *)
theory DDCanonical
  imports DDNode
begin

text \<open>
  Matrix diagrams are canonical: among the diagrams that \<open>makeDDNode\<close> builds, two edges that
  denote the same matrix are the same edge.  This is what lets the package decide the
  equality of two matrices by comparing a pointer and a weight.

  A canonical diagram is ordered, its nodes are normalised and none of them is a node that
  \<open>makeDDNode\<close> skips; an edge of weight zero ends in the terminal.
\<close>

section \<open>Canonical diagrams\<close>

inductive canonical :: "nat \<Rightarrow> mNode \<Rightarrow> bool" where
  canonical_terminal: "canonical k MTerminal"
| canonical_node: "v < k \<Longrightarrow> length es = 4 \<Longrightarrow>
    \<forall>i < 4. canonical v (fst (es ! i)) \<and> (snd (es ! i) = 0 \<longrightarrow> fst (es ! i) = MTerminal) \<Longrightarrow>
    normalized es \<Longrightarrow> \<not> identity_node es \<Longrightarrow> canonical k (MNode v es)"

inductive_simps canonical_MNode: "canonical k (MNode v es)"

definition edge_canonical :: "nat \<Rightarrow> mEdge \<Rightarrow> bool" where
  "edge_canonical k e \<longleftrightarrow> canonical k (fst e) \<and> (snd e = 0 \<longrightarrow> fst e = MTerminal)"

lemma canonical_Terminal [simp]: "canonical k MTerminal"
  by (rule canonical_terminal)

lemma canonical_mono: "canonical k p \<Longrightarrow> k \<le> l \<Longrightarrow> canonical l p"
  by (cases p) (auto simp: canonical_MNode)

lemma canonical_mwf: "canonical k p \<Longrightarrow> mwf k p"
proof (induction k p rule: canonical.induct)
  case (canonical_node v k es)
  then show ?case by (simp add: mwf_node_iff edges_ok_def)
qed simp

lemma canonical_child: "canonical k (MNode v es) \<Longrightarrow> i < 4 \<Longrightarrow> edge_canonical v (es ! i)"
  by (simp add: canonical_MNode edge_canonical_def)

lemma canonical_cases:
  assumes "canonical (Suc k) p"
  obtains (below) "canonical k p" "p = MTerminal \<or> node_var p < k"
    | (here) es where "p = MNode k es" "length es = 4" "normalized es" "\<not> identity_node es"
      "\<And>i. i < 4 \<Longrightarrow> edge_canonical k (es ! i)"
  using assms by (cases p) (auto simp: canonical_MNode less_Suc_eq edge_canonical_def)

lemma lookup_edge_canonical: "exact N \<Longrightarrow> canonical k (fst e) \<Longrightarrow> edge_canonical k (lookup_edge N e)"
  by (simp add: lookup_edge_def exact_lookup edge_canonical_def Let_def)

section \<open>Construction\<close>

lemma makeDDNode_canonical:
  assumes ex: "exact N" and "length es = 4" and es: "\<And>i. i < 4 \<Longrightarrow> canonical v (fst (es ! i))"
  shows "edge_canonical (Suc v) (makeDDNode N v es)"
  using assms(1,2)
proof (cases rule: mnormalize_cases [where v = v])
  case zero
  then show ?thesis by (simp add: makeDDNode_def mzero_def edge_canonical_def)
next
  case (node cs w)
  have cs: "canonical v (fst (cs ! i)) \<and> (snd (cs ! i) = 0 \<longrightarrow> fst (cs ! i) = MTerminal)" if "i < 4" for i
    using es [OF that] node(4) by (simp add: node(3) [OF that] mzero_def)
  show ?thesis
  proof (cases "identity_node cs")
    case True
    then have "makeDDNode N v es = (fst (cs ! 0), w)" by (simp add: makeDDNode_def node(1) Let_def)
    then show ?thesis using cs [of 0] node(4) canonical_mono [of v "fst (cs ! 0)" "Suc v"]
      by (simp add: edge_canonical_def)
  next
    case False
    then have "makeDDNode N v es = (MNode v cs, w)" by (simp add: makeDDNode_def node(1) Let_def)
    moreover have "canonical (Suc v) (MNode v cs)"
      by (rule canonical_node) (use cs node(2,5) False in simp_all)
    ultimately show ?thesis using node(4) by (simp add: edge_canonical_def)
  qed
qed

lemma makeDDNode_zero:
  assumes "exact N" and "length es = 4"
  shows "snd (makeDDNode N v es) = 0 \<longrightarrow> fst (makeDDNode N v es) = MTerminal"
  using assms
  by (cases rule: mnormalize_cases [where v = v]) (auto simp: makeDDNode_def mzero_def Let_def)

section \<open>Uniqueness\<close>

text \<open>The four submatrices of an edge at its highest qubit.\<close>

definition quadrant :: "nat \<Rightarrow> mEdge \<Rightarrow> nat \<Rightarrow> mEdge" where
  "quadrant k e i = (if fst e \<noteq> MTerminal \<and> node_var (fst e) = k
     then (fst (node_edges (fst e) ! i), snd e * snd (node_edges (fst e) ! i))
     else if i = 0 \<or> i = 3 then e else mzero)"

lemma quadrant_below:
  "p = MTerminal \<or> node_var p < k \<Longrightarrow> quadrant k (p, a) i = (if i = 0 \<or> i = 3 then (p, a) else mzero)"
  by (auto simp: quadrant_def)

lemma quadrant_here: "quadrant k (MNode k es, a) i = (fst (es ! i), a * snd (es ! i))"
  by (simp add: quadrant_def)

lemma quadrant_canonical:
  assumes "edge_canonical (Suc k) e" and "i < 4"
  shows "edge_canonical k (quadrant k e i)"
proof -
  obtain p a where e: "e = (p, a)" by force
  have "canonical (Suc k) p" using assms(1) by (simp add: e edge_canonical_def)
  then show ?thesis
  proof (cases rule: canonical_cases)
    case below
    then show ?thesis using assms(1) by (simp add: e quadrant_below edge_canonical_def mzero_def)
  next
    case (here es)
    moreover have "a \<noteq> 0" using assms(1) here(1) by (auto simp: e edge_canonical_def)
    ultimately show ?thesis using assms(2) by (simp add: e quadrant_here edge_canonical_def)
  qed
qed

lemma quadrant_den:
  assumes "edge_canonical (Suc k) e"
  shows "den (Suc k) e x y = den k (quadrant k e (child_index k x y)) x y"
proof -
  obtain p a where e: "e = (p, a)" by force
  have "canonical (Suc k) p" using assms by (simp add: e edge_canonical_def)
  then show ?thesis
  proof (cases rule: canonical_cases)
    case below
    have "child_index k x y = 0 \<or> child_index k x y = 3 \<longleftrightarrow> x k = y k" by (auto simp: child_index_def)
    then show ?thesis
      by (simp add: e den_skip [OF canonical_mwf [OF below(1)]] quadrant_below [OF below(2)] mzero_def del: den.simps)
  next
    case (here es)
    obtain q w where q: "es ! child_index k x y = (q, w)" by force
    show ?thesis using den_scale [of k q w x y] den_scale [of k q "a * w" x y] by (simp add: e here(1) quadrant_here q)
  qed
qed

lemma quadrant_den_at:
  assumes "edge_canonical (Suc k) e" and "i < 4"
  shows "den k (quadrant k e i) x y = den (Suc k) e (x(k := i \<ge> 2)) (y(k := odd i))"
proof -
  let ?x = "x(k := i \<ge> 2)" and ?y = "y(k := odd i)"
  have "i = 0 \<or> i = 1 \<or> i = 2 \<or> i = 3" using assms(2) by linarith
  then have "child_index k ?x ?y = i" by (auto simp: child_index_def)
  then have "den (Suc k) e ?x ?y = den k (quadrant k e i) ?x ?y" using quadrant_den [OF assms(1), of ?x ?y] by simp
  also have "\<dots> = den k (quadrant k e i) x y" by (rule den_cong) simp_all
  finally show ?thesis by simp
qed

text \<open>Normalised lists of weights that are multiples of each other are equal.\<close>

lemma normalized_factor:
  assumes "normalized es" "normalized fs" and eq: "\<And>i. i < 4 \<Longrightarrow> a * snd (es ! i) = b * snd (fs ! i)" and "a \<noteq> 0"
  shows "a = b"
proof -
  obtain i where i: "i < 4" "snd (es ! i) = 1" "\<forall>j < i. mag2 (snd (es ! j)) < 1"
    using assms(1) by (auto simp: normalized_def)
  obtain j where j: "j < 4" "snd (fs ! j) = 1" "\<forall>l < j. mag2 (snd (fs ! l)) < 1"
    using assms(2) by (auto simp: normalized_def)
  have le: "mag2 (snd (es ! l)) \<le> 1" "mag2 (snd (fs ! l)) \<le> 1" if "l < 4" for l
    using assms(1,2) that by (auto simp: normalized_def)
  have m: "mag2 a * mag2 (snd (es ! l)) = mag2 b * mag2 (snd (fs ! l))" if "l < 4" for l
    using eq [OF that] by (metis mag2_mult)
  have nonneg: "0 \<le> mag2 a" "0 \<le> mag2 b" by (simp_all add: mag2_cmod)
  have "mag2 a \<le> mag2 b" using m [OF i(1)] i(2) mult_left_mono [OF le(2) [OF i(1)] nonneg(2)] by simp
  moreover have "mag2 b \<le> mag2 a" using m [OF j(1)] j(2) mult_left_mono [OF le(1) [OF j(1)] nonneg(1)] by simp
  ultimately have ab: "mag2 a = mag2 b" by simp
  have "mag2 a \<noteq> 0" using assms(4) mag2_pos [of a] by linarith
  then have mag: "mag2 (snd (es ! l)) = mag2 (snd (fs ! l))" if "l < 4" for l using m [OF that] ab by simp
  have "\<not> i < j" using mag [OF i(1)] i(2) j(3) by auto
  moreover have "\<not> j < i" using mag [OF j(1)] j(2) i(3) by auto
  ultimately have "i = j" by simp
  then show ?thesis using eq [OF i(1)] i(2) j(2) by simp
qed

lemma not_below_and_here:
  assumes es: "length es = 4" "normalized es" "\<not> identity_node es" and "a \<noteq> 0"
    and "\<And>i. i < 4 \<Longrightarrow> (fst (es ! i), a * snd (es ! i)) = (if i = 0 \<or> i = 3 then (q, b) else mzero)"
  shows False
proof -
  have q: "a * snd (es ! 0) = b" "a * snd (es ! 1) = 0" "a * snd (es ! 2) = 0" "a * snd (es ! 3) = b"
    "fst (es ! 0) = fst (es ! 3)"
    using assms(5) [of 0] assms(5) [of 1] assms(5) [of 2] assms(5) [of 3] by (simp_all add: mzero_def)
  then have w: "snd (es ! 1) = 0" "snd (es ! 2) = 0" "snd (es ! 3) = snd (es ! 0)" using assms(4) by auto
  obtain i where "i < 4" "snd (es ! i) = 1" using es(2) by (auto simp: normalized_def)
  moreover have "i = 0 \<or> i = 1 \<or> i = 2 \<or> i = 3" using \<open>i < 4\<close> by linarith
  ultimately have "snd (es ! 0) = 1" using w by auto
  with w q(5) have "identity_node es" by (simp add: identity_node_def)
  then show False using es(3) by simp
qed

lemma quadrant_inject:
  assumes e: "edge_canonical (Suc k) e" and f: "edge_canonical (Suc k) f"
    and eq: "\<And>i. i < 4 \<Longrightarrow> quadrant k e i = quadrant k f i"
  shows "e = f"
proof -
  obtain p a q b where ef: "e = (p, a)" "f = (q, b)" by force
  have nz: "p \<noteq> MTerminal \<Longrightarrow> a \<noteq> 0" "q \<noteq> MTerminal \<Longrightarrow> b \<noteq> 0" using e f by (auto simp: ef edge_canonical_def)
  have p: "canonical (Suc k) p" and q: "canonical (Suc k) q" using e f by (simp_all add: ef edge_canonical_def)
  from p show ?thesis
  proof (cases rule: canonical_cases)
    case pb: below
    from q show ?thesis
    proof (cases rule: canonical_cases)
      case below
      then show ?thesis using eq [of 0] by (simp add: ef quadrant_below pb(2))
    next
      case (here fs)
      have "(fst (fs ! i), b * snd (fs ! i)) = (if i = 0 \<or> i = 3 then (p, a) else mzero)" if "i < 4" for i
        using eq [OF that] by (simp add: ef quadrant_below [OF pb(2)] here(1) quadrant_here)
      then show ?thesis using not_below_and_here [OF here(2-4)] nz(2) here(1) by blast
    qed
  next
    case ph: (here es)
    from q show ?thesis
    proof (cases rule: canonical_cases)
      case below
      have "(fst (es ! i), a * snd (es ! i)) = (if i = 0 \<or> i = 3 then (q, b) else mzero)" if "i < 4" for i
        using eq [OF that] by (simp add: ef quadrant_below [OF below(2)] ph(1) quadrant_here)
      then show ?thesis using not_below_and_here [OF ph(2-4)] nz(1) ph(1) by blast
    next
      case (here fs)
      have eqs: "fst (es ! i) = fst (fs ! i)" "a * snd (es ! i) = b * snd (fs ! i)" if "i < 4" for i
        using eq [OF that] by (simp_all add: ef ph(1) here(1) quadrant_here)
      have "a \<noteq> 0" using nz(1) ph(1) by simp
      have "a = b" by (rule normalized_factor [OF ph(3) here(3) eqs(2) \<open>a \<noteq> 0\<close>])
      then have "es = fs" using eqs \<open>a \<noteq> 0\<close> ph(2) here(2) by (intro nth_equalityI) (auto simp: prod_eq_iff)
      then show ?thesis by (simp add: ef ph(1) here(1) \<open>a = b\<close>)
    qed
  qed
qed

lemma canonical_unique:
  "edge_canonical k e \<Longrightarrow> edge_canonical k f \<Longrightarrow> (\<And>x y. den k e x y = den k f x y) \<Longrightarrow> e = f"
proof (induction k arbitrary: e f)
  case 0
  have "fst e = MTerminal" "fst f = MTerminal" using 0 by (auto simp: edge_canonical_def elim: canonical.cases)
  then show ?case using 0(3) by (simp add: prod_eq_iff)
next
  case (Suc k)
  show ?case
  proof (rule quadrant_inject [OF Suc.prems(1,2)])
    fix i :: nat
    assume "i < 4"
    then show "quadrant k e i = quadrant k f i"
      using Suc.prems
      by (intro Suc.IH) (simp_all add: quadrant_canonical quadrant_den_at del: den.simps fun_upd_apply)
  qed
qed

end
