(* ===== verification/DDGates.thy ===== *)
theory DDGates
  imports DDArith
begin

unbundle bit_operations_syntax

text \<open>
  The diagrams of gates with one, two and three targets and any number of controls
  (\<open>makeGateDD\<close>, \<open>makeTwoQubitGateDD\<close>, \<open>makeThreeQubitGateDD\<close> and their helpers in
  \<open>src/dd/Package.cpp\<close>).  They are built from the lowest qubit up: the entries of the gate
  matrix become terminal edges, and every control and every target adds one level.
\<close>

section \<open>The code\<close>

definition ensureGateQubitsInRange :: "nat \<Rightarrow> Controls \<Rightarrow> nat list \<Rightarrow> unit result" where
  "ensureGateQubitsInRange nqubits cs ts = (
     if nqubits = 0 \<or> list_ex (\<lambda>c. nqubits \<le> qubit c) cs \<or> list_ex (\<lambda>t. nqubits \<le> t) ts then Inl RuntimeError
     else if \<not> distinct ts then Inl RuntimeError
     else if list_ex (\<lambda>c. qubit c \<in> set ts) cs then Inl RuntimeError
     else Inr ())"

definition fillTerminalVector :: "GateMatrix \<Rightarrow> mEdge list" where
  "fillTerminalVector mat = map (\<lambda>i. mterminal (mat ! i)) [0..<4]"

definition fillTerminalMatrix :: "nat \<Rightarrow> QubitGateMatrix \<Rightarrow> mEdge list list" where
  "fillTerminalMatrix dm mat = map (\<lambda>row. map (\<lambda>col. mterminal (mat ! row ! col)) [0..<dm]) [0..<dm]"

definition makeControlledNode :: "Numbers \<Rightarrow> Control \<Rightarrow> mEdge \<Rightarrow> bool \<Rightarrow> mEdge" where
  "makeControlledNode N c gate identity = (let idEdge = (if identity then mone else mzero)
     in makeDDNode N (qubit c) (case ctype c of
          Neg \<Rightarrow> [gate, mzero, mzero, idEdge]
        | Pos \<Rightarrow> [idEdge, mzero, mzero, gate]))"

text \<open>The iterator over the controls is the list of the controls that are left.\<close>

fun wrapControlsUntil_matrix ::
    "Numbers \<Rightarrow> nat \<Rightarrow> nat \<Rightarrow> Controls \<Rightarrow> mEdge list list \<Rightarrow> Controls \<times> mEdge list list" where
  "wrapControlsUntil_matrix N dm bound [] em = ([], em)"
| "wrapControlsUntil_matrix N dm bound (c # cs) em = (
     if qubit c < bound then wrapControlsUntil_matrix N dm bound cs
       (map (\<lambda>row. map (\<lambda>col. makeControlledNode N c (em ! row ! col) (row = col)) [0..<dm]) [0..<dm])
     else (c # cs, em))"

fun wrapControlsUntil :: "Numbers \<Rightarrow> nat \<Rightarrow> Controls \<Rightarrow> mEdge list \<Rightarrow> Controls \<times> mEdge list" where
  "wrapControlsUntil N bound [] em = ([], em)"
| "wrapControlsUntil N bound (c # cs) em = (
     if qubit c < bound then wrapControlsUntil N bound cs
       (map (\<lambda>i. makeControlledNode N c (em ! i) (i = 0 \<or> i = 3)) [0..<4])
     else (c # cs, em))"

definition wrapControlsAbove :: "Numbers \<Rightarrow> Controls \<Rightarrow> mEdge \<Rightarrow> mEdge" where
  "wrapControlsAbove N cs e = fold (\<lambda>c e. makeControlledNode N c e True) cs e"

definition toMatrixDD :: "Numbers \<Rightarrow> mEdge \<Rightarrow> mEdge" where
  "toMatrixDD N e = (fst e, cn_lookup N (snd e))"

definition makeGateDD :: "Numbers \<Rightarrow> nat \<Rightarrow> GateMatrix \<Rightarrow> Controls \<Rightarrow> nat \<Rightarrow> mEdge result" where
  "makeGateDD N nqubits mat cs target = and_then (ensureGateQubitsInRange nqubits cs [target]) (\<lambda>_.
     let em = fillTerminalVector mat in
     if cs = [] then Inr (toMatrixDD N (makeDDNode N target em))
     else case wrapControlsUntil N target cs em of (rest, em) \<Rightarrow>
       Inr (toMatrixDD N (wrapControlsAbove N rest (makeDDNode N target em))))"

definition makeTwoQubitGateDD ::
    "Numbers \<Rightarrow> nat \<Rightarrow> QubitGateMatrix \<Rightarrow> Controls \<Rightarrow> nat \<Rightarrow> nat \<Rightarrow> mEdge result" where
  "makeTwoQubitGateDD N nqubits mat cs target0 target1 =
     and_then (ensureGateQubitsInRange nqubits cs [target0, target1]) (\<lambda>_.
     let smallerTarget = min target0 target1; largerTarget = max target0 target1 in
     case wrapControlsUntil_matrix N 4 smallerTarget cs (fillTerminalMatrix 4 mat) of (rest, em) \<Rightarrow>
     let em0 = concat (map (\<lambda>row. map (\<lambda>col. makeDDNode N smallerTarget
           (concat (map (\<lambda>i. map (\<lambda>j. if target1 < target0
              then em ! (row * 2 + i) ! (col * 2 + j) else em ! (i * 2 + row) ! (j * 2 + col)) [0..<2]) [0..<2])))
           [0..<2]) [0..<2]) in
     case wrapControlsUntil N largerTarget rest em0 of (rest, em0) \<Rightarrow>
       Inr (toMatrixDD N (wrapControlsAbove N rest (makeDDNode N largerTarget em0))))"

definition makeThreeQubitGateDD ::
    "Numbers \<Rightarrow> nat \<Rightarrow> QubitGateMatrix \<Rightarrow> Controls \<Rightarrow> nat \<Rightarrow> nat \<Rightarrow> nat \<Rightarrow> mEdge result" where
  "makeThreeQubitGateDD N nqubits mat cs target0 target1 target2 =
     and_then (ensureGateQubitsInRange nqubits cs [target0, target1, target2]) (\<lambda>_.
     case sort_key fst [(target0, 2 :: nat), (target1, 1), (target2, 0)] of
       [(qLow, bLow), (qMid, bMid), (qHigh, bHigh)] \<Rightarrow>
     (case wrapControlsUntil_matrix N 8 qLow cs (fillTerminalMatrix 8 mat) of (rest, em) \<Rightarrow>
     let emMid = map (\<lambda>rMH. map (\<lambda>cMH. makeDDNode N qLow
           (let rMidBit = rMH AND 1; rHighBit = drop_bit 1 rMH; cMidBit = cMH AND 1; cHighBit = drop_bit 1 cMH
            in concat (map (\<lambda>i. map (\<lambda>j.
              em ! (push_bit bLow i OR push_bit bMid rMidBit OR push_bit bHigh rHighBit)
                 ! (push_bit bLow j OR push_bit bMid cMidBit OR push_bit bHigh cHighBit)) [0..<2]) [0..<2])))
           [0..<4]) [0..<4] in
     case wrapControlsUntil_matrix N 4 qMid rest emMid of (rest, emMid) \<Rightarrow>
     let emHigh = concat (map (\<lambda>row. map (\<lambda>col. makeDDNode N qMid
           (concat (map (\<lambda>i. map (\<lambda>j. emMid ! (i + row * 2) ! (j + col * 2)) [0..<2]) [0..<2])))
           [0..<2]) [0..<2]) in
     case wrapControlsUntil N qHigh rest emHigh of (rest, emHigh) \<Rightarrow>
       Inr (toMatrixDD N (wrapControlsAbove N rest (makeDDNode N qHigh emHigh))))
     | _ \<Rightarrow> Inl Undefined)"

section \<open>The matrix of a controlled gate\<close>

text \<open>
  The row or column of the gate matrix: the first target gives the highest bit.  On an
  assignment that satisfies the controls the gate acts on its targets, otherwise it is the
  identity; the other qubits are not changed.
\<close>

definition target_index :: "nat list \<Rightarrow> (nat \<Rightarrow> bool) \<Rightarrow> nat" where
  "target_index ts x = foldl (\<lambda>acc t. 2 * acc + of_bool (x t)) 0 ts"

definition active :: "Controls \<Rightarrow> (nat \<Rightarrow> bool) \<Rightarrow> bool" where
  "active cs x \<longleftrightarrow> list_all (\<lambda>c. x (qubit c) = (ctype c = Pos)) cs"

definition same_rest :: "nat \<Rightarrow> nat list \<Rightarrow> (nat \<Rightarrow> bool) \<Rightarrow> (nat \<Rightarrow> bool) \<Rightarrow> bool" where
  "same_rest n ts x y \<longleftrightarrow> list_all (\<lambda>q. q \<in> set ts \<or> x q = y q) [0..<n]"

definition gate_matrix :: "nat \<Rightarrow> (nat \<Rightarrow> nat \<Rightarrow> complex) \<Rightarrow> Controls \<Rightarrow> nat list \<Rightarrow>
    (nat \<Rightarrow> bool) \<Rightarrow> (nat \<Rightarrow> bool) \<Rightarrow> complex" where
  "gate_matrix n M cs ts x y = (
     if \<not> same_rest n ts x y then 0
     else if active cs x then M (target_index ts x) (target_index ts y)
     else of_bool (list_all (\<lambda>t. x t = y t) ts))"

section \<open>Levels\<close>

text \<open>
  When the qubits below \<open>b\<close> are done, the edge for a row and a column of the targets that are
  left denotes the part of the matrix on the qubits below \<open>b\<close>.  The function \<open>idx\<close> reads the
  row or column off an assignment.
\<close>

definition below :: "nat \<Rightarrow> Controls \<Rightarrow> Controls" where
  "below b cs = filter (\<lambda>c. qubit c < b) cs"

definition remaining :: "nat \<Rightarrow> Controls \<Rightarrow> Controls" where
  "remaining b cs = filter (\<lambda>c. b \<le> qubit c) cs"

definition stage :: "(nat \<Rightarrow> nat \<Rightarrow> complex) \<Rightarrow> Controls \<Rightarrow> nat list \<Rightarrow> nat \<Rightarrow> ((nat \<Rightarrow> bool) \<Rightarrow> nat) \<Rightarrow>
    (nat \<Rightarrow> nat \<Rightarrow> mEdge) \<Rightarrow> bool" where
  "stage M cs ts b idx em \<longleftrightarrow>
     (\<forall>x y. edge_canonical b (em (idx x) (idx y)) \<and>
       den b (em (idx x) (idx y)) x y = gate_matrix b M (below b cs) ts x y) \<and>
     (\<forall>x y. idx x = idx y \<longleftrightarrow> (\<forall>t \<in> set ts. b \<le> t \<longrightarrow> x t = y t))"

lemma same_rest_gap:
  "b \<le> b' \<Longrightarrow> (\<And>q. b \<le> q \<Longrightarrow> q < b' \<Longrightarrow> q \<notin> set ts) \<Longrightarrow>
    same_rest b' ts x y \<longleftrightarrow> same_rest b ts x y \<and> same_above b b' x y"
  by (auto simp: same_rest_def same_above_def list_all_iff) (metis atLeastLessThan_iff le0 linorder_not_le)+

lemma stage_gap:
  assumes st: "stage M cs ts b idx em" and le: "b \<le> b'"
    and cs: "\<And>c. c \<in> set cs \<Longrightarrow> \<not> (b \<le> qubit c \<and> qubit c < b')"
    and ts: "\<And>q. b \<le> q \<Longrightarrow> q < b' \<Longrightarrow> q \<notin> set ts"
  shows "stage M cs ts b' idx em"
proof -
  have "below b' cs = below b cs"
    using cs le unfolding below_def by (intro filter_cong) (auto simp: not_le)
  moreover have "edge_canonical b e \<Longrightarrow> edge_canonical b' e" for e
    using canonical_mono le by (auto simp: edge_canonical_def)
  moreover have "edge_canonical b e \<Longrightarrow> den b' e x y = (if same_above b b' x y then den b e x y else 0)" for e x y
    by (rule den_lift [OF le]) (simp add: edge_canonical_def canonical_mwf)
  moreover have "t \<in> set ts \<Longrightarrow> b \<le> t \<longleftrightarrow> b' \<le> t" for t using ts le by (metis le_trans linorder_not_le)
  ultimately show ?thesis
    using st same_rest_gap [OF le ts] by (auto simp: stage_def gate_matrix_def)
qed

lemma below_Suc:
  assumes "strictly_sorted (map qubit cs)" and "c \<in> set cs"
  shows "active (below (Suc (qubit c)) cs) x \<longleftrightarrow> active (below (qubit c) cs) x \<and> x (qubit c) = (ctype c = Pos)"
proof -
  have "c' = c" if "c' \<in> set cs" "qubit c' = qubit c" for c'
    using assms that by (metis strict_sorted_iff distinct_map inj_on_def)
  then show ?thesis
    using assms(2) by (auto simp: active_def below_def list_all_iff less_Suc_eq)
qed

lemma den_identity: "den b mone x y = of_bool (same_above 0 b x y)" "den b mzero x y = 0"
  by (simp_all add: mone_def mzero_def den_terminal)

lemma den_makeDDNode4:
  assumes "exact N" "edge_canonical v e0" "edge_canonical v e1" "edge_canonical v e2" "edge_canonical v e3"
  shows "edge_canonical (Suc v) (makeDDNode N v [e0, e1, e2, e3]) \<and>
    den (Suc v) (makeDDNode N v [e0, e1, e2, e3]) x y = den v ([e0, e1, e2, e3] ! child_index v x y) x y"
proof -
  have can: "canonical v (fst ([e0, e1, e2, e3] ! i))" if "i < 4" for i
    using assms(2-5) that by (auto simp: edge_canonical_def less_Suc_eq numeral_eq_Suc)
  then have "edges_ok v [e0, e1, e2, e3]" using canonical_mwf by (simp add: edges_ok_def)
  then show ?thesis using makeDDNode_ok [OF assms(1)] makeDDNode_canonical [OF assms(1) _ can] by simp
qed

lemma edge_canonical_terminal [simp]: "edge_canonical b (mterminal w)" "edge_canonical b mzero" "edge_canonical b mone"
  by (simp_all add: edge_canonical_def mterminal_def mzero_def mone_def)

lemma same_rest_iff:
  "same_rest b ts x y \<and> list_all (\<lambda>t. x t = y t) ts \<longleftrightarrow> same_above 0 b x y \<and> (\<forall>t \<in> set ts. b \<le> t \<longrightarrow> x t = y t)"
  by (auto simp: same_rest_def same_above_def list_all_iff)

lemma stage_control:
  assumes ex: "exact N" and sorted: "strictly_sorted (map qubit cs)" and c: "c \<in> set cs" "qubit c \<notin> set ts"
    and st: "stage M cs ts (qubit c) idx em"
  shows "stage M cs ts (Suc (qubit c)) idx (\<lambda>r s. makeControlledNode N c (em r s) (r = s))"
  unfolding stage_def
proof (intro conjI allI)
  fix x y
  let ?q = "qubit c" and ?e = "em (idx x) (idx y)" and ?id = "if idx x = idx y then mone else mzero"
  have e: "edge_canonical ?q ?e" "den ?q ?e x y = gate_matrix ?q M (below ?q cs) ts x y"
    and idx: "\<And>x y. idx x = idx y \<longleftrightarrow> (\<forall>t \<in> set ts. ?q \<le> t \<longrightarrow> x t = y t)"
    using st by (simp_all add: stage_def)
  have id: "edge_canonical ?q ?id" by simp
  have den_id: "den ?q ?id x y = of_bool (same_rest ?q ts x y \<and> list_all (\<lambda>t. x t = y t) ts)"
    unfolding same_rest_iff by (simp add: idx den_identity)
  have rest: "same_rest (Suc ?q) ts x y \<longleftrightarrow> same_rest ?q ts x y \<and> x ?q = y ?q"
    using c(2) by (auto simp: same_rest_def)
  define node where "node = makeControlledNode N c ?e (idx x = idx y)"
  have node: "edge_canonical (Suc ?q) node \<and> den (Suc ?q) node x y =
      (if x ?q \<noteq> y ?q then 0 else if x ?q = (ctype c = Pos) then den ?q ?e x y else den ?q ?id x y)"
  proof (cases "ctype c")
    case Neg
    then have "node = makeDDNode N ?q [?e, mzero, mzero, ?id]" by (simp add: node_def makeControlledNode_def Let_def)
    then show ?thesis
      using den_makeDDNode4 [OF ex e(1) _ _ id, of mzero mzero x y] Neg
      by (simp add: child_index_def den_identity del: den.simps split del: if_split)
  next
    case Pos
    then have "node = makeDDNode N ?q [?id, mzero, mzero, ?e]" by (simp add: node_def makeControlledNode_def Let_def)
    then show ?thesis
      using den_makeDDNode4 [OF ex id _ _ e(1), of mzero mzero x y] Pos
      by (simp add: child_index_def den_identity del: den.simps split del: if_split)
  qed
  show "edge_canonical (Suc ?q) (makeControlledNode N c ?e (idx x = idx y))"
    using node by (simp add: node_def)
  show "den (Suc ?q) (makeControlledNode N c ?e (idx x = idx y)) x y =
      gate_matrix (Suc ?q) M (below (Suc ?q) cs) ts x y"
    using node below_Suc [OF sorted c(1), of x] rest e(2) den_id
    by (auto simp: node_def [symmetric] gate_matrix_def simp del: den.simps split: if_splits)
  show "idx x = idx y \<longleftrightarrow> (\<forall>t \<in> set ts. Suc ?q \<le> t \<longrightarrow> x t = y t)"
    unfolding idx using c(2) by (auto simp: Suc_le_eq)
qed

lemma stage_cong:
  "stage M cs ts b idx em \<Longrightarrow> (\<And>x y. em (idx x) (idx y) = em' (idx x) (idx y)) \<Longrightarrow> stage M cs ts b idx em'"
  by (simp add: stage_def)

text \<open>The controls that are left below the next bound are wrapped around every edge.\<close>

lemma remaining_gap:
  assumes "strictly_sorted (map qubit cs)" and "remaining b cs = c # rest"
  shows "c \<in> set cs" "b \<le> qubit c" "remaining (Suc (qubit c)) cs = rest"
    "\<And>c'. c' \<in> set cs \<Longrightarrow> \<not> (b \<le> qubit c' \<and> qubit c' < qubit c)"
proof -
  have "c \<in> set (remaining b cs)" using assms(2) by simp
  then show c: "c \<in> set cs" "b \<le> qubit c" by (simp_all add: remaining_def)
  have sorted: "strictly_sorted (map qubit (c # rest))"
    using assms(1) unfolding assms(2) [symmetric] remaining_def sorted_wrt_map by (rule sorted_wrt_filter)
  show "\<not> (b \<le> qubit c' \<and> qubit c' < qubit c)" if "c' \<in> set cs" for c'
  proof
    assume "b \<le> qubit c' \<and> qubit c' < qubit c"
    then have "c' \<in> set (c # rest)" using that unfolding assms(2) [symmetric] by (simp add: remaining_def)
    then show False using sorted \<open>b \<le> qubit c' \<and> qubit c' < qubit c\<close> by auto
  qed
  have "remaining (Suc (qubit c)) cs = filter (\<lambda>d. Suc (qubit c) \<le> qubit d) (remaining b cs)"
    using c(2) unfolding remaining_def filter_filter by (intro filter_cong) auto
  also have "\<dots> = rest" using sorted by (simp add: assms(2) filter_id_conv Suc_le_eq)
  finally show "remaining (Suc (qubit c)) cs = rest" .
qed

lemma remaining_ge: "remaining b cs = c # rest \<Longrightarrow> bound \<le> qubit c \<Longrightarrow> strictly_sorted (map qubit cs) \<Longrightarrow>
    b \<le> bound \<Longrightarrow> remaining bound cs = c # rest \<and> (\<forall>c \<in> set cs. \<not> (b \<le> qubit c \<and> qubit c < bound))"
proof -
  assume a: "remaining b cs = c # rest" "bound \<le> qubit c" "strictly_sorted (map qubit cs)" "b \<le> bound"
  from remaining_gap(4) [OF a(3,1)] a(2) have gap: "\<forall>c \<in> set cs. \<not> (b \<le> qubit c \<and> qubit c < bound)"
    by (meson less_le_trans)
  then have "remaining bound cs = remaining b cs"
    unfolding remaining_def using a(4) by (intro filter_cong) auto
  then show ?thesis using a(1) gap by simp
qed

lemma remaining_Nil: "remaining b cs = [] \<Longrightarrow> b \<le> bound \<Longrightarrow> remaining bound cs = [] \<and>
    (\<forall>c \<in> set cs. \<not> (b \<le> qubit c \<and> qubit c < bound))"
  by (auto simp: remaining_def filter_empty_conv)

text \<open>
  One step of the wrapping: the next control is below the bound, or the bound is reached.
\<close>

definition free_between :: "nat list \<Rightarrow> nat \<Rightarrow> nat \<Rightarrow> bool" where
  "free_between ts b b' \<longleftrightarrow> (\<forall>q. b \<le> q \<and> q < b' \<longrightarrow> q \<notin> set ts)"

lemma wrap_step:
  assumes ex: "exact N" and cs: "strictly_sorted (map qubit cs)" "\<forall>c \<in> set cs. qubit c \<notin> set ts"
    and st: "stage M cs ts b idx em" and rem: "remaining b cs = c # rest"
    and free: "free_between ts b bound" and lt: "qubit c < bound"
  shows "stage M cs ts (Suc (qubit c)) idx (\<lambda>r s. makeControlledNode N c (em r s) (r = s))"
    and "remaining (Suc (qubit c)) cs = rest" and "Suc (qubit c) \<le> bound"
    and "free_between ts (Suc (qubit c)) bound"
proof -
  note gap = remaining_gap [OF cs(1) rem]
  have "stage M cs ts (qubit c) idx em"
    using stage_gap [OF st gap(2,4)] free lt unfolding free_between_def by (metis less_trans)
  then show "stage M cs ts (Suc (qubit c)) idx (\<lambda>r s. makeControlledNode N c (em r s) (r = s))"
    using stage_control [OF ex cs(1) gap(1)] cs(2) gap(1) by blast
qed (use remaining_gap [OF cs(1) rem] lt free in \<open>auto simp: free_between_def\<close>)

lemma wrap_stop:
  assumes cs: "strictly_sorted (map qubit cs)" and st: "stage M cs ts b idx em" and le: "b \<le> bound"
    and rem: "remaining b cs = rem" "rem = [] \<or> bound \<le> qubit (hd rem)" and free: "free_between ts b bound"
  shows "remaining bound cs = rem" and "stage M cs ts bound idx em"
proof -
  have *: "remaining bound cs = rem \<and> (\<forall>c \<in> set cs. \<not> (b \<le> qubit c \<and> qubit c < bound))"
  proof (cases rem)
    case Nil
    then show ?thesis using remaining_Nil [of b cs bound] rem(1) le by blast
  next
    case (Cons c rest)
    then show ?thesis using remaining_ge [of b cs c rest bound] rem cs le by simp
  qed
  then show "remaining bound cs = rem" by simp
  show "stage M cs ts bound idx em"
    by (rule stage_gap [OF st le]) (use * free in \<open>auto simp: free_between_def\<close>)
qed

lemma wrapControlsUntil_matrix_stage:
  assumes ex: "exact N" and cs: "strictly_sorted (map qubit cs)" "\<forall>c \<in> set cs. qubit c \<notin> set ts"
    and idx: "\<And>x. idx x < dm"
  shows "remaining b cs = rem \<Longrightarrow> b \<le> bound \<Longrightarrow> free_between ts b bound \<Longrightarrow>
    stage M cs ts b idx (\<lambda>r s. em ! r ! s) \<Longrightarrow>
    \<exists>em'. wrapControlsUntil_matrix N dm bound rem em = (remaining bound cs, em') \<and>
      stage M cs ts bound idx (\<lambda>r s. em' ! r ! s)"
proof (induction rem arbitrary: b em)
  case Nil
  then show ?case using wrap_stop [OF cs(1) Nil(4,2,1)] by simp
next
  case (Cons c rest)
  show ?case
  proof (cases "qubit c < bound")
    case True
    let ?em = "map (\<lambda>row. map (\<lambda>col. makeControlledNode N c (em ! row ! col) (row = col)) [0..<dm]) [0..<dm]"
    note step = wrap_step [OF ex cs Cons(5,2,4) True]
    have "stage M cs ts (Suc (qubit c)) idx (\<lambda>r s. ?em ! r ! s)"
      by (rule stage_cong [OF step(1)]) (simp add: idx)
    from Cons.IH [OF step(2,3,4) this] show ?thesis using True by simp
  next
    case False
    then show ?thesis using wrap_stop [OF cs(1) Cons(5,3,2) _ Cons(4)] by simp
  qed
qed

text \<open>Four edges in a row: the edge of row \<open>r\<close> and column \<open>s\<close> is at index \<open>2 * r + s\<close>.\<close>

lemma pair_index: "r < 2 \<Longrightarrow> s < 2 \<Longrightarrow> 2 * r + s < (4 :: nat) \<and> (2 * r + s = 0 \<or> 2 * r + s = 3 \<longleftrightarrow> r = s)"
  by (auto simp: less_2_cases_iff)

lemma wrapControlsUntil_stage:
  assumes ex: "exact N" and cs: "strictly_sorted (map qubit cs)" "\<forall>c \<in> set cs. qubit c \<notin> set ts"
    and idx: "\<And>x. idx x < 2"
  shows "remaining b cs = rem \<Longrightarrow> b \<le> bound \<Longrightarrow> free_between ts b bound \<Longrightarrow>
    stage M cs ts b idx (\<lambda>r s. em ! (2 * r + s)) \<Longrightarrow>
    \<exists>em'. wrapControlsUntil N bound rem em = (remaining bound cs, em') \<and>
      stage M cs ts bound idx (\<lambda>r s. em' ! (2 * r + s))"
proof (induction rem arbitrary: b em)
  case Nil
  then show ?case using wrap_stop [OF cs(1) Nil(4,2,1)] by simp
next
  case (Cons c rest)
  show ?case
  proof (cases "qubit c < bound")
    case True
    let ?em = "map (\<lambda>i. makeControlledNode N c (em ! i) (i = 0 \<or> i = 3)) [0..<4]"
    note step = wrap_step [OF ex cs Cons(5,2,4) True]
    have "stage M cs ts (Suc (qubit c)) idx (\<lambda>r s. ?em ! (2 * r + s))"
    proof (rule stage_cong [OF step(1)])
      fix x y
      show "makeControlledNode N c (em ! (2 * idx x + idx y)) (idx x = idx y) = ?em ! (2 * idx x + idx y)"
        using pair_index [OF idx [of x] idx [of y]] by simp
    qed
    from Cons.IH [OF step(2,3,4) this] show ?thesis using True by simp
  next
    case False
    then show ?thesis using wrap_stop [OF cs(1) Cons(5,3,2) _ Cons(4)] by simp
  qed
qed

lemma of_bool_less_2: "of_bool b < (2 :: nat)"
  by (cases b) simp_all

lemma wrapControlsUntil_length: "length em = 4 \<Longrightarrow> length (snd (wrapControlsUntil N bound cs em)) = 4"
  by (induction N bound cs em rule: wrapControlsUntil.induct) auto

lemma wrapControlsAbove_stage:
  assumes ex: "exact N" and cs: "strictly_sorted (map qubit cs)" "\<forall>c \<in> set cs. qubit c \<notin> set ts"
    and n: "\<And>c. c \<in> set cs \<Longrightarrow> qubit c < n"
  shows "remaining b cs = rem \<Longrightarrow> b \<le> n \<Longrightarrow> free_between ts b n \<Longrightarrow> stage M cs ts b (\<lambda>_. 0) (\<lambda>r s. e) \<Longrightarrow>
    stage M cs ts n (\<lambda>_. 0) (\<lambda>r s. wrapControlsAbove N rem e)"
proof (induction rem arbitrary: b e)
  case Nil
  then show ?case using wrap_stop(2) [OF cs(1) Nil(4,2,1)] by (simp add: wrapControlsAbove_def)
next
  case (Cons c rest)
  have "qubit c < n" using n remaining_gap(1) [OF cs(1) Cons(2)] .
  note step = wrap_step [OF ex cs Cons(5,2,4) this]
  from step(1) have "stage M cs ts (Suc (qubit c)) (\<lambda>_. 0) (\<lambda>r s. makeControlledNode N c e True)"
    by (simp add: stage_def)
  from Cons.IH [OF step(2,3,4) this] show ?case by (simp add: wrapControlsAbove_def)
qed

text \<open>A target combines the edges of its two rows and two columns.\<close>

lemma stage_target:
  assumes ex: "exact N" and t: "t \<in> set ts" "\<forall>c \<in> set cs. qubit c \<noteq> t"
    and st: "stage M cs ts t idx em"
    and idx': "\<And>x y. idx' x = idx' y \<longleftrightarrow> (\<forall>t' \<in> set ts. Suc t \<le> t' \<longrightarrow> x t' = y t')"
    and comb: "\<And>x. idx x = comb (idx' x) (of_bool (x t))"
    and em': "\<And>x y. em' (idx' x) (idx' y) = makeDDNode N t [em (comb (idx' x) 0) (comb (idx' y) 0),
      em (comb (idx' x) 0) (comb (idx' y) 1), em (comb (idx' x) 1) (comb (idx' y) 0), em (comb (idx' x) 1) (comb (idx' y) 1)]"
  shows "stage M cs ts (Suc t) idx' em'"
  unfolding stage_def
proof (intro conjI allI)
  fix x y
  have idx'_upd: "idx' (x(t := b)) = idx' x" for x b using idx' by simp
  have e: "edge_canonical t (em (comb (idx' x) (of_bool a)) (comb (idx' y) (of_bool b)))" for a b
    using st comb [of "x(t := a)"] comb [of "y(t := b)"] unfolding stage_def idx'_upd by (metis fun_upd_same)
  have e4: "edge_canonical t (em (comb (idx' x) 0) (comb (idx' y) 0))" "edge_canonical t (em (comb (idx' x) 0) (comb (idx' y) 1))"
    "edge_canonical t (em (comb (idx' x) 1) (comb (idx' y) 0))" "edge_canonical t (em (comb (idx' x) 1) (comb (idx' y) 1))"
    using e [of False False] e [of False True] e [of True False] e [of True True] by simp_all
  note node = den_makeDDNode4 [OF ex e4, folded em', of x y]
  show "edge_canonical (Suc t) (em' (idx' x) (idx' y))" using node by simp
  have "den (Suc t) (em' (idx' x) (idx' y)) x y = den t (em (idx x) (idx y)) x y"
    using node comb [of x] comb [of y] by (cases "x t"; cases "y t") (simp_all add: child_index_def del: den.simps)
  moreover have "below (Suc t) cs = below t cs"
    unfolding below_def using t(2) by (intro filter_cong) (auto simp: less_Suc_eq)
  moreover have "same_rest (Suc t) ts x y \<longleftrightarrow> same_rest t ts x y" using t(1) by (auto simp: same_rest_def)
  ultimately show "den (Suc t) (em' (idx' x) (idx' y)) x y = gate_matrix (Suc t) M (below (Suc t) cs) ts x y"
    using st by (simp add: stage_def gate_matrix_def del: den.simps)
qed (rule idx')

section \<open>The gates\<close>

lemma target_index_snoc: "target_index (ts @ [t]) x = 2 * target_index ts x + of_bool (x t)"
  by (simp add: target_index_def)

lemma target_index_inj: "target_index ts x = target_index ts y \<longleftrightarrow> (\<forall>t \<in> set ts. x t = y t)"
proof (induction ts rule: rev_induct)
  case (snoc t ts)
  have "2 * a + of_bool p = 2 * b + of_bool q \<longleftrightarrow> a = b \<and> p = q" for a b :: nat and p q
    by (cases p; cases q) (simp_all, presburger+)
  then show ?case using snoc by (auto simp: target_index_snoc)
qed (simp add: target_index_def)

lemma target_index_less: "target_index ts x < 2 ^ length ts"
proof (induction ts rule: rev_induct)
  case (snoc t ts)
  then show ?case by (cases "x t") (simp_all add: target_index_snoc)
qed (simp add: target_index_def)

lemma stage_init:
  "(\<And>x y. em (target_index ts x) (target_index ts y) = mterminal (M (target_index ts x) (target_index ts y))) \<Longrightarrow>
    stage M cs ts 0 (target_index ts) em"
  by (simp add: stage_def target_index_inj gate_matrix_def same_rest_def active_def below_def mterminal_def
      edge_canonical_def)

lemma ensure_ok:
  assumes "ensureGateQubitsInRange n cs ts = Inr u"
  shows "\<And>c. c \<in> set cs \<Longrightarrow> qubit c < n" "\<And>t. t \<in> set ts \<Longrightarrow> t < n" "distinct ts"
    "\<forall>c \<in> set cs. qubit c \<notin> set ts"
  using assms by (auto simp: ensureGateQubitsInRange_def list_ex_iff split: if_splits)

lemma remaining_0: "remaining 0 cs = cs"
  by (simp add: remaining_def)

lemma remaining_Suc: "\<forall>c \<in> set cs. qubit c \<noteq> t \<Longrightarrow> remaining (Suc t) cs = remaining t cs"
  unfolding remaining_def by (intro filter_cong) (auto simp: Suc_le_eq le_neq_implies_less)

lemma stage_final:
  assumes "exact N" and "stage M cs ts n (\<lambda>_. 0) (\<lambda>_ _. e)" and "\<And>c. c \<in> set cs \<Longrightarrow> qubit c < n"
  shows "edge_canonical n (toMatrixDD N e) \<and> (\<forall>x y. den n (toMatrixDD N e) x y = gate_matrix n M cs ts x y)"
proof -
  have "below n cs = cs" using assms(3) by (simp add: below_def filter_id_conv)
  then show ?thesis using assms(2) by (simp add: stage_def toMatrixDD_def exact_lookup [OF assms(1)])
qed

text \<open>The four edges of a node, by rows and columns.\<close>

lemma square2: "concat (map (\<lambda>i. map (\<lambda>j. f i j) [0..<2]) [0..<2]) = [f 0 0, f 0 1, f 1 0, f 1 1]" for f :: "nat \<Rightarrow> nat \<Rightarrow> 'a"
  by (simp add: upt_conv_Cons numeral_2_eq_2)

lemma square2_nth: "concat (map (\<lambda>i. map (\<lambda>j. f i j) [0..<2]) [0..<2]) ! (2 * of_bool a + of_bool b) =
    f (of_bool a) (of_bool b)" for f :: "nat \<Rightarrow> nat \<Rightarrow> 'a"
  by (cases a; cases b) (simp_all add: square2 numeral_2_eq_2 numeral_3_eq_3)

lemma matrix_nth: "i < n \<Longrightarrow> j < n \<Longrightarrow> map (\<lambda>row. map (\<lambda>col. f row col) [0..<n]) [0..<n] ! i ! j = f i j"
  by simp

text \<open>
  The last level: the four edges for the highest target become one node, and the controls above
  it are added.
\<close>

lemma finish_gate:
  assumes ex: "exact N" and cs: "strictly_sorted (map qubit cs)" and range: "ensureGateQubitsInRange n cs ts = Inr u"
    and t: "t \<in> set ts" "free_between ts (Suc t) n" "\<forall>t' \<in> set ts. t' \<le> t"
    and b: "b \<le> t" "free_between ts b t" and st: "stage M cs ts b (\<lambda>x. of_bool (x t)) (\<lambda>r s. em ! (2 * r + s))"
    and len: "length em = 4"
  shows "\<exists>em' rest. wrapControlsUntil N t (remaining b cs) em = (rest, em') \<and>
    edge_canonical n (toMatrixDD N (wrapControlsAbove N rest (makeDDNode N t em'))) \<and>
    (\<forall>x y. den n (toMatrixDD N (wrapControlsAbove N rest (makeDDNode N t em'))) x y = gate_matrix n M cs ts x y)"
proof -
  note ok = ensure_ok [OF range]
  obtain em' where wrap: "wrapControlsUntil N t (remaining b cs) em = (remaining t cs, em')"
    and st': "stage M cs ts t (\<lambda>x. of_bool (x t)) (\<lambda>r s. em' ! (2 * r + s))"
    using wrapControlsUntil_stage [OF ex cs ok(4) of_bool_less_2 refl b st] by blast
  define e where "e = makeDDNode N t [em' ! 0, em' ! 1, em' ! 2, em' ! 3]"
  have "length em' = 4" using wrapControlsUntil_length [OF len, of N t "remaining b cs"] wrap by simp
  then have e: "e = makeDDNode N t em'" using node_list_4 [of em'] by (simp add: e_def)
  have tc: "\<forall>c \<in> set cs. qubit c \<noteq> t" using ok(4) t(1) by auto
  have "stage M cs ts (Suc t) (\<lambda>_. 0) (\<lambda>_ _. e)"
    by (rule stage_target [OF ex t(1) tc st', where comb = "\<lambda>r i. i"])
      (use t(3) in \<open>auto simp: e_def numeral_2_eq_2 numeral_3_eq_3 Suc_le_eq\<close>)
  from wrapControlsAbove_stage [OF ex cs ok(4,1) remaining_Suc [OF tc] _ t(2) this] ok(2) [OF t(1)]
  have "stage M cs ts n (\<lambda>_. 0) (\<lambda>_ _. wrapControlsAbove N (remaining t cs) e)" by (simp add: Suc_le_eq)
  from stage_final [OF ex this ok(1)] show ?thesis using wrap e by auto
qed

lemma makeGateDD_ok:
  assumes ex: "exact N" and cs: "strictly_sorted (map qubit cs)" and range: "ensureGateQubitsInRange n cs [t] = Inr ()"
  shows "\<exists>e. makeGateDD N n mat cs t = Inr e \<and> edge_canonical n e \<and>
    (\<forall>x y. den n e x y = gate_matrix n (\<lambda>r s. mat ! (2 * r + s)) cs [t] x y)"
proof -
  let ?M = "\<lambda>r s. mat ! (2 * r + s)" and ?em = "fillTerminalVector mat"
  have idx: "target_index [t] = (\<lambda>x. of_bool (x t))" by (simp add: fun_eq_iff target_index_def)
  have "stage ?M cs [t] 0 (target_index [t]) (\<lambda>r s. ?em ! (2 * r + s))"
    by (rule stage_init) (simp add: idx fillTerminalVector_def)
  then have "\<exists>em' rest. wrapControlsUntil N t (remaining 0 cs) ?em = (rest, em') \<and>
    edge_canonical n (toMatrixDD N (wrapControlsAbove N rest (makeDDNode N t em'))) \<and>
    (\<forall>x y. den n (toMatrixDD N (wrapControlsAbove N rest (makeDDNode N t em'))) x y = gate_matrix n ?M cs [t] x y)"
    unfolding idx
    by (intro finish_gate [OF ex cs range]) (auto simp: free_between_def fillTerminalVector_def)
  then show ?thesis
    using range by (cases "cs = []") (auto simp: makeGateDD_def Let_def remaining_0 wrapControlsAbove_def simp del: split_paired_Ex)
qed

lemma makeTwoQubitGateDD_ok:
  assumes ex: "exact N" and cs: "strictly_sorted (map qubit cs)"
    and range: "ensureGateQubitsInRange n cs [t0, t1] = Inr ()"
  shows "\<exists>e. makeTwoQubitGateDD N n mat cs t0 t1 = Inr e \<and> edge_canonical n e \<and>
    (\<forall>x y. den n e x y = gate_matrix n (\<lambda>r s. mat ! r ! s) cs [t0, t1] x y)"
proof -
  let ?M = "\<lambda>r s. mat ! r ! s" and ?ts = "[t0, t1]"
  define sm lg where "sm = min t0 t1" and "lg = max t0 t1"
  note ok = ensure_ok [OF range]
  have lt: "sm < lg" and set: "set ?ts = {sm, lg}" using ok(3) by (auto simp: sm_def lg_def)
  have tc: "\<forall>c \<in> set cs. qubit c \<noteq> sm" using ok(4) set by auto
  have free: "free_between ?ts 0 sm" "free_between ?ts (Suc sm) lg" "free_between ?ts (Suc lg) n"
    using lt unfolding free_between_def set by auto
  have idx4: "target_index ?ts x < 4" for x using target_index_less [of ?ts x] by simp
  have idx: "target_index ?ts x = (if t1 < t0 then of_bool (x lg) * 2 + of_bool (x sm) else of_bool (x sm) * 2 + of_bool (x lg))" for x
    using ok(3) by (auto simp: target_index_def sm_def lg_def max_def min_def)
  have "stage ?M cs ?ts 0 (target_index ?ts) (\<lambda>r s. fillTerminalMatrix 4 mat ! r ! s)"
    by (rule stage_init) (simp add: fillTerminalMatrix_def idx4)
  from wrapControlsUntil_matrix_stage [OF ex cs ok(4) idx4 remaining_0 _ free(1) this]
  obtain em where wrap: "wrapControlsUntil_matrix N 4 sm cs (fillTerminalMatrix 4 mat) = (remaining sm cs, em)"
    and st: "stage ?M cs ?ts sm (target_index ?ts) (\<lambda>r s. em ! r ! s)" by auto
  define comb where "comb r i = (if t1 < t0 then r * 2 + i else i * 2 + r)" for r i :: nat
  define em0 where "em0 = concat (map (\<lambda>row. map (\<lambda>col. makeDDNode N sm
           (concat (map (\<lambda>i. map (\<lambda>j. if t1 < t0
              then em ! (row * 2 + i) ! (col * 2 + j) else em ! (i * 2 + row) ! (j * 2 + col)) [0..<2]) [0..<2])))
           [0..<2]) [0..<2])"
  have "stage ?M cs ?ts (Suc sm) (\<lambda>x. of_bool (x lg)) (\<lambda>r s. em0 ! (2 * r + s))"
  proof (rule stage_target [OF ex _ tc st, where comb = comb])
    show "target_index ?ts x = comb (of_bool (x lg)) (of_bool (x sm))" for x by (simp add: idx comb_def)
    show "em0 ! (2 * of_bool (x lg) + of_bool (y lg)) = makeDDNode N sm
        [em ! comb (of_bool (x lg)) 0 ! comb (of_bool (y lg)) 0, em ! comb (of_bool (x lg)) 0 ! comb (of_bool (y lg)) 1,
         em ! comb (of_bool (x lg)) 1 ! comb (of_bool (y lg)) 0, em ! comb (of_bool (x lg)) 1 ! comb (of_bool (y lg)) 1]"
      for x y :: "nat \<Rightarrow> bool"
      unfolding em0_def square2_nth square2 by (simp add: comb_def numeral_2_eq_2 numeral_3_eq_3)
  qed (use set lt in \<open>auto simp: Suc_le_eq\<close>)
  moreover have "length em0 = 4" by (simp add: em0_def square2)
  ultimately have "\<exists>em' rest. wrapControlsUntil N lg (remaining (Suc sm) cs) em0 = (rest, em') \<and>
    edge_canonical n (toMatrixDD N (wrapControlsAbove N rest (makeDDNode N lg em'))) \<and>
    (\<forall>x y. den n (toMatrixDD N (wrapControlsAbove N rest (makeDDNode N lg em'))) x y = gate_matrix n ?M cs ?ts x y)"
    by (intro finish_gate [OF ex cs range _ free(3) _ _ free(2)]) (use set lt in auto)
  then show ?thesis
    using range wrap remaining_Suc [OF tc]
    by (auto simp: makeTwoQubitGateDD_def Let_def sm_def [symmetric] lg_def [symmetric] em0_def [symmetric]
        simp del: split_paired_Ex)
qed

text \<open>
  The three targets in ascending order, with their bits.  The index of the gate matrix is the
  union of the shifted bits.
\<close>

definition bit_index :: "nat \<Rightarrow> nat \<Rightarrow> nat \<Rightarrow> bool \<Rightarrow> bool \<Rightarrow> bool \<Rightarrow> nat" where
  "bit_index bLow bMid bHigh low mid high =
     push_bit bLow (of_bool low) OR push_bit bMid (of_bool mid) OR push_bit bHigh (of_bool high)"

lemma sort_targets:
  assumes "distinct [t0, t1, t2]"
  obtains qLow bLow qMid bMid qHigh bHigh where
    "sort_key fst [(t0, 2 :: nat), (t1, 1), (t2, 0)] = [(qLow, bLow), (qMid, bMid), (qHigh, bHigh)]"
    "qLow < qMid" "qMid < qHigh" "set [t0, t1, t2] = {qLow, qMid, qHigh}"
    "\<And>x. target_index [t0, t1, t2] x = bit_index bLow bMid bHigh (x qLow) (x qMid) (x qHigh)"
proof -
  let ?goal = "\<lambda>qLow bLow qMid bMid qHigh bHigh.
    sort_key fst [(t0, 2 :: nat), (t1, 1), (t2, 0)] = [(qLow, bLow), (qMid, bMid), (qHigh, bHigh)] \<and>
    qLow < qMid \<and> qMid < qHigh \<and> set [t0, t1, t2] = {qLow, qMid, qHigh} \<and>
    (\<forall>x. target_index [t0, t1, t2] x = bit_index bLow bMid bHigh (x qLow) (x qMid) (x qHigh))"
  have idx: "\<And>x. target_index [t0, t1, t2] x = 4 * of_bool (x t0) + 2 * of_bool (x t1) + of_bool (x t2)"
    by (simp add: target_index_def)
  have bits: "4 * of_bool a + 2 * of_bool b + of_bool c = bit_index 2 1 0 a b c"
    "4 * of_bool a + 2 * of_bool b + of_bool c = bit_index 2 0 1 a c b"
    "4 * of_bool a + 2 * of_bool b + of_bool c = bit_index 1 2 0 b a c"
    "4 * of_bool a + 2 * of_bool b + of_bool c = bit_index 1 0 2 b c a"
    "4 * of_bool a + 2 * of_bool b + of_bool c = bit_index 0 2 1 c a b"
    "4 * of_bool a + 2 * of_bool b + of_bool c = bit_index 0 1 2 c b a" for a b c
    by (cases a; cases b; cases c; simp add: bit_index_def push_bit_eq_mult)+
  consider "t0 < t1 \<and> t1 < t2" | "t0 < t2 \<and> t2 < t1" | "t1 < t0 \<and> t0 < t2" | "t1 < t2 \<and> t2 < t0"
    | "t2 < t0 \<and> t0 < t1" | "t2 < t1 \<and> t1 < t0"
    using assms by (simp, linarith)
  then have "\<exists>qLow bLow qMid bMid qHigh bHigh. ?goal qLow bLow qMid bMid qHigh bHigh"
  proof cases
    case 1 then have "?goal t0 2 t1 1 t2 0" by (auto simp: idx bits(1))
    then show ?thesis by blast
  next
    case 2 then have "?goal t0 2 t2 0 t1 1" by (auto simp: idx bits(2))
    then show ?thesis by blast
  next
    case 3 then have "?goal t1 1 t0 2 t2 0" by (auto simp: idx bits(3))
    then show ?thesis by blast
  next
    case 4 then have "?goal t1 1 t2 0 t0 2" by (auto simp: idx bits(4))
    then show ?thesis by blast
  next
    case 5 then have "?goal t2 0 t0 2 t1 1" by (auto simp: idx bits(5))
    then show ?thesis by blast
  next
    case 6 then have "?goal t2 0 t1 1 t0 2" by (auto simp: idx bits(6))
    then show ?thesis by blast
  qed
  then show thesis using that by blast
qed

lemma low_bits: "(of_bool a + 2 * of_bool b) AND 1 = (of_bool a :: nat)" "drop_bit 1 (of_bool a + 2 * of_bool b) = (of_bool b :: nat)"
  unfolding and_one_eq drop_bit_eq_div by (cases a; cases b; simp)+

lemma makeThreeQubitGateDD_ok:
  assumes ex: "exact N" and cs: "strictly_sorted (map qubit cs)"
    and range: "ensureGateQubitsInRange n cs [t0, t1, t2] = Inr ()"
  shows "\<exists>e. makeThreeQubitGateDD N n mat cs t0 t1 t2 = Inr e \<and> edge_canonical n e \<and>
    (\<forall>x y. den n e x y = gate_matrix n (\<lambda>r s. mat ! r ! s) cs [t0, t1, t2] x y)"
proof -
  let ?M = "\<lambda>r s. mat ! r ! s" and ?ts = "[t0, t1, t2]"
  note ok = ensure_ok [OF range]
  from sort_targets [OF ok(3)] obtain lo bLow mid bMid hi bHigh where
    sort: "sort_key fst [(t0, 2 :: nat), (t1, 1), (t2, 0)] = [(lo, bLow), (mid, bMid), (hi, bHigh)]"
    and lt: "lo < mid" "mid < hi" and set: "set ?ts = {lo, mid, hi}"
    and idx: "\<And>x. target_index ?ts x = bit_index bLow bMid bHigh (x lo) (x mid) (x hi)" by metis
  have mem: "lo \<in> set ?ts" "mid \<in> set ?ts" "hi \<in> set ?ts" unfolding set by simp_all
  have tc: "\<forall>c \<in> set cs. qubit c \<noteq> lo" "\<forall>c \<in> set cs. qubit c \<noteq> mid" using ok(4) set by auto
  have free: "free_between ?ts 0 lo" "free_between ?ts (Suc lo) mid" "free_between ?ts (Suc mid) hi"
    "free_between ?ts (Suc hi) n"
    using lt unfolding free_between_def set by auto
  have idx8: "target_index ?ts x < 8" for x using target_index_less [of ?ts x] by simp
  have "stage ?M cs ?ts 0 (target_index ?ts) (\<lambda>r s. fillTerminalMatrix 8 mat ! r ! s)"
    by (rule stage_init) (simp add: fillTerminalMatrix_def idx8)
  from wrapControlsUntil_matrix_stage [OF ex cs ok(4) idx8 remaining_0 _ free(1) this]
  obtain em where wrap: "wrapControlsUntil_matrix N 8 lo cs (fillTerminalMatrix 8 mat) = (remaining lo cs, em)"
    and st: "stage ?M cs ?ts lo (target_index ?ts) (\<lambda>r s. em ! r ! s)" by auto
  let ?idxMid = "\<lambda>x. of_bool (x mid) + 2 * of_bool (x hi) :: nat"
  define comb where "comb m i = push_bit bLow i OR push_bit bMid (m AND 1) OR push_bit bHigh (drop_bit 1 m)" for m i :: nat
  define emMid where "emMid = map (\<lambda>rMH. map (\<lambda>cMH. makeDDNode N lo
           (let rMidBit = rMH AND 1; rHighBit = drop_bit 1 rMH; cMidBit = cMH AND 1; cHighBit = drop_bit 1 cMH
            in concat (map (\<lambda>i. map (\<lambda>j.
              em ! (push_bit bLow i OR push_bit bMid rMidBit OR push_bit bHigh rHighBit)
                 ! (push_bit bLow j OR push_bit bMid cMidBit OR push_bit bHigh cHighBit)) [0..<2]) [0..<2])))
           [0..<4]) [0..<4]"
  have idxMid4: "?idxMid x < 4" for x by (cases "x mid"; cases "x hi") simp_all
  have stMid: "stage ?M cs ?ts (Suc lo) ?idxMid (\<lambda>r s. emMid ! r ! s)"
  proof (rule stage_target [OF ex mem(1) tc(1) st, where comb = comb])
    show "target_index ?ts x = comb (?idxMid x) (of_bool (x lo))" for x
      unfolding idx comb_def bit_index_def low_bits ..
    show "emMid ! ?idxMid x ! ?idxMid y = makeDDNode N lo
        [em ! comb (?idxMid x) 0 ! comb (?idxMid y) 0, em ! comb (?idxMid x) 0 ! comb (?idxMid y) 1,
         em ! comb (?idxMid x) 1 ! comb (?idxMid y) 0, em ! comb (?idxMid x) 1 ! comb (?idxMid y) 1]" for x y
      unfolding emMid_def by (subst matrix_nth [OF idxMid4 idxMid4]) (simp only: Let_def square2 comb_def)
    show "?idxMid x = ?idxMid y \<longleftrightarrow> (\<forall>t' \<in> set ?ts. Suc lo \<le> t' \<longrightarrow> x t' = y t')" for x y
      unfolding set using lt by (cases "x mid"; cases "y mid"; cases "x hi"; cases "y hi") auto
  qed
  from wrapControlsUntil_matrix_stage [OF ex cs ok(4) idxMid4 refl _ free(2) this] lt
  obtain em' where wrap': "wrapControlsUntil_matrix N 4 mid (remaining lo cs) emMid = (remaining mid cs, em')"
    and st': "stage ?M cs ?ts mid ?idxMid (\<lambda>r s. em' ! r ! s)" by (auto simp: remaining_Suc [OF tc(1)] Suc_le_eq)
  define emHigh where "emHigh = concat (map (\<lambda>row. map (\<lambda>col. makeDDNode N mid
           (concat (map (\<lambda>i. map (\<lambda>j. em' ! (i + row * 2) ! (j + col * 2)) [0..<2]) [0..<2])))
           [0..<2]) [0..<2])"
  have "stage ?M cs ?ts (Suc mid) (\<lambda>x. of_bool (x hi)) (\<lambda>r s. emHigh ! (2 * r + s))"
  proof (rule stage_target [OF ex mem(2) tc(2) st', where comb = "\<lambda>r i. i + r * 2"])
    show "emHigh ! (2 * of_bool (x hi) + of_bool (y hi)) = makeDDNode N mid
        [em' ! (0 + of_bool (x hi) * 2) ! (0 + of_bool (y hi) * 2), em' ! (0 + of_bool (x hi) * 2) ! (1 + of_bool (y hi) * 2),
         em' ! (1 + of_bool (x hi) * 2) ! (0 + of_bool (y hi) * 2), em' ! (1 + of_bool (x hi) * 2) ! (1 + of_bool (y hi) * 2)]"
      for x y :: "nat \<Rightarrow> bool"
      unfolding emHigh_def by (subst square2_nth) (simp only: square2)
    show "(of_bool (x hi) :: nat) = of_bool (y hi) \<longleftrightarrow> (\<forall>t' \<in> set ?ts. Suc mid \<le> t' \<longrightarrow> x t' = y t')" for x y
      unfolding set using lt by auto
  qed simp
  moreover have "length emHigh = 4" by (simp add: emHigh_def square2)
  ultimately have "\<exists>em' rest. wrapControlsUntil N hi (remaining (Suc mid) cs) emHigh = (rest, em') \<and>
    edge_canonical n (toMatrixDD N (wrapControlsAbove N rest (makeDDNode N hi em'))) \<and>
    (\<forall>x y. den n (toMatrixDD N (wrapControlsAbove N rest (makeDDNode N hi em'))) x y = gate_matrix n ?M cs ?ts x y)"
    by (intro finish_gate [OF ex cs range mem(3) free(4) _ _ free(3)]) (use set lt in auto)
  then obtain em3 rest where wrap3: "wrapControlsUntil N hi (remaining mid cs) emHigh = (rest, em3)"
    and e: "edge_canonical n (toMatrixDD N (wrapControlsAbove N rest (makeDDNode N hi em3)))"
      "\<forall>x y. den n (toMatrixDD N (wrapControlsAbove N rest (makeDDNode N hi em3))) x y = gate_matrix n ?M cs ?ts x y"
    unfolding remaining_Suc [OF tc(2)] by blast
  have "makeThreeQubitGateDD N n mat cs t0 t1 t2 = Inr (toMatrixDD N (wrapControlsAbove N rest (makeDDNode N hi em3)))"
    unfolding makeThreeQubitGateDD_def sort range
    by (simp only: and_then.simps list.case prod.case wrap Let_def emMid_def [unfolded Let_def, symmetric] wrap'
        emHigh_def [symmetric] wrap3)
  then show ?thesis using e by blast
qed

end
