(* ===== verification/DDTransform.thy ===== *)
theory DDTransform
  imports DDArith
begin

text \<open>
  Conjugate transpose, (partial) trace and Kronecker product of matrix diagrams
  (\<open>src/dd/Package.cpp\<close>, \<open>include/mqt-core/dd/Package.hpp\<close>).  The compute tables only return
  results computed before and are left out.
\<close>

section \<open>Conjugate transpose\<close>

fun conjugateTransposeRec :: "Numbers \<Rightarrow> mEdge \<Rightarrow> mEdge" where
  "conjugateTransposeRec N (MTerminal, w) = (MTerminal, cnj w)"
| "conjugateTransposeRec N (MNode v es, w) = (let cs = map (conjugateTransposeRec N) es;
     r = makeDDNode N v (map (\<lambda>i. cs ! (2 * (i mod 2) + i div 2)) [0..<4])
     in (fst r, snd r * cnj w))"

definition dd_conjugateTranspose :: "Numbers \<Rightarrow> mEdge \<Rightarrow> mEdge" where
  "dd_conjugateTranspose N a = (let r = conjugateTransposeRec N a in (fst r, cn_lookup N (snd r)))"

lemma child_index_transpose: "2 * (child_index v x y mod 2) + child_index v x y div 2 = child_index v y x"
  by (simp add: child_index_def)

lemma transpose_index: "i < 4 \<Longrightarrow> 2 * (i mod 2) + i div 2 < (4 :: nat)"
  by presburger

lemma conjugateTransposeRec_ok:
  "exact N \<Longrightarrow> canonical k (fst e) \<Longrightarrow> canonical k (fst (conjugateTransposeRec N e)) \<and>
    (\<forall>x y. den k (conjugateTransposeRec N e) x y = cnj (den k e y x))"
proof (induction N e arbitrary: k rule: conjugateTransposeRec.induct)
  case (1 w)
  show ?case by (simp add: den_terminal same_above_commute [of 0 k])
next
  case (2 N v es w)
  note ex = 2(2)
  have vk: "v < k" and len: "length es = 4" and can: "\<And>i. i < 4 \<Longrightarrow> canonical v (fst (es ! i))"
    using 2(3) by (simp_all add: canonical_MNode)
  let ?cs = "map (\<lambda>i. map (conjugateTransposeRec N) es ! (2 * (i mod 2) + i div 2)) [0..<4]"
  have cs: "canonical v (fst (?cs ! i))"
    "den v (?cs ! i) x y = cnj (den v (es ! (2 * (i mod 2) + i div 2)) y x)" if "i < 4" for i x y
    using 2(1) [OF nth_mem ex can] that transpose_index [OF that] len by simp_all
  obtain p w' where r: "makeDDNode N v ?cs = (p, w')" by force
  have rok: "mwf (Suc v) p" "den (Suc v) (p, w') x y = den v (?cs ! child_index v x y) x y" for x y
    using makeDDNode_ok [OF ex, of v ?cs x y] cs(1) canonical_mwf r by (auto simp: edges_ok_def)
  have rc: "canonical (Suc v) p" using makeDDNode_canonical' [OF ex, of ?cs v] cs(1) r by simp
  have "den (Suc v) (p, w' * cnj w) x y = cnj (den (Suc v) (MNode v es, w) y x)" for x y
  proof -
    have "den (Suc v) (p, w' * cnj w) x y = cnj w * den (Suc v) (p, w') x y"
      using den_scale [of "Suc v" p "w' * cnj w" x y] den_scale [of "Suc v" p w' x y] by simp
    also have "\<dots> = cnj w * cnj (den v (es ! child_index v y x) y x)"
      using cs(2) [OF child_index_less] by (simp only: rok(2) child_index_transpose)
    finally show ?thesis by simp
  qed
  then have "den k (p, w' * cnj w) x y = cnj (den k (MNode v es, w) y x)" for x y
    using den_lift [of "Suc v" k "(p, w' * cnj w)" x y] den_lift [of "Suc v" k "(MNode v es, w)" y x] rok(1) vk
      canonical_mwf [OF 2(3)] same_above_commute [of "Suc v" k x y]
    by (simp add: mwf_node_iff del: den.simps)
  then show ?case using canonical_mono [OF rc, of k] vk r by (simp add: Let_def)
qed

lemma conjugateTransposeRec_canonical:
  assumes "exact N" and "edge_canonical k e"
  shows "edge_canonical k (conjugateTransposeRec N e)"
proof (cases "(N, e)" rule: conjugateTransposeRec.cases)
  case (2 N' v es w)
  have "canonical k (fst (conjugateTransposeRec N e))"
    using conjugateTransposeRec_ok [OF assms(1)] assms(2) by (simp add: edge_canonical_def)
  moreover have "w \<noteq> 0" using 2 assms(2) by (auto simp: edge_canonical_def)
  moreover have "snd (makeDDNode N v cs) = 0 \<longrightarrow> fst (makeDDNode N v cs) = MTerminal"
    if "length cs = 4" for cs
    using makeDDNode_zero [OF assms(1) that] .
  ultimately show ?thesis using 2 by (simp add: edge_canonical_def Let_def)
qed (simp add: edge_canonical_def)

lemma dd_conjugateTranspose_ok:
  assumes "exact N" and "edge_canonical k e"
  shows "edge_canonical k (dd_conjugateTranspose N e) \<and>
    (\<forall>x y. den k (dd_conjugateTranspose N e) x y = cnj (den k e y x))"
proof -
  have "dd_conjugateTranspose N e = conjugateTransposeRec N e"
    by (simp add: dd_conjugateTranspose_def Let_def exact_lookup [OF assms(1)])
  then show ?thesis
    using conjugateTransposeRec_canonical [OF assms] conjugateTransposeRec_ok [OF assms(1)] assms(2)
    by (simp add: edge_canonical_def)
qed

section \<open>Trace\<close>

text \<open>
  The trace is halved at every qubit it eliminates.  The new variable of a node that is kept
  is computed in \<open>size_t\<close> and stored in a \<open>Qubit\<close> of 16 bits.
\<close>

definition adjusted_var :: "nat \<Rightarrow> bool list \<Rightarrow> nat \<Rightarrow> nat" where
  "adjusted_var v eliminate alreadyEliminated =
     nat ((int v - (int (count_list eliminate True) - int alreadyEliminated)) mod 2 ^ 16)"

fun trace_rec :: "Numbers \<Rightarrow> mEdge \<Rightarrow> bool list \<Rightarrow> nat \<Rightarrow> nat \<Rightarrow> mEdge result" where
  "trace_rec N a eliminate 0 done = Inr (if approximatelyZero N (snd a) then mzero else a)"
| "trace_rec N a eliminate (Suc level) done = (
     if approximatelyZero N (snd a) then Inr mzero
     else if edge_isIdentity a \<or> list_all Not (take (Suc level) eliminate) then Inr a
     else case a of
       (MTerminal, w) \<Rightarrow> Inl Undefined
     | (MNode v es, w) \<Rightarrow>
         if length eliminate \<le> v then Inl Undefined
         else if eliminate ! v then
           and_then (trace_rec N (es ! 0) eliminate level (Suc done)) (\<lambda>r0.
           and_then (trace_rec N (es ! 3) eliminate level (Suc done)) (\<lambda>r3.
           and_then (add2 N r0 r3 v) (\<lambda>r. Inr (fst r, snd r / 2 * w))))
         else and_then (map_res (\<lambda>e. trace_rec N e eliminate level done) es) (\<lambda>edges.
           let r = makeDDNode N (adjusted_var v eliminate done) edges in Inr (fst r, snd r * w)))"

definition partialTrace :: "Numbers \<Rightarrow> mEdge \<Rightarrow> bool list \<Rightarrow> mEdge result" where
  "partialTrace N a eliminate = and_then (trace_rec N a eliminate (length eliminate) 0)
     (\<lambda>r. Inr (fst r, cn_lookup N (snd r)))"

definition dd_trace :: "Numbers \<Rightarrow> mEdge \<Rightarrow> nat \<Rightarrow> complex result" where
  "dd_trace N a numQubits = (if edge_isIdentity a then Inr (snd a)
     else and_then (trace_rec N a (replicate numQubits True) numQubits 0) (\<lambda>r. Inr (snd r)))"

definition mat_trace :: "nat \<Rightarrow> ((nat \<Rightarrow> bool) \<Rightarrow> (nat \<Rightarrow> bool) \<Rightarrow> complex) \<Rightarrow> complex" where
  "mat_trace k A = bit_sum k (\<lambda>x. A x x) (\<lambda>_. False)"

lemma bit_sum_den: "bit_sum k (\<lambda>x. den k e x x) z = mat_trace k (den k e)"
  unfolding mat_trace_def by (rule bit_sum_base) (rule den_cong)

lemma mat_trace_scale: "mat_trace k (den k (p, w)) = w * mat_trace k (den k (p, 1))"
  unfolding mat_trace_def bit_sum_scale [symmetric] by (rule bit_sum_cong) (rule den_scale)

lemma mat_trace_zero [simp]: "mat_trace k (\<lambda>x y. 0) = 0"
  by (simp add: mat_trace_def)

lemma mat_trace_skip: "mwf k (fst e) \<Longrightarrow> mat_trace (Suc k) (den (Suc k) e) = 2 * mat_trace k (den k e)"
  using den_skip [of k "fst e" "snd e"] by (simp add: mat_trace_def [of "Suc k"] bit_sum_den del: den.simps)

lemma mat_trace_lift:
  assumes "l \<le> k" and "mwf l (fst e)"
  shows "mat_trace k (den k e) = 2 ^ (k - l) * mat_trace l (den l e)"
  using assms(1)
proof (induction k rule: dec_induct)
  case (step k)
  then show ?case using mat_trace_skip [OF mwf_mono [OF assms(2)]] by (simp add: Suc_diff_le del: den.simps)
qed simp

lemma mat_trace_node:
  "mat_trace (Suc v) (den (Suc v) (MNode v es, w)) =
    w * (mat_trace v (den v (es ! 0)) + mat_trace v (den v (es ! 3)))"
proof -
  have "bit_sum v (\<lambda>x. den (Suc v) (MNode v es, w) x x) ((\<lambda>_. False)(v := b)) =
    w * mat_trace v (den v (es ! (if b then 3 else 0)))" for b
  proof -
    have "bit_sum v (\<lambda>x. den (Suc v) (MNode v es, w) x x) ((\<lambda>_. False)(v := b)) =
      bit_sum v (\<lambda>x. w * den v (es ! (if b then 3 else 0)) x x) ((\<lambda>_. False)(v := b))"
      by (rule bit_sum_cong) (simp add: child_index_def)
    then show ?thesis by (simp only: bit_sum_scale bit_sum_den)
  qed
  from this [of False] this [of True] show ?thesis
    by (simp add: mat_trace_def [of "Suc v"] distrib_left del: den.simps)
qed

lemma full_trace:
  assumes ex: "exact N"
  shows "mwf k (fst a) \<Longrightarrow> k \<le> l \<Longrightarrow> l \<le> n \<Longrightarrow>
    \<exists>w. trace_rec N a (replicate n True) l d = Inr (MTerminal, w) \<and> w * 2 ^ k = mat_trace k (den k a)"
proof (induction l arbitrary: a k d)
  case 0
  then have "fst a = MTerminal" "k = 0" by (auto elim: mwf.cases)
  then show ?case
    by (cases a) (auto simp: exact_zero [OF ex] mzero_def mat_trace_def)
next
  case (Suc l)
  obtain p w where a: "a = (p, w)" by force
  show ?case
  proof (cases "w = 0 \<or> p = MTerminal")
    case True
    have "mat_trace k (den k (MTerminal, w)) = w * 2 ^ k"
      using mat_trace_lift [of 0 k "(MTerminal, w)"] by (simp add: mat_trace_def [of 0])
    moreover have "mat_trace k (den k (p, 0)) = 0" by (simp add: mat_trace_def)
    ultimately show ?thesis using True by (cases "w = 0") (simp_all add: a exact_zero [OF ex] mzero_def)
  next
    case False
    then obtain v es where p: "p = MNode v es" by (cases p) auto
    have wf: "v < k" "\<And>i. i < 4 \<Longrightarrow> mwf v (fst (es ! i))"
      using Suc.prems(1) by (simp_all add: a p mwf_node_iff edges_ok_def)
    from Suc.IH [OF wf(2) [of 0]] obtain w0 where
      w0: "trace_rec N (es ! 0) (replicate n True) l (Suc d) = Inr (MTerminal, w0)"
        "w0 * 2 ^ v = mat_trace v (den v (es ! 0))" using wf(1) Suc.prems by auto
    from Suc.IH [OF wf(2) [of 3]] obtain w3 where
      w3: "trace_rec N (es ! 3) (replicate n True) l (Suc d) = Inr (MTerminal, w3)"
        "w3 * 2 ^ v = mat_trace v (den v (es ! 3))" using wf(1) Suc.prems by auto
    have add: "add2 N (MTerminal, w0) (MTerminal, w3) v = Inr (MTerminal, w0 + w3)"
      by (cases v) (simp_all add: add_shortcut_def mzero_def)
    have elim: "\<not> list_all Not (take (Suc l) (replicate n True))" "v < n"
      using Suc.prems wf(1) by (cases n, simp_all)
    have "trace_rec N a (replicate n True) (Suc l) d = Inr (MTerminal, (w0 + w3) / 2 * w)"
      using False w0(1) w3(1) add elim
      by (simp add: a p exact_zero [OF ex] del: take_replicate take_Suc_Cons replicate.simps)
    moreover have "(w0 + w3) / 2 * w * 2 ^ k = mat_trace k (den k a)"
    proof -
      have "mat_trace k (den k a) = 2 ^ (k - Suc v) * mat_trace (Suc v) (den (Suc v) a)"
        using wf Suc.prems(1) by (intro mat_trace_lift) (simp_all add: a p mwf_node_iff)
      also have "\<dots> = 2 ^ (k - Suc v) * (w * ((w0 + w3) * 2 ^ v))"
        unfolding a p mat_trace_node w0(2) [symmetric] w3(2) [symmetric] by (simp add: algebra_simps)
      also have "\<dots> = (w0 + w3) / 2 * w * (2 ^ (k - Suc v) * 2 ^ Suc v)" by simp
      also have "(2::complex) ^ (k - Suc v) * 2 ^ Suc v = 2 ^ k"
        using wf(1) by (simp only: power_add [symmetric]) simp
      finally show ?thesis by simp
    qed
    ultimately show ?thesis by blast
  qed
qed

lemma dd_trace_ok:
  assumes "exact N" and "mwf n (fst a)"
  shows "\<exists>w. dd_trace N a n = Inr w \<and> w * 2 ^ n = mat_trace n (den n a)"
proof (cases "edge_isIdentity a")
  case True
  then obtain w where a: "a = (MTerminal, w)" by (cases a) auto
  then show ?thesis using True mat_trace_lift [of 0 n "(MTerminal, w)"]
    by (simp add: dd_trace_def mat_trace_def [of 0])
next
  case False
  then show ?thesis using full_trace [OF assms order_refl order_refl, of 0] by (auto simp: dd_trace_def)
qed

text \<open>
  A node that is kept is given a wrong variable when an eliminated qubit above it has no node
  of its own: tracing out the higher of two qubits from an X gate on the lower one ends with a
  node on qubit 65535.
\<close>

lemma partialTrace_skipped_level:
  "partialTrace exact_numbers (MNode 0 [mzero, mone, mone, mzero], 1) [False, True] =
    Inr (MNode 65535 [mzero, mone, mone, mzero], 1)"
  by (simp add: partialTrace_def adjusted_var_def makeDDNode_eval numeral_2_eq_2)

end
