(* ===== verification/DDAlgebra.thy ===== *)
theory DDAlgebra
  imports DDTransform
begin

text \<open>
  The algebra of matrix diagrams.  Multiplication of canonical diagrams is associative and has
  the one-terminal as its unit, as an equality of edges, because the products denote the same
  matrix and canonical edges are determined by their matrix.  Clients see these laws through
  the locale \<open>partial_monoid\<close>, whose operation may fail outside its carrier.
\<close>

section \<open>Matrix products\<close>

lemma bit_sum_base_above: "(\<And>i. k \<le> i \<Longrightarrow> z i = z' i) \<Longrightarrow> bit_sum k f z = bit_sum k f z'"
proof (induction k arbitrary: z z')
  case 0
  then have "z = z'" by (simp add: fun_eq_iff)
  then show ?case by simp
next
  case (Suc k)
  have "bit_sum k f (z(k := b)) = bit_sum k f (z'(k := b))" for b
    by (rule Suc.IH) (use Suc.prems in \<open>metis Suc_leI fun_upd_apply le_neq_implies_less\<close>)
  then show ?case by simp
qed

lemma bit_sum_swap: "bit_sum k (\<lambda>z. bit_sum l (f z) y) x = bit_sum l (\<lambda>u. bit_sum k (\<lambda>z. f z u) x) y"
  by (induction l arbitrary: y) (simp_all add: bit_sum_add)

lemma mat_mult_assoc: "mat_mult k (mat_mult k A B) C x y = mat_mult k A (mat_mult k B C) x y"
proof -
  have "mat_mult k (mat_mult k A B) C x y = bit_sum k (\<lambda>z. bit_sum k (\<lambda>u. A x u * B u z * C z y) x) x"
    unfolding mat_mult_def by (simp add: mult.commute [of _ "C _ y"] bit_sum_scale [symmetric] mult.assoc)
  also have "\<dots> = bit_sum k (\<lambda>u. bit_sum k (\<lambda>z. A x u * B u z * C z y) x) x" by (rule bit_sum_swap)
  also have "\<dots> = bit_sum k (\<lambda>u. A x u * bit_sum k (\<lambda>z. B u z * C z y) u) x"
  proof (rule bit_sum_cong)
    fix u
    assume u: "\<forall>i \<ge> k. u i = x i"
    have "bit_sum k (\<lambda>z. A x u * B u z * C z y) x = A x u * bit_sum k (\<lambda>z. B u z * C z y) x"
      by (simp add: bit_sum_scale [symmetric] mult.assoc)
    also have "bit_sum k (\<lambda>z. B u z * C z y) x = bit_sum k (\<lambda>z. B u z * C z y) u"
      by (rule bit_sum_base_above) (use u in auto)
    finally show "bit_sum k (\<lambda>z. A x u * B u z * C z y) x = A x u * bit_sum k (\<lambda>z. B u z * C z y) u" .
  qed
  finally show ?thesis unfolding mat_mult_def .
qed

section \<open>The laws a client relies on\<close>

locale partial_monoid =
  fixes valid :: "'e \<Rightarrow> bool" and one :: 'e and mul :: "'e \<Rightarrow> 'e \<Rightarrow> 'e result"
  assumes one_valid: "valid one"
    and mul_total: "valid x \<Longrightarrow> valid y \<Longrightarrow> \<exists>z. mul x y = Inr z \<and> valid z"
    and mul_assoc: "valid x \<Longrightarrow> valid y \<Longrightarrow> valid z \<Longrightarrow>
      and_then (mul x y) (\<lambda>xy. mul xy z) = and_then (mul y z) (\<lambda>yz. mul x yz)"
    and one_mul: "valid x \<Longrightarrow> mul one x = Inr x"
    and mul_one: "valid x \<Longrightarrow> mul x one = Inr x"
begin

lemma mul_valid: "mul x y = Inr z \<Longrightarrow> valid x \<Longrightarrow> valid y \<Longrightarrow> valid z"
  using mul_total by fastforce

text \<open>The product of a list, the last factor leftmost, as operations are applied one after the other.\<close>

lemma product_total: "list_all valid xs \<Longrightarrow> valid a \<Longrightarrow> \<exists>z. fold_res (\<lambda>x e. mul x e) xs a = Inr z \<and> valid z"
proof (induction xs arbitrary: a)
  case (Cons x xs)
  then obtain b where b: "mul x a = Inr b" "valid b" using mul_total [of x a] by auto
  then show ?case using Cons.IH [of b] Cons.prems by simp
qed simp

lemma product_from: "list_all valid xs \<Longrightarrow> valid a \<Longrightarrow>
    fold_res (\<lambda>x e. mul x e) xs a = and_then (fold_res (\<lambda>x e. mul x e) xs one) (\<lambda>z. mul z a)"
proof (induction xs arbitrary: a)
  case Nil
  then show ?case by (simp add: one_mul)
next
  case (Cons x xs)
  then have x: "valid x" and xs: "list_all valid xs" and a: "valid a" by simp_all
  from mul_total [OF x a] obtain b where b: "mul x a = Inr b" "valid b" by auto
  from product_total [OF xs one_valid] obtain z where z: "fold_res (\<lambda>x e. mul x e) xs one = Inr z" "valid z" by auto
  have "fold_res (\<lambda>x e. mul x e) (x # xs) a = mul z b" using Cons.IH [OF xs b(2)] b(1) z(1) by simp
  also have "\<dots> = and_then (mul z x) (\<lambda>zx. mul zx a)" using mul_assoc [OF z(2) x a] b(1) by simp
  also have "\<dots> = and_then (fold_res (\<lambda>x e. mul x e) (x # xs) one) (\<lambda>w. mul w a)"
    using Cons.IH [OF xs x] z(1) by (simp add: mul_one [OF x])
  finally show ?case .
qed

lemma product_append: "list_all valid xs \<Longrightarrow> list_all valid ys \<Longrightarrow>
    fold_res (\<lambda>x e. mul x e) (xs @ ys) one =
    and_then (fold_res (\<lambda>x e. mul x e) xs one) (\<lambda>e. and_then (fold_res (\<lambda>x e. mul x e) ys one) (\<lambda>f. mul f e))"
proof -
  assume xs: "list_all valid xs" and ys: "list_all valid ys"
  from product_total [OF xs one_valid] obtain z where z: "fold_res (\<lambda>x e. mul x e) xs one = Inr z" "valid z" by auto
  then show ?thesis using product_from [OF ys z(2)] by (simp add: fold_res_append)
qed

end

section \<open>Matrix diagrams satisfy the laws\<close>

lemma mone_canonical: "edge_canonical k mone"
  by (simp add: mone_def edge_canonical_def)

lemma dd_multiply_eq:
  assumes ex: "exact N" and k: "0 < k" and xy: "edge_canonical k x" "edge_canonical k y"
    and z: "edge_canonical k z" "\<And>r c. den k z r c = mat_mult k (den k x) (den k y) r c"
  shows "dd_multiply N x y = Inr z"
proof -
  from dd_multiply_ok [OF ex k xy] obtain e where e: "dd_multiply N x y = Inr e" "edge_canonical k e"
    "\<forall>r c. den k e r c = mat_mult k (den k x) (den k y) r c" by blast
  have "e = z" by (rule canonical_unique [OF e(2) z(1)]) (simp add: e(3) z(2))
  then show ?thesis using e(1) by simp
qed

lemma dd_multiply_assoc:
  assumes ex: "exact N" and k: "0 < k" and xyz: "edge_canonical k x" "edge_canonical k y" "edge_canonical k z"
  shows "and_then (dd_multiply N x y) (\<lambda>xy. dd_multiply N xy z) = and_then (dd_multiply N y z) (\<lambda>yz. dd_multiply N x yz)"
proof -
  from dd_multiply_ok [OF ex k xyz(1,2)] obtain xy where xy: "dd_multiply N x y = Inr xy" "edge_canonical k xy"
    "\<forall>r c. den k xy r c = mat_mult k (den k x) (den k y) r c" by blast
  from dd_multiply_ok [OF ex k xyz(2,3)] obtain yz where yz: "dd_multiply N y z = Inr yz" "edge_canonical k yz"
    "\<forall>r c. den k yz r c = mat_mult k (den k y) (den k z) r c" by blast
  from dd_multiply_ok [OF ex k xyz(1) yz(2)] obtain w where w: "dd_multiply N x yz = Inr w" "edge_canonical k w"
    "\<forall>r c. den k w r c = mat_mult k (den k x) (den k yz) r c" by blast
  have den: "den k xy = mat_mult k (den k x) (den k y)" "den k yz = mat_mult k (den k y) (den k z)"
    by (simp_all add: fun_eq_iff xy(3) yz(3))
  have "dd_multiply N xy z = Inr w"
    by (rule dd_multiply_eq [OF ex k xy(2) xyz(3) w(2)]) (simp add: w(3) den mat_mult_assoc)
  then show ?thesis using xy(1) yz(1) w(1) by simp
qed

lemma dd_multiply_one:
  assumes ex: "exact N" and k: "0 < k" and x: "edge_canonical k x"
  shows "dd_multiply N mone x = Inr x" "dd_multiply N x mone = Inr x"
proof -
  have "den k x r c = mat_mult k (den k mone) (den k x) r c" "den k x r c = mat_mult k (den k x) (den k mone) r c" for r c
    by (simp_all add: mone_def mat_mult_identity_left mat_mult_identity_right)
  then show "dd_multiply N mone x = Inr x" "dd_multiply N x mone = Inr x"
    using dd_multiply_eq [OF ex k] mone_canonical x by blast+
qed

text \<open>
  The only exact numbers are \<open>exact_numbers\<close>.  A package of \<open>Suc k\<close> qubits is an instance: the
  carrier is the set of canonical edges.
\<close>

lemma exact_iff: "exact N \<longleftrightarrow> N = exact_numbers"
  by (auto simp: exact_def exact_numbers_def)

interpretation dd: partial_monoid "edge_canonical (Suc k)" mone "dd_multiply exact_numbers" for k
proof unfold_locales
  fix x y z
  assume x: "edge_canonical (Suc k) x"
  note ex = exact_exact_numbers
  show "dd_multiply exact_numbers mone x = Inr x" "dd_multiply exact_numbers x mone = Inr x"
    using dd_multiply_one [OF ex _ x] by simp_all
  assume y: "edge_canonical (Suc k) y"
  show "\<exists>z. dd_multiply exact_numbers x y = Inr z \<and> edge_canonical (Suc k) z"
    using dd_multiply_ok [OF ex _ x y] by blast
  assume z: "edge_canonical (Suc k) z"
  show "and_then (dd_multiply exact_numbers x y) (\<lambda>xy. dd_multiply exact_numbers xy z) =
      and_then (dd_multiply exact_numbers y z) (\<lambda>yz. dd_multiply exact_numbers x yz)"
    by (rule dd_multiply_assoc [OF ex _ x y z]) simp
qed (rule mone_canonical)

section \<open>Adjoints\<close>

lemma mat_mult_adjoint: "cnj (mat_mult k A B x y) = mat_mult k (\<lambda>x y. cnj (B y x)) (\<lambda>x y. cnj (A y x)) y x"
  if "\<And>z z' u. (\<And>i. i < k \<Longrightarrow> z i = z' i) \<Longrightarrow> A x z = A x z' \<and> B z y = B z' y"
proof -
  have "cnj (bit_sum k f z) = bit_sum k (\<lambda>z. cnj (f z)) z" for f z
    by (induction k arbitrary: z) simp_all
  then have "cnj (mat_mult k A B x y) = bit_sum k (\<lambda>z. cnj (B z y) * cnj (A x z)) x"
    by (simp add: mat_mult_def mult.commute)
  also have "\<dots> = bit_sum k (\<lambda>z. cnj (B z y) * cnj (A x z)) y"
    by (rule bit_sum_base) (use that in metis)
  finally show ?thesis by (simp add: mat_mult_def)
qed

lemma dd_conjugateTranspose_multiply:
  assumes ex: "exact N" and k: "0 < k" and xy: "edge_canonical k x" "edge_canonical k y" "dd_multiply N x y = Inr z"
  shows "dd_multiply N (dd_conjugateTranspose N y) (dd_conjugateTranspose N x) = Inr (dd_conjugateTranspose N z)"
proof -
  from dd_multiply_ok [OF ex k xy(1,2)] xy(3) have z: "edge_canonical k z"
    "\<forall>r c. den k z r c = mat_mult k (den k x) (den k y) r c" by auto
  note adj = dd_conjugateTranspose_ok [OF ex]
  have "den k (dd_conjugateTranspose N z) r c =
      mat_mult k (den k (dd_conjugateTranspose N y)) (den k (dd_conjugateTranspose N x)) r c" for r c
  proof -
    have "den k (dd_conjugateTranspose N z) r c = cnj (mat_mult k (den k x) (den k y) c r)"
      using adj [OF z(1)] z(2) by simp
    also have "\<dots> = mat_mult k (\<lambda>a b. cnj (den k y b a)) (\<lambda>a b. cnj (den k x b a)) r c"
      by (rule mat_mult_adjoint) (auto intro: den_cong)
    also have "(\<lambda>a b. cnj (den k y b a)) = den k (dd_conjugateTranspose N y)"
      using adj [OF xy(2)] by (simp add: fun_eq_iff)
    also have "(\<lambda>a b. cnj (den k x b a)) = den k (dd_conjugateTranspose N x)"
      using adj [OF xy(1)] by (simp add: fun_eq_iff)
    finally show ?thesis .
  qed
  note den = this
  show ?thesis
    by (rule dd_multiply_eq [OF ex k _ _ _ den]) (use adj xy z(1) in blast)+
qed

lemma dd_conjugateTranspose_twice:
  assumes ex: "exact N" and x: "edge_canonical k x"
  shows "dd_conjugateTranspose N (dd_conjugateTranspose N x) = x"
proof (rule canonical_unique [OF _ x])
  note adj = dd_conjugateTranspose_ok [OF ex]
  show "edge_canonical k (dd_conjugateTranspose N (dd_conjugateTranspose N x))" using adj x by blast
  show "den k (dd_conjugateTranspose N (dd_conjugateTranspose N x)) r c = den k x r c" for r c
    using adj [OF x] adj [of k "dd_conjugateTranspose N x"] by simp
qed

lemma dd_conjugateTranspose_one: "exact N \<Longrightarrow> dd_conjugateTranspose N mone = mone"
  by (simp add: dd_conjugateTranspose_def mone_def exact_lookup)

end
