(* ===== verification/DDUnitary.thy ===== *)
theory DDUnitary
  imports DDGates DDAlgebra IRGates
begin

text \<open>
  The product of two gates with the same controls and targets is the gate of the product of
  their matrices, and the adjoint of a gate is the gate of the adjoint matrix.  The matrices of
  \<open>src/dd/GateMatrixDefinitions.cpp\<close> are unitary, so a gate and its adjoint cancel.
\<close>

section \<open>Sums over the targets\<close>

fun target_sum :: "nat list \<Rightarrow> ((nat \<Rightarrow> bool) \<Rightarrow> 'a::comm_monoid_add) \<Rightarrow> (nat \<Rightarrow> bool) \<Rightarrow> 'a" where
  "target_sum [] f x = f x"
| "target_sum (t # ts) f x = target_sum ts f (x(t := False)) + target_sum ts f (x(t := True))"

lemma target_sum_cong:
  "(\<And>z. (\<forall>q. q \<notin> set ts \<longrightarrow> z q = x q) \<Longrightarrow> f z = g z) \<Longrightarrow> target_sum ts f x = target_sum ts g x"
proof (induction ts arbitrary: x)
  case (Cons t ts)
  have "target_sum ts f (x(t := b)) = target_sum ts g (x(t := b))" for b
    by (rule Cons.IH, rule Cons.prems) auto
  then show ?case by simp
qed simp

lemma target_sum_insert:
  "distinct ts \<Longrightarrow> t \<in> set ts \<Longrightarrow> target_sum ts f x = target_sum (t # remove1 t ts) f x"
proof (induction ts arbitrary: x)
  case (Cons u ts)
  show ?case
  proof (cases "u = t")
    case False
    then have "target_sum ts f (x(u := b)) = target_sum (t # remove1 t ts) f (x(u := b))" for b
      using Cons by simp
    then show ?thesis using False by (simp add: fun_upd_twist add.assoc add.left_commute)
  qed simp
qed simp

lemma bit_sum_target_sum:
  "distinct ts \<Longrightarrow> (\<And>t. t \<in> set ts \<Longrightarrow> t < n) \<Longrightarrow>
    (\<And>z q. q < n \<Longrightarrow> q \<notin> set ts \<Longrightarrow> z q \<noteq> x q \<Longrightarrow> f z = 0) \<Longrightarrow> bit_sum n f x = target_sum ts f x"
proof (induction n arbitrary: ts x)
  case 0
  then have "ts = []" by (cases ts) auto
  then show ?case by simp
next
  case (Suc n)
  show ?case
  proof (cases "n \<in> set ts")
    case True
    let ?ts = "remove1 n ts"
    have "bit_sum n f (x(n := b)) = target_sum ?ts f (x(n := b))" for b
      by (rule Suc.IH) (use Suc.prems in \<open>auto simp: less_Suc_eq\<close>)
    then show ?thesis using target_sum_insert [OF Suc.prems(1) True, of f x] by simp
  next
    case False
    then have lt: "t \<in> set ts \<Longrightarrow> t < n" for t using Suc.prems(2) [of t] by (cases "t = n") auto
    have "bit_sum n f (x(n := (\<not> x n))) = bit_sum n (\<lambda>z. 0) (x(n := (\<not> x n)))"
      by (rule bit_sum_cong) (rule Suc.prems(3) [of n], use False in auto)
    then have "bit_sum n f (x(n := (\<not> x n))) = 0" by simp
    moreover have "bit_sum n f (x(n := x n)) = target_sum ts f x"
      unfolding fun_upd_triv by (rule Suc.IH [OF Suc.prems(1) lt Suc.prems(3)]) simp_all
    ultimately show ?thesis by (cases "x n") simp_all
  qed
qed

lemma target_sum_snoc: "target_sum (ts @ [t]) f x = target_sum ts (\<lambda>z. f (z(t := False)) + f (z(t := True))) x"
  by (induction ts arbitrary: x) simp_all

lemma sum_pairs: "sum F {..<2 * n} = (\<Sum>r<n. F (2 * r) + F (2 * r + 1))" for F :: "nat \<Rightarrow> 'a::comm_monoid_add"
  by (induction n) (simp_all add: add.assoc)

lemma target_sum_index:
  "distinct ts \<Longrightarrow> target_sum ts (\<lambda>z. F (target_index ts z)) x = (\<Sum>r<2 ^ length ts. F r)"
proof (induction ts arbitrary: F rule: rev_induct)
  case (snoc t ts)
  have upd: "target_index ts (z(t := b)) = target_index ts z" for z b
    using snoc.prems by (subst target_index_inj) auto
  have "target_sum (ts @ [t]) (\<lambda>z. F (target_index (ts @ [t]) z)) x =
      target_sum ts (\<lambda>z. F (2 * target_index ts z) + F (2 * target_index ts z + 1)) x"
    by (simp add: target_sum_snoc target_index_snoc upd)
  then show ?case
    using snoc.IH [of "\<lambda>r. F (2 * r) + F (2 * r + 1)"] snoc.prems by (simp add: sum_pairs)
qed (simp add: target_index_def)

section \<open>Products and adjoints of gates\<close>

definition gate_fits :: "nat \<Rightarrow> Controls \<Rightarrow> nat list \<Rightarrow> bool" where
  "gate_fits n cs ts \<longleftrightarrow> distinct ts \<and> (\<forall>t \<in> set ts. t < n) \<and> (\<forall>c \<in> set cs. qubit c < n \<and> qubit c \<notin> set ts)"

lemma same_rest_active: "gate_fits n cs ts \<Longrightarrow> same_rest n ts x y \<Longrightarrow> active cs x = active cs y"
  by (auto simp: gate_fits_def same_rest_def active_def list_all_iff)

lemma gate_matrix_index: "gate_matrix n M cs ts x y = (if \<not> same_rest n ts x y then 0 else
    (if active cs x then M else (\<lambda>r s. of_bool (r = s))) (target_index ts x) (target_index ts y))"
  by (simp add: gate_matrix_def target_index_inj list_all_iff)

lemma gate_matrix_mult:
  assumes ok: "gate_fits n cs ts"
  shows "mat_mult n (gate_matrix n A cs ts) (gate_matrix n B cs ts) x y =
    gate_matrix n (\<lambda>r s. \<Sum>k<2 ^ length ts. A r k * B k s) cs ts x y"
proof -
  let ?f = "\<lambda>z. gate_matrix n A cs ts x z * gate_matrix n B cs ts z y"
  let ?I = "\<lambda>r s :: nat. of_bool (r = s) :: complex"
  let ?A = "if active cs x then A else ?I" and ?B = "if active cs x then B else ?I"
  have dist: "distinct ts" using ok by (simp add: gate_fits_def)
  have "bit_sum n ?f x = target_sum ts ?f x"
    by (rule bit_sum_target_sum [OF dist])
      (use ok in \<open>auto simp: gate_fits_def gate_matrix_def same_rest_def list_all_iff\<close>)
  also have "\<dots> = target_sum ts (\<lambda>z. of_bool (same_rest n ts x y) *
      (?A (target_index ts x) (target_index ts z) * ?B (target_index ts z) (target_index ts y))) x"
  proof (rule target_sum_cong)
    fix z
    assume z: "\<forall>q. q \<notin> set ts \<longrightarrow> z q = x q"
    then have xz: "same_rest n ts x z" and zy: "same_rest n ts z y \<longleftrightarrow> same_rest n ts x y"
      by (auto simp: same_rest_def list_all_iff)
    show "?f z = of_bool (same_rest n ts x y) *
        (?A (target_index ts x) (target_index ts z) * ?B (target_index ts z) (target_index ts y))"
      using xz zy same_rest_active [OF ok xz] by (simp add: gate_matrix_index)
  qed
  also have "\<dots> = of_bool (same_rest n ts x y) * (\<Sum>k<2 ^ length ts. ?A (target_index ts x) k * ?B k (target_index ts y))"
    using target_sum_index [OF dist, of "\<lambda>k. of_bool (same_rest n ts x y) * (?A (target_index ts x) k * ?B k (target_index ts y))" x]
    by (simp add: sum_distrib_left)
  also have "\<dots> = gate_matrix n (\<lambda>r s. \<Sum>k<2 ^ length ts. A r k * B k s) cs ts x y"
  proof -
    have "(\<Sum>k<2 ^ length ts. ?I (target_index ts x) k * ?I k (target_index ts y)) = ?I (target_index ts x) (target_index ts y)"
    proof -
      have "(\<Sum>k<2 ^ length ts. ?I (target_index ts x) k * ?I k (target_index ts y)) =
          (\<Sum>k<2 ^ length ts. if k = target_index ts x then ?I k (target_index ts y) else 0)"
        by (rule sum.cong) auto
      also have "\<dots> = ?I (target_index ts x) (target_index ts y)"
        using target_index_less [of ts x] by (simp add: sum.delta)
      finally show ?thesis .
    qed
    then show ?thesis by (simp add: gate_matrix_index)
  qed
  finally show ?thesis by (simp add: mat_mult_def)
qed

lemma gate_matrix_adjoint:
  assumes "gate_fits n cs ts"
  shows "cnj (gate_matrix n M cs ts y x) = gate_matrix n (\<lambda>r s. cnj (M s r)) cs ts x y"
proof -
  have "same_rest n ts y x = same_rest n ts x y" by (auto simp: same_rest_def list_all_iff)
  then show ?thesis using same_rest_active [OF assms, of x y] by (auto simp: gate_matrix_index)
qed

lemma gate_matrix_cong:
  "(\<And>r s. r < 2 ^ length ts \<Longrightarrow> s < 2 ^ length ts \<Longrightarrow> A r s = B r s) \<Longrightarrow>
    gate_matrix n A cs ts x y = gate_matrix n B cs ts x y"
  using target_index_less by (simp add: gate_matrix_def)

lemma gate_matrix_identity:
  assumes "gate_fits n cs ts"
  shows "gate_matrix n (\<lambda>r s. of_bool (r = s)) cs ts x y = den n mone x y"
proof -
  have "same_rest n ts x y \<and> target_index ts x = target_index ts y \<longleftrightarrow> same_above 0 n x y"
    using assms by (auto simp: target_index_inj same_rest_def same_above_def list_all_iff gate_fits_def)
  then show ?thesis by (auto simp: gate_matrix_index den_identity)
qed

definition unitary_matrix :: "nat \<Rightarrow> (nat \<Rightarrow> nat \<Rightarrow> complex) \<Rightarrow> bool" where
  "unitary_matrix d M \<longleftrightarrow> (\<forall>r < d. \<forall>s < d. (\<Sum>k<d. cnj (M k r) * M k s) = of_bool (r = s))"

lemma gate_matrix_unitary:
  assumes ok: "gate_fits n cs ts" and M: "unitary_matrix (2 ^ length ts) M"
  shows "mat_mult n (\<lambda>x y. cnj (gate_matrix n M cs ts y x)) (gate_matrix n M cs ts) x y = den n mone x y"
  unfolding gate_matrix_adjoint [OF ok] gate_matrix_mult [OF ok] gate_matrix_identity [OF ok, symmetric]
  by (rule gate_matrix_cong) (use M in \<open>simp add: unitary_matrix_def\<close>)

end
