(* ===== verification/DDGateUnitary.thy ===== *)
theory DDGateUnitary
  imports DDUnitary
begin

text \<open>
  The matrices of \<open>src/dd/GateMatrixDefinitions.cpp\<close> are unitary for all parameters.
\<close>

lemma unitary2: "unitary_matrix 2 (\<lambda>r s. [a, b, c, d] ! (2 * r + s)) \<longleftrightarrow>
    cnj a * a + cnj c * c = 1 \<and> cnj a * b + cnj c * d = 0 \<and> cnj b * a + cnj d * c = 0 \<and> cnj b * b + cnj d * d = 1"
  by (simp add: unitary_matrix_def numeral_2_eq_2 numeral_3_eq_3 All_less_Suc lessThan_Suc add.commute conj_ac)

text \<open>Phases: products of \<open>cis\<close> add their angles.\<close>

lemma cx_cis: "cx (cos x * r) (sin x * r) = of_real r * cis x" "cx (- cos x * r) (- sin x * r) = - of_real r * cis x"
  "cx (cos x) (sin x) = cis x" "cx r 0 = of_real r"
  by (simp_all add: complex_eq_iff)

lemma cnj_cis_mult: "cnj (cis x) * cis y = cis (y - x)" "cis y * cnj (cis x) = cis (y - x)"
  by (simp_all add: cis_cnj cis_mult)

lemma SQRT2_2_mult: "SQRT2_2 * SQRT2_2 = 1 / 2" "SQRT2_2\<^sup>2 = 1 / 2"
  by (simp_all add: SQRT2_2_def power_divide)

lemma sin_cos_sum: "sin x * sin x + cos x * cos x = (1 :: real)" "cos x * cos x + sin x * sin x = (1 :: real)"
  using sin_cos_squared_add [of x] by (simp_all add: power2_eq_square)

lemma phases_unitary:
  assumes p: "cnj p * p = 1" and l: "cnj l * l = 1" and cs: "c * c + s * s = (1 :: real)"
  shows "unitary_matrix 2 (\<lambda>r q. [of_real c, - of_real s * l, of_real s * p, of_real c * (l * p)] ! (2 * r + q))"
proof -
  have cs': "of_real c * of_real c + of_real s * of_real s = (1 :: complex)"
    using cs by (simp flip: of_real_mult of_real_add)
  have "C * C + (S * P) * (S * q) = 1" "C * (- S * L) + (S * P) * (C * (L * q)) = 0"
    "(- S * K) * C + (C * (K * P)) * (S * q) = 0" "(- S * K) * (- S * L) + (C * (K * P)) * (C * (L * q)) = 1"
    if "C * C + S * S = 1" "P * q = 1" "K * L = 1" for C S P q K L :: complex
    using that by algebra+
  from this [OF cs' p l] show ?thesis unfolding unitary2 by simp
qed

lemma cis_unit: "cnj (cis x) * cis x = 1"
  by (simp add: cis_cnj cis_mult)

lemma uMat_unitary: "unitary_matrix 2 (\<lambda>r s. uMat lam phi theta ! (2 * r + s))"
  using phases_unitary [OF cis_unit [of "angle phi"] cis_unit [of "angle lam"],
      of "cos (angle theta / 2)" "sin (angle theta / 2)"]
  unfolding uMat_def Let_def cx_cis cis_mult [symmetric] by (simp add: sin_cos_sum)

lemma u2Mat_unitary: "unitary_matrix 2 (\<lambda>r s. u2Mat lam phi ! (2 * r + s))"
  using phases_unitary [OF cis_unit [of "angle phi"] cis_unit [of "angle lam"], of SQRT2_2 SQRT2_2]
  unfolding u2Mat_def Let_def cx_cis cis_mult [symmetric] by (simp add: SQRT2_2_mult)

lemma pMat_unitary: "unitary_matrix 2 (\<lambda>r s. pMat lam ! (2 * r + s))"
  unfolding pMat_def cx_cis unitary2 by (simp add: cis_unit)

lemma rMat_unitary: "unitary_matrix 2 (\<lambda>r s. rMat theta phi ! (2 * r + s))"
proof -
  let ?x = "sin (angle phi)" and ?y = "cos (angle phi)" and ?c = "cos (angle theta / 2)" and ?s = "sin (angle theta / 2)"
  have "cnj (cx ?x ?y) * cx ?x ?y = 1" "cnj (cx ?x (- ?y)) * cx ?x (- ?y) = 1"
    by (simp_all add: complex_eq_iff sin_cos_sum)
  from phases_unitary [OF this(2,1), of ?c ?s]
  have "unitary_matrix 2 (\<lambda>r q. [of_real ?c, - of_real ?s * cx ?x ?y, of_real ?s * cx ?x (- ?y),
      of_real ?c * (cx ?x ?y * cx ?x (- ?y))] ! (2 * r + q))" by (simp add: sin_cos_sum)
  also have "[of_real ?c, - of_real ?s * cx ?x ?y, of_real ?s * cx ?x (- ?y), of_real ?c * (cx ?x ?y * cx ?x (- ?y))] =
      rMat theta phi"
    by (simp add: rMat_def Let_def complex_eq_iff sin_cos_sum)
  finally show ?thesis .
qed

lemmas unitary_simps = complex_eq_iff SQRT2_2_mult sin_cos_sum power2_eq_square

lemma single_unitary:
  assumes "opToSingleQubitGateMatrix t ps = Inr M"
  shows "unitary_matrix 2 (\<lambda>r s. M ! (2 * r + s))"
proof (cases "t = opU \<or> t = opU2 \<or> t = opP \<or> t = opR")
  case True
  then show ?thesis
    using assms uMat_unitary u2Mat_unitary pMat_unitary rMat_unitary
    by (auto simp: opToSingleQubitGateMatrix_def and_then_eq_Inr)
next
  case False
  then show ?thesis using assms
    by (cases t) (auto simp: opToSingleQubitGateMatrix_def and_then_eq_Inr rxMat_def ryMat_def rzMat_def
        Let_def unitary2 unitary_simps)
qed

lemma all_less_4: "(\<forall>r < 4. P r) \<longleftrightarrow> P 0 \<and> P 1 \<and> P 2 \<and> P (3 :: nat)"
  by (auto simp: less_Suc_eq numeral_eq_Suc)

lemma sum_4: "(\<Sum>k<4. f k) = f 0 + f 1 + f 2 + f (3 :: nat)" for f :: "nat \<Rightarrow> complex"
  by (simp add: numeral_eq_Suc)

lemma all_less_8: "(\<forall>r < 8. P r) \<longleftrightarrow> P 0 \<and> P 1 \<and> P 2 \<and> P 3 \<and> P 4 \<and> P 5 \<and> P 6 \<and> P (7 :: nat)"
proof -
  have "(\<forall>r < 8. P r) \<longleftrightarrow> (\<forall>r \<in> set [0..<8]. P r)" by auto
  then show ?thesis unfolding upt_8 by simp
qed

lemma sum_8: "(\<Sum>k<8. f k) = f 0 + f 1 + f 2 + f 3 + f 4 + f 5 + f 6 + f (7 :: nat)" for f :: "nat \<Rightarrow> complex"
  by (simp add: numeral_eq_Suc)

lemmas unitary4_simps = unitary_matrix_def all_less_4 sum_4 Let_def complex_eq_iff sin_cos_sum SQRT2_2_mult

lemma rxxMat_unitary: "unitary_matrix 4 (\<lambda>r s. rxxMat theta ! r ! s)"
  by (simp add: rxxMat_def unitary4_simps)

lemma ryyMat_unitary: "unitary_matrix 4 (\<lambda>r s. ryyMat theta ! r ! s)"
  by (simp add: ryyMat_def unitary4_simps)

lemma rzzMat_unitary: "unitary_matrix 4 (\<lambda>r s. rzzMat theta ! r ! s)"
  by (simp add: rzzMat_def unitary4_simps)

lemma rzxMat_unitary: "unitary_matrix 4 (\<lambda>r s. rzxMat theta ! r ! s)"
  by (simp add: rzxMat_def unitary4_simps)

lemma fixed_double_unitary:
  "opToTwoQubitGateMatrix t ps = Inr M \<Longrightarrow> t \<in> {opSWAP, opiSWAP, opiSWAPdg, opECR, opDCX, opPeres, opPeresdg} \<Longrightarrow>
    unitary_matrix 4 (\<lambda>r s. M ! r ! s)"
  by (elim insertE emptyE; hypsubst; unfold opToTwoQubitGateMatrix_def; simp only: OpType.case sum.inject; hypsubst_thin;
      simp add: unitary4_simps)

text \<open>A rotation of two of the four basis states, with a phase.\<close>

lemma rotation_unitary:
  assumes l: "cnj l * l = 1" and cs: "c * c + s * s = (1 :: real)"
  shows "unitary_matrix 4 (\<lambda>r q. [[of_real c, 0, 0, - of_real s * l], [0, 1, 0, 0], [0, 0, 1, 0],
      [of_real s * cnj l, 0, 0, of_real c]] ! r ! q)"
    and "unitary_matrix 4 (\<lambda>r q. [[1, 0, 0, 0], [0, of_real c, of_real s * cnj l, 0],
      [0, - of_real s * l, of_real c, 0], [0, 0, 0, 1]] ! r ! q)"
proof -
  have cs': "of_real c * of_real c + of_real s * of_real s = (1 :: complex)"
    using cs by (simp flip: of_real_mult of_real_add)
  have eqs: "C * C + (S * l) * (S * K) = 1" "C * C + (S * K) * (S * l) = 1" "C * (S * l) = (S * l) * C"
    "C * (S * K) = (S * K) * C"
    if "C * C + S * S = 1" "K * l = 1" for C S K :: complex
    using that by algebra+
  note eqs = eqs [OF cs' l]
  show "unitary_matrix 4 (\<lambda>r q. [[of_real c, 0, 0, - of_real s * l], [0, 1, 0, 0], [0, 0, 1, 0],
      [of_real s * cnj l, 0, 0, of_real c]] ! r ! q)"
    by (simp add: unitary_matrix_def all_less_4 sum_4 eqs)
  show "unitary_matrix 4 (\<lambda>r q. [[1, 0, 0, 0], [0, of_real c, of_real s * cnj l, 0],
      [0, - of_real s * l, of_real c, 0], [0, 0, 0, 1]] ! r ! q)"
    by (simp add: unitary_matrix_def all_less_4 sum_4 eqs) (simp add: eqs add.commute)
qed

lemma xx_unitary:
  "unitary_matrix 4 (\<lambda>r s. xxMinusYYMat theta beta ! r ! s)" "unitary_matrix 4 (\<lambda>r s. xxPlusYYMat theta beta ! r ! s)"
proof -
  let ?c = "cos (angle theta / 2)" and ?s = "sin (angle theta / 2)" and ?l = "cx (sin (angle beta)) (cos (angle beta))"
  have "cnj ?l * ?l = 1" by (simp add: complex_eq_iff sin_cos_sum)
  note rot = rotation_unitary [OF this sin_cos_sum(2)]
  have "cx (- sin (angle beta) * ?s) (- cos (angle beta) * ?s) = - of_real ?s * ?l"
    "cx (sin (angle beta) * ?s) (- cos (angle beta) * ?s) = of_real ?s * cnj ?l"
    by (simp_all add: complex_eq_iff)
  then show "unitary_matrix 4 (\<lambda>r s. xxMinusYYMat theta beta ! r ! s)" "unitary_matrix 4 (\<lambda>r s. xxPlusYYMat theta beta ! r ! s)"
    using rot [of "angle theta / 2"] by (simp_all only: xxMinusYYMat_def xxPlusYYMat_def Let_def)
qed

lemma double_unitary:
  assumes "opToTwoQubitGateMatrix t ps = Inr M"
  shows "unitary_matrix 4 (\<lambda>r s. M ! r ! s)"
proof (cases "t \<in> {opSWAP, opiSWAP, opiSWAPdg, opECR, opDCX, opPeres, opPeresdg}")
  case True
  then show ?thesis by (rule fixed_double_unitary [OF assms])
next
  case False
  then show ?thesis
    using assms rxxMat_unitary ryyMat_unitary rzzMat_unitary rzxMat_unitary xx_unitary
    by (cases t) (auto simp: opToTwoQubitGateMatrix_def and_then_eq_Inr)
qed

lemma triple_unitary:
  assumes "opToThreeQubitGateMatrix t ps = Inr M"
  shows "unitary_matrix 8 (\<lambda>r s. M ! r ! s)"
proof -
  have "M = [[1, 0, 0, 0, 0, 0, 0, 0], [0, 1, 0, 0, 0, 0, 0, 0], [0, 0, 1, 0, 0, 0, 0, 0], [0, 0, 0, 1, 0, 0, 0, 0],
    [0, 0, 0, 0, 1, 0, 0, 0], [0, 0, 0, 0, 0, - 1, 0, 0], [0, 0, 0, 0, 0, 0, 0, cx 0 (- 1)], [0, 0, 0, 0, 0, 0, cx 0 1, 0]]"
    using assms by (simp add: opToThreeQubitGateMatrix_def Let_def upt_8 split: if_splits)
  then show ?thesis by (simp add: unitary_matrix_def all_less_8 sum_8 complex_eq_iff)
qed

end
