(* ===== verification/DDOperations.thy ===== *)
theory DDOperations
  imports DDGateUnitary IROperation
begin

text \<open>
  Decision diagrams of circuit operations (\<open>src/dd/Operations.cpp\<close>): standard operations and
  their inverses, and \<open>getDD\<close> and \<open>getInverseDD\<close> for every operation, under a permutation of
  the qubits.

  The diagram of the inverse is the conjugate transpose of the diagram, and the product of the
  two is the identity.
\<close>

section \<open>Standard operations\<close>

definition getStandardOperationDD_parts ::
    "Numbers \<Rightarrow> nat \<Rightarrow> OpType \<Rightarrow> fp list \<Rightarrow> Controls \<Rightarrow> nat list \<Rightarrow> mEdge result" where
  "getStandardOperationDD_parts N nqubits t params cs ts = (
     if isSingleQubitGate t then
       (case ts of
          [t0] \<Rightarrow> and_then (opToSingleQubitGateMatrix t params) (\<lambda>mat. makeGateDD N nqubits mat cs t0)
        | _ \<Rightarrow> Inl InvalidArgument)
     else if isTwoQubitGate t then
       (case ts of
          [t0, t1] \<Rightarrow> and_then (opToTwoQubitGateMatrix t params) (\<lambda>mat. makeTwoQubitGateDD N nqubits mat cs t0 t1)
        | _ \<Rightarrow> Inl InvalidArgument)
     else if isThreeQubitGate t then
       (case ts of
          [t0, t1, t2] \<Rightarrow> and_then (opToThreeQubitGateMatrix t params)
            (\<lambda>mat. makeThreeQubitGateDD N nqubits mat cs t0 t1 t2)
        | _ \<Rightarrow> Inl InvalidArgument)
     else Inl RuntimeError)"

text \<open>The type, the parameters and the targets of the inverse.\<close>

definition inverse_parts :: "OpType \<Rightarrow> fp list \<Rightarrow> nat list \<Rightarrow> (OpType \<times> fp list \<times> nat list) result" where
  "inverse_parts t params ts = (
     if t \<in> {opI, opH, opX, opY, opZ, opSWAP, opECR, opRCCX} then Inr (t, params, ts)
     else if t \<in> {opRXX, opRYY, opRZZ, opRZX, opRX, opRY, opRZ, opR, opP, opXXminusYY, opXXplusYY} then
       (case params of p0 # ps \<Rightarrow> Inr (t, - p0 # ps, ts) | [] \<Rightarrow> Inl Undefined)
     else if t = opDCX then
       (case ts of [t0, t1] \<Rightarrow> Inr (t, params, [t1, t0]) | _ \<Rightarrow> Inl RuntimeError)
     else if t = opU then
       (case params of p0 # p1 # p2 # ps \<Rightarrow> Inr (t, map uminus (p0 # p2 # p1 # ps), ts) | _ \<Rightarrow> Inl Undefined)
     else if t = opU2 then
       (case params of p0 # p1 # ps \<Rightarrow> Inr (t, (- p1 - PI) # (- p0 + PI) # ps, ts) | _ \<Rightarrow> Inl Undefined)
     else case dagger_type t of
       Some t' \<Rightarrow> Inr (t', params, ts)
     | None \<Rightarrow> Inl RuntimeError)"

definition getStandardOperationDD ::
    "Numbers \<Rightarrow> nat \<Rightarrow> OpBase \<Rightarrow> Controls \<Rightarrow> nat list \<Rightarrow> bool \<Rightarrow> mEdge result" where
  "getStandardOperationDD N nqubits op cs ts inverted = (
     if \<not> inverted then getStandardOperationDD_parts N nqubits (optype op) (parameter op) cs ts
     else and_then (inverse_parts (optype op) (parameter op) ts) (\<lambda>(t, params, ts).
       getStandardOperationDD_parts N nqubits t params cs ts))"

section \<open>All operations\<close>

text \<open>A global phase is a multiple of the identity; its controls are not looked at.\<close>

definition phase_DD :: "Numbers \<Rightarrow> OpBase \<Rightarrow> bool \<Rightarrow> mEdge result" where
  "phase_DD N op inverted = and_then (deref_res (parameter op) 0) (\<lambda>phase.
     let phase = angle (if inverted then - phase else phase)
     in Inr (mterminal (cn_lookup N (cx (cos phase) (sin phase)))))"

definition permuted_DD :: "Numbers \<Rightarrow> nat \<Rightarrow> Permutation \<Rightarrow> bool \<Rightarrow> OpBase \<Rightarrow> mEdge result" where
  "permuted_DD N nqubits p inverted op = and_then (perm_apply_targets p (targets op)) (\<lambda>ts.
     and_then (perm_apply_controls p (controls op)) (\<lambda>cs. getStandardOperationDD N nqubits op cs ts inverted))"

fun getDD :: "Numbers \<Rightarrow> nat \<Rightarrow> Permutation \<Rightarrow> bool \<Rightarrow> Operation \<Rightarrow> mEdge result" where
  "getDD N nqubits p inverted (CompoundOp b ops cust) = (
     if optype b = opBarrier then Inr mone
     else if optype b = opGPhase then phase_DD N b inverted
     else if inverted then fold_res (\<lambda>op e. and_then (getDD N nqubits p True op) (\<lambda>d. dd_multiply N e d)) ops mone
     else fold_res (\<lambda>op e. and_then (getDD N nqubits p False op) (\<lambda>d. dd_multiply N d e)) ops mone)"
| "getDD N nqubits p inverted op = (
     if getType op = opBarrier then Inr mone
     else if getType op = opGPhase then phase_DD N (getBase op) inverted
     else if isStandardOperation op then permuted_DD N nqubits p inverted (getBase op)
     else Inl InvalidArgument)"

definition getInverseDD :: "Numbers \<Rightarrow> nat \<Rightarrow> Permutation \<Rightarrow> Operation \<Rightarrow> mEdge result" where
  "getInverseDD N nqubits p op = getDD N nqubits p True op"

section \<open>The matrix of a standard operation\<close>

text \<open>The matrix of a gate type, as a function of row and column, and its number of targets.\<close>

definition gate_entries :: "OpType \<Rightarrow> fp list \<Rightarrow> (nat \<times> (nat \<Rightarrow> nat \<Rightarrow> complex)) result" where
  "gate_entries t params = (
     if isSingleQubitGate t then and_then (opToSingleQubitGateMatrix t params) (\<lambda>mat. Inr (1, \<lambda>r s. mat ! (2 * r + s)))
     else if isTwoQubitGate t then and_then (opToTwoQubitGateMatrix t params) (\<lambda>mat. Inr (2, \<lambda>r s. mat ! r ! s))
     else if isThreeQubitGate t then and_then (opToThreeQubitGateMatrix t params) (\<lambda>mat. Inr (3, \<lambda>r s. mat ! r ! s))
     else Inl RuntimeError)"

lemma gate_entries_unitary: "gate_entries t params = Inr (k, M) \<Longrightarrow> unitary_matrix (2 ^ k) M"
  using single_unitary double_unitary triple_unitary
  by (auto simp: gate_entries_def and_then_eq_Inr split: if_splits)

lemma ensure_gate_ok: "ensureGateQubitsInRange n cs ts = Inr u \<Longrightarrow> gate_fits n cs ts"
  using ensure_ok [of n cs ts u] by (auto simp: gate_fits_def)

lemma ensure_unit: "ensureGateQubitsInRange n cs ts = Inr u \<Longrightarrow> ensureGateQubitsInRange n cs ts = Inr ()"
  by simp

lemma parts_ok:
  assumes ex: "exact N" and cs: "strictly_sorted (map qubit cs)"
    and e: "getStandardOperationDD_parts N n t params cs ts = Inr e"
  shows "\<exists>M. gate_entries t params = Inr (length ts, M) \<and> gate_fits n cs ts \<and> edge_canonical n e \<and>
    (\<forall>x y. den n e x y = gate_matrix n M cs ts x y)"
proof -
  consider (one) t0 mat where "isSingleQubitGate t" "ts = [t0]" "opToSingleQubitGateMatrix t params = Inr mat"
      "makeGateDD N n mat cs t0 = Inr e"
    | (two) t0 t1 mat where "\<not> isSingleQubitGate t" "isTwoQubitGate t" "ts = [t0, t1]"
      "opToTwoQubitGateMatrix t params = Inr mat" "makeTwoQubitGateDD N n mat cs t0 t1 = Inr e"
    | (three) t0 t1 t2 mat where "\<not> isSingleQubitGate t" "\<not> isTwoQubitGate t" "isThreeQubitGate t" "ts = [t0, t1, t2]"
      "opToThreeQubitGateMatrix t params = Inr mat" "makeThreeQubitGateDD N n mat cs t0 t1 t2 = Inr e"
    using e by (auto simp: getStandardOperationDD_parts_def and_then_eq_Inr split: if_splits list.splits)
  then show ?thesis
  proof cases
    case one
    then have "ensureGateQubitsInRange n cs [t0] = Inr ()" by (auto simp: makeGateDD_def and_then_eq_Inr)
    with makeGateDD_ok [OF ex cs this, of mat] ensure_gate_ok one show ?thesis by (auto simp: gate_entries_def)
  next
    case two
    then have "ensureGateQubitsInRange n cs [t0, t1] = Inr ()" by (auto simp: makeTwoQubitGateDD_def and_then_eq_Inr)
    with makeTwoQubitGateDD_ok [OF ex cs this, of mat] ensure_gate_ok two show ?thesis by (auto simp: gate_entries_def)
  next
    case three
    then have "ensureGateQubitsInRange n cs [t0, t1, t2] = Inr ()" by (auto simp: makeThreeQubitGateDD_def and_then_eq_Inr)
    with makeThreeQubitGateDD_ok [OF ex cs this, of mat] ensure_gate_ok three show ?thesis by (auto simp: gate_entries_def)
  qed
qed

lemma list_lengths: "Suc 0 = length ts \<longleftrightarrow> (\<exists>a. ts = [a])" "2 = length ts \<longleftrightarrow> (\<exists>a b. ts = [a, b])"
  "3 = length ts \<longleftrightarrow> (\<exists>a b c. ts = [a, b, c])"
  by (auto simp: numeral_2_eq_2 numeral_3_eq_3 Suc_length_conv length_Suc_conv)

lemma parts_total:
  assumes ex: "exact N" and cs: "strictly_sorted (map qubit cs)" and M: "gate_entries t params = Inr (length ts, M)"
    and ok: "gate_fits n cs ts" and n: "0 < n"
  shows "\<exists>e. getStandardOperationDD_parts N n t params cs ts = Inr e"
proof -
  have range: "ensureGateQubitsInRange n cs ts = Inr ()"
    using ok n by (auto simp: ensureGateQubitsInRange_def gate_fits_def list_ex_iff)
  consider (one) t0 mat where "isSingleQubitGate t" "ts = [t0]" "opToSingleQubitGateMatrix t params = Inr mat"
    | (two) t0 t1 mat where "\<not> isSingleQubitGate t" "isTwoQubitGate t" "ts = [t0, t1]"
      "opToTwoQubitGateMatrix t params = Inr mat"
    | (three) t0 t1 t2 mat where "\<not> isSingleQubitGate t" "\<not> isTwoQubitGate t" "isThreeQubitGate t" "ts = [t0, t1, t2]"
      "opToThreeQubitGateMatrix t params = Inr mat"
    using M by (auto simp: gate_entries_def and_then_eq_Inr list_lengths split: if_splits)
  then show ?thesis
  proof cases
    case one
    with makeGateDD_ok [OF ex cs, of n t0 mat] range show ?thesis by (auto simp: getStandardOperationDD_parts_def)
  next
    case two
    with makeTwoQubitGateDD_ok [OF ex cs, of n t0 t1 mat] range show ?thesis by (auto simp: getStandardOperationDD_parts_def)
  next
    case three
    with makeThreeQubitGateDD_ok [OF ex cs, of n t0 t1 t2 mat] range show ?thesis
      by (auto simp: getStandardOperationDD_parts_def)
  qed
qed

section \<open>The inverse of a standard operation\<close>

lemma at_res_cases: "at_res ps 2 = Inr c \<Longrightarrow> \<exists>a b qs. ps = a # b # c # qs" "at_res ps (Suc 0) = Inr b \<Longrightarrow> \<exists>a qs. ps = a # b # qs"
  "at_res ps 0 = Inr a \<Longrightarrow> \<exists>qs. ps = a # qs"
proof -
  show "\<exists>qs. ps = a # qs" if "at_res ps 0 = Inr a" using that by (cases ps) (auto simp: at_res_def split: if_splits)
  show "\<exists>a qs. ps = a # b # qs" if "at_res ps (Suc 0) = Inr b"
    using that by (cases ps; cases "tl ps") (auto simp: at_res_def split: if_splits)
  show "\<exists>a b qs. ps = a # b # c # qs" if "at_res ps 2 = Inr c"
    using that by (cases ps; cases "tl ps"; cases "tl (tl ps)") (auto simp: at_res_def split: if_splits)
qed

lemma u2Mat_dagger: "u2Mat (- p0 + PI) (- p1 - PI) = adjoint1 (u2Mat p1 p0)"
  by (simp add: single_mats complex_eq_iff cos_plus_pi' cos_add sin_add cos_diff sin_diff algebra_simps)

lemma uMat_dagger: "uMat (- p1) (- p2) (- p0) = adjoint1 (uMat p2 p1 p0)"
  by (simp add: single_mats complex_eq_iff cos_add sin_add cos_diff sin_diff algebra_simps)

lemma inverse_parts1:
  assumes M: "opToSingleQubitGateMatrix t ps = Inr M"
  shows "\<exists>t' ps'. inverse_parts t ps ts = Inr (t', ps', ts) \<and> isSingleQubitGate t' \<and>
    opToSingleQubitGateMatrix t' ps' = Inr (adjoint1 M)"
proof -
  consider "t = opU" | "t = opU2" | "t \<noteq> opU" "t \<noteq> opU2" by blast
  then show ?thesis
  proof cases
    case 1
    then obtain p0 p1 p2 qs where ps: "ps = p0 # p1 # p2 # qs"
      using M at_res_cases(1) [of ps] by (auto simp: opToSingleQubitGateMatrix_def and_then_eq_Inr)
    then have "opToSingleQubitGateMatrix opU (map uminus (p0 # p2 # p1 # qs)) = Inr (adjoint1 M)"
      using M 1 uMat_dagger [of p1 p2 p0] by (simp add: opToSingleQubitGateMatrix_def at_res_def)
    then show ?thesis using 1 ps by (auto simp: inverse_parts_def isSingleQubitGate_def)
  next
    case 2
    then obtain p0 p1 qs where ps: "ps = p0 # p1 # qs"
      using M at_res_cases(2) [of ps] by (auto simp: opToSingleQubitGateMatrix_def and_then_eq_Inr)
    then have "opToSingleQubitGateMatrix opU2 ((- p1 - PI) # (- p0 + PI) # qs) = Inr (adjoint1 M)"
      using M 2 u2Mat_dagger [of p0 p1] by (simp add: opToSingleQubitGateMatrix_def at_res_def)
    then show ?thesis using 2 ps by (auto simp: inverse_parts_def isSingleQubitGate_def)
  next
    case 3
    then show ?thesis
      using M by (cases t) (auto simp: opToSingleQubitGateMatrix_def and_then_eq_Inr inverse_parts_def isSingleQubitGate_def
          at_res_def single_mats complex_eq_iff split: list.splits if_splits)
  qed
qed

lemma inverse_parts2:
  assumes "opToTwoQubitGateMatrix t ps = Inr M" and "ts = [t0, t1]"
  shows "\<exists>t' ps'. inverse_parts t ps ts = Inr (t', ps', if t = opDCX then [t1, t0] else ts) \<and>
    \<not> isSingleQubitGate t' \<and> isTwoQubitGate t' \<and>
    opToTwoQubitGateMatrix t' ps' = Inr (if t = opDCX then swap_qubits (adjointM M) else adjointM M)"
  using assms
  by (cases t) (auto simp: opToTwoQubitGateMatrix_def and_then_eq_Inr inverse_parts_def isSingleQubitGate_def
      isTwoQubitGate_def at_res_def double_mats complex_eq_iff adjointM_def swap_qubits_def upt_4
      split: list.splits if_splits)

lemma inverse_parts3:
  assumes "opToThreeQubitGateMatrix t ps = Inr M"
  shows "inverse_parts t ps ts = Inr (t, ps, ts) \<and> \<not> isSingleQubitGate t \<and> \<not> isTwoQubitGate t \<and> isThreeQubitGate t \<and>
    opToThreeQubitGateMatrix t ps = Inr (adjointM M)"
  using assms
  by (auto simp: opToThreeQubitGateMatrix_def inverse_parts_def isSingleQubitGate_def isTwoQubitGate_def
      isThreeQubitGate_def Let_def adjointM_def upt_8 complex_eq_iff split: if_splits)

lemma single_length: "opToSingleQubitGateMatrix t ps = Inr M \<Longrightarrow> length M = 4"
  by (cases t) (auto simp: opToSingleQubitGateMatrix_def and_then_eq_Inr single_mats)

lemma double_length: "opToTwoQubitGateMatrix t ps = Inr M \<Longrightarrow> length M = 4"
  by (cases t) (auto simp: opToTwoQubitGateMatrix_def and_then_eq_Inr double_mats)

lemma triple_length: "opToThreeQubitGateMatrix t ps = Inr M \<Longrightarrow> length M = 8"
  by (auto simp: opToThreeQubitGateMatrix_def Let_def split: if_splits)

lemma adjoint1_nth: "length M = 4 \<Longrightarrow> r < 2 \<Longrightarrow> s < 2 \<Longrightarrow> adjoint1 M ! (2 * r + s) = cnj (M ! (2 * s + r))"
proof -
  assume "length M = 4" and rs: "r < 2" "s < 2"
  then obtain a b c d where "M = [a, b, c, d]" using node_list_4 by blast
  moreover have "r = 0 \<or> r = 1" "s = 0 \<or> s = 1" using rs by linarith+
  ultimately show ?thesis by (elim disjE) (simp_all add: numeral_2_eq_2 numeral_3_eq_3)
qed

lemma adjointM_nth: "r < length M \<Longrightarrow> s < length M \<Longrightarrow> adjointM M ! r ! s = cnj (M ! s ! r)"
  by (simp add: adjointM_def)

text \<open>Exchanging the targets and the two qubits of the matrix changes nothing.\<close>

lemma gate_matrix_swap:
  "gate_matrix n (\<lambda>r s. swap_qubits M ! r ! s) cs [t1, t0] x y = gate_matrix n (\<lambda>r s. M ! r ! s) cs [t0, t1] x y"
proof -
  have "same_rest n [t1, t0] x y = same_rest n [t0, t1] x y" by (simp add: same_rest_def disj_commute)
  moreover have "swap_qubits M ! target_index [t1, t0] x ! target_index [t1, t0] y =
      M ! target_index [t0, t1] x ! target_index [t0, t1] y"
    by (cases "x t0"; cases "x t1"; cases "y t0"; cases "y t1")
      (simp_all add: target_index_def swap_qubits_def upt_4 numeral_2_eq_2 numeral_3_eq_3)
  ultimately show ?thesis by (auto simp: gate_matrix_def)
qed

lemma gate_ok_set: "set ts = set ts' \<Longrightarrow> length ts = length ts' \<Longrightarrow> gate_fits n cs ts = gate_fits n cs ts'"
  unfolding gate_fits_def by (metis card_distinct distinct_card)

lemma inverse_parts_ok:
  assumes M: "gate_entries t ps = Inr (length ts, M)"
  shows "\<exists>t' ps' ts' M'. inverse_parts t ps ts = Inr (t', ps', ts') \<and> gate_entries t' ps' = Inr (length ts', M') \<and>
    set ts' = set ts \<and> length ts' = length ts \<and>
    (\<forall>n cs x y. gate_matrix n M' cs ts' x y = gate_matrix n (\<lambda>r s. cnj (M s r)) cs ts x y)"
proof -
  consider (one) t0 mat where "isSingleQubitGate t" "ts = [t0]" "opToSingleQubitGateMatrix t ps = Inr mat"
      "M = (\<lambda>r s. mat ! (2 * r + s))"
    | (two) t0 t1 mat where "\<not> isSingleQubitGate t" "isTwoQubitGate t" "ts = [t0, t1]"
      "opToTwoQubitGateMatrix t ps = Inr mat" "M = (\<lambda>r s. mat ! r ! s)"
    | (three) t0 t1 t2 mat where "\<not> isSingleQubitGate t" "\<not> isTwoQubitGate t" "isThreeQubitGate t" "ts = [t0, t1, t2]"
      "opToThreeQubitGateMatrix t ps = Inr mat" "M = (\<lambda>r s. mat ! r ! s)"
    using M by (auto simp: gate_entries_def and_then_eq_Inr list_lengths split: if_splits)
  then show ?thesis
  proof cases
    case one
    from inverse_parts1 [OF one(3), of ts] obtain t' ps' where
      i: "inverse_parts t ps ts = Inr (t', ps', ts)" "isSingleQubitGate t'" "opToSingleQubitGateMatrix t' ps' = Inr (adjoint1 mat)"
      by blast
    have "gate_matrix n (\<lambda>r s. adjoint1 mat ! (2 * r + s)) cs ts x y = gate_matrix n (\<lambda>r s. cnj (M s r)) cs ts x y" for n cs x y
      by (rule gate_matrix_cong) (simp add: one(2,4) adjoint1_nth [OF single_length [OF one(3)]])
    then show ?thesis using i by (force simp: gate_entries_def one(2))
  next
    case two
    note inv = inverse_parts2 [OF two(4,3)] and len = double_length [OF two(4)]
    have adj: "gate_matrix n (\<lambda>r s. adjointM mat ! r ! s) cs ts x y = gate_matrix n (\<lambda>r s. cnj (M s r)) cs ts x y" for n cs x y
      by (rule gate_matrix_cong) (simp add: two(3,5) adjointM_nth len)
    show ?thesis
    proof (cases "t = opDCX")
      case True
      then show ?thesis
        using inv adj by (force simp: gate_entries_def two(3) gate_matrix_swap)
    next
      case False
      then show ?thesis using inv adj by (force simp: gate_entries_def two(3))
    qed
  next
    case three
    note inv = inverse_parts3 [OF three(5), of ts] and len = triple_length [OF three(5)]
    have "gate_matrix n (\<lambda>r s. adjointM mat ! r ! s) cs ts x y = gate_matrix n (\<lambda>r s. cnj (M s r)) cs ts x y" for n cs x y
      by (rule gate_matrix_cong) (simp add: three(4,6) adjointM_nth len)
    then show ?thesis using inv by (force simp: gate_entries_def three(4))
  qed
qed

text \<open>The controls of a global phase are ignored.\<close>

lemma getDD_phase_controls:
  "optype b = opGPhase \<Longrightarrow> getDD N n p inverted (StandardOp (b\<lparr>controls := cs\<rparr>)) = getDD N n p inverted (StandardOp b)"
  by (simp add: phase_DD_def)

section \<open>Diagrams of unitary matrices\<close>

definition unitary_edge :: "Numbers \<Rightarrow> nat \<Rightarrow> mEdge \<Rightarrow> bool" where
  "unitary_edge N n e \<longleftrightarrow> edge_canonical n e \<and> dd_multiply N (dd_conjugateTranspose N e) e = Inr mone"

lemma unitary_edge_den:
  assumes ex: "exact N" and n: "0 < n" and e: "edge_canonical n e"
    and M: "\<And>x y. mat_mult n (\<lambda>x y. cnj (den n e y x)) (den n e) x y = den n mone x y"
  shows "unitary_edge N n e"
proof -
  note adj = dd_conjugateTranspose_ok [OF ex e]
  have "den n (dd_conjugateTranspose N e) = (\<lambda>x y. cnj (den n e y x))" using adj by (simp add: fun_eq_iff)
  then have "dd_multiply N (dd_conjugateTranspose N e) e = Inr mone"
    using M adj e mone_canonical by (intro dd_multiply_eq [OF ex n]) simp_all
  then show ?thesis using e by (simp add: unitary_edge_def)
qed

lemma unitary_edge_one: "exact N \<Longrightarrow> 0 < n \<Longrightarrow> unitary_edge N n mone"
  using dd_multiply_one(1) [of N n mone]
  by (simp add: unitary_edge_def mone_canonical dd_conjugateTranspose_one)

lemma unitary_edge_mult:
  assumes ex: "exact N" and n: "0 < n" and d: "unitary_edge N n d" and a: "unitary_edge N n a"
    and z: "dd_multiply N d a = Inr z"
  shows "unitary_edge N n z"
proof -
  let ?ca = "dd_conjugateTranspose N a" and ?cd = "dd_conjugateTranspose N d" and ?cz = "dd_conjugateTranspose N z"
  have can: "edge_canonical n d" "edge_canonical n a" using d a by (simp_all add: unitary_edge_def)
  have adj: "edge_canonical n ?cd" "edge_canonical n ?ca"
    using dd_conjugateTranspose_ok [OF ex can(1)] dd_conjugateTranspose_ok [OF ex can(2)] by simp_all
  have cz: "dd_multiply N ?ca ?cd = Inr ?cz" by (rule dd_conjugateTranspose_multiply [OF ex n can z])
  have z': "edge_canonical n z" using dd_multiply_ok [OF ex n can] z by auto
  have "and_then (dd_multiply N ?cd d) (\<lambda>w. dd_multiply N w a) = and_then (dd_multiply N d a) (\<lambda>w. dd_multiply N ?cd w)"
    by (rule dd_multiply_assoc [OF ex n adj(1) can])
  then have "dd_multiply N ?cd z = Inr a"
    using d z dd_multiply_one(1) [OF ex n can(2)] by (simp add: unitary_edge_def)
  moreover have "and_then (dd_multiply N ?ca ?cd) (\<lambda>w. dd_multiply N w z) = and_then (dd_multiply N ?cd z) (\<lambda>w. dd_multiply N ?ca w)"
    by (rule dd_multiply_assoc [OF ex n adj(2,1) z'])
  ultimately show ?thesis using cz a z' by (simp add: unitary_edge_def)
qed

section \<open>Inverse operations\<close>

text \<open>
  No qubit controls an operation twice; a set of controls could hold both polarities of a
  qubit.
\<close>

fun distinct_controls :: "Permutation \<Rightarrow> Operation \<Rightarrow> bool" where
  "distinct_controls p (CompoundOp b ops cust) = list_all (distinct_controls p) ops"
| "distinct_controls p op = (case perm_apply_controls p (controls (getBase op)) of
     Inr cs \<Rightarrow> strictly_sorted (map qubit cs) | Inl _ \<Rightarrow> True)"

definition inverse_pair :: "Numbers \<Rightarrow> nat \<Rightarrow> mEdge \<Rightarrow> mEdge result \<Rightarrow> bool" where
  "inverse_pair N n e r \<longleftrightarrow> unitary_edge N n e \<and> r = Inr (dd_conjugateTranspose N e)"

lemma cis_pair: "cnj (cx (cos x) (sin x)) = cx (cos (- x)) (sin (- x))" "cx (cos (- x)) (sin (- x)) * cx (cos x) (sin x) = 1"
  by (simp_all add: complex_eq_iff sin_cos_sum)

lemma phase_DD_pair:
  assumes ex: "exact N" and n: "0 < n" and e: "phase_DD N b False = Inr e"
  shows "inverse_pair N n e (phase_DD N b True)"
proof -
  obtain phase where p: "deref_res (parameter b) 0 = Inr phase" using e by (auto simp: phase_DD_def and_then_eq_Inr)
  let ?w = "cx (cos (angle phase)) (sin (angle phase))"
  have e': "e = (MTerminal, ?w)" using e p by (simp add: phase_DD_def exact_lookup [OF ex] mterminal_def Let_def)
  have adj: "dd_conjugateTranspose N e = (MTerminal, cnj ?w)"
    by (simp add: e' dd_conjugateTranspose_def exact_lookup [OF ex])
  have "?w \<noteq> 0" using cis_pair(2) [of "angle phase"] by auto
  then have "edge_canonical n e" by (simp add: e' edge_canonical_def)
  moreover have "mat_mult n (\<lambda>x y. cnj (den n e y x)) (den n e) x y = den n mone x y" for x y
  proof -
    have "(\<lambda>x y. cnj (den n e y x)) = den n (MTerminal, cnj ?w)"
      by (simp add: fun_eq_iff e' den_terminal same_above_commute [of 0 n])
    then show ?thesis using cis_pair [of "angle phase"] by (simp add: mat_mult_identity_left e' mone_def den_terminal)
  qed
  ultimately have "unitary_edge N n e" by (intro unitary_edge_den [OF ex n])
  moreover have "phase_DD N b True = Inr (dd_conjugateTranspose N e)"
    unfolding adj using p cis_pair(1) [of "angle phase"]
    by (simp add: phase_DD_def mterminal_def exact_lookup [OF ex] Let_def)
  ultimately show ?thesis by (simp add: inverse_pair_def)
qed

lemma permuted_DD_pair:
  assumes ex: "exact N" and n: "0 < n" and e: "permuted_DD N n p False b = Inr e"
    and dist: "case perm_apply_controls p (controls b) of Inr cs \<Rightarrow> strictly_sorted (map qubit cs) | Inl _ \<Rightarrow> True"
  shows "inverse_pair N n e (permuted_DD N n p True b)"
proof -
  obtain ts cs where tc: "perm_apply_targets p (targets b) = Inr ts" "perm_apply_controls p (controls b) = Inr cs"
    and e': "getStandardOperationDD_parts N n (optype b) (parameter b) cs ts = Inr e"
    using e by (auto simp: permuted_DD_def and_then_eq_Inr getStandardOperationDD_def)
  have cs: "strictly_sorted (map qubit cs)" using dist tc(2) by simp
  from parts_ok [OF ex cs e'] obtain M where
    M: "gate_entries (optype b) (parameter b) = Inr (length ts, M)" "gate_fits n cs ts" "edge_canonical n e"
      "\<And>x y. den n e x y = gate_matrix n M cs ts x y" by blast
  have den: "den n e = gate_matrix n M cs ts" by (simp add: fun_eq_iff M(4))
  have unit: "unitary_edge N n e"
    by (rule unitary_edge_den [OF ex n M(3)]) (simp only: den gate_matrix_unitary [OF M(2) gate_entries_unitary [OF M(1)]])
  from inverse_parts_ok [OF M(1)] obtain t' ps' ts' M' where
    inv: "inverse_parts (optype b) (parameter b) ts = Inr (t', ps', ts')" "gate_entries t' ps' = Inr (length ts', M')"
      "set ts' = set ts" "length ts' = length ts"
      "\<And>n cs x y. gate_matrix n M' cs ts' x y = gate_matrix n (\<lambda>r s. cnj (M s r)) cs ts x y" by blast
  have ok': "gate_fits n cs ts'" using M(2) gate_ok_set [OF inv(3,4)] by simp
  from parts_total [OF ex cs inv(2) ok' n] obtain e2 where
    e2: "getStandardOperationDD_parts N n t' ps' cs ts' = Inr e2" by blast
  from parts_ok [OF ex cs e2] inv(2) have e2': "edge_canonical n e2" "\<And>x y. den n e2 x y = gate_matrix n M' cs ts' x y" by auto
  note adj = dd_conjugateTranspose_ok [OF ex M(3)]
  have "e2 = dd_conjugateTranspose N e"
  proof (rule canonical_unique [OF e2'(1)])
    show "edge_canonical n (dd_conjugateTranspose N e)" using adj by blast
    show "den n e2 x y = den n (dd_conjugateTranspose N e) x y" for x y
      using adj by (simp add: e2'(2) inv(5) M(4) gate_matrix_adjoint [OF M(2)])
  qed
  then have "permuted_DD N n p True b = Inr (dd_conjugateTranspose N e)"
    using tc inv(1) e2 by (simp add: permuted_DD_def getStandardOperationDD_def)
  with unit show ?thesis by (simp add: inverse_pair_def)
qed

lemma barrier_pair: "exact N \<Longrightarrow> 0 < n \<Longrightarrow> inverse_pair N n mone (Inr mone)"
  by (simp add: inverse_pair_def unitary_edge_one dd_conjugateTranspose_one)

lemma compound_pair:
  assumes ex: "exact N" and n: "0 < n"
    and IH: "\<And>op d. op \<in> set ops \<Longrightarrow> f op = Inr d \<Longrightarrow> inverse_pair N n d (g op)"
    and a: "unitary_edge N n a"
    and e: "fold_res (\<lambda>op e. and_then (f op) (\<lambda>d. dd_multiply N d e)) ops a = Inr e"
  shows "inverse_pair N n e
    (fold_res (\<lambda>op e. and_then (g op) (\<lambda>d. dd_multiply N e d)) ops (dd_conjugateTranspose N a))"
  using IH a e
proof (induction ops arbitrary: a)
  case Nil
  then show ?case by (simp add: inverse_pair_def)
next
  case (Cons op ops)
  from Cons.prems(3) obtain d z where d: "f op = Inr d" and z: "dd_multiply N d a = Inr z"
    and e: "fold_res (\<lambda>op e. and_then (f op) (\<lambda>d. dd_multiply N d e)) ops z = Inr e"
    by (auto simp: and_then_eq_Inr)
  have pair: "unitary_edge N n d" "g op = Inr (dd_conjugateTranspose N d)"
    using Cons.prems(1) [OF _ d] by (auto simp: inverse_pair_def)
  have "dd_multiply N (dd_conjugateTranspose N a) (dd_conjugateTranspose N d) = Inr (dd_conjugateTranspose N z)"
    using dd_conjugateTranspose_multiply [OF ex n _ _ z] pair(1) Cons.prems(2) by (simp add: unitary_edge_def)
  then show ?case
    using Cons.IH [OF Cons.prems(1) unitary_edge_mult [OF ex n pair(1) Cons.prems(2) z] e] pair(2) by simp
qed

lemma getDD_pair:
  assumes ex: "exact N" and n: "0 < n"
  shows "distinct_controls p op \<Longrightarrow> getDD N n p False op = Inr e \<Longrightarrow> inverse_pair N n e (getDD N n p True op)"
proof (induction op arbitrary: e)
  case (CompoundOp b ops cust)
  consider (barrier) "optype b = opBarrier" | (phase) "optype b = opGPhase"
    | (ops) "optype b \<noteq> opBarrier" "optype b \<noteq> opGPhase" by blast
  then show ?case
  proof cases
    case barrier
    then show ?thesis using CompoundOp.prems barrier_pair [OF ex n] by simp
  next
    case phase
    then show ?thesis using CompoundOp.prems phase_DD_pair [OF ex n] by simp
  next
    case ops
    have IH: "inverse_pair N n d (getDD N n p True op)" if "op \<in> set ops" "getDD N n p False op = Inr d" for op d
      using CompoundOp that by (auto simp: list_all_iff)
    have e: "fold_res (\<lambda>op e. and_then (getDD N n p False op) (\<lambda>d. dd_multiply N d e)) ops mone = Inr e"
      using CompoundOp.prems(2) ops by simp
    from compound_pair [OF ex n IH unitary_edge_one [OF ex n] e] show ?thesis
      using ops by (simp add: dd_conjugateTranspose_one [OF ex])
  qed
qed (use barrier_pair [OF ex n] phase_DD_pair [OF ex n] permuted_DD_pair [OF ex n] in \<open>auto split: if_splits\<close>)

end
