(* ===== verification/DDInverse.thy ===== *)
theory DDInverse
  imports DDOperations
begin

text \<open>
  The circuit representation and the decision diagrams agree on inverses: the diagram of an
  inverted operation (\<open>Operation::invert\<close>) is the diagram that \<open>getInverseDD\<close> builds of the
  operation itself.
\<close>

text \<open>Operations without symbolic parameters.\<close>

fun concrete :: "Operation \<Rightarrow> bool" where
  "concrete (SymbolicOp s) = False"
| "concrete (CompoundOp b ops cust) = (optype b = opCompound \<and> list_all concrete ops)"
| "concrete op = True"

lemma std_invert_keeps:
  assumes "std_invert b = Inr b'"
  shows "controls b' = controls b"
    "optype b = opBarrier \<Longrightarrow> b' = b" "optype b = opGPhase \<Longrightarrow> optype b' = opGPhase"
    "optype b \<noteq> opBarrier \<Longrightarrow> optype b \<noteq> opGPhase \<Longrightarrow> optype b' \<noteq> opBarrier \<and> optype b' \<noteq> opGPhase"
    "optype b \<noteq> opDCX \<Longrightarrow> targets b' = targets b"
    "optype b = opDCX \<Longrightarrow> \<exists>t0 t1 ts. targets b = t0 # t1 # ts \<and> targets b' = t1 # t0 # ts"
  using assms
  by (cases "optype b"; auto simp: std_invert_def self_inverse_types_def negate_first_types_def split: list.splits if_splits)+

lemma std_invert_kind:
  assumes "std_invert b = Inr b'"
  shows "isSingleQubitGate (optype b') = isSingleQubitGate (optype b)"
    "isTwoQubitGate (optype b') = isTwoQubitGate (optype b)" "isThreeQubitGate (optype b') = isThreeQubitGate (optype b)"
  using assms
  by (cases "optype b"; auto simp: std_invert_def self_inverse_types_def negate_first_types_def isSingleQubitGate_def
      isTwoQubitGate_def isThreeQubitGate_def split: list.splits if_splits)+

text \<open>A gate whose matrix is the adjoint, on the same targets in some order, has the inverse diagram.\<close>

lemma adjoint_parts:
  assumes ex: "exact N" and n: "0 < n" and cs: "strictly_sorted (map qubit cs)"
    and e: "getStandardOperationDD_parts N n t ps cs ts = Inr e"
    and M: "gate_entries t ps = Inr (length ts, M)" and M': "gate_entries t' ps' = Inr (length ts', M')"
    and ts': "set ts' = set ts" "length ts' = length ts"
    and adj: "\<And>x y. gate_matrix n M' cs ts' x y = gate_matrix n (\<lambda>r s. cnj (M s r)) cs ts x y"
  shows "getStandardOperationDD_parts N n t' ps' cs ts' = Inr (dd_conjugateTranspose N e)"
proof -
  from parts_ok [OF ex cs e] M have ok: "gate_fits n cs ts" "edge_canonical n e" "\<And>x y. den n e x y = gate_matrix n M cs ts x y"
    by auto
  have ok': "gate_fits n cs ts'" using ok(1) gate_ok_set [OF ts'] by simp
  from parts_total [OF ex cs M' ok' n] obtain e2 where e2: "getStandardOperationDD_parts N n t' ps' cs ts' = Inr e2" by blast
  from parts_ok [OF ex cs e2] M' have e2': "edge_canonical n e2" "\<And>x y. den n e2 x y = gate_matrix n M' cs ts' x y" by auto
  note conj = dd_conjugateTranspose_ok [OF ex ok(2)]
  have "e2 = dd_conjugateTranspose N e"
    by (rule canonical_unique [OF e2'(1)])
      (use conj in \<open>simp_all add: e2'(2) adj ok(3) gate_matrix_adjoint [OF ok(1)]\<close>)
  then show ?thesis using e2 by simp
qed

lemma std_invert_parts:
  assumes inv: "std_invert b = Inr b'" and ts: "map_res f (targets b) = Inr ts"
    and M: "gate_entries (optype b) (parameter b) = Inr (length ts, M)"
  shows "\<exists>ts' M'. map_res f (targets b') = Inr ts' \<and> gate_entries (optype b') (parameter b') = Inr (length ts', M') \<and>
    set ts' = set ts \<and> length ts' = length ts \<and>
    (\<forall>n cs x y. gate_matrix n M' cs ts' x y = gate_matrix n (\<lambda>r s. cnj (M s r)) cs ts x y)"
proof -
  note kind = std_invert_kind [OF inv]
  have same: "optype b \<noteq> opDCX \<Longrightarrow> targets b' = targets b" by (rule std_invert_keeps(5) [OF inv])
  consider (one) t0 mat where "isSingleQubitGate (optype b)" "ts = [t0]"
      "opToSingleQubitGateMatrix (optype b) (parameter b) = Inr mat" "M = (\<lambda>r s. mat ! (2 * r + s))"
    | (two) t0 t1 mat where "\<not> isSingleQubitGate (optype b)" "isTwoQubitGate (optype b)" "ts = [t0, t1]"
      "opToTwoQubitGateMatrix (optype b) (parameter b) = Inr mat" "M = (\<lambda>r s. mat ! r ! s)"
    | (three) t0 t1 t2 mat where "\<not> isSingleQubitGate (optype b)" "\<not> isTwoQubitGate (optype b)" "isThreeQubitGate (optype b)"
      "ts = [t0, t1, t2]" "opToThreeQubitGateMatrix (optype b) (parameter b) = Inr mat" "M = (\<lambda>r s. mat ! r ! s)"
    using M by (auto simp: gate_entries_def and_then_eq_Inr list_lengths split: if_splits)
  then show ?thesis
  proof cases
    case one
    have tb: "targets b' = targets b" using one(1) by (intro same) (auto simp: isSingleQubitGate_def)
    have "gate_matrix n (\<lambda>r s. adjoint1 mat ! (2 * r + s)) cs ts x y = gate_matrix n (\<lambda>r s. cnj (M s r)) cs ts x y" for n cs x y
      by (rule gate_matrix_cong) (simp add: one(2,4) adjoint1_nth [OF single_length [OF one(3)]])
    then show ?thesis
      using std_invert_matrix1 [OF inv one(3)] one(1,2) kind ts by (force simp: gate_entries_def tb)
  next
    case two
    note len = double_length [OF two(4)] and mat = std_invert_matrix2 [OF inv two(4)]
    have adj: "gate_matrix n (\<lambda>r s. adjointM mat ! r ! s) cs ts x y = gate_matrix n (\<lambda>r s. cnj (M s r)) cs ts x y" for n cs x y
      by (rule gate_matrix_cong) (simp add: two(3,5) adjointM_nth len)
    show ?thesis
    proof (cases "optype b = opDCX")
      case True
      from std_invert_keeps(6) [OF inv True] obtain u0 u1 us where
        us: "targets b = u0 # u1 # us" "targets b' = u1 # u0 # us" by blast
      then have "map_res f (targets b') = Inr [t1, t0]" using ts two(3) by (auto simp: and_then_eq_Inr)
      then show ?thesis
        using mat adj two(1,2,3) kind True by (force simp: gate_entries_def gate_matrix_swap)
    next
      case False
      then show ?thesis using mat adj two(1,2,3) kind ts by (force simp: gate_entries_def same [OF False])
    qed
  next
    case three
    have tb: "targets b' = targets b" using three(3) by (intro same) (auto simp: isThreeQubitGate_def)
    have "gate_matrix n (\<lambda>r s. adjointM mat ! r ! s) cs ts x y = gate_matrix n (\<lambda>r s. cnj (M s r)) cs ts x y" for n cs x y
      by (rule gate_matrix_cong) (simp add: three(4,6) adjointM_nth triple_length [OF three(5)])
    then show ?thesis
      using std_invert_matrix3 [OF inv three(5)] three(1-4) kind ts by (force simp: gate_entries_def tb)
  qed
qed

lemma standard_invert:
  assumes ex: "exact N" and n: "0 < n" and dist: "distinct_controls p (StandardOp b)"
    and e: "getDD N n p False (StandardOp b) = Inr e" and inv: "std_invert b = Inr b'"
  shows "getDD N n p False (StandardOp b') = Inr (dd_conjugateTranspose N e)"
proof -
  note keeps = std_invert_keeps [OF inv]
  consider (barrier) "optype b = opBarrier" | (phase) "optype b = opGPhase"
    | (gate) "optype b \<noteq> opBarrier" "optype b \<noteq> opGPhase" by blast
  then show ?thesis
  proof cases
    case barrier
    then show ?thesis using e keeps(2) dd_conjugateTranspose_one [OF ex] by simp
  next
    case phase
    then have "phase_DD N b False = Inr e" using e by simp
    from phase_DD_pair [OF ex n this] have "phase_DD N b True = Inr (dd_conjugateTranspose N e)"
      by (simp add: inverse_pair_def)
    moreover have "phase_DD N b' False = phase_DD N b True"
      using inv phase by (auto simp: std_invert_def self_inverse_types_def negate_first_types_def phase_DD_def deref_res_def
          split: list.splits)
    ultimately show ?thesis using keeps(3) [OF phase] by simp
  next
    case gate
    then obtain ts cs where tc: "map_res (perm_apply p) (targets b) = Inr ts" "perm_apply_controls p (controls b) = Inr cs"
      and parts: "getStandardOperationDD_parts N n (optype b) (parameter b) cs ts = Inr e"
      using e by (auto simp: permuted_DD_def and_then_eq_Inr getStandardOperationDD_def perm_apply_targets_map)
    have cs: "strictly_sorted (map qubit cs)" using dist tc(2) by simp
    from parts_ok [OF ex cs parts] obtain M where M: "gate_entries (optype b) (parameter b) = Inr (length ts, M)" by blast
    from std_invert_parts [OF inv tc(1) M] obtain ts' M' where
      M': "map_res (perm_apply p) (targets b') = Inr ts'" "gate_entries (optype b') (parameter b') = Inr (length ts', M')"
        "set ts' = set ts" "length ts' = length ts"
        "\<And>n cs x y. gate_matrix n M' cs ts' x y = gate_matrix n (\<lambda>r s. cnj (M s r)) cs ts x y" by blast
    from adjoint_parts [OF ex n cs parts M M'(2,3,4,5)] show ?thesis
      using M'(1) tc(2) keeps(1,4) gate by (simp add: permuted_DD_def getStandardOperationDD_def perm_apply_targets_map)
  qed
qed

lemma compound_invert:
  assumes ex: "exact N" and n: "0 < n"
    and IH: "\<And>op d op'. op \<in> set ops \<Longrightarrow> f op = Inr d \<Longrightarrow> g op = Inr op' \<Longrightarrow>
      unitary_edge N n d \<and> f op' = Inr (dd_conjugateTranspose N d)"
    and a: "unitary_edge N n a" and inv: "map_res g ops = Inr ops'"
    and e: "fold_res (\<lambda>op e. and_then (f op) (\<lambda>d. dd_multiply N d e)) ops a = Inr e"
  shows "\<exists>r. edge_canonical n r \<and> fold_res (\<lambda>op e. and_then (f op) (\<lambda>d. dd_multiply N d e)) (rev ops') mone = Inr r \<and>
    dd_multiply N (dd_conjugateTranspose N a) r = Inr (dd_conjugateTranspose N e)"
  using IH a inv e
proof (induction ops arbitrary: a ops')
  case Nil
  have "edge_canonical n (dd_conjugateTranspose N a)"
    using Nil(2) dd_conjugateTranspose_ok [OF ex] by (simp add: unitary_edge_def)
  then show ?case using Nil dd_multiply_one(2) [OF ex n] mone_canonical by (auto simp del: split_paired_Ex)
next
  case (Cons op ops)
  from Cons.prems(3) obtain op' ops2 where g: "g op = Inr op'" "map_res g ops = Inr ops2" "ops' = op' # ops2"
    by (auto simp: and_then_eq_Inr)
  from Cons.prems(4) obtain d z where d: "f op = Inr d" and z: "dd_multiply N d a = Inr z"
    and e: "fold_res (\<lambda>op e. and_then (f op) (\<lambda>d. dd_multiply N d e)) ops z = Inr e"
    by (auto simp: and_then_eq_Inr)
  have pair: "unitary_edge N n d" "f op' = Inr (dd_conjugateTranspose N d)"
    using Cons.prems(1) [OF _ d g(1)] by simp_all
  have "\<exists>r. edge_canonical n r \<and> fold_res (\<lambda>op e. and_then (f op) (\<lambda>d. dd_multiply N d e)) (rev ops2) mone = Inr r \<and>
      dd_multiply N (dd_conjugateTranspose N z) r = Inr (dd_conjugateTranspose N e)"
    by (rule Cons.IH [OF _ unitary_edge_mult [OF ex n pair(1) Cons.prems(2) z] g(2) e])
      (rule Cons.prems(1); simp)
  then obtain r where
    r: "edge_canonical n r" "fold_res (\<lambda>op e. and_then (f op) (\<lambda>d. dd_multiply N d e)) (rev ops2) mone = Inr r"
      "dd_multiply N (dd_conjugateTranspose N z) r = Inr (dd_conjugateTranspose N e)" by blast
  have can: "edge_canonical n (dd_conjugateTranspose N a)" "edge_canonical n (dd_conjugateTranspose N d)"
    using dd_conjugateTranspose_ok [OF ex] pair(1) Cons.prems(2) by (simp_all add: unitary_edge_def)
  have "dd_multiply N (dd_conjugateTranspose N a) (dd_conjugateTranspose N d) = Inr (dd_conjugateTranspose N z)"
    using dd_conjugateTranspose_multiply [OF ex n _ _ z] pair(1) Cons.prems(2) by (simp add: unitary_edge_def)
  moreover from dd_multiply_ok [OF ex n can(2) r(1)] obtain s where
    s: "dd_multiply N (dd_conjugateTranspose N d) r = Inr s" "edge_canonical n s" by blast
  ultimately have "dd_multiply N (dd_conjugateTranspose N a) s = Inr (dd_conjugateTranspose N e)"
    using dd_multiply_assoc [OF ex n can r(1)] r(3) by simp
  then show ?case using s r(2) pair(2) by (simp add: g(3) fold_res_append del: split_paired_Ex)
qed

lemma getDD_op_invert:
  assumes ex: "exact N" and n: "0 < n"
  shows "concrete op \<Longrightarrow> distinct_controls p op \<Longrightarrow> getDD N n p False op = Inr e \<Longrightarrow> op_invert op = Inr op' \<Longrightarrow>
    getDD N n p False op' = Inr (dd_conjugateTranspose N e)"
proof (induction op arbitrary: e op')
  case (StandardOp b)
  from StandardOp(4) obtain b' where "std_invert b = Inr b'" "op' = StandardOp b'" by (auto simp: and_then_eq_Inr)
  then show ?case using standard_invert [OF ex n StandardOp(2,3)] by simp
next
  case (CompoundOp b ops cust)
  from CompoundOp(5) obtain ops' where ops': "map_res op_invert ops = Inr ops'" "op' = CompoundOp b (rev ops') cust"
    by (auto simp: and_then_eq_Inr)
  have e: "fold_res (\<lambda>op e. and_then (getDD N n p False op) (\<lambda>d. dd_multiply N d e)) ops mone = Inr e"
    using CompoundOp(2,4) by simp
  have IH: "unitary_edge N n d \<and> getDD N n p False op' = Inr (dd_conjugateTranspose N d)"
    if "op \<in> set ops" "getDD N n p False op = Inr d" "op_invert op = Inr op'" for op d op'
    using CompoundOp(1) [OF that(1) _ _ that(2,3)] CompoundOp(2,3) getDD_pair [OF ex n _ that(2)] that(1)
    by (auto simp: list_all_iff inverse_pair_def)
  have "\<exists>r. edge_canonical n r \<and>
      fold_res (\<lambda>op e. and_then (getDD N n p False op) (\<lambda>d. dd_multiply N d e)) (rev ops') mone = Inr r \<and>
      dd_multiply N (dd_conjugateTranspose N mone) r = Inr (dd_conjugateTranspose N e)"
    by (rule compound_invert [OF ex n _ unitary_edge_one [OF ex n] ops'(1) e]) (rule IH)
  then obtain r where r: "edge_canonical n r" "fold_res (\<lambda>op e. and_then (getDD N n p False op) (\<lambda>d. dd_multiply N d e)) (rev ops') mone = Inr r"
      "dd_multiply N (dd_conjugateTranspose N mone) r = Inr (dd_conjugateTranspose N e)" by blast
  then show ?case
    using CompoundOp(2) ops'(2) dd_multiply_one(1) [OF ex n r(1)] by (simp add: dd_conjugateTranspose_one [OF ex])
qed auto

end
