(* ===== verification/DDRead.thy ===== *)
theory DDRead
  imports DDArith
begin

unbundle bit_operations_syntax

text \<open>
  Reading the entries of a matrix diagram (\<open>getValueByPath\<close>, \<open>getValueByIndex\<close>,
  \<open>traverseMatrix\<close>, \<open>getMatrix\<close> in \<open>src/dd/Edge.cpp\<close>) and building a diagram from a matrix
  (\<open>makeDDFromMatrix\<close> in \<open>src/dd/Package.cpp\<close>).  A matrix is the list of its rows.
\<close>

section \<open>Single entries\<close>

text \<open>The string of decisions is the list of its digits; the digit of qubit \<open>q\<close> is at index \<open>q\<close>.\<close>

fun path_loop :: "nat \<Rightarrow> nat list \<Rightarrow> mEdge \<Rightarrow> complex \<Rightarrow> complex result" where
  "path_loop 0 decisions r c = Inr c"
| "path_loop (Suc level) decisions r c = and_then (at_res decisions level) (\<lambda>tmp.
     if fst r = MTerminal \<or> node_var (fst r) \<noteq> level
     then if r = (MTerminal, 0) \<or> tmp = 1 \<or> tmp = 2 then Inr 0 else path_loop level decisions r c
     else and_then (deref_res (node_edges (fst r)) tmp) (\<lambda>e. path_loop level decisions e (c * snd e)))"

definition getValueByPath :: "mEdge \<Rightarrow> nat \<Rightarrow> nat list \<Rightarrow> complex result" where
  "getValueByPath e numQubits decisions =
     (if isTerminal e then Inr (snd e) else path_loop numQubits decisions e (snd e))"

text \<open>The digits of the row and column index.  The masks have 64 bits.\<close>

definition matrix_decisions :: "nat \<Rightarrow> nat \<Rightarrow> nat \<Rightarrow> nat list" where
  "matrix_decisions numQubits i j = map (\<lambda>k. 2 * of_bool (bit i k) + of_bool (bit j k)) [0..<numQubits]"

definition getValueByIndex :: "mEdge \<Rightarrow> nat \<Rightarrow> nat \<Rightarrow> nat \<Rightarrow> complex result" where
  "getValueByIndex e numQubits i j = (if isTerminal e then Inr (snd e)
     else getValueByPath e numQubits (matrix_decisions numQubits i j))"

lemma path_loop_ok:
  assumes "length ds = n" and "\<And>q. q < n \<Longrightarrow> ds ! q = child_index q x y"
  shows "mwf k (fst r) \<Longrightarrow> k \<le> n \<Longrightarrow> (snd r = 0 \<longrightarrow> c = 0) \<Longrightarrow> path_loop k ds r c = Inr (c * den k (fst r, 1) x y)"
proof (induction k arbitrary: r c)
  case (Suc k)
  obtain p w where r: "r = (p, w)" by force
  have d: "at_res ds k = Inr (child_index k x y)" using assms Suc.prems(2) by (simp add: at_res_def)
  from Suc.prems(1) have "mwf (Suc k) p" by (simp add: r)
  then show ?case
  proof (cases rule: mwf_cases)
    case below
    have "child_index k x y = 1 \<or> child_index k x y = 2 \<longleftrightarrow> x k \<noteq> y k" by (auto simp: child_index_def)
    then show ?thesis
      using Suc.IH [of "(p, w)" c] Suc.prems(2,3) below den_skip [OF below(1), of 1 x y] d
      by (auto simp: r simp del: den.simps)
  next
    case (here es)
    obtain q v where q: "es ! child_index k x y = (q, v)" by force
    have "mwf k q" using here(2) child_index_less [of k x y] q by (metis edges_ok_def fst_conv)
    then show ?thesis
      using Suc.IH [of "(q, v)" "c * v"] Suc.prems(2) here d q child_index_less [of k x y] den_scale [of k q v x y]
      by (simp add: r deref_res_def edges_ok_def)
  qed
qed simp

lemma getValueByPath_ok:
  assumes "mwf n (fst e)" "fst e \<noteq> MTerminal" "length ds = n" "\<And>q. q < n \<Longrightarrow> ds ! q = child_index q x y"
  shows "getValueByPath e n ds = Inr (den n e x y)"
  using path_loop_ok [OF assms(3,4,1) order_refl, of "snd e"] den_pair [of n e x y] assms(2)
  by (cases e) (simp add: getValueByPath_def)

lemma getValueByIndex_ok:
  assumes "mwf n (fst e)" "fst e \<noteq> MTerminal"
  shows "getValueByIndex e n i j = Inr (den n e (bit i) (bit j))"
  using getValueByPath_ok [OF assms, of "matrix_decisions n i j" "bit i" "bit j"] assms(2)
  by (cases e) (simp add: getValueByIndex_def matrix_decisions_def child_index_def)

text \<open>The diagram of a multiple of the identity is read as a matrix with that entry everywhere.\<close>

lemma getValueByIndex_identity: "getValueByIndex (MTerminal, w) numQubits i j = Inr w"
  by (simp add: getValueByIndex_def)

section \<open>All entries\<close>

text \<open>
  The calls of the entry function, in their order.  The path of a weight below the threshold
  ends.  A skipped qubit hands on the amplitude without the weight, which is multiplied below.
\<close>

fun traverseMatrix :: "mEdge \<Rightarrow> complex \<Rightarrow> nat \<Rightarrow> nat \<Rightarrow> nat \<Rightarrow> real \<Rightarrow> (nat \<times> nat \<times> complex) list" where
  "traverseMatrix e amp i j 0 threshold =
     (let c = amp * snd e in if cmod c < threshold then [] else [(i, j, c)])"
| "traverseMatrix e amp i j (Suc nextLevel) threshold =
     (let c = amp * snd e; x = i OR push_bit nextLevel 1; y = j OR push_bit nextLevel 1 in
      if cmod c < threshold then []
      else if fst e = MTerminal \<or> node_var (fst e) < nextLevel
      then traverseMatrix e amp i j nextLevel threshold @ traverseMatrix e amp x y nextLevel threshold
      else concat (map (\<lambda>((a, b), k). let s = node_edges (fst e) ! k in
             if snd s \<noteq> 0 then traverseMatrix s c a b nextLevel threshold else [])
           (zip [(i, j), (i, y), (x, j), (x, y)] [0..<4])))"

type_synonym CMat = "complex list list"

text \<open>Entries are written with \<open>at\<close>, which checks the index.\<close>

definition write_entry :: "nat \<times> nat \<times> complex \<Rightarrow> CMat \<Rightarrow> CMat result" where
  "write_entry = (\<lambda>(i, j, c) m. and_then (at_res m i) (\<lambda>row. and_then (at_res row j) (\<lambda>_.
     Inr (m[i := row[j := c]]))))"

definition getMatrix :: "mEdge \<Rightarrow> nat \<Rightarrow> real \<Rightarrow> CMat result" where
  "getMatrix e numQubits threshold = (if numQubits = 0 then Inr [[snd e]]
     else fold_res write_entry (traverseMatrix e 1 0 0 numQubits threshold)
       (replicate (2 ^ numQubits) (replicate (2 ^ numQubits) 0)))"

definition dims :: "nat \<Rightarrow> CMat \<Rightarrow> bool" where
  "dims n m \<longleftrightarrow> length m = 2 ^ n \<and> (\<forall>row \<in> set m. length row = 2 ^ n)"

text \<open>
  The entries of a region \<open>R\<close> of a matrix of zeros in \<open>R\<close> become those of \<open>f\<close>, and the others
  are kept.
\<close>

definition region_write :: "nat \<Rightarrow> (nat \<Rightarrow> nat \<Rightarrow> bool) \<Rightarrow> (nat \<times> nat \<times> complex) list \<Rightarrow>
    (nat \<Rightarrow> nat \<Rightarrow> complex) \<Rightarrow> bool" where
  "region_write n R ents f \<longleftrightarrow> (\<forall>m. dims n m \<longrightarrow>
     (\<forall>r < 2 ^ n. \<forall>c < 2 ^ n. R r c \<longrightarrow> m ! r ! c = 0) \<longrightarrow>
     (\<exists>m'. fold_res write_entry ents m = Inr m' \<and> dims n m' \<and>
       (\<forall>r < 2 ^ n. \<forall>c < 2 ^ n. m' ! r ! c = (if R r c then f r c else m ! r ! c))))"

definition in_block :: "nat \<Rightarrow> nat \<Rightarrow> nat \<Rightarrow> bool" where
  "in_block l i r \<longleftrightarrow> i \<le> r \<and> r < i + 2 ^ l"

abbreviation block :: "nat \<Rightarrow> nat \<Rightarrow> nat \<Rightarrow> nat \<Rightarrow> nat \<Rightarrow> bool" where
  "block l i j r c \<equiv> in_block l i r \<and> in_block l j c"

lemma dims_nth: "dims n m \<Longrightarrow> r < 2 ^ n \<Longrightarrow> length (m ! r) = 2 ^ n"
  and dims_length: "dims n m \<Longrightarrow> length m = 2 ^ n"
  by (simp_all add: dims_def)

lemma region_write_Nil: "(\<And>r c. R r c \<Longrightarrow> f r c = 0) \<Longrightarrow> region_write n R [] f"
  by (auto simp: region_write_def)

lemma region_write_cong:
  "region_write n R ents f \<Longrightarrow> (\<And>r c. R r c \<longleftrightarrow> R' r c) \<Longrightarrow> (\<And>r c. R r c \<Longrightarrow> f r c = g r c) \<Longrightarrow>
    region_write n R' ents g"
  unfolding region_write_def by (metis (full_types))

lemma region_write_append:
  assumes 1: "region_write n R1 e1 f" and 2: "region_write n R2 e2 f" and disj: "\<And>r c. \<not> (R1 r c \<and> R2 r c)"
  shows "region_write n (\<lambda>r c. R1 r c \<or> R2 r c) (e1 @ e2) f"
  unfolding region_write_def
proof (intro allI impI)
  fix m
  assume m: "dims n m" "\<forall>r < 2 ^ n. \<forall>c < 2 ^ n. R1 r c \<or> R2 r c \<longrightarrow> m ! r ! c = 0"
  from m obtain m1 where m1: "fold_res write_entry e1 m = Inr m1" "dims n m1"
    "\<And>r c. r < 2 ^ n \<Longrightarrow> c < 2 ^ n \<Longrightarrow> m1 ! r ! c = (if R1 r c then f r c else m ! r ! c)"
    using 1 unfolding region_write_def by (metis (no_types, lifting))
  have "\<forall>r < 2 ^ n. \<forall>c < 2 ^ n. R2 r c \<longrightarrow> m1 ! r ! c = 0" using m(2) m1(3) disj by auto
  with m1(2) obtain m2 where m2: "fold_res write_entry e2 m1 = Inr m2" "dims n m2"
    "\<And>r c. r < 2 ^ n \<Longrightarrow> c < 2 ^ n \<Longrightarrow> m2 ! r ! c = (if R2 r c then f r c else m1 ! r ! c)"
    using 2 unfolding region_write_def by (metis (no_types, lifting))
  have "fold_res write_entry (e1 @ e2) m = Inr m2" by (simp add: fold_res_append m1(1) m2(1))
  moreover have "m2 ! r ! c = (if R1 r c \<or> R2 r c then f r c else m ! r ! c)" if "r < 2 ^ n" "c < 2 ^ n" for r c
    using m1(3) [OF that] m2(3) [OF that] by simp
  ultimately show "\<exists>m'. fold_res write_entry (e1 @ e2) m = Inr m' \<and> dims n m' \<and>
      (\<forall>r < 2 ^ n. \<forall>c < 2 ^ n. m' ! r ! c = (if R1 r c \<or> R2 r c then f r c else m ! r ! c))"
    using m2(2) by blast
qed

lemma region_write_single:
  assumes "i < 2 ^ n" "j < 2 ^ n"
  shows "region_write n (block 0 i j) [(i, j, v)] (\<lambda>r c. v)"
  unfolding region_write_def
proof (intro allI impI)
  fix m
  assume m: "dims n m"
  let ?m = "m[i := (m ! i)[j := v]]"
  have "fold_res write_entry [(i, j, v)] m = Inr ?m"
    using assms m by (simp add: write_entry_def at_res_def dims_nth dims_length)
  moreover have "dims n ?m"
    using m assms by (auto simp: dims_def dest!: in_set_conv_nth [THEN iffD1] simp: nth_list_update)
  moreover have "?m ! r ! c = (if block 0 i j r c then v else m ! r ! c)"
    if "r < 2 ^ n" "c < 2 ^ n" for r c
    using that assms m by (auto simp: in_block_def nth_list_update dims_nth dims_length)
  ultimately show "\<exists>m'. fold_res write_entry [(i, j, v)] m = Inr m' \<and> dims n m' \<and>
      (\<forall>r < 2 ^ n. \<forall>c < 2 ^ n. m' ! r ! c = (if block 0 i j r c then v else m ! r ! c))"
    by blast
qed

lemma in_block_Suc: "in_block (Suc l) i r \<longleftrightarrow> in_block l i r \<or> in_block l (i + 2 ^ l) r"
  by (auto simp: in_block_def)

lemma in_block_disjoint: "\<not> (in_block l i r \<and> in_block l (i + 2 ^ l) r)"
  by (auto simp: in_block_def)

lemma region_write_quadrants:
  assumes "region_write n (block l i j) e0 f" "region_write n (block l i (j + 2 ^ l)) e1 f"
    "region_write n (block l (i + 2 ^ l) j) e2 f" "region_write n (block l (i + 2 ^ l) (j + 2 ^ l)) e3 f"
  shows "region_write n (block (Suc l) i j) (e0 @ e1 @ e2 @ e3) f"
proof -
  note d = in_block_disjoint [of l i] in_block_disjoint [of l j]
  show ?thesis
    by (rule region_write_cong [OF region_write_append [OF assms(1) region_write_append [OF assms(2)
          region_write_append [OF assms(3,4)]]]]) (use d in \<open>auto simp: in_block_Suc\<close>)
qed

lemma in_block_bit:
  assumes "2 ^ Suc l dvd i"
  shows "in_block l i r \<Longrightarrow> \<not> bit r l" and "in_block l (i + 2 ^ l) r \<Longrightarrow> bit r l"
proof -
  obtain q where q: "i = 2 ^ l * (2 * q)" using assms by (auto elim: dvdE)
  have div: "(2 ^ l * a + s) div 2 ^ l = a" if "s < 2 ^ l" for a s :: nat using that by simp
  have bit: "bit r l \<longleftrightarrow> odd a" if "in_block l (2 ^ l * a) r" for a
  proof -
    from that have "r = 2 ^ l * a + (r - 2 ^ l * a)" "r - 2 ^ l * a < 2 ^ l" by (auto simp: in_block_def)
    then have "r div 2 ^ l = a" using div by metis
    then show ?thesis by (simp add: bit_iff_odd)
  qed
  show "\<not> bit r l" if "in_block l i r" using bit [of "2 * q"] that q by simp
  have i: "i + 2 ^ l = 2 ^ l * (2 * q + 1)" by (simp add: q algebra_simps)
  show "bit r l" if "in_block l (i + 2 ^ l) r" using bit [of "2 * q + 1"] that unfolding i by simp
qed

lemma or_exp: "2 ^ Suc l dvd i \<Longrightarrow> i OR 2 ^ l = i + 2 ^ l" for i :: nat
proof -
  assume "2 ^ Suc l dvd i"
  from in_block_bit(1) [OF this, of i] have "\<not> bit i l" by (simp add: in_block_def)
  then have "i AND 2 ^ l = 0" by (intro bit_eqI) (auto simp: bit_and_iff bit_exp_iff)
  then show ?thesis by (simp add: disjunctive_add_eq_or [symmetric])
qed

lemma traverseMatrix_ok:
  "mwf l (fst e) \<Longrightarrow> 2 ^ l dvd i \<Longrightarrow> 2 ^ l dvd j \<Longrightarrow> i + 2 ^ l \<le> 2 ^ n \<Longrightarrow> j + 2 ^ l \<le> 2 ^ n \<Longrightarrow>
    region_write n (block l i j) (traverseMatrix e amp i j l 0) (\<lambda>r c. amp * den l e (bit r) (bit c))"
proof (induction l arbitrary: e amp i j)
  case 0
  then show ?case using region_write_single [of i n j "amp * snd e"] by simp
next
  case (Suc l)
  obtain p w where e: "e = (p, w)" by force
  let ?x = "i + 2 ^ l" and ?y = "j + 2 ^ l"
  let ?F = "\<lambda>r c. amp * den (Suc l) e (bit r) (bit c)"
  have dvd: "2 ^ l dvd i" "2 ^ l dvd j" "2 ^ l dvd ?x" "2 ^ l dvd ?y"
    using Suc.prems(2,3) by (auto intro: dvd_trans [of _ "2 ^ Suc l"] dvd_add)
  have le: "i + 2 ^ l \<le> 2 ^ n" "j + 2 ^ l \<le> 2 ^ n" "?x + 2 ^ l \<le> 2 ^ n" "?y + 2 ^ l \<le> 2 ^ n"
    using Suc.prems(4,5) by simp_all
  note or = or_exp [OF Suc.prems(2)] or_exp [OF Suc.prems(3)]
  note bits = in_block_bit [OF Suc.prems(2)] in_block_bit [OF Suc.prems(3)]
  from Suc.prems(1) have "mwf (Suc l) p" by (simp add: e)
  then show ?case
  proof (cases rule: mwf_cases)
    case below
    have F: "?F r c = (if bit r l = bit c l then amp * den l e (bit r) (bit c) else 0)" for r c
      by (simp add: e den_skip [OF below(1)] del: den.simps)
    have rec: "region_write n (block l a b) (traverseMatrix e amp a b l 0) ?F"
      if "(a, b) = (i, j) \<or> (a, b) = (?x, ?y)" for a b
    proof (rule region_write_cong [OF Suc.IH [of e a b amp]])
      show "amp * den l e (bit r) (bit c) = ?F r c" if "block l a b r c" for r c
        unfolding F using that bits \<open>(a, b) = (i, j) \<or> (a, b) = (?x, ?y)\<close> by auto
    qed (use below(1) dvd le that in \<open>auto simp: e\<close>)
    have off: "region_write n (block l a b) [] ?F" if "(a, b) = (i, ?y) \<or> (a, b) = (?x, j)" for a b
      by (rule region_write_Nil) (use that bits in \<open>auto simp: F simp del: den.simps\<close>)
    have "traverseMatrix e amp i j (Suc l) 0 = traverseMatrix e amp i j l 0 @ traverseMatrix e amp ?x ?y l 0"
      using below(2) by (auto simp: e or Let_def)
    then show ?thesis
      using region_write_quadrants [OF rec [of i j] off [of i ?y] off [of ?x j] rec [of ?x ?y]] by simp
  next
    case (here es)
    have es: "mwf l (fst (es ! k))" if "k < 4" for k using here(2) that by (simp add: edges_ok_def)
    let ?part = "\<lambda>a b k. if snd (es ! k) \<noteq> 0 then traverseMatrix (es ! k) (amp * w) a b l 0 else []"
    have part: "region_write n (block l a b) (?part a b k) ?F"
      if ab: "a = i \<or> a = ?x" "b = j \<or> b = ?y" and k: "k = (if a = i then 0 else 2) + (if b = j then 0 else 1)" for a b k
    proof -
      have k4: "k < 4" using k by auto
      have F: "?F r c = amp * w * den l (es ! k) (bit r) (bit c)" if "block l a b r c" for r c
      proof -
        have "child_index l (bit r) (bit c) = k" using ab k that bits by (auto simp: child_index_def)
        then show ?thesis by (simp add: e here(1))
      qed
      show ?thesis
      proof (cases "snd (es ! k) = 0")
        case True
        then have "den l (es ! k) x y = 0" for x y using den_pair [of l "es ! k" x y] by simp
        then show ?thesis using True F by (auto intro!: region_write_Nil simp del: den.simps)
      next
        case False
        have "region_write n (block l a b) (traverseMatrix (es ! k) (amp * w) a b l 0) ?F"
          by (rule region_write_cong [OF Suc.IH refl F [symmetric]]) (use es k4 ab dvd le in auto)
        then show ?thesis using False by (simp del: den.simps)
      qed
    qed
    have ne: "?x \<noteq> i" "?y \<noteq> j" by simp_all
    have "traverseMatrix e amp i j (Suc l) 0 = ?part i j 0 @ ?part i ?y 1 @ ?part ?x j 2 @ ?part ?x ?y 3"
      by (simp add: e here(1) or Let_def upt_4)
    then show ?thesis
      using region_write_quadrants [OF part [of i j 0] part [of i ?y 1] part [of ?x j 2] part [of ?x ?y 3]] ne
      by (simp del: den.simps)
  qed
qed

lemma getMatrix_ok:
  assumes "mwf n (fst e)"
  shows "\<exists>m. getMatrix e n 0 = Inr m \<and> dims n m \<and>
    (\<forall>r < 2 ^ n. \<forall>c < 2 ^ n. m ! r ! c = den n e (bit r) (bit c))"
proof (cases n)
  case 0
  then show ?thesis by (simp add: getMatrix_def dims_def)
next
  case (Suc k)
  let ?z = "replicate (2 ^ n) (replicate (2 ^ n) (0 :: complex))"
  have "region_write n (block n 0 0) (traverseMatrix e 1 0 0 n 0) (\<lambda>r c. 1 * den n e (bit r) (bit c))"
    by (rule traverseMatrix_ok) (use assms in simp_all)
  note wr = this [unfolded region_write_def, THEN spec, of ?z]
  have "dims n ?z" "\<forall>r < 2 ^ n. \<forall>c < 2 ^ n. block n 0 0 r c \<longrightarrow> ?z ! r ! c = 0" by (simp_all add: dims_def)
  with wr obtain m where "fold_res write_entry (traverseMatrix e 1 0 0 n 0) ?z = Inr m" "dims n m"
    "\<forall>r < 2 ^ n. \<forall>c < 2 ^ n. m ! r ! c = (if block n 0 0 r c then 1 * den n e (bit r) (bit c) else ?z ! r ! c)"
    by blast
  then show ?thesis using Suc by (simp add: getMatrix_def in_block_def del: den.simps)
qed

section \<open>Building a diagram from a matrix\<close>

definition cell :: "CMat \<Rightarrow> nat \<Rightarrow> nat \<Rightarrow> complex result" where
  "cell m r c = and_then (deref_res m r) (\<lambda>row. deref_res row c)"

text \<open>The bounds of the rows and of the columns of the part that is built, in pairs.\<close>

fun makeDDFromMatrix_rec :: "Numbers \<Rightarrow> CMat \<Rightarrow> nat \<Rightarrow> nat \<times> nat \<Rightarrow> nat \<times> nat \<Rightarrow> mEdge result" where
  "makeDDFromMatrix_rec N m 0 (rowStart, rowEnd) (colStart, colEnd) =
     and_then (map_res (\<lambda>(r, c). and_then (cell m r c) (\<lambda>w. Inr (mterminal w)))
         [(rowStart, colStart), (rowStart, colStart + 1), (rowStart + 1, colStart), (rowStart + 1, colStart + 1)])
       (\<lambda>es. Inr (makeDDNode N 0 es))"
| "makeDDFromMatrix_rec N m (Suc l) (rowStart, rowEnd) (colStart, colEnd) =
     (let rowMid = (rowStart + rowEnd) div 2; colMid = (colStart + colEnd) div 2 in
      and_then (map_res (\<lambda>(rs, cs). makeDDFromMatrix_rec N m l rs cs)
         [((rowStart, rowMid), (colStart, colMid)), ((rowStart, rowMid), (colMid, colEnd)),
          ((rowMid, rowEnd), (colStart, colMid)), ((rowMid, rowEnd), (colMid, colEnd))])
       (\<lambda>es. Inr (makeDDNode N (Suc l) es)))"

definition makeDDFromMatrix :: "Numbers \<Rightarrow> CMat \<Rightarrow> mEdge result" where
  "makeDDFromMatrix N m = (
     if m = [] then Inr mone
     else if length m AND (length m - 1) \<noteq> 0 then Inl InvalidArgument
     else if length m \<noteq> length (m ! 0) then Inl InvalidArgument
     else if length m = 1 then Inr (mterminal (cn_lookup N (m ! 0 ! 0)))
     else let level = nat \<lfloor>log 2 (real (length m)) - 1\<rfloor>
       in and_then (makeDDFromMatrix_rec N m level (0, length m) (0, length (m ! 0)))
         (\<lambda>e. Inr (fst e, cn_lookup N (snd e))))"

lemma cell_ok: "dims n m \<Longrightarrow> r < 2 ^ n \<Longrightarrow> c < 2 ^ n \<Longrightarrow> cell m r c = Inr (m ! r ! c)"
  by (simp add: cell_def deref_res_def dims_nth dims_length)

text \<open>An edge denotes the block of a matrix.\<close>

definition denotes_block :: "nat \<Rightarrow> mEdge \<Rightarrow> CMat \<Rightarrow> nat \<Rightarrow> nat \<Rightarrow> bool" where
  "denotes_block l e m i j \<longleftrightarrow> edge_canonical l e \<and>
     (\<forall>r c. block l i j r c \<longrightarrow> den l e (bit r) (bit c) = m ! r ! c)"

lemma makeDDNode_block:
  assumes ex: "exact N" and dvd: "2 ^ Suc l dvd i" "2 ^ Suc l dvd j"
    and e: "denotes_block l e0 m i j" "denotes_block l e1 m i (j + 2 ^ l)"
      "denotes_block l e2 m (i + 2 ^ l) j" "denotes_block l e3 m (i + 2 ^ l) (j + 2 ^ l)"
  shows "denotes_block (Suc l) (makeDDNode N l [e0, e1, e2, e3]) m i j"
proof -
  let ?es = "[e0, e1, e2, e3]"
  have can: "canonical l (fst (?es ! k))" if "k < 4" for k
    using e that by (auto simp: denotes_block_def edge_canonical_def less_Suc_eq numeral_eq_Suc)
  then have ok: "edges_ok l ?es" using canonical_mwf by (simp add: edges_ok_def)
  have "den l (?es ! child_index l (bit r) (bit c)) (bit r) (bit c) = m ! r ! c" if "block (Suc l) i j r c" for r c
  proof -
    from that have "in_block l i r \<or> in_block l (i + 2 ^ l) r" "in_block l j c \<or> in_block l (j + 2 ^ l) c"
      by (simp_all add: in_block_Suc)
    then show ?thesis
      using e in_block_bit [OF dvd(1), of r] in_block_bit [OF dvd(2), of c]
      by (auto simp: denotes_block_def child_index_def)
  qed
  then show ?thesis
    using makeDDNode_ok [OF ex ok] makeDDNode_canonical [OF ex _ can] by (simp add: denotes_block_def del: den.simps)
qed

lemma denotes_block_terminal: "denotes_block 0 (mterminal (m ! i ! j)) m i j"
  by (auto simp: denotes_block_def mterminal_def edge_canonical_def in_block_def le_less_Suc_eq)

lemma makeDDFromMatrix_rec_ok:
  assumes ex: "exact N" and m: "dims n m"
  shows "2 ^ Suc l dvd i \<Longrightarrow> 2 ^ Suc l dvd j \<Longrightarrow> i + 2 ^ Suc l \<le> 2 ^ n \<Longrightarrow> j + 2 ^ Suc l \<le> 2 ^ n \<Longrightarrow>
    \<exists>e. makeDDFromMatrix_rec N m l (i, i + 2 ^ Suc l) (j, j + 2 ^ Suc l) = Inr e \<and> denotes_block (Suc l) e m i j"
proof (induction l arbitrary: i j)
  case 0
  have "makeDDFromMatrix_rec N m 0 (i, i + 2 ^ Suc 0) (j, j + 2 ^ Suc 0) = Inr (makeDDNode N 0
      [mterminal (m ! i ! j), mterminal (m ! i ! (j + 1)), mterminal (m ! (i + 1) ! j), mterminal (m ! (i + 1) ! (j + 1))])"
    using 0 cell_ok [OF m] by simp
  then show ?case
    using makeDDNode_block [OF ex 0(1,2)] denotes_block_terminal by simp
next
  case (Suc l)
  let ?h = "2 ^ Suc l :: nat"
  have dvd: "?h dvd i" "?h dvd j" "?h dvd i + ?h" "?h dvd j + ?h"
    using Suc.prems(1,2) by (auto intro: dvd_trans [of _ "2 ^ Suc (Suc l)"] dvd_add)
  have le: "i + ?h \<le> 2 ^ n" "j + ?h \<le> 2 ^ n" "i + ?h + ?h \<le> 2 ^ n" "j + ?h + ?h \<le> 2 ^ n"
    using Suc.prems(3,4) by simp_all
  from Suc.IH [OF dvd(1,2) le(1,2)] obtain e0 where
    e0: "makeDDFromMatrix_rec N m l (i, i + ?h) (j, j + ?h) = Inr e0" "denotes_block (Suc l) e0 m i j" by blast
  from Suc.IH [OF dvd(1,4) le(1,4)] obtain e1 where
    e1: "makeDDFromMatrix_rec N m l (i, i + ?h) (j + ?h, j + ?h + ?h) = Inr e1" "denotes_block (Suc l) e1 m i (j + ?h)" by blast
  from Suc.IH [OF dvd(3,2) le(3,2)] obtain e2 where
    e2: "makeDDFromMatrix_rec N m l (i + ?h, i + ?h + ?h) (j, j + ?h) = Inr e2" "denotes_block (Suc l) e2 m (i + ?h) j" by blast
  from Suc.IH [OF dvd(3,4) le(3,4)] obtain e3 where
    e3: "makeDDFromMatrix_rec N m l (i + ?h, i + ?h + ?h) (j + ?h, j + ?h + ?h) = Inr e3"
      "denotes_block (Suc l) e3 m (i + ?h) (j + ?h)" by blast
  have mid: "i + 2 ^ Suc (Suc l) = i + ?h + ?h" "(i + (i + ?h + ?h)) div 2 = i + ?h" for i :: nat
    by simp_all
  have "makeDDFromMatrix_rec N m (Suc l) (i, i + 2 ^ Suc (Suc l)) (j, j + 2 ^ Suc (Suc l)) =
      Inr (makeDDNode N (Suc l) [e0, e1, e2, e3])"
    unfolding makeDDFromMatrix_rec.simps mid Let_def by (simp only: map_res.simps prod.case e0(1) e1(1) e2(1) e3(1) and_then.simps)
  then show ?case
    using makeDDNode_block [OF ex Suc.prems(1,2) e0(2) e1(2) e2(2) e3(2)] by simp
qed

lemma getMatrix_makeDDFromMatrix:
  assumes ex: "exact N" and m: "dims n m"
  shows "\<exists>e. makeDDFromMatrix N m = Inr e \<and> edge_canonical n e \<and> getMatrix e n 0 = Inr m"
proof -
  have len: "length m = 2 ^ n" "length (m ! 0) = 2 ^ n" using m dims_nth [OF m, of 0] by (simp_all add: dims_length)
  have "(2 ^ n :: nat) AND (2 ^ n - 1) = take_bit n (2 ^ n)"
    by (simp only: take_bit_eq_mask mask_eq_exp_minus_1)
  then have pow: "length m AND (length m - 1) = 0" by (simp add: len)
  have ne: "m \<noteq> []" using len(1) by auto
  have "\<exists>e. makeDDFromMatrix N m = Inr e \<and> denotes_block n e m 0 0"
  proof (cases n)
    case 0
    then have "makeDDFromMatrix N m = Inr (mterminal (m ! 0 ! 0))"
      using len ne pow by (simp add: makeDDFromMatrix_def exact_lookup [OF ex])
    then show ?thesis using 0 denotes_block_terminal by simp
  next
    case (Suc l)
    have "nat \<lfloor>log 2 (real (length m)) - 1\<rfloor> = l" 
    proof -
      have "log 2 (real (length m)) = real (Suc l)" unfolding len Suc of_nat_power by (subst log_nat_power) simp_all
      then show ?thesis by simp
    qed
    then show ?thesis
      using makeDDFromMatrix_rec_ok [OF ex m, of l 0 0] len ne pow Suc
      by (auto simp: makeDDFromMatrix_def exact_lookup [OF ex])
  qed
  then obtain e where e: "makeDDFromMatrix N m = Inr e" "denotes_block n e m 0 0" by blast
  then have can: "edge_canonical n e" by (simp add: denotes_block_def)
  then obtain m' where m': "getMatrix e n 0 = Inr m'" "dims n m'"
    "\<And>r c. r < 2 ^ n \<Longrightarrow> c < 2 ^ n \<Longrightarrow> m' ! r ! c = den n e (bit r) (bit c)"
    using getMatrix_ok [of n e] canonical_mwf by (auto simp: edge_canonical_def)
  have "m' ! r ! c = m ! r ! c" if "r < 2 ^ n" "c < 2 ^ n" for r c
    using m'(3) [OF that] e(2) that by (simp add: denotes_block_def in_block_def)
  then have "m' = m"
    by (intro nth_equalityI) (simp_all add: dims_length [OF m] dims_length [OF m'(2)] dims_nth [OF m] dims_nth [OF m'(2)])
  then show ?thesis using e(1) can m'(1) by simp
qed

end
