(* ===== verification/DDKronecker.thy ===== *)
theory DDKronecker
  imports DDTransform
begin

text \<open>
  The Kronecker product of matrix diagrams (\<open>kronecker\<close>, \<open>kronecker2\<close> in
  \<open>include/mqt-core/dd/Package.hpp\<close>).  The product keeps the nodes of the second operand and
  moves those of the first operand above them.
\<close>

section \<open>The code\<close>

text \<open>The new variable of a node of the first operand, a \<open>Qubit\<close> of 16 bits.\<close>

definition kronecker_var :: "mEdge \<Rightarrow> nat \<Rightarrow> bool \<Rightarrow> nat \<Rightarrow> nat" where
  "kronecker_var y yNumQubits incIdx v = (if incIdx
     then (v + (if edge_isIdentity y then yNumQubits else node_var (fst y) + 1)) mod 2 ^ 16 else v)"

definition kronecker_zero :: "Numbers \<Rightarrow> complex \<Rightarrow> complex \<Rightarrow> bool" where
  "kronecker_zero N a b \<longleftrightarrow> a = 0 \<or> b = 0 \<or> approximatelyZero N a \<or> approximatelyZero N b \<or>
     approximatelyZero N (a * b)"

fun kronecker2 :: "Numbers \<Rightarrow> mEdge \<Rightarrow> mEdge \<Rightarrow> nat \<Rightarrow> bool \<Rightarrow> mEdge" where
  "kronecker2 N (MTerminal, a) y yNumQubits incIdx =
     (if kronecker_zero N a (snd y) then mzero else (fst y, a * snd y))"
| "kronecker2 N (MNode v es, a) y yNumQubits incIdx =
     (if kronecker_zero N a (snd y) then mzero
      else let e = makeDDNode N (kronecker_var y yNumQubits incIdx v)
                     (map (\<lambda>e. kronecker2 N e y yNumQubits incIdx) es)
        in (fst e, a * snd y))"

definition dd_kronecker :: "Numbers \<Rightarrow> mEdge \<Rightarrow> mEdge \<Rightarrow> nat \<Rightarrow> bool \<Rightarrow> mEdge" where
  "dd_kronecker N x y yNumQubits incIdx = lookup_edge N (kronecker2 N x y yNumQubits incIdx)"

section \<open>The matrix of the product\<close>

text \<open>Shifting an assignment of qubits down by \<open>n\<close>.\<close>

definition shift :: "nat \<Rightarrow> (nat \<Rightarrow> bool) \<Rightarrow> nat \<Rightarrow> bool" where
  "shift n x = (\<lambda>i. x (i + n))"

text \<open>
  The second operand fills its qubits: its top node is at the highest of its qubits, or it is a
  multiple of the identity and the number of qubits is passed.
\<close>

definition fills :: "nat \<Rightarrow> mEdge \<Rightarrow> nat \<Rightarrow> bool" where
  "fills n y yNumQubits \<longleftrightarrow> edge_canonical n y \<and>
     (if fst y = MTerminal then yNumQubits = n else node_var (fst y) + 1 = n)"

lemma kronecker_zero_exact: "exact N \<Longrightarrow> kronecker_zero N a b \<longleftrightarrow> a = 0 \<or> b = 0"
  by (auto simp: kronecker_zero_def exact_zero)

lemma kronecker_var_fills:
  assumes "fills n y yn" and "snd y \<noteq> 0" and "v + n < 2 ^ 16"
  shows "kronecker_var y yn True v = v + n"
proof -
  have "(if edge_isIdentity y then yn else node_var (fst y) + 1) = n"
    using assms(1,2) by (cases y) (auto simp: fills_def split: if_splits)
  then show ?thesis using assms(3) by (simp add: kronecker_var_def)
qed

lemma child_index_shift: "child_index v (shift n x) (shift n y) = child_index (v + n) x y"
  by (simp add: child_index_def shift_def)

lemma same_above_shift: "same_above l k (shift n x) (shift n y) \<longleftrightarrow> same_above (l + n) (k + n) x y"
proof
  assume a: "same_above l k (shift n x) (shift n y)"
  show "same_above (l + n) (k + n) x y"
    unfolding same_above_def
  proof (intro allI impI)
    fix i
    assume "l + n \<le> i \<and> i < k + n"
    then have "l \<le> i - n \<and> i - n < k" "i - n + n = i" by auto
    then show "x i = y i" using a unfolding same_above_def shift_def by metis
  qed
qed (auto simp: same_above_def shift_def)

lemma makeDDNode_weight:
  assumes ex: "exact N" and es: "length es = 4" "normalized es" and b: "b \<noteq> 0"
    and ds: "length ds = 4" "\<And>i. i < 4 \<Longrightarrow> snd (ds ! i) = b * snd (es ! i)"
  shows "snd (makeDDNode N v ds) = b"
  using ex ds(1)
proof (cases rule: mnormalize_cases [where v = v])
  case zero
  then have "\<forall>i < 4. snd (es ! i) = 0" using ds(2) b by simp
  then show ?thesis using es(2) by (auto simp: normalized_def)
next
  case (node cs w)
  have "w * snd (cs ! i) = b * snd (es ! i)" if "i < 4" for i
    using node(3) [OF that] node(4) ds(2) [OF that] by (simp add: mzero_def split: if_splits)
  then have "w = b" by (rule normalized_factor [OF node(5) es(2) _ node(4)])
  then show ?thesis by (simp add: makeDDNode_def node(1) Let_def)
qed

lemma kronecker2_ok:
  "exact N \<Longrightarrow> fills n y yn \<Longrightarrow> canonical l (fst x) \<Longrightarrow> l + n \<le> 2 ^ 16 \<Longrightarrow>
    canonical (l + n) (fst (kronecker2 N x y yn True)) \<and>
    snd (kronecker2 N x y yn True) = snd x * snd y \<and>
    (\<forall>r c. den (l + n) (kronecker2 N x y yn True) r c = den l x (shift n r) (shift n c) * den n y r c)"
proof (induction N x y yn "True" arbitrary: l rule: kronecker2.induct)
  case (1 N a y yn)
  have y: "canonical n (fst y)" using 1(2) by (simp add: fills_def edge_canonical_def)
  show ?case
  proof (cases "a = 0 \<or> snd y = 0")
    case True
    then show ?thesis
      using den_pair [of n y] by (auto simp: kronecker_zero_exact [OF 1(1)] mzero_def)
  next
    case False
    have "den (l + n) (fst y, a * snd y) r c = den l (MTerminal, a) (shift n r) (shift n c) * den n y r c" for r c
      using den_lift [of n "l + n" "(fst y, a * snd y)" r c] canonical_mwf [OF y]
        den_scale [of n "fst y" "a * snd y" r c] den_pair [of n y r c] same_above_shift [of 0 l n r c]
      by (simp add: den_terminal)
    then show ?thesis
      using False canonical_mono [OF y] by (simp add: kronecker_zero_exact [OF 1(1)])
  qed
next
  case (2 N v es a y yn)
  note ex = 2(2) and fill = 2(3)
  have es: "v < l" "length es = 4" "normalized es" "\<And>i. i < 4 \<Longrightarrow> canonical v (fst (es ! i))"
    using 2(4) by (simp_all add: canonical_MNode)
  show ?case
  proof (cases "a = 0 \<or> snd y = 0")
    case True
    then show ?thesis
      using den_pair [of n y] by (auto simp: kronecker_zero_exact [OF ex] mzero_def simp del: den.simps)
  next
    case False
    define w where "w = v + n"
    have w: "kronecker_var y yn True v = w"
      using kronecker_var_fills [OF fill, of v] False es(1) 2(5) by (simp add: w_def)
    let ?ds = "map (\<lambda>e. kronecker2 N e y yn True) es"
    have ds: "canonical w (fst (?ds ! i)) \<and> snd (?ds ! i) = snd y * snd (es ! i) \<and>
        (\<forall>r c. den w (?ds ! i) r c = den v (es ! i) (shift n r) (shift n c) * den n y r c)" if "i < 4" for i
    proof -
      have "\<not> kronecker_zero N a (snd y)" using False by (simp add: kronecker_zero_exact [OF ex])
      from 2(1) [OF this nth_mem ex fill es(4), of i] show ?thesis
        using that es(1,2) 2(5) by (simp add: w_def mult.commute)
    qed
    obtain p b where e: "makeDDNode N w ?ds = (p, b)" by force
    have b: "b = snd y"
      using makeDDNode_weight [OF ex es(2,3), of "snd y" ?ds w] ds False es(2) e by simp
    have "edges_ok w ?ds" using ds es(2) canonical_mwf by (auto simp: edges_ok_def)
    from makeDDNode_ok [OF ex this] have rok: "mwf (Suc w) p"
      "\<And>r c. den (Suc w) (p, b) r c = den w (?ds ! child_index w r c) r c" by (simp_all add: e del: den.simps)
    have rc: "canonical (Suc w) p" using makeDDNode_canonical' [OF ex, of ?ds w] ds es(2) e by simp
    have node: "den (Suc w) (p, a * snd y) r c =
        a * den v (es ! child_index v (shift n r) (shift n c)) (shift n r) (shift n c) * den n y r c" for r c
      using den_scale [of "Suc w" p "a * snd y" r c] den_scale [of "Suc w" p b r c] rok(2) [of r c] b
        ds [OF child_index_less, of w r c] child_index_shift [of v n r c] by (simp add: w_def del: den.simps)
    have le: "Suc w \<le> l + n" "Suc v \<le> l" using es(1) by (simp_all add: w_def)
    have lifted: "den (l + n) (p, a * snd y) r c = den l (MNode v es, a) (shift n r) (shift n c) * den n y r c" for r c
    proof -
      have "mwf (Suc v) (MNode v es)" using canonical_mwf [OF 2(4)] by (simp add: mwf_node_iff)
      then show ?thesis
        using den_lift [OF le(1), of "(p, a * snd y)" r c] rok(1) node [of r c]
          den_lift [OF le(2), of "(MNode v es, a)" "shift n r" "shift n c"] same_above_shift [of "Suc v" l n r c]
        by (simp add: w_def)
    qed
    have "kronecker2 N (MNode v es, a) y yn True = (p, a * snd y)"
      using False by (simp add: kronecker_zero_exact [OF ex] w e Let_def)
    then show ?thesis using lifted canonical_mono [OF rc le(1)] by (simp del: den.simps)
  qed
qed

lemma dd_kronecker_ok:
  assumes "exact N" "fills n y yn" "edge_canonical l x" "l + n \<le> 2 ^ 16"
  shows "edge_canonical (l + n) (dd_kronecker N x y yn True) \<and>
    (\<forall>r c. den (l + n) (dd_kronecker N x y yn True) r c = den l x (shift n r) (shift n c) * den n y r c)"
proof -
  have k: "canonical (l + n) (fst (kronecker2 N x y yn True))"
    "den (l + n) (kronecker2 N x y yn True) r c = den l x (shift n r) (shift n c) * den n y r c" for r c
    using kronecker2_ok [OF assms(1,2) _ assms(4), of x] assms(3) by (simp_all add: edge_canonical_def)
  then show ?thesis
    using lookup_edge_canonical [OF assms(1) k(1)] lookup_edge_ok [OF assms(1) canonical_mwf [OF k(1)]]
    by (simp add: dd_kronecker_def)
qed

text \<open>
  A diagram of two qubits whose higher qubit carries the identity does not fill its qubits: the
  first operand is then moved up by one qubit instead of two.
\<close>

definition x_node :: "nat \<Rightarrow> mNode" where
  "x_node v = MNode v [mzero, mone, mone, mzero]"

lemma x_node_canonical: "v < k \<Longrightarrow> edge_canonical k (x_node v, 1)"
proof -
  let ?es = "[mzero, mone, mone, mzero]"
  have "snd (?es ! 1) = 1 \<and> (\<forall>j < 1. mag2 (snd (?es ! j)) < 1)" by (simp add: mzero_def mone_def)
  moreover have four: "i = 0 \<or> i = 1 \<or> i = 2 \<or> i = 3" if "i < 4" for i :: nat using that by linarith
  then have "\<forall>j < 4. mag2 (snd (?es ! j)) \<le> 1" by (auto simp: mzero_def mone_def dest!: four)
  ultimately have "normalized ?es" unfolding normalized_def by (metis one_less_numeral_iff semiring_norm(76))
  moreover have "\<forall>i < 4. canonical v (fst (?es ! i)) \<and> (snd (?es ! i) = 0 \<longrightarrow> fst (?es ! i) = MTerminal)"
    by (auto simp: mzero_def mone_def dest!: four)
  ultimately show "edge_canonical k (x_node v, 1)" if "v < k"
    using that by (simp add: edge_canonical_def x_node_def canonical_MNode identity_node_def mzero_def)
qed

lemma dd_kronecker_identity_on_top:
  "dd_kronecker exact_numbers (x_node 0, 1) (x_node 0, 1) 2 True =
    (MNode 1 [mzero, (x_node 0, 1), (x_node 0, 1), mzero], 1)"
  by (simp add: dd_kronecker_def x_node_def kronecker_zero_exact [OF exact_exact_numbers] kronecker_var_def
      makeDDNode_eval lookup_edge_def)

end
