(* ===== verification/DDSamples.thy ===== *)
theory DDSamples
  imports DDInverse DDRead DDKronecker IRInverse
begin

text \<open>
  Sample diagrams: the operations of a small circuit have diagrams, so the hypotheses of the
  properties can hold.
\<close>

lemma hadamard_DD: "\<exists>e. getDD exact_numbers 1 [] False (hadamard_op 0) = Inr e \<and> edge_canonical 1 e"
proof -
  have "strictly_sorted (map qubit ([] :: Controls))" "ensureGateQubitsInRange 1 [] [0] = Inr ()"
    by (simp_all add: ensureGateQubitsInRange_def)
  from makeGateDD_ok [OF exact_exact_numbers this] show ?thesis
    by (simp add: hadamard_op_def permuted_DD_def getStandardOperationDD_def getStandardOperationDD_parts_def
        perm_apply_targets_def perm_apply_controls_def isSingleQubitGate_def opToSingleQubitGateMatrix_def
        del: den.simps split_paired_Ex) blast
qed

lemma phase_DD_canonical: "\<exists>e. getDD exact_numbers n [] False (phase_op x) = Inr e \<and> edge_canonical n e"
  by (simp add: phase_op_def phase_DD_def deref_res_def mterminal_def edge_canonical_def Let_def)

abbreviation sample_compound :: Operation where
  "sample_compound \<equiv> CompoundOp (empty_base opCompound []) [hadamard_op 0, phase_op 1] False"

lemma sample_DD: "\<exists>e. getDD exact_numbers 1 [] False sample_compound = Inr e"
proof -
  obtain h g where h: "getDD exact_numbers 1 [] False (hadamard_op 0) = Inr h" "edge_canonical 1 h"
    and g: "getDD exact_numbers 1 [] False (phase_op 1) = Inr g" "edge_canonical 1 g"
    using hadamard_DD phase_DD_canonical by blast
  have "dd_multiply exact_numbers h mone = Inr h"
    using dd_multiply_one [OF exact_exact_numbers zero_less_one h(2)] by simp
  moreover obtain e where "dd_multiply exact_numbers g h = Inr e"
    using dd_multiply_ok [OF exact_exact_numbers zero_less_one g(2) h(2)] by blast
  ultimately show ?thesis using h(1) g(1) by (simp add: empty_base_def del: split_paired_Ex)
qed

end
