(* ===== verification/DDLocal.thy ===== *)
theory DDLocal
  imports DDInverse IRReorder
begin

text \<open>
  The diagram of a list of operations, as \<open>buildFunctionality\<close> and compound operations multiply
  it up, and the laws by which a pass may change the list: operations on disjoint qubits
  commute, and a part may be replaced by one with the same diagram.
\<close>

section \<open>Matrices that act on some qubits\<close>

definition supported :: "nat \<Rightarrow> nat set \<Rightarrow> ((nat \<Rightarrow> bool) \<Rightarrow> (nat \<Rightarrow> bool) \<Rightarrow> complex) \<Rightarrow> bool" where
  "supported n S A \<longleftrightarrow>
     (\<forall>x y. A x y \<noteq> 0 \<longrightarrow> (\<forall>q < n. q \<notin> S \<longrightarrow> x q = y q)) \<and>
     (\<forall>x y x' y'. (\<forall>q < n. q \<notin> S \<longrightarrow> x q = y q \<and> x' q = y' q) \<longrightarrow>
       (\<forall>q < n. q \<in> S \<longrightarrow> x q = x' q \<and> y q = y' q) \<longrightarrow> A x y = A x' y')"

lemma supported_zero: "supported n S A \<Longrightarrow> A x y \<noteq> 0 \<Longrightarrow> q < n \<Longrightarrow> q \<notin> S \<Longrightarrow> x q = y q"
  unfolding supported_def by blast

lemma supported_same:
  "supported n S A \<Longrightarrow> \<forall>q < n. q \<notin> S \<longrightarrow> x q = y q \<and> x' q = y' q \<Longrightarrow>
    \<forall>q < n. q \<in> S \<longrightarrow> x q = x' q \<and> y q = y' q \<Longrightarrow> A x y = A x' y'"
  unfolding supported_def by blast

lemma bit_sum_single:
  assumes "\<And>z. (\<forall>q \<ge> n. z q = x q) \<Longrightarrow> z \<noteq> z0 \<Longrightarrow> f z = 0" and "\<forall>q \<ge> n. z0 q = x q"
  shows "bit_sum n f x = f z0"
  using assms
proof (induction n arbitrary: x)
  case 0
  then have "z0 = x" by (simp add: fun_eq_iff)
  then show ?case by simp
next
  case (Suc n)
  have here: "bit_sum n f (x(n := z0 n)) = f z0"
  proof (rule Suc.IH)
    show "f z = 0" if "\<forall>q \<ge> n. z q = (x(n := z0 n)) q" "z \<noteq> z0" for z
      by (rule Suc.prems(1) [OF _ that(2)]) (use that(1) in simp)
    show "\<forall>q \<ge> n. z0 q = (x(n := z0 n)) q" using Suc.prems(2) by (simp add: Suc_le_eq)
  qed
  have "bit_sum n f (x(n := (\<not> z0 n))) = bit_sum n (\<lambda>z. 0) (x(n := (\<not> z0 n)))"
  proof (rule bit_sum_cong)
    fix z
    assume "\<forall>i \<ge> n. z i = (x(n := (\<not> z0 n))) i"
    then have "\<forall>q \<ge> Suc n. z q = x q" "z n = (\<not> z0 n)" by simp_all
    then show "f z = 0" by (intro Suc.prems(1)) auto
  qed
  then have "bit_sum n f (x(n := (\<not> z0 n))) = 0" by simp
  with here show ?case by (cases "z0 n") simp_all
qed

lemma supported_product:
  assumes A: "supported n S A" and B: "supported n T B" and disj: "S \<inter> T = {}"
  shows "mat_mult n A B x y = A x (\<lambda>q. if q \<in> S \<and> q < n then y q else x q) * B (\<lambda>q. if q \<in> S \<and> q < n then y q else x q) y"
  unfolding mat_mult_def
proof (rule bit_sum_single)
  let ?z = "\<lambda>q. if q \<in> S \<and> q < n then y q else x q"
  fix z
  assume above: "\<forall>q \<ge> n. z q = x q" and ne: "z \<noteq> ?z"
  show "A x z * B z y = 0"
  proof (rule ccontr)
    assume "A x z * B z y \<noteq> 0"
    then have "A x z \<noteq> 0" "B z y \<noteq> 0" by auto
    then have "q < n \<Longrightarrow> q \<notin> S \<Longrightarrow> x q = z q" "q < n \<Longrightarrow> q \<notin> T \<Longrightarrow> z q = y q" for q
      using supported_zero [OF A] supported_zero [OF B] by blast+
    then have "z q = ?z q" for q using above disj by (cases "q < n"; cases "q \<in> S") auto
    then have "z = ?z" by (rule ext)
    with ne show False ..
  qed
qed simp

lemma supported_commute:
  assumes A: "supported n S A" and B: "supported n T B" and disj: "S \<inter> T = {}"
  shows "mat_mult n A B x y = mat_mult n B A x y"
proof -
  let ?z = "\<lambda>q. if q \<in> S \<and> q < n then y q else x q" and ?w = "\<lambda>q. if q \<in> T \<and> q < n then y q else x q"
  have AB: "mat_mult n A B x y = A x ?z * B ?z y" by (rule supported_product [OF A B disj])
  have BA: "mat_mult n B A x y = B x ?w * A ?w y" by (rule supported_product [OF B A]) (use disj in blast)
  show ?thesis
  proof (cases "\<forall>q < n. q \<notin> S \<longrightarrow> q \<notin> T \<longrightarrow> x q = y q")
    case True
    have "A x ?z = A ?w y"
    proof -
      have "\<forall>q < n. q \<notin> S \<longrightarrow> x q = ?z q \<and> ?w q = y q" "\<forall>q < n. q \<in> S \<longrightarrow> x q = ?w q \<and> ?z q = y q"
        using True disj by auto
      then show ?thesis by (rule supported_same [OF A])
    qed
    moreover have "B ?z y = B x ?w"
    proof -
      have "\<forall>q < n. q \<notin> T \<longrightarrow> ?z q = y q \<and> x q = ?w q" "\<forall>q < n. q \<in> T \<longrightarrow> ?z q = x q \<and> y q = ?w q"
        using True disj by auto
      then show ?thesis by (rule supported_same [OF B])
    qed
    ultimately show ?thesis by (simp add: AB BA)
  next
    case False
    then obtain q where q: "q < n" "q \<notin> S" "q \<notin> T" "x q \<noteq> y q" by blast
    then have "?z q \<noteq> y q" "?w q \<noteq> y q" by auto
    then have "B ?z y = 0" "A ?w y = 0"
      using q supported_zero [OF A, of ?w y q] supported_zero [OF B, of ?z y q] by blast+
    then show ?thesis by (simp add: AB BA)
  qed
qed

lemma supported_gate_matrix:
  assumes "gate_fits n cs ts" "set ts \<union> qubit ` set cs \<subseteq> S"
  shows "supported n S (gate_matrix n M cs ts)"
  unfolding supported_def
proof (intro conjI allI impI)
  fix x y q
  assume "gate_matrix n M cs ts x y \<noteq> 0" "q < n" "q \<notin> S"
  then show "x q = y q" using assms(2) by (auto simp: gate_matrix_def same_rest_def list_all_iff split: if_splits)
next
  fix x y x' y' :: "nat \<Rightarrow> bool"
  assume out: "\<forall>q < n. q \<notin> S \<longrightarrow> x q = y q \<and> x' q = y' q"
    and on: "\<forall>q < n. q \<in> S \<longrightarrow> x q = x' q \<and> y q = y' q"
  have ts: "x t = x' t" "y t = y' t" if "t \<in> set ts" for t
    using assms that on by (auto simp: gate_fits_def)
  have cs: "x (qubit c) = x' (qubit c)" if "c \<in> set cs" for c
    using assms that on by (auto simp: gate_fits_def)
  have "same_rest n ts x y = same_rest n ts x' y'"
    using out on by (auto simp: same_rest_def list_all_iff)
  moreover have "active cs x = active cs x'" using cs by (simp add: active_def list_all_iff)
  moreover have "target_index ts x = target_index ts x'" "target_index ts y = target_index ts y'"
    using ts by (simp_all add: target_index_inj)
  ultimately show "gate_matrix n M cs ts x y = gate_matrix n M cs ts x' y'"
    by (simp add: gate_matrix_index)
qed

lemma supported_terminal: "supported n S (den n (MTerminal, w))"
  by (auto simp: supported_def den_terminal same_above_def)

section \<open>Commuting factors\<close>

context partial_monoid
begin

lemma commutes_product:
  assumes "valid a" "list_all valid xs" "\<And>x. x \<in> set xs \<Longrightarrow> mul a x = mul x a"
    and "fold_res (\<lambda>x e. mul x e) xs one = Inr p"
  shows "mul a p = mul p a"
  using assms(2-)
proof (induction xs arbitrary: p rule: rev_induct)
  case Nil
  then show ?case using one_mul mul_one assms(1) by simp
next
  case (snoc x xs)
  then obtain r where r: "fold_res (\<lambda>x e. mul x e) xs one = Inr r" "valid r"
    using product_total [of xs one] one_valid by auto
  then have p: "mul x r = Inr p" using snoc.prems(3) by (simp add: fold_res_append and_then_eq_Inr)
  have x: "valid x" "mul a x = mul x a" using snoc.prems by auto
  obtain u v where u: "mul a x = Inr u" "valid u" and v: "mul a r = Inr v" "valid v"
    using mul_total assms(1) x(1) r(2) by metis
  have "mul a r = mul r a" by (rule snoc.IH [OF _ _ r(1)]) (use snoc.prems in auto)
  moreover have "mul a p = mul u r" using mul_assoc [OF assms(1) x(1) r(2)] u p by simp
  moreover have "mul u r = mul x v" using mul_assoc [OF x(1) assms(1) r(2)] u v by (simp flip: x(2))
  moreover have "mul p a = mul x v" using mul_assoc [OF x(1) r(2) assms(1)] p v calculation(1) by simp
  ultimately show ?case by metis
qed

end

section \<open>The diagram of a list of operations\<close>

definition circuit_DD :: "nat \<Rightarrow> Operation list \<Rightarrow> mEdge result" where
  "circuit_DD n ops = fold_res (\<lambda>op e. and_then (getDD exact_numbers n [] False op)
     (\<lambda>d. dd_multiply exact_numbers d e)) ops mone"

text \<open>
  Operations as the constructors make them: the controls are sorted and no qubit is used
  twice, and a compound operation has the type of one.
\<close>

fun regular :: "Operation \<Rightarrow> bool" where
  "regular (CompoundOp b ops cust) = (optype b = opCompound \<and> list_all regular ops)"
| "regular op = strictly_sorted (map qubit (getControls op))"

lemma regular_distinct: "regular op \<Longrightarrow> distinct_controls [] op"
  by (induction op rule: regular.induct) (auto simp: list_all_iff perm_apply_controls_def)

abbreviation op_DD :: "nat \<Rightarrow> Operation \<Rightarrow> mEdge result" where
  "op_DD n op \<equiv> getDD exact_numbers n [] False op"

lemma op_DD_canonical: "0 < n \<Longrightarrow> regular op \<Longrightarrow> op_DD n op = Inr e \<Longrightarrow> edge_canonical n e"
  using getDD_pair [OF exact_exact_numbers _ regular_distinct] by (auto simp: inverse_pair_def unitary_edge_def)

lemma circuit_DD_factors:
  assumes "0 < n" "list_all regular ops"
  shows "circuit_DD n ops = Inr e \<longleftrightarrow>
    (\<exists>ds. list_all2 (\<lambda>op d. op_DD n op = Inr d) ops ds \<and> list_all (edge_canonical n) ds \<and>
      fold_res (\<lambda>d e. dd_multiply exact_numbers d e) ds mone = Inr e)"
proof -
  have "fold_res (\<lambda>op e. and_then (op_DD n op) (\<lambda>d. dd_multiply exact_numbers d e)) ops a = Inr e \<longleftrightarrow>
    (\<exists>ds. list_all2 (\<lambda>op d. op_DD n op = Inr d) ops ds \<and> list_all (edge_canonical n) ds \<and>
      fold_res (\<lambda>d e. dd_multiply exact_numbers d e) ds a = Inr e)" for a
    using assms(2)
  proof (induction ops arbitrary: a)
    case (Cons op ops)
    let ?R = "\<lambda>op d. op_DD n op = Inr d" and ?mul = "\<lambda>d e. dd_multiply exact_numbers d e"
    let ?rest = "\<lambda>b. \<exists>ds. list_all2 ?R ops ds \<and> list_all (edge_canonical n) ds \<and> fold_res ?mul ds b = Inr e"
    have can: "op_DD n op = Inr d \<Longrightarrow> edge_canonical n d" for d
      using op_DD_canonical [OF assms(1), of op d] Cons.prems by simp
    have IH: "fold_res (\<lambda>op e. and_then (op_DD n op) (\<lambda>d. ?mul d e)) ops b = Inr e \<longleftrightarrow> ?rest b" for b
      using Cons by simp
    have "(\<exists>ds. list_all2 ?R (op # ops) ds \<and> list_all (edge_canonical n) ds \<and> fold_res ?mul ds a = Inr e) \<longleftrightarrow>
        (\<exists>d. op_DD n op = Inr d \<and> (\<exists>b. ?mul d a = Inr b \<and> ?rest b))"
    proof
      assume "\<exists>ds. list_all2 ?R (op # ops) ds \<and> list_all (edge_canonical n) ds \<and> fold_res ?mul ds a = Inr e"
      then obtain d ds where "op_DD n op = Inr d" "list_all2 ?R ops ds" "list_all (edge_canonical n) ds"
        "and_then (?mul d a) (fold_res ?mul ds) = Inr e" by (auto simp: list_all2_Cons1)
      then show "\<exists>d. op_DD n op = Inr d \<and> (\<exists>b. ?mul d a = Inr b \<and> ?rest b)" unfolding and_then_eq_Inr by blast
    next
      assume "\<exists>d. op_DD n op = Inr d \<and> (\<exists>b. ?mul d a = Inr b \<and> ?rest b)"
      then obtain d b ds where "op_DD n op = Inr d" "?mul d a = Inr b" "list_all2 ?R ops ds"
        "list_all (edge_canonical n) ds" "fold_res ?mul ds b = Inr e" by blast
      then have "list_all2 ?R (op # ops) (d # ds) \<and> list_all (edge_canonical n) (d # ds) \<and>
        fold_res ?mul (d # ds) a = Inr e" using can by simp
      then show "\<exists>ds. list_all2 ?R (op # ops) ds \<and> list_all (edge_canonical n) ds \<and> fold_res ?mul ds a = Inr e"
        by blast
    qed
    moreover have "fold_res (\<lambda>op e. and_then (op_DD n op) (\<lambda>d. ?mul d e)) (op # ops) a = Inr e \<longleftrightarrow>
        (\<exists>d. op_DD n op = Inr d \<and> (\<exists>b. ?mul d a = Inr b \<and> ?rest b))"
      unfolding fold_res.simps and_then_assoc and_then_eq_Inr [of "op_DD n op"] and_then_eq_Inr [of "?mul _ a"] IH
      by blast
    ultimately show ?case by blast
  qed simp
  then show ?thesis by (simp add: circuit_DD_def)
qed

lemma circuit_DD_canonical:
  assumes "0 < n" "list_all regular ops" "circuit_DD n ops = Inr e"
  shows "edge_canonical n e"
proof -
  obtain k where n: "n = Suc k" using assms(1) by (cases n) auto
  from assms obtain ds where "list_all (edge_canonical n) ds" "fold_res (\<lambda>d e. dd_multiply exact_numbers d e) ds mone = Inr e"
    by (auto simp: circuit_DD_factors)
  then show ?thesis using dd.product_total [of k ds mone] mone_canonical by (auto simp: n)
qed

lemma circuit_DD_append:
  assumes "0 < n" "list_all regular xs" "list_all regular ys"
  shows "circuit_DD n (xs @ ys) = Inr e \<longleftrightarrow>
    (\<exists>a b. circuit_DD n xs = Inr a \<and> circuit_DD n ys = Inr b \<and> dd_multiply exact_numbers b a = Inr e)"
proof -
  obtain k where n: "n = Suc k" using assms(1) by (cases n) auto
  note F = circuit_DD_factors [OF assms(1)]
  show ?thesis
  proof
    assume "circuit_DD n (xs @ ys) = Inr e"
    then obtain ds where ds: "list_all2 (\<lambda>op d. op_DD n op = Inr d) (xs @ ys) ds" "list_all (edge_canonical n) ds"
      "fold_res (\<lambda>d e. dd_multiply exact_numbers d e) ds mone = Inr e"
      using F [of "xs @ ys"] assms by auto
    then obtain us vs where ds': "ds = us @ vs" "list_all2 (\<lambda>op d. op_DD n op = Inr d) xs us"
      "list_all2 (\<lambda>op d. op_DD n op = Inr d) ys vs" by (auto simp: list_all2_append1)
    then show "\<exists>a b. circuit_DD n xs = Inr a \<and> circuit_DD n ys = Inr b \<and> dd_multiply exact_numbers b a = Inr e"
      using ds dd.product_append [of k us vs] F [OF assms(2)] F [OF assms(3)] n by (fastforce simp: and_then_eq_Inr)
  next
    assume "\<exists>a b. circuit_DD n xs = Inr a \<and> circuit_DD n ys = Inr b \<and> dd_multiply exact_numbers b a = Inr e"
    then obtain a b us vs where "list_all2 (\<lambda>op d. op_DD n op = Inr d) xs us" "list_all (edge_canonical n) us"
      "fold_res (\<lambda>d e. dd_multiply exact_numbers d e) us mone = Inr a"
      "list_all2 (\<lambda>op d. op_DD n op = Inr d) ys vs" "list_all (edge_canonical n) vs"
      "fold_res (\<lambda>d e. dd_multiply exact_numbers d e) vs mone = Inr b" "dd_multiply exact_numbers b a = Inr e"
      using F [OF assms(2)] F [OF assms(3)] by blast
    then show "circuit_DD n (xs @ ys) = Inr e"
      using F [of "xs @ ys"] assms dd.product_append [of k us vs] n
      by (auto intro!: exI [of _ "us @ vs"] list_all2_appendI)
  qed
qed

lemma circuit_DD_single: "0 < n \<Longrightarrow> regular op \<Longrightarrow> circuit_DD n [op] = Inr e \<longleftrightarrow> op_DD n op = Inr e"
  using dd_multiply_one [OF exact_exact_numbers, of n e] op_DD_canonical [of n op]
    dd_multiply_one [OF exact_exact_numbers, of n]
  unfolding circuit_DD_def fold_res.simps and_then_Inr and_then_eq_Inr by (metis sum.inject(2))

lemma circuit_DD_compound:
  "optype b = opCompound \<Longrightarrow> op_DD n (CompoundOp b ops cust) = circuit_DD n ops"
  by (simp add: circuit_DD_def)

section \<open>Operations on disjoint qubits commute\<close>

lemma actsOn_base: "\<not> isCompoundOperation op \<Longrightarrow> {q. actsOn op q} = set (getTargets op) \<union> qubit ` set (getControls op)"
  by (cases op) (auto simp: op_actsOn_def controls_contain_def list_ex_iff)

lemma leaf_supported:
  assumes n: "0 < n" and op: "regular op" "\<not> isCompoundOperation op" "op_DD n op = Inr e"
  shows "supported n {q. actsOn op q} (den n e)"
proof -
  consider (barrier) "getType op = opBarrier" | (phase) "getType op = opGPhase"
    | (std) "getType op \<noteq> opBarrier" "getType op \<noteq> opGPhase" by blast
  then show ?thesis
  proof cases
    case barrier
    then have "e = mone" using op by (cases op) simp_all
    then show ?thesis by (simp add: mone_def supported_terminal)
  next
    case phase
    then have "phase_DD exact_numbers (getBase op) False = Inr e" using op by (cases op) simp_all
    then have "fst e = MTerminal" by (auto simp: phase_DD_def and_then_eq_Inr Let_def mterminal_def)
    then show ?thesis using supported_terminal [of n _ "snd e"] by (metis prod.collapse)
  next
    case std
    then have "permuted_DD exact_numbers n [] False (getBase op) = Inr e" "strictly_sorted (map qubit (getControls op))"
      using op by (cases op; simp split: if_splits)+
    then obtain M where M: "gate_fits n (getControls op) (getTargets op)"
      "\<forall>x y. den n e x y = gate_matrix n M (getControls op) (getTargets op) x y"
      using parts_ok [OF exact_exact_numbers]
      by (fastforce simp: permuted_DD_def perm_apply_controls_def getStandardOperationDD_def)
    then have "den n e = gate_matrix n M (getControls op) (getTargets op)" by (simp add: fun_eq_iff del: den.simps)
    with supported_gate_matrix [OF M(1)] actsOn_base [OF op(2)] show ?thesis by simp
  qed
qed

lemma leaves_commute:
  assumes n: "0 < n" and a: "regular a" "\<not> isCompoundOperation a" "op_DD n a = Inr d"
    and b: "regular b" "\<not> isCompoundOperation b" "op_DD n b = Inr e" and disj: "disjoint_ops a b"
  shows "dd_multiply exact_numbers d e = dd_multiply exact_numbers e d"
proof -
  note A = leaf_supported [OF n a] and B = leaf_supported [OF n b]
  have can: "edge_canonical n d" "edge_canonical n e"
    using op_DD_canonical [OF n a(1,3)] op_DD_canonical [OF n b(1,3)] by blast+
  obtain f where f: "dd_multiply exact_numbers e d = Inr f" "edge_canonical n f"
    "\<forall>r c. den n f r c = mat_mult n (den n e) (den n d) r c"
    using dd_multiply_ok [OF exact_exact_numbers n can(2,1)] by blast
  have "{q. actsOn a q} \<inter> {q. actsOn b q} = {}" using disj by (auto simp: disjoint_ops_def)
  then have "den n f r c = mat_mult n (den n d) (den n e) r c" for r c
    using supported_commute [OF A B] f(3) by simp
  then show ?thesis using dd_multiply_eq [OF exact_exact_numbers n can f(2)] f(1) by simp
qed

lemma commutes_with_all:
  assumes n: "0 < n" and a: "edge_canonical n d" and ops: "list_all regular ops" "circuit_DD n ops = Inr e"
    and each: "\<And>op f. op \<in> set ops \<Longrightarrow> op_DD n op = Inr f \<Longrightarrow>
      dd_multiply exact_numbers d f = dd_multiply exact_numbers f d"
  shows "dd_multiply exact_numbers d e = dd_multiply exact_numbers e d"
proof -
  obtain k where k: "n = Suc k" using n by (cases n) auto
  obtain ds where ds: "list_all2 (\<lambda>op d. op_DD n op = Inr d) ops ds" "list_all (edge_canonical n) ds"
    "fold_res (\<lambda>d e. dd_multiply exact_numbers d e) ds mone = Inr e"
    using ops circuit_DD_factors [OF n] by blast
  show ?thesis
  proof (rule dd.commutes_product [of k, folded k, OF a ds(2) _ ds(3)])
    fix f
    assume "f \<in> set ds"
    then obtain i where "i < length ds" "f = ds ! i" by (auto simp: in_set_conv_nth)
    then have "ops ! i \<in> set ops" "op_DD n (ops ! i) = Inr f" using ds(1) by (auto simp: list_all2_conv_all_nth)
    then show "dd_multiply exact_numbers d f = dd_multiply exact_numbers f d" by (rule each)
  qed
qed

lemma leaf_commutes:
  assumes n: "0 < n" and a: "regular a" "\<not> isCompoundOperation a" "op_DD n a = Inr d"
  shows "regular b \<Longrightarrow> op_DD n b = Inr e \<Longrightarrow> disjoint_ops a b \<Longrightarrow>
    dd_multiply exact_numbers d e = dd_multiply exact_numbers e d"
proof (induction b arbitrary: e)
  case (CompoundOp c ops cust)
  show ?case
  proof (rule commutes_with_all [OF n op_DD_canonical [OF n a(1,3)], of ops])
    show "list_all regular ops" "circuit_DD n ops = Inr e"
      using CompoundOp.prems circuit_DD_compound by (simp_all add: circuit_DD_def)
    fix op f
    assume op: "op \<in> set ops" "op_DD n op = Inr f"
    have "regular op" "disjoint_ops a op" using CompoundOp.prems op(1)
      by (auto simp: list_all_iff disjoint_ops_def list_ex_iff)
    with CompoundOp.IH op show "dd_multiply exact_numbers d f = dd_multiply exact_numbers f d" by blast
  qed
qed (rule leaves_commute [OF n a], simp_all)+

theorem ops_commute:
  assumes n: "0 < n" and b: "regular b" "op_DD n b = Inr e"
  shows "regular a \<Longrightarrow> op_DD n a = Inr d \<Longrightarrow> disjoint_ops a b \<Longrightarrow>
    dd_multiply exact_numbers d e = dd_multiply exact_numbers e d"
proof (induction a arbitrary: d)
  case (CompoundOp c ops cust)
  have "dd_multiply exact_numbers e d = dd_multiply exact_numbers d e"
  proof (rule commutes_with_all [OF n op_DD_canonical [OF n b], of ops])
    show "list_all regular ops" "circuit_DD n ops = Inr d"
      using CompoundOp.prems circuit_DD_compound by (simp_all add: circuit_DD_def)
    fix op f
    assume op: "op \<in> set ops" "op_DD n op = Inr f"
    have reg: "regular op" "disjoint_ops op b" using CompoundOp.prems op(1)
      by (auto simp: list_all_iff disjoint_ops_def list_ex_iff)
    show "dd_multiply exact_numbers e f = dd_multiply exact_numbers f e"
      by (rule CompoundOp.IH [OF op(1) reg(1) op(2) reg(2), symmetric])
  qed
  then show ?case by simp
qed (rule leaf_commutes [OF n _ _ _ b], simp_all)+

section \<open>Replacing parts of a circuit\<close>

definition replaces :: "nat \<Rightarrow> Operation list \<Rightarrow> Operation list \<Rightarrow> bool" where
  "replaces n xs ys \<longleftrightarrow> (list_all regular xs \<longrightarrow> list_all regular ys \<and>
     (\<forall>e. circuit_DD n xs = Inr e \<longrightarrow> circuit_DD n ys = Inr e))"

lemma replaces_refl [simp]: "replaces n xs xs"
  by (simp add: replaces_def)

lemma replaces_trans: "replaces n xs ys \<Longrightarrow> replaces n ys zs \<Longrightarrow> replaces n xs zs"
  by (auto simp: replaces_def)

lemma replaces_append:
  assumes n: "0 < n" and xs: "replaces n xs xs'" and ys: "replaces n ys ys'"
  shows "replaces n (xs @ ys) (xs' @ ys')"
  unfolding replaces_def
proof (intro impI conjI allI)
  assume reg: "list_all regular (xs @ ys)"
  then have r: "list_all regular xs" "list_all regular ys" "list_all regular xs'" "list_all regular ys'"
    using xs ys by (auto simp: replaces_def)
  then show "list_all regular (xs' @ ys')" by simp
  fix e
  assume "circuit_DD n (xs @ ys) = Inr e"
  then show "circuit_DD n (xs' @ ys') = Inr e"
    using circuit_DD_append [OF n r(1,2)] circuit_DD_append [OF n r(3,4)] xs ys r(1,2)
    unfolding replaces_def by blast
qed

lemma replaces_within:
  "0 < n \<Longrightarrow> replaces n xs ys \<Longrightarrow> replaces n (us @ xs @ vs) (us @ ys @ vs)"
  by (intro replaces_append) simp_all

lemma replaces_Cons: "0 < n \<Longrightarrow> replaces n xs ys \<Longrightarrow> replaces n (a # xs) (a # ys)"
  using replaces_append [of n "[a]" "[a]" xs ys] by simp

lemma replaces_swap:
  assumes n: "0 < n" and disj: "disjoint_ops a b"
  shows "replaces n [a, b] [b, a]"
  unfolding replaces_def
proof (intro impI conjI allI)
  assume reg: "list_all regular [a, b]"
  then show "list_all regular [b, a]" by simp
  fix e
  assume e: "circuit_DD n [a, b] = Inr e"
  have r: "regular a" "regular b" using reg by simp_all
  then have "circuit_DD n ([a] @ [b]) = Inr e" using e by simp
  then obtain d f where d: "op_DD n a = Inr d" "op_DD n b = Inr f" "dd_multiply exact_numbers f d = Inr e"
    using circuit_DD_append [OF n, of "[a]" "[b]"] circuit_DD_single [OF n r(1)] circuit_DD_single [OF n r(2)] r
    by (simp del: append.simps split_paired_Ex) blast
  then have "dd_multiply exact_numbers d f = Inr e" using ops_commute [OF n r(2) d(2) r(1) d(1) disj] by simp
  then have "circuit_DD n ([b] @ [a]) = Inr e"
    using circuit_DD_append [OF n, of "[b]" "[a]"] circuit_DD_single [OF n r(1)] circuit_DD_single [OF n r(2)] r d
    by (simp del: append.simps split_paired_Ex)
  then show "circuit_DD n [b, a] = Inr e" by simp
qed

lemma replaces_reordering: "reordering xs ys \<Longrightarrow> 0 < n \<Longrightarrow> replaces n xs ys"
proof (induction rule: reordering.induct)
  case (reordering_swap xs us a b vs)
  then have "replaces n (us @ [a, b] @ vs) (us @ [b, a] @ vs)" by (intro replaces_within replaces_swap)
  then show ?case using replaces_trans [OF reordering_swap.IH] reordering_swap.prems by simp
qed simp

text \<open>
  Operations inside a set of qubits can be gathered in front of the operations outside of it.
\<close>

definition inside :: "nat set \<Rightarrow> Operation \<Rightarrow> bool" where
  "inside Q op \<longleftrightarrow> (\<forall>q. actsOn op q \<longrightarrow> q \<in> Q)"

definition outside :: "nat set \<Rightarrow> Operation \<Rightarrow> bool" where
  "outside Q op \<longleftrightarrow> (\<forall>q. actsOn op q \<longrightarrow> q \<notin> Q)"

lemma inside_outside_disjoint: "inside Q a \<Longrightarrow> outside Q b \<Longrightarrow> disjoint_ops a b"
  by (auto simp: inside_def outside_def disjoint_ops_def)

lemma reordering_Cons: "reordering xs ys \<Longrightarrow> reordering (a # xs) (a # ys)"
proof (induction rule: reordering.induct)
  case (reordering_swap xs us b c vs)
  then show ?case using reordering.reordering_swap [of "a # xs" "a # us" b c vs] by simp
qed (rule reordering_refl)

lemma reordering_sym: "reordering xs ys \<Longrightarrow> reordering ys xs"
proof (induction rule: reordering.induct)
  case (reordering_swap xs us a b vs)
  have "reordering (us @ b # a # vs) (us @ a # b # vs)"
    by (rule reordering.reordering_swap [OF reordering_refl]) (use reordering_swap disjoint_ops_sym in blast)
  then show ?case using reordering_swap reordering_trans by blast
qed (rule reordering_refl)

lemma reordering_gather:
  assumes "\<forall>op \<in> set xs. inside Q op \<or> outside Q op"
  shows "reordering xs (filter (\<lambda>op. \<not> outside Q op) xs @ filter (outside Q) xs)"
  using assms
proof (induction xs)
  case (Cons x xs)
  let ?in = "filter (\<lambda>op. \<not> outside Q op) xs" and ?out = "filter (outside Q) xs"
  have IH: "reordering (x # xs) (x # ?in @ ?out)" by (rule reordering_Cons) (use Cons in simp)
  show ?case
  proof (cases "outside Q x")
    case True
    then have "list_all (\<lambda>a. disjoint_ops a x) ?in"
      using Cons.prems inside_outside_disjoint by (auto simp: list_all_iff)
    from reordering_sym [OF reordering_move_front [OF this, of "[]" ?out]]
    have "reordering (x # ?in @ ?out) (?in @ x # ?out)" by simp
    then have "reordering (x # xs) (?in @ x # ?out)" by (rule reordering_trans [OF _ IH])
    then show ?thesis using True by simp
  qed (use IH in simp)
qed (simp add: reordering_refl)

lemma replaces_segment:
  assumes n: "0 < n" and xs: "\<forall>op \<in> set xs. inside Q op \<or> outside Q op"
    and ys: "\<forall>op \<in> set ys. inside Q op \<or> outside Q op"
    and out: "filter (outside Q) xs = filter (outside Q) ys"
    and ins: "replaces n (filter (\<lambda>op. \<not> outside Q op) xs) (filter (\<lambda>op. \<not> outside Q op) ys)"
  shows "replaces n xs ys"
proof -
  have "replaces n (filter (\<lambda>op. \<not> outside Q op) xs @ filter (outside Q) xs)
      (filter (\<lambda>op. \<not> outside Q op) ys @ filter (outside Q) ys)"
    by (rule replaces_append [OF n ins]) (simp add: out)
  then show ?thesis
    using replaces_reordering [OF reordering_gather [OF xs] n]
      replaces_reordering [OF reordering_sym [OF reordering_gather [OF ys]] n] replaces_trans by blast
qed

end
