(* ===== verification/OptSimple.thy ===== *)
theory OptSimple
  imports DDLocal IRCircuit
begin

text \<open>
  The passes of \<open>CircuitOptimizer\<close> (\<open>src/circuit_optimizer/CircuitOptimizer.cpp\<close>) that go through
  the operations from the front: removal of operations, decomposition of SWAP gates, flattening
  of compound operations, and the replacement of controlled X by controlled Z gates.  A pass
  over a vector with \<open>erase\<close> and \<open>insert\<close> is a function on lists.
\<close>

section \<open>Setters\<close>

fun map_base :: "(OpBase \<Rightarrow> OpBase) \<Rightarrow> Operation \<Rightarrow> Operation" where
  "map_base f (StandardOp b) = StandardOp (f b)"
| "map_base f (SymbolicOp s) = SymbolicOp (s\<lparr>base := f (base s)\<rparr>)"
| "map_base f (NonUnitaryOp b cs) = NonUnitaryOp (f b) cs"
| "map_base f (CompoundOp b ops cust) = CompoundOp (f b) ops cust"
| "map_base f (IfElseOp b t e cnd) = IfElseOp (f b) t e cnd"

abbreviation with_gate :: "OpType \<Rightarrow> Operation \<Rightarrow> Operation" where
  "with_gate t \<equiv> map_base (op_setGate t)"

abbreviation with_targets :: "nat list \<Rightarrow> Operation \<Rightarrow> Operation" where
  "with_targets ts \<equiv> map_base (\<lambda>b. b\<lparr>targets := ts\<rparr>)"

definition setGate :: "OpType \<Rightarrow> Operation \<Rightarrow> Operation result" where
  "setGate t op = (if isIfElseOperation op then Inl RuntimeError else Inr (with_gate t op))"

definition setTargets :: "nat list \<Rightarrow> Operation \<Rightarrow> Operation result" where
  "setTargets ts op = (if isIfElseOperation op then Inl RuntimeError else Inr (with_targets ts op))"

section \<open>removeOperation\<close>

definition op_matches :: "OpType set \<Rightarrow> nat \<Rightarrow> Operation \<Rightarrow> bool" where
  "op_matches opTypes opSize op \<longleftrightarrow> getType op \<in> opTypes \<and> (opSize = 0 \<or> getNqubits_op op = opSize)"

definition remove_op :: "OpType set \<Rightarrow> nat \<Rightarrow> Operation \<Rightarrow> Operation list" where
  "remove_op opTypes opSize op = (if op_matches opTypes opSize op then []
     else case op of
       CompoundOp b ops cust \<Rightarrow>
         (case filter (\<lambda>cop. \<not> op_matches opTypes opSize cop) ops of
            [] \<Rightarrow> [] | [cop] \<Rightarrow> [cop] | ops' \<Rightarrow> [CompoundOp b ops' cust])
     | _ \<Rightarrow> [op])"

definition removeOperation :: "OpType set \<Rightarrow> nat \<Rightarrow> Operation list \<Rightarrow> Operation list" where
  "removeOperation opTypes opSize ops = concat (map (remove_op opTypes opSize) ops)"

definition removeIdentities :: "Operation list \<Rightarrow> Operation list" where
  "removeIdentities ops = removeOperation {opI} 0 ops"

section \<open>decomposeSWAP\<close>

definition std_op :: "Controls \<Rightarrow> nat list \<Rightarrow> OpType \<Rightarrow> Operation result" where
  "std_op cs ts t = and_then (StandardOperation_controlled cs ts t []) (\<lambda>b. Inr (StandardOp b))"

text \<open>Each \<open>insert\<close> goes in front of the one before.\<close>

definition decomposed_swap :: "bool \<Rightarrow> nat list \<Rightarrow> Operation list result" where
  "decomposed_swap isDirectedArchitecture ts =
     and_then (deref_res ts 0) (\<lambda>t0. and_then (deref_res ts 1) (\<lambda>t1.
     and_then (std_op [Control t0 Pos] [t1] opX) (\<lambda>cx.
     and_then (if isDirectedArchitecture
       then and_then (std_op [] [t0] opH) (\<lambda>h0. and_then (std_op [] [t1] opH) (\<lambda>h1. Inr [h1, h0, cx, h1, h0]))
       else and_then (std_op [Control t1 Pos] [t0] opX) (\<lambda>xc. Inr [xc])) (\<lambda>middle.
     Inr ([cx] @ middle @ [cx])))))"

definition decompose_op :: "bool \<Rightarrow> Operation \<Rightarrow> Operation list result" where
  "decompose_op directed op = (if isStandardOperation op \<and> getType op = opSWAP
     then decomposed_swap directed (getTargets op) else Inr [op])"

definition decomposeSWAP :: "bool \<Rightarrow> Operation list \<Rightarrow> Operation list result" where
  "decomposeSWAP directed ops = and_then (map_res (\<lambda>op. case op of
       CompoundOp b cops cust \<Rightarrow> and_then (map_res (decompose_op directed) cops)
         (\<lambda>cs. Inr [CompoundOp b (concat cs) cust])
     | _ \<Rightarrow> decompose_op directed op) ops) (\<lambda>os. Inr (concat os))"

section \<open>flattenOperations\<close>

text \<open>
  The operations of a compound are moved in front of it and the iterator goes back to the first
  of them, so they are flattened in turn.
\<close>

fun flatten_op :: "bool \<Rightarrow> Operation \<Rightarrow> Operation list" where
  "flatten_op customGatesOnly (CompoundOp b ops cust) =
     (if \<not> customGatesOnly \<or> cust then concat (map (flatten_op customGatesOnly) ops)
      else [CompoundOp b ops cust])"
| "flatten_op customGatesOnly op = [op]"

definition flattenOperations :: "bool \<Rightarrow> Operation list \<Rightarrow> Operation list" where
  "flattenOperations customGatesOnly ops = concat (map (flatten_op customGatesOnly) ops)"

section \<open>replaceMCXWithMCZ\<close>

definition mcx_replacement :: "Operation \<Rightarrow> Operation list result" where
  "mcx_replacement op = (case getTargets op of
     [target] \<Rightarrow> and_then (std_op [] [target] opH) (\<lambda>h.
       and_then (std_op (getControls op) [target] opZ) (\<lambda>cz. Inr [h, cz, h]))
   | _ \<Rightarrow> Inl Undefined)"

fun replaceMCX_op :: "Operation \<Rightarrow> Operation list result" where
  "replaceMCX_op (CompoundOp b ops cust) =
     (if optype b = opX \<and> controls b \<noteq> [] then mcx_replacement (CompoundOp b ops cust)
      else and_then (map_res replaceMCX_op ops) (\<lambda>os. Inr [CompoundOp b (concat os) cust]))"
| "replaceMCX_op op =
     (if getType op = opX \<and> getControls op \<noteq> [] then mcx_replacement op else Inr [op])"

definition replaceMCXWithMCZ :: "Operation list \<Rightarrow> Operation list result" where
  "replaceMCXWithMCZ ops = and_then (map_res replaceMCX_op ops) (\<lambda>os. Inr (concat os))"

end
