(* ===== verification/OptCancel.thy ===== *)
theory OptCancel
  imports OptSimple
begin

text \<open>
  The passes \<open>swapReconstruction\<close> and \<open>cancelCNOTs\<close> of \<open>CircuitOptimizer\<close>
  (\<open>src/circuit_optimizer/CircuitOptimizer.cpp\<close>).  The graph of a circuit has for each qubit the
  queue of the operations on it; a pointer to an operation is its index in the circuit.  An
  operation that is cancelled becomes an identity gate, and the identities are removed at the end.
\<close>

section \<open>The graph of a circuit\<close>

type_synonym dag_state = "Operation list \<times> nat list list"

definition addToDag :: "Operation list \<Rightarrow> nat \<Rightarrow> nat list list \<Rightarrow> nat list list result" where
  "addToDag ops i dag = fold_res (push_use (length dag) i) (getUsedQubits (ops ! i)) dag"

definition keep_op :: "nat \<Rightarrow> dag_state \<Rightarrow> dag_state result" where
  "keep_op i st = and_then (addToDag (fst st) i (snd st)) (\<lambda>dag. Inr (fst st, dag))"

definition pop_back :: "nat \<Rightarrow> nat list list \<Rightarrow> nat list list" where
  "pop_back q dag = dag[q := butlast (dag ! q)]"

definition constructDAG :: "QuantumComputation \<Rightarrow> nat list list result" where
  "constructDAG qc = fold_res (addToDag (qc_ops qc)) [0..<length (qc_ops qc)]
     (replicate (getHighestPhysicalQubitIndex qc + 1) [])"

definition is_cnot :: "Operation \<Rightarrow> bool" where
  "is_cnot op \<longleftrightarrow> getType op = opX \<and> length (getControls op) = 1 \<and> ctype (hd (getControls op)) = Pos"

definition is_swap :: "Operation \<Rightarrow> bool" where
  "is_swap op \<longleftrightarrow> getType op = opSWAP \<and> getControls op = []"

abbreviation first_control :: "Operation \<Rightarrow> nat" where
  "first_control op \<equiv> qubit (hd (getControls op))"

definition make_identity :: "Operation \<Rightarrow> Operation result" where
  "make_identity op = and_then (setGate opI op) clearControls"

definition sorted_pair :: "nat \<Rightarrow> nat \<Rightarrow> nat list" where
  "sorted_pair a b = (if b > a then [a, b] else [b, a])"

text \<open>Two operations cancel: both become identities and the earlier one leaves its queues.\<close>

definition eliminate :: "nat \<Rightarrow> nat \<Rightarrow> nat \<Rightarrow> nat \<Rightarrow> dag_state \<Rightarrow> dag_state result" where
  "eliminate j i q0 q1 st = (case st of (ops, dag) \<Rightarrow>
     and_then (make_identity (ops ! j)) (\<lambda>op0. and_then (make_identity (ops ! i)) (\<lambda>op.
       Inr (ops[j := op0, i := op], pop_back q1 (pop_back q0 dag)))))"

section \<open>swapReconstruction\<close>

text \<open>CNOT gates with exchanged qubits: the first becomes a SWAP gate, the second is turned around.\<close>

definition reconstruct_swap :: "nat \<Rightarrow> nat \<Rightarrow> nat \<Rightarrow> nat \<Rightarrow> dag_state \<Rightarrow> dag_state result" where
  "reconstruct_swap c i control target st = (case st of (ops, dag) \<Rightarrow>
     let dag = pop_back target (pop_back control dag) in
     and_then (setGate opSWAP (ops ! c)) (\<lambda>opC. and_then (setTargets (sorted_pair control target) opC) (\<lambda>opC.
     and_then (clearControls opC) (\<lambda>opC.
     let ops = ops[c := opC] in
     and_then (addToDag ops c dag) (\<lambda>dag.
     and_then (setTargets [control] (ops ! i)) (\<lambda>op. and_then (setControls [Control target Pos] op) (\<lambda>op.
     keep_op i (ops[i := op], dag))))))))"

definition swapReconstruction_step :: "nat \<Rightarrow> dag_state \<Rightarrow> dag_state result" where
  "swapReconstruction_step i st = (case st of (ops, dag) \<Rightarrow>
     let op = ops ! i in
     if \<not> isStandardOperation op \<or> \<not> is_cnot op then keep_op i st
     else let control = first_control op in
     and_then (at_res (getTargets op) 0) (\<lambda>target.
     and_then (at_res dag control) (\<lambda>dc. if dc = [] then keep_op i st else
     and_then (at_res dag target) (\<lambda>dt. if dt = [] then keep_op i st else
     let opC = ops ! last dc; opT = ops ! last dt in
     if \<not> is_cnot opC \<or> \<not> is_cnot opT then keep_op i st else
     and_then (at_res (getTargets opC) 0) (\<lambda>opCtarget. and_then (at_res (getTargets opT) 0) (\<lambda>opTtarget.
     if first_control opC \<noteq> first_control opT \<or> opCtarget \<noteq> opTtarget then keep_op i st
     else if control = first_control opC \<and> target = opCtarget then eliminate (last dc) i control target st
     else if control = opCtarget \<and> target = first_control opC then reconstruct_swap (last dc) i control target st
     else keep_op i st))))))"

definition dag_pass :: "(nat \<Rightarrow> dag_state \<Rightarrow> dag_state result) \<Rightarrow> QuantumComputation \<Rightarrow> QuantumComputation result" where
  "dag_pass step qc = and_then (fold_res step [0..<length (qc_ops qc)]
       (qc_ops qc, replicate (getHighestPhysicalQubitIndex qc + 1) []))
     (\<lambda>(ops, dag). Inr (qc\<lparr>qc_ops := removeIdentities ops\<rparr>))"

definition swapReconstruction :: "QuantumComputation \<Rightarrow> QuantumComputation result" where
  "swapReconstruction qc = dag_pass swapReconstruction_step qc"

section \<open>cancelCNOTs\<close>

text \<open>The second target of a SWAP gate or the control of a CNOT gate.\<close>

definition other_qubit :: "Operation \<Rightarrow> nat result" where
  "other_qubit op = (if is_swap op then at_res (getTargets op) 1 else Inr (first_control op))"

text \<open>Three CNOT gates with alternating directions are a SWAP gate.\<close>

definition three_cnots :: "nat \<Rightarrow> nat \<Rightarrow> nat \<Rightarrow> nat \<Rightarrow> nat \<Rightarrow> nat \<Rightarrow> dag_state \<Rightarrow> dag_state result" where
  "three_cnots j i q0 q1 prevQ0 prevQ1 st = (case st of (ops, dag) \<Rightarrow>
     let d0 = dag ! q0; d1 = dag ! q1 in
     if length d0 < 2 \<or> length d1 < 2 then keep_op i st
     else let k = last (butlast d0) in
     if k \<noteq> last (butlast d1) then keep_op i st
     else if \<not> is_cnot (ops ! k) then keep_op i st
     else and_then (at_res (getTargets (ops ! k)) 0) (\<lambda>prevPrevQ0.
     if q0 = prevPrevQ0 \<and> q1 = first_control (ops ! k) then
       and_then (setGate opSWAP (ops ! k)) (\<lambda>opK. and_then (clearControls opK) (\<lambda>opK.
       and_then (setTargets (sorted_pair prevQ0 prevQ1) opK) (\<lambda>opK.
       and_then (make_identity (ops ! j)) (\<lambda>op0. and_then (make_identity (ops ! i)) (\<lambda>op.
         Inr (ops[k := opK, j := op0, i := op], pop_back q1 (pop_back q0 dag)))))))
     else keep_op i st))"

definition cnot_after_swap :: "nat \<Rightarrow> nat \<Rightarrow> nat \<Rightarrow> nat \<Rightarrow> dag_state \<Rightarrow> dag_state result" where
  "cnot_after_swap j i q0 q1 st = (case st of (ops, dag) \<Rightarrow>
     and_then (setGate opX (ops ! j)) (\<lambda>op0. and_then (setTargets [q0] op0) (\<lambda>op0.
     and_then (setControls [Control q1 Pos] op0) (\<lambda>op0.
     and_then (setTargets [q1] (ops ! i)) (\<lambda>op. and_then (setControls [Control q0 Pos] op) (\<lambda>op.
     keep_op i (ops[j := op0, i := op], dag)))))))"

definition swap_after_cnot :: "nat \<Rightarrow> nat \<Rightarrow> nat \<Rightarrow> nat \<Rightarrow> dag_state \<Rightarrow> dag_state result" where
  "swap_after_cnot j i prevQ0 prevQ1 st = (case st of (ops, dag) \<Rightarrow>
     and_then (setTargets [prevQ1] (ops ! j)) (\<lambda>op0. and_then (setControls [Control prevQ0 Pos] op0) (\<lambda>op0.
     and_then (setGate opX (ops ! i)) (\<lambda>op. and_then (setTargets [prevQ0] op) (\<lambda>op.
     and_then (setControls [Control prevQ1 Pos] op) (\<lambda>op.
     keep_op i (ops[j := op0, i := op], dag)))))))"

definition cancelCNOTs_step :: "nat \<Rightarrow> dag_state \<Rightarrow> dag_state result" where
  "cancelCNOTs_step i st = (case st of (ops, dag) \<Rightarrow>
     let op = ops ! i in
     if \<not> isStandardOperation op \<or> \<not> is_cnot op \<and> \<not> is_swap op then keep_op i st
     else and_then (at_res (getTargets op) 0) (\<lambda>q0. and_then (other_qubit op) (\<lambda>q1.
     and_then (at_res dag q0) (\<lambda>d0. if d0 = [] then keep_op i st else
     and_then (at_res dag q1) (\<lambda>d1. if d1 = [] then keep_op i st else
     let j = last d0; op0 = ops ! j in
     if j \<noteq> last d1 then keep_op i st
     else if \<not> is_cnot op0 \<and> \<not> is_swap op0 then keep_op i st
     else and_then (at_res (getTargets op0) 0) (\<lambda>prevQ0. and_then (other_qubit op0) (\<lambda>prevQ1.
     if is_cnot op \<and> is_cnot op0 then
       if q0 = prevQ0 \<and> q1 = prevQ1 then eliminate j i q0 q1 st
       else three_cnots j i q0 q1 prevQ0 prevQ1 st
     else if is_swap op \<and> is_swap op0 then
       if {q0, q1} = {prevQ0, prevQ1} then eliminate j i q0 q1 st else keep_op i st
     else if is_cnot op then cnot_after_swap j i q0 q1 st
     else swap_after_cnot j i prevQ0 prevQ1 st)))))))"

definition cancelCNOTs :: "QuantumComputation \<Rightarrow> QuantumComputation result" where
  "cancelCNOTs qc = dag_pass cancelCNOTs_step qc"

end
