(* ===== verification/DDRules.thy ===== *)
theory DDRules
  imports DDLocal
begin

text \<open>
  Matrices of short lists of operations, to justify the local replacements of the circuit
  optimizer: permutation matrices for CNOT and SWAP gates, and gates that apply one of two
  matrices depending on their controls.
\<close>

section \<open>The matrix of a list\<close>

definition ops_matrix :: "nat \<Rightarrow> Operation list \<Rightarrow> ((nat \<Rightarrow> bool) \<Rightarrow> (nat \<Rightarrow> bool) \<Rightarrow> complex) \<Rightarrow> bool" where
  "ops_matrix n ops A \<longleftrightarrow> list_all regular ops \<and> (\<exists>e. circuit_DD n ops = Inr e \<and> den n e = A)"

lemma ops_matrix_Nil: "ops_matrix n [] (den n mone)"
  by (simp add: ops_matrix_def circuit_DD_def)

lemma ops_matrix_single: "0 < n \<Longrightarrow> regular op \<Longrightarrow> op_DD n op = Inr e \<Longrightarrow> ops_matrix n [op] (den n e)"
  by (auto simp: ops_matrix_def circuit_DD_single)

lemma ops_matrix_append:
  assumes n: "0 < n" and xs: "ops_matrix n xs A" and ys: "ops_matrix n ys B"
  shows "ops_matrix n (xs @ ys) (mat_mult n B A)"
proof -
  from xs ys obtain d e where d: "circuit_DD n xs = Inr d" "den n d = A" and e: "circuit_DD n ys = Inr e" "den n e = B"
    and reg: "list_all regular xs" "list_all regular ys" by (auto simp: ops_matrix_def)
  have "edge_canonical n d" "edge_canonical n e"
    using circuit_DD_canonical [OF n reg(1) d(1)] circuit_DD_canonical [OF n reg(2) e(1)] by blast+
  from dd_multiply_ok [OF exact_exact_numbers n this(2,1)]
  obtain f where f: "dd_multiply exact_numbers e d = Inr f" "\<forall>r c. den n f r c = mat_mult n B A r c"
    using d(2) e(2) by blast
  then have "circuit_DD n (xs @ ys) = Inr f" using circuit_DD_append [OF n reg] d(1) e(1) by blast
  moreover have "den n f = mat_mult n B A" using f(2) by (simp add: fun_eq_iff)
  ultimately show ?thesis using reg by (auto simp: ops_matrix_def)
qed

lemma ops_matrix_Cons:
  "0 < n \<Longrightarrow> ops_matrix n [x] A \<Longrightarrow> ops_matrix n xs B \<Longrightarrow> ops_matrix n (x # xs) (mat_mult n B A)"
  using ops_matrix_append [of n "[x]" A xs B] by simp

lemma replaces_matrix:
  assumes n: "0 < n" and reg: "list_all regular xs \<Longrightarrow> list_all regular ys"
    and M: "\<And>A. ops_matrix n xs A \<Longrightarrow> ops_matrix n ys A"
  shows "replaces n xs ys"
  unfolding replaces_def
proof (intro impI conjI allI)
  assume xs: "list_all regular xs"
  then show "list_all regular ys" by (rule reg)
  fix e
  assume e: "circuit_DD n xs = Inr e"
  then have "ops_matrix n ys (den n e)" using M xs by (simp add: ops_matrix_def)
  then obtain f where f: "circuit_DD n ys = Inr f" "den n f = den n e" "list_all regular ys"
    by (auto simp: ops_matrix_def)
  have "f = e"
    by (rule canonical_unique [OF circuit_DD_canonical [OF n f(3,1)] circuit_DD_canonical [OF n xs e]]) (simp add: f(2))
  with f(1) show "circuit_DD n ys = Inr e" by simp
qed

section \<open>Gates\<close>

definition gate_op :: "Controls \<Rightarrow> nat list \<Rightarrow> fp list \<Rightarrow> OpType \<Rightarrow> string \<Rightarrow> Operation" where
  "gate_op cs ts ps t nm = StandardOp \<lparr>controls = cs, targets = ts, parameter = ps, optype = t, opname = nm\<rparr>"

abbreviation plain_gate :: "OpType \<Rightarrow> bool" where
  "plain_gate t \<equiv> t \<noteq> opBarrier \<and> t \<noteq> opGPhase"

text \<open>An operation that is executed as a standard gate.\<close>

definition executed_gate :: "Operation \<Rightarrow> bool" where
  "executed_gate op \<longleftrightarrow> isStandardOperation op \<and> plain_gate (getType op)"

lemma op_DD_gate:
  "executed_gate op \<Longrightarrow> op_DD n op = getStandardOperationDD_parts exact_numbers n (getType op)
    (parameter (getBase op)) (getControls op) (getTargets op)"
  by (cases op) (auto simp: executed_gate_def permuted_DD_def perm_apply_controls_def getStandardOperationDD_def)

lemma executed_regular: "executed_gate op \<Longrightarrow> regular op \<longleftrightarrow> strictly_sorted (map qubit (getControls op))"
  by (cases op) (simp_all add: executed_gate_def)

lemma gate_matrixD:
  assumes n: "0 < n" and op: "executed_gate op" and A: "ops_matrix n [op] A"
  shows "\<exists>M. gate_entries (getType op) (parameter (getBase op)) = Inr (length (getTargets op), M) \<and>
    gate_fits n (getControls op) (getTargets op) \<and> A = gate_matrix n M (getControls op) (getTargets op)"
proof -
  from A have reg: "regular op" and "\<exists>e. circuit_DD n [op] = Inr e \<and> den n e = A" by (auto simp: ops_matrix_def)
  then obtain e where e: "op_DD n op = Inr e" "den n e = A" using circuit_DD_single [OF n reg] by auto
  then show ?thesis using parts_ok [OF exact_exact_numbers, of "getControls op"] reg executed_regular [OF op] op_DD_gate [OF op]
    by (metis ext)
qed

lemma gate_matrixI:
  assumes n: "0 < n" and op: "executed_gate op" and cs: "strictly_sorted (map qubit (getControls op))"
    and M: "gate_entries (getType op) (parameter (getBase op)) = Inr (length (getTargets op), M)"
    and fits: "gate_fits n (getControls op) (getTargets op)"
  shows "ops_matrix n [op] (gate_matrix n M (getControls op) (getTargets op))"
proof -
  obtain e where e: "op_DD n op = Inr e"
    using parts_total [OF exact_exact_numbers cs M fits n] op_DD_gate [OF op] by auto
  have reg: "regular op" using cs executed_regular [OF op] by simp
  have "ops_matrix n [op] (den n e)" by (rule ops_matrix_single [OF n reg e])
  with gate_matrixD [OF n op this] M show ?thesis by auto
qed

section \<open>Gates with two branches\<close>

definition gate2 :: "nat \<Rightarrow> (nat \<Rightarrow> nat \<Rightarrow> complex) \<Rightarrow> (nat \<Rightarrow> nat \<Rightarrow> complex) \<Rightarrow> Controls \<Rightarrow> nat list \<Rightarrow>
    (nat \<Rightarrow> bool) \<Rightarrow> (nat \<Rightarrow> bool) \<Rightarrow> complex" where
  "gate2 n A B cs ts x y = (if \<not> same_rest n ts x y then 0
     else (if active cs x then A else B) (target_index ts x) (target_index ts y))"

abbreviation mat_id :: "nat \<Rightarrow> nat \<Rightarrow> complex" where "mat_id \<equiv> \<lambda>r s. of_bool (r = s)"

lemma gate_matrix_gate2: "gate_matrix n M cs ts = gate2 n M mat_id cs ts"
  by (simp add: fun_eq_iff gate2_def gate_matrix_index)

lemma gate_matrix_uncontrolled: "gate_matrix n M [] ts = gate2 n M M cs ts"
  by (simp add: fun_eq_iff gate2_def gate_matrix_index active_def)

lemma gate2_cong:
  "(\<And>r s. r < 2 ^ length ts \<Longrightarrow> s < 2 ^ length ts \<Longrightarrow> A r s = A' r s \<and> B r s = B' r s) \<Longrightarrow>
    gate2 n A B cs ts = gate2 n A' B' cs ts"
  using target_index_less by (simp add: fun_eq_iff gate2_def)

lemma gate2_mult:
  assumes ok: "gate_fits n cs ts"
  shows "mat_mult n (gate2 n A B cs ts) (gate2 n A' B' cs ts) =
    gate2 n (\<lambda>r s. \<Sum>k<2 ^ length ts. A r k * A' k s) (\<lambda>r s. \<Sum>k<2 ^ length ts. B r k * B' k s) cs ts"
proof (intro ext)
  fix x y
  let ?f = "\<lambda>z. gate2 n A B cs ts x z * gate2 n A' B' cs ts z y"
  let ?A = "if active cs x then A else B" and ?B = "if active cs x then A' else B'"
  have dist: "distinct ts" using ok by (simp add: gate_fits_def)
  have "bit_sum n ?f x = target_sum ts ?f x"
    by (rule bit_sum_target_sum [OF dist])
      (use ok in \<open>auto simp: gate_fits_def gate2_def same_rest_def list_all_iff\<close>)
  also have "\<dots> = target_sum ts (\<lambda>z. of_bool (same_rest n ts x y) *
      (?A (target_index ts x) (target_index ts z) * ?B (target_index ts z) (target_index ts y))) x"
  proof (rule target_sum_cong)
    fix z
    assume z: "\<forall>q. q \<notin> set ts \<longrightarrow> z q = x q"
    then have xz: "same_rest n ts x z" and zy: "same_rest n ts z y \<longleftrightarrow> same_rest n ts x y"
      by (auto simp: same_rest_def list_all_iff)
    show "?f z = of_bool (same_rest n ts x y) *
        (?A (target_index ts x) (target_index ts z) * ?B (target_index ts z) (target_index ts y))"
      using xz zy same_rest_active [OF ok xz] by (simp add: gate2_def)
  qed
  also have "\<dots> = of_bool (same_rest n ts x y) * (\<Sum>k<2 ^ length ts. ?A (target_index ts x) k * ?B k (target_index ts y))"
    using target_sum_index [OF dist, of "\<lambda>k. of_bool (same_rest n ts x y) * (?A (target_index ts x) k * ?B k (target_index ts y))" x]
    by (simp add: sum_distrib_left)
  finally show "mat_mult n (gate2 n A B cs ts) (gate2 n A' B' cs ts) x y =
    gate2 n (\<lambda>r s. \<Sum>k<2 ^ length ts. A r k * A' k s) (\<lambda>r s. \<Sum>k<2 ^ length ts. B r k * B' k s) cs ts x y"
    by (simp add: mat_mult_def gate2_def)
qed

lemma gate2_identity: "gate_fits n cs ts \<Longrightarrow> gate2 n mat_id mat_id cs ts = den n mone"
  using gate_matrix_identity [of n cs ts] by (simp add: fun_eq_iff flip: gate_matrix_gate2)

section \<open>Permutation matrices\<close>

definition perm_mat :: "nat \<Rightarrow> ((nat \<Rightarrow> bool) \<Rightarrow> nat \<Rightarrow> bool) \<Rightarrow> (nat \<Rightarrow> bool) \<Rightarrow> (nat \<Rightarrow> bool) \<Rightarrow> complex" where
  "perm_mat n f x y = of_bool (\<forall>q < n. x q = f y q)"

definition bits_below :: "nat \<Rightarrow> ((nat \<Rightarrow> bool) \<Rightarrow> nat \<Rightarrow> bool) \<Rightarrow> bool" where
  "bits_below n f \<longleftrightarrow> (\<forall>x y. (\<forall>q < n. x q = y q) \<longrightarrow> (\<forall>q < n. f x q = f y q))"

lemma bits_belowD: "bits_below n f \<Longrightarrow> \<forall>q < n. x q = y q \<Longrightarrow> q < n \<Longrightarrow> f x q = f y q"
  unfolding bits_below_def by blast

lemma bits_below_comp: "bits_below n f \<Longrightarrow> bits_below n g \<Longrightarrow> bits_below n (\<lambda>y. f (g y))"
  unfolding bits_below_def by blast

lemma perm_mat_mult:
  assumes f: "bits_below n f"
  shows "mat_mult n (perm_mat n f) (perm_mat n g) = perm_mat n (\<lambda>y. f (g y))"
proof (intro ext)
  fix x y
  let ?z = "\<lambda>q. if q < n then g y q else x q"
  have "mat_mult n (perm_mat n f) (perm_mat n g) x y = perm_mat n f x ?z * perm_mat n g ?z y"
    unfolding mat_mult_def
  proof (rule bit_sum_single)
    fix z
    assume z: "\<forall>q \<ge> n. z q = x q" "z \<noteq> ?z"
    have "z = ?z" if "\<forall>q < n. z q = g y q" using that z(1) by (auto simp: fun_eq_iff)
    with z(2) show "perm_mat n f x z * perm_mat n g z y = 0" by (auto simp: perm_mat_def)
  qed simp
  moreover have "f ?z q = f (g y) q" if "q < n" for q
    by (rule bits_belowD [OF f _ that]) simp
  ultimately show "mat_mult n (perm_mat n f) (perm_mat n g) x y = perm_mat n (\<lambda>y. f (g y)) x y"
    by (simp add: perm_mat_def)
qed

lemma den_mone_perm: "den n mone = perm_mat n (\<lambda>y. y)"
  by (auto simp: fun_eq_iff mone_def den_terminal same_above_def perm_mat_def)

definition cx_map :: "nat \<Rightarrow> nat \<Rightarrow> (nat \<Rightarrow> bool) \<Rightarrow> nat \<Rightarrow> bool" where
  "cx_map c t y = y(t := (y t \<noteq> y c))"

definition swap_map :: "nat \<Rightarrow> nat \<Rightarrow> (nat \<Rightarrow> bool) \<Rightarrow> nat \<Rightarrow> bool" where
  "swap_map a b y = y(a := y b, b := y a)"

lemma bits_below_cx: "c < n \<Longrightarrow> t < n \<Longrightarrow> bits_below n (cx_map c t)"
  by (simp add: bits_below_def cx_map_def)

lemma bits_below_swap: "a < n \<Longrightarrow> b < n \<Longrightarrow> bits_below n (swap_map a b)"
  by (simp add: bits_below_def swap_map_def)

lemma gate_matrix_cx:
  assumes "c < n" "t < n" "c \<noteq> t"
  shows "gate_matrix n (\<lambda>r s. [0, 1, 1, 0] ! (2 * r + s)) [Control c Pos] [t] = perm_mat n (cx_map c t)"
proof (intro ext)
  fix x y
  have "gate_matrix n (\<lambda>r s. [0, 1, 1, 0 :: complex] ! (2 * r + s)) [Control c Pos] [t] x y =
    of_bool ((\<forall>q < n. q \<noteq> t \<longrightarrow> x q = y q) \<and> x t = (y t \<noteq> x c))"
    by (auto simp: gate_matrix_def same_rest_def active_def target_index_def list_all_iff)
  also have "\<dots> = perm_mat n (cx_map c t) x y"
    using assms by (auto simp: perm_mat_def cx_map_def)
  finally show "gate_matrix n (\<lambda>r s. [0, 1, 1, 0 :: complex] ! (2 * r + s)) [Control c Pos] [t] x y =
    perm_mat n (cx_map c t) x y" .
qed

lemma gate_matrix_swap_gate:
  assumes "a < n" "b < n" "a \<noteq> b"
  shows "gate_matrix n (\<lambda>r s. [[1, 0, 0, 0], [0, 0, 1, 0], [0, 1, 0, 0], [0, 0, 0, 1]] ! r ! s) [] [a, b] =
    perm_mat n (swap_map a b)"
proof (intro ext)
  fix x y
  have "gate_matrix n (\<lambda>r s. [[1, 0, 0, 0], [0, 0, 1, 0], [0, 1, 0, 0], [0, 0, 0, 1 :: complex]] ! r ! s) [] [a, b] x y =
    of_bool ((\<forall>q < n. q \<noteq> a \<longrightarrow> q \<noteq> b \<longrightarrow> x q = y q) \<and> x a = y b \<and> x b = y a)"
    by (cases "x a"; cases "x b"; cases "y a"; cases "y b")
      (auto simp: gate_matrix_def same_rest_def active_def target_index_def list_all_iff numeral_2_eq_2 numeral_3_eq_3)
  also have "\<dots> = perm_mat n (swap_map a b) x y"
    using assms by (auto simp: perm_mat_def swap_map_def)
  finally show "gate_matrix n (\<lambda>r s. [[1, 0, 0, 0], [0, 0, 1, 0], [0, 1, 0, 0], [0, 0, 0, 1 :: complex]] ! r ! s) [] [a, b] x y =
    perm_mat n (swap_map a b) x y" .
qed

section \<open>CNOT and SWAP operations\<close>

lemma executed_types [simp]:
  "executed_gate op \<longleftrightarrow> isStandardOperation op" if "getType op = opX \<or> getType op = opSWAP"
  using that by (auto simp: executed_gate_def)

lemma cnot_matrixD:
  assumes n: "0 < n" and op: "isStandardOperation op" "getType op = opX" "getControls op = [Control c Pos]"
    and A: "ops_matrix n [op] A"
  shows "\<exists>t. getTargets op = [t] \<and> c < n \<and> t < n \<and> c \<noteq> t \<and> A = perm_mat n (cx_map c t)"
proof -
  have "executed_gate op" using op by (simp add: executed_gate_def)
  from gate_matrixD [OF n this A] op(2,3) obtain M where M: "gate_entries opX (parameter (getBase op)) = Inr (length (getTargets op), M)"
    "gate_fits n [Control c Pos] (getTargets op)" "A = gate_matrix n M [Control c Pos] (getTargets op)" by auto
  then have "length (getTargets op) = 1" "M = (\<lambda>r s. [0, 1, 1, 0] ! (2 * r + s))"
    by (simp_all add: gate_entries_def isSingleQubitGate_def opToSingleQubitGateMatrix_def)
  then obtain t where "getTargets op = [t]" by (auto simp: length_Suc_conv)
  with M gate_matrix_cx [of c n t] \<open>M = _\<close> show ?thesis by (auto simp: gate_fits_def)
qed

lemma cnot_matrixI:
  assumes n: "0 < n" and op: "isStandardOperation op" "getType op = opX" "getControls op = [Control c Pos]" "getTargets op = [t]"
    and ct: "c < n" "t < n" "c \<noteq> t"
  shows "ops_matrix n [op] (perm_mat n (cx_map c t))"
proof -
  have "executed_gate op" using op by (simp add: executed_gate_def)
  moreover have "gate_entries (getType op) (parameter (getBase op)) =
      Inr (length (getTargets op), \<lambda>r s. [0, 1, 1, 0] ! (2 * r + s))"
    using op by (simp add: gate_entries_def isSingleQubitGate_def opToSingleQubitGateMatrix_def)
  ultimately show ?thesis
    using gate_matrixI [OF n, of op] op ct gate_matrix_cx [OF ct] by (simp add: gate_fits_def)
qed

lemma swap_matrixD:
  assumes n: "0 < n" and op: "isStandardOperation op" "getType op = opSWAP" "getControls op = []"
    and A: "ops_matrix n [op] A"
  shows "\<exists>a b. getTargets op = [a, b] \<and> a < n \<and> b < n \<and> a \<noteq> b \<and> A = perm_mat n (swap_map a b)"
proof -
  have "executed_gate op" using op by (simp add: executed_gate_def)
  from gate_matrixD [OF n this A] op(2,3) obtain M where M: "gate_entries opSWAP (parameter (getBase op)) = Inr (length (getTargets op), M)"
    "gate_fits n [] (getTargets op)" "A = gate_matrix n M [] (getTargets op)" by auto
  then have "2 = length (getTargets op)" "M = (\<lambda>r s. [[1, 0, 0, 0], [0, 0, 1, 0], [0, 1, 0, 0], [0, 0, 0, 1]] ! r ! s)"
    by (simp_all add: gate_entries_def isSingleQubitGate_def isTwoQubitGate_def opToTwoQubitGateMatrix_def)
  then obtain a b where ab: "getTargets op = [a, b]" by (metis list_lengths(2))
  then have lt: "a < n" "b < n" "a \<noteq> b" using M(2) by (simp_all add: gate_fits_def)
  have "A = perm_mat n (swap_map a b)" unfolding M(3) ab \<open>M = _\<close> by (rule gate_matrix_swap_gate [OF lt])
  with ab lt show ?thesis by blast
qed

lemma swap_matrixI:
  assumes n: "0 < n" and op: "isStandardOperation op" "getType op = opSWAP" "getControls op = []" "getTargets op = [a, b]"
    and ab: "a < n" "b < n" "a \<noteq> b"
  shows "ops_matrix n [op] (perm_mat n (swap_map a b))"
proof -
  have "executed_gate op" using op by (simp add: executed_gate_def)
  moreover have "gate_entries (getType op) (parameter (getBase op)) =
      Inr (length (getTargets op), \<lambda>r s. [[1, 0, 0, 0], [0, 0, 1, 0], [0, 1, 0, 0], [0, 0, 0, 1]] ! r ! s)"
    using op by (simp add: gate_entries_def isSingleQubitGate_def isTwoQubitGate_def opToTwoQubitGateMatrix_def)
  ultimately show ?thesis
    using gate_matrixI [OF n, of op] op ab gate_matrix_swap_gate [OF ab] by (simp add: gate_fits_def)
qed

end
