(* ===== verification/OptSimpleSound.thy ===== *)
theory OptSimpleSound
  imports OptSimple DDRules
begin

text \<open>
  The front-to-back passes keep the decision diagram of a circuit: whenever the circuit has a
  diagram, the transformed circuit has the same one.
\<close>

section \<open>Compound operations\<close>

lemma replaces_map:
  assumes n: "0 < n" and each: "\<And>op. op \<in> set ops \<Longrightarrow> replaces n [op] (f op)"
  shows "replaces n ops (concat (map f ops))"
  using each
proof (induction ops)
  case (Cons op ops)
  then have "replaces n ([op] @ ops) (f op @ concat (map f ops))"
    by (intro replaces_append [OF n]) simp_all
  then show ?case by simp
qed simp

lemma replaces_map_res:
  assumes n: "0 < n" and fs: "map_res f ops = Inr oss"
    and each: "\<And>op os. op \<in> set ops \<Longrightarrow> f op = Inr os \<Longrightarrow> replaces n [op] os"
  shows "replaces n ops (concat oss)"
  using fs each
proof (induction ops arbitrary: oss)
  case (Cons op ops)
  from Cons.prems(1) obtain os rest where os: "f op = Inr os" "map_res f ops = Inr rest" "oss = os # rest"
    by (auto simp: and_then_eq_Inr)
  then have "replaces n ([op] @ ops) (os @ concat rest)"
    by (intro replaces_append [OF n] Cons) (use Cons.prems(2) in auto)
  then show ?case using os by simp
qed simp

lemma replaces_compound:
  assumes n: "0 < n" and ops: "replaces n ops ops'"
  shows "replaces n [CompoundOp b ops cust] [CompoundOp b ops' cust']"
  unfolding replaces_def
proof (intro impI conjI allI)
  assume reg: "list_all regular [CompoundOp b ops cust]"
  then show reg': "list_all regular [CompoundOp b ops' cust']" using ops by (simp add: replaces_def)
  fix e
  assume "circuit_DD n [CompoundOp b ops cust] = Inr e"
  then show "circuit_DD n [CompoundOp b ops' cust'] = Inr e"
    using reg reg' ops circuit_DD_single [OF n, of "CompoundOp b ops cust" e] circuit_DD_single [OF n, of "CompoundOp b ops' cust'" e]
      circuit_DD_compound [of b n] by (simp add: replaces_def del: getDD.simps split_paired_All)
qed

lemma replaces_flat:
  assumes n: "0 < n"
  shows "replaces n [CompoundOp b ops cust] ops"
  unfolding replaces_def
proof (intro impI conjI allI)
  assume reg: "list_all regular [CompoundOp b ops cust]"
  then show "list_all regular ops" by simp
  fix e
  assume "circuit_DD n [CompoundOp b ops cust] = Inr e"
  then show "circuit_DD n ops = Inr e"
    using reg circuit_DD_single [OF n, of "CompoundOp b ops cust" e] circuit_DD_compound [of b n ops cust]
    by (simp del: getDD.simps)
qed

section \<open>removeIdentities\<close>

lemma identity_leaf:
  assumes n: "0 < n" and op: "getType op = opI"
  shows "replaces n [op] []"
proof (cases "isStandardOperation op")
  case True
  then have gate: "executed_gate op" using op by (simp add: executed_gate_def)
  show ?thesis
  proof (rule replaces_matrix [OF n])
    fix A
    assume A: "ops_matrix n [op] A"
    from gate_matrixD [OF n gate A] op obtain M where
      M: "gate_entries opI (parameter (getBase op)) = Inr (length (getTargets op), M)"
      "gate_fits n (getControls op) (getTargets op)" "A = gate_matrix n M (getControls op) (getTargets op)" by auto
    then have len: "length (getTargets op) = 1" and "M = (\<lambda>r s. [1, 0, 0, 1] ! (2 * r + s))"
      by (simp_all add: gate_entries_def isSingleQubitGate_def opToSingleQubitGateMatrix_def)
    then have "M r s = mat_id r s" if "r < 2" "s < 2" for r s
      using that by (elim less_2_cases [THEN disjE]) (simp_all add: numeral_2_eq_2 numeral_3_eq_3)
    then have "A = gate2 n mat_id mat_id (getControls op) (getTargets op)"
      unfolding M(3) gate_matrix_gate2 by (intro gate2_cong) (simp add: len)
    then show "ops_matrix n [] A" using gate2_identity [OF M(2)] ops_matrix_Nil by simp
  qed simp
next
  case False
  then show ?thesis
  proof (cases op)
    case (CompoundOp b ops cust)
    then show ?thesis using op by (simp add: replaces_def)
  qed (use op False in \<open>auto simp: replaces_def circuit_DD_def\<close>)
qed

lemma replaces_filter:
  assumes n: "0 < n" and each: "\<And>op. op \<in> set ops \<Longrightarrow> P op \<Longrightarrow> replaces n [op] []"
  shows "replaces n ops (filter (\<lambda>op. \<not> P op) ops)"
proof -
  have "concat (map (\<lambda>op. if P op then [] else [op]) ops) = filter (\<lambda>op. \<not> P op) ops"
    by (induction ops) simp_all
  then show ?thesis using replaces_map [OF n, of ops "\<lambda>op. if P op then [] else [op]"] each by simp
qed

lemma remove_identity: 
  assumes n: "0 < n"
  shows "replaces n [op] (remove_op {opI} 0 op)"
proof (cases "op_matches {opI} 0 op")
  case True
  then show ?thesis using identity_leaf [OF n, of op] by (simp add: remove_op_def op_matches_def)
next
  case False
  show ?thesis
  proof (cases op)
    case (CompoundOp b ops cust)
    let ?ops = "filter (\<lambda>cop. \<not> op_matches {opI} 0 cop) ops"
    have ops: "replaces n ops ?ops"
      by (rule replaces_filter [OF n]) (simp add: op_matches_def identity_leaf [OF n])
    have flat: "replaces n [op] ?ops" using replaces_trans [OF replaces_flat [OF n] ops] CompoundOp by simp
    consider "?ops = []" | x where "?ops = [x]" | x y zs where "?ops = x # y # zs" by (cases ?ops rule: remdups_adj.cases) auto
    then show ?thesis
    proof cases
      case 3
      then have "remove_op {opI} 0 op = [CompoundOp b ?ops cust]" using False CompoundOp by (simp add: remove_op_def)
      then show ?thesis using replaces_compound [OF n ops] CompoundOp by simp
    qed (use False CompoundOp flat in \<open>simp_all add: remove_op_def\<close>)
  qed (use False in \<open>simp_all add: remove_op_def\<close>)
qed

lemma removeIdentities_sound: "0 < n \<Longrightarrow> replaces n ops (removeIdentities ops)"
  unfolding removeIdentities_def removeOperation_def by (rule replaces_map) (simp_all add: remove_identity)

section \<open>flattenOperations\<close>

lemma flatten_op_sound: "0 < n \<Longrightarrow> replaces n [op] (flatten_op c op)"
proof (induction c op rule: flatten_op.induct)
  case (1 c b ops cust)
  show ?case
  proof (cases "\<not> c \<or> cust")
    case True
    have "replaces n ops (concat (map (flatten_op c) ops))"
      by (rule replaces_map [OF 1(2)]) (rule 1(1) [OF True _ 1(2)])
    then show ?thesis using replaces_trans [OF replaces_flat [OF 1(2)]] True by simp
  qed simp
qed simp_all

lemma flattenOperations_sound: "0 < n \<Longrightarrow> replaces n ops (flattenOperations c ops)"
  unfolding flattenOperations_def by (rule replaces_map) (simp_all add: flatten_op_sound)

text \<open>Without the flag no compound operation is left.\<close>

lemma flatten_op_flat: "x \<in> set (flatten_op False op) \<Longrightarrow> \<not> isCompoundOperation x"
  by (induction op) auto

lemma flattenOperations_flat: "x \<in> set (flattenOperations False ops) \<Longrightarrow> \<not> isCompoundOperation x"
  using flatten_op_flat by (auto simp: flattenOperations_def)

section \<open>Rules for gates\<close>

definition equiv_ops :: "nat \<Rightarrow> Operation list \<Rightarrow> Operation list \<Rightarrow> bool" where
  "equiv_ops n xs ys \<longleftrightarrow> replaces n xs ys \<and> replaces n ys xs"

lemma equiv_sym: "equiv_ops n xs ys \<longleftrightarrow> equiv_ops n ys xs"
  by (auto simp: equiv_ops_def)

lemma equiv_trans [trans]: "equiv_ops n xs ys \<Longrightarrow> equiv_ops n ys zs \<Longrightarrow> equiv_ops n xs zs"
  using replaces_trans by (auto simp: equiv_ops_def)

lemma equiv_within: "0 < n \<Longrightarrow> equiv_ops n xs ys \<Longrightarrow> equiv_ops n (us @ xs @ vs) (us @ ys @ vs)"
  using replaces_within by (simp add: equiv_ops_def)

lemma equiv_matrix:
  assumes n: "0 < n" and xs: "ops_matrix n xs A" and ys: "ops_matrix n ys A"
  shows "equiv_ops n xs ys"
proof -
  have unique: "ops_matrix n zs B \<Longrightarrow> ops_matrix n zs C \<Longrightarrow> B = C" for zs B C
    by (auto simp: ops_matrix_def)
  have reg: "list_all regular xs" "list_all regular ys" using xs ys by (simp_all add: ops_matrix_def)
  show ?thesis
    unfolding equiv_ops_def
    using replaces_matrix [OF n, of xs ys] replaces_matrix [OF n, of ys xs] unique xs ys reg by metis
qed

lemma equiv_ops_matrix: "equiv_ops n xs ys \<Longrightarrow> ops_matrix n xs A \<Longrightarrow> ops_matrix n ys A"
  unfolding equiv_ops_def replaces_def ops_matrix_def by blast

lemma equiv_swap: "0 < n \<Longrightarrow> disjoint_ops a b \<Longrightarrow> equiv_ops n [a, b] [b, a]"
  using replaces_swap disjoint_ops_sym by (auto simp: equiv_ops_def)

abbreviation named_gate :: "Controls \<Rightarrow> nat list \<Rightarrow> OpType \<Rightarrow> Operation" where
  "named_gate cs ts t \<equiv> StandardOp \<lparr>controls = cs, targets = ts, parameter = [], optype = t, opname = op_toString t\<rparr>"

lemma named_gate_single:
  assumes n: "0 < n" and t: "opToSingleQubitGateMatrix g [] = Inr mat" "isSingleQubitGate g"
    and fits: "gate_fits n cs [t]" and cs: "strictly_sorted (map qubit cs)"
  shows "ops_matrix n [named_gate cs [t] g] (gate_matrix n (\<lambda>r s. mat ! (2 * r + s)) cs [t])"
proof -
  have "plain_gate g" using t by (auto simp: isSingleQubitGate_def)
  then show ?thesis
    using gate_matrixI [OF n, of "named_gate cs [t] g"] t fits cs by (simp add: executed_gate_def gate_entries_def)
qed

lemma h_matrix:
  assumes "0 < n" "t < n"
  shows "ops_matrix n [named_gate [] [t] opH]
    (gate2 n (\<lambda>r s. [of_real SQRT2_2, of_real SQRT2_2, of_real SQRT2_2, - of_real SQRT2_2] ! (2 * r + s))
      (\<lambda>r s. [of_real SQRT2_2, of_real SQRT2_2, of_real SQRT2_2, - of_real SQRT2_2] ! (2 * r + s)) cs [t])"
  using named_gate_single [OF assms(1), of opH _ "[]" t] assms(2)
  by (simp add: opToSingleQubitGateMatrix_def isSingleQubitGate_def gate_fits_def gate_matrix_uncontrolled [of n _ "[t]" cs])

lemma sqrt_half: "complex_of_real SQRT2_2 * of_real SQRT2_2 = 1 / 2"
  by (simp add: SQRT2_2_def flip: of_real_mult)

lemma sum_2: "(\<Sum>k<2 :: nat. f k) = f 0 + f (Suc 0)" for f :: "nat \<Rightarrow> complex"
  by (simp add: numeral_2_eq_2)

lemma hh_rule:
  assumes n: "0 < n" and t: "t < n"
  shows "equiv_ops n [named_gate [] [t] opH, named_gate [] [t] opH] []"
proof (rule equiv_matrix [OF n])
  have fits: "gate_fits n [] [t]" using t by (simp add: gate_fits_def)
  note H = h_matrix [OF n t, of "[]"]
  show "ops_matrix n [named_gate [] [t] opH, named_gate [] [t] opH] (den n mone)"
    using ops_matrix_Cons [OF n H H] unfolding gate2_mult [OF fits] gate2_identity [OF fits, symmetric]
    by (rule back_subst [where P = "ops_matrix n _"]) (rule gate2_cong, auto simp: sum_2 sqrt_half numeral_2_eq_2 less_Suc_eq numeral_3_eq_3)
qed (rule ops_matrix_Nil)

lemma mcx_rule:
  assumes n: "0 < n" and fits: "gate_fits n cs [t]" and cs: "strictly_sorted (map qubit cs)"
  shows "ops_matrix n [named_gate [] [t] opH, named_gate cs [t] opZ, named_gate [] [t] opH]
    (gate_matrix n (\<lambda>r s. [0, 1, 1, 0] ! (2 * r + s)) cs [t])"
proof -
  have t: "t < n" using fits by (simp add: gate_fits_def)
  note H = h_matrix [OF n t, of cs]
  have Z: "ops_matrix n [named_gate cs [t] opZ] (gate2 n (\<lambda>r s. [1, 0, 0, - 1] ! (2 * r + s)) mat_id cs [t])"
    using named_gate_single [OF n _ _ fits cs, of opZ]
    by (simp add: opToSingleQubitGateMatrix_def isSingleQubitGate_def gate_matrix_gate2)
  show ?thesis
    using ops_matrix_Cons [OF n H ops_matrix_Cons [OF n Z H]]
    unfolding gate2_mult [OF fits] gate_matrix_gate2
    by (rule back_subst [where P = "ops_matrix n _"]) (rule gate2_cong, auto simp: sum_2 sqrt_half numeral_2_eq_2 less_Suc_eq numeral_3_eq_3)
qed

lemma cz_matrix:
  assumes "c < n" "t < n" "c \<noteq> t"
  shows "gate_matrix n (\<lambda>r s. [1, 0, 0, - 1] ! (2 * r + s)) [Control c Pos] [t] x y =
    (if \<forall>q < n. x q = y q then if x c \<and> x t then - 1 else 1 else 0)"
  using assms by (auto simp: gate_matrix_def same_rest_def active_def target_index_def list_all_iff numeral_3_eq_3)

lemma cz_rule:
  assumes n: "0 < n" and ct: "c < n" "t < n" "c \<noteq> t"
  shows "equiv_ops n [named_gate [Control c Pos] [t] opZ] [named_gate [Control t Pos] [c] opZ]"
proof (rule equiv_matrix [OF n])
  have Z: "ops_matrix n [named_gate [Control a Pos] [b] opZ]
      (gate_matrix n (\<lambda>r s. [1, 0, 0, - 1] ! (2 * r + s)) [Control a Pos] [b])" if "a < n" "b < n" "a \<noteq> b" for a b
    using named_gate_single [OF n, of opZ _ "[Control a Pos]" b] that
    by (simp add: opToSingleQubitGateMatrix_def isSingleQubitGate_def gate_fits_def)
  show "ops_matrix n [named_gate [Control c Pos] [t] opZ]
      (gate_matrix n (\<lambda>r s. [1, 0, 0, - 1] ! (2 * r + s)) [Control c Pos] [t])" using Z ct by blast
  have "gate_matrix n (\<lambda>r s. [1, 0, 0, - 1] ! (2 * r + s)) [Control c Pos] [t] =
      gate_matrix n (\<lambda>r s. [1, 0, 0, - 1] ! (2 * r + s)) [Control t Pos] [c]"
    using ct by (intro ext) (simp add: cz_matrix conj_commute)
  then show "ops_matrix n [named_gate [Control t Pos] [c] opZ]
      (gate_matrix n (\<lambda>r s. [1, 0, 0, - 1] ! (2 * r + s)) [Control c Pos] [t])" using Z ct by metis
qed

lemma cx_gate:
  assumes "0 < n" "c < n" "t < n" "c \<noteq> t"
  shows "ops_matrix n [named_gate [Control c Pos] [t] opX] (perm_mat n (cx_map c t))"
  by (rule cnot_matrixI) (use assms in simp_all)

lemma cx_h_rule:
  assumes n: "0 < n" and ct: "c < n" "t < n" "c \<noteq> t"
  shows "equiv_ops n [named_gate [Control c Pos] [t] opX]
    [named_gate [] [t] opH, named_gate [Control c Pos] [t] opZ, named_gate [] [t] opH]"
proof (rule equiv_matrix [OF n cx_gate [OF n ct]])
  have "gate_fits n [Control c Pos] [t]" using ct by (simp add: gate_fits_def)
  from mcx_rule [OF n this]
  show "ops_matrix n [named_gate [] [t] opH, named_gate [Control c Pos] [t] opZ, named_gate [] [t] opH]
      (perm_mat n (cx_map c t))" by (simp add: gate_matrix_cx [OF ct])
qed

text \<open>Hadamard gates on both qubits turn a CNOT gate around.\<close>

lemma turned_cx:
  assumes n: "0 < n" and ct: "c < n" "t < n" "c \<noteq> t"
  shows "equiv_ops n [named_gate [Control t Pos] [c] opX] [named_gate [] [t] opH, named_gate [] [c] opH,
    named_gate [Control c Pos] [t] opX, named_gate [] [t] opH, named_gate [] [c] opH]"
proof -
  let ?hc = "named_gate [] [c] opH" and ?ht = "named_gate [] [t] opH" and ?x = "named_gate [Control c Pos] [t] opX"
  let ?z = "named_gate [Control c Pos] [t] opZ" and ?zt = "named_gate [Control t Pos] [c] opZ"
  have disj: "disjoint_ops ?ht ?hc" using ct by (simp add: disjoint_ops_def op_actsOn_def controls_contain_def)
  note within = equiv_within [OF n]
  have 1: "equiv_ops n [named_gate [Control t Pos] [c] opX] [?hc, ?zt, ?hc]"
    using cx_h_rule [OF n ct(2,1)] ct(3) by auto
  have 2: "equiv_ops n [?hc, ?zt, ?hc] [?hc, ?z, ?hc]"
    using within [OF cz_rule [OF n ct(2,1)], of "[?hc]" "[?hc]"] ct(3) by simp
  have 3: "equiv_ops n [?hc, ?z, ?hc] [?hc, ?ht, ?ht, ?z, ?hc]"
    using within [OF hh_rule [OF n ct(2)], of "[?hc]" "[?z, ?hc]"] by (simp add: equiv_sym)
  have 4: "equiv_ops n [?hc, ?ht, ?ht, ?z, ?hc] [?hc, ?ht, ?ht, ?z, ?ht, ?ht, ?hc]"
    using within [OF hh_rule [OF n ct(2)], of "[?hc, ?ht, ?ht, ?z]" "[?hc]"] by (simp add: equiv_sym)
  have 5: "equiv_ops n [?hc, ?ht, ?ht, ?z, ?ht, ?ht, ?hc] [?ht, ?hc, ?ht, ?z, ?ht, ?ht, ?hc]"
    using within [OF equiv_swap [OF n disj], of "[]" "[?ht, ?z, ?ht, ?ht, ?hc]"] by (simp add: equiv_sym)
  have 6: "equiv_ops n [?ht, ?hc, ?ht, ?z, ?ht, ?ht, ?hc] [?ht, ?hc, ?x, ?ht, ?hc]"
    using within [OF cx_h_rule [OF n ct], of "[?ht, ?hc]" "[?ht, ?hc]"] by (simp add: equiv_sym)
  from 1 2 3 4 5 6 show ?thesis using equiv_trans by blast
qed

section \<open>Constructed gates are regular\<close>

lemma set_emplace_qubits:
  "strictly_sorted (map qubit xs) \<Longrightarrow> qubit c \<notin> qubit ` set xs \<Longrightarrow> strictly_sorted (map qubit (set_emplace c xs))"
  by (induction xs) (auto simp: less_Control_def control_less_def)

lemma std_addControls_regular:
  "std_addControls cs b = Inr b' \<Longrightarrow> strictly_sorted (map qubit (controls b)) \<Longrightarrow>
    strictly_sorted (map qubit (controls b'))"
proof (induction cs arbitrary: b)
  case (Cons c cs)
  then obtain b1 where b1: "std_addControl c b = Inr b1" "std_addControls cs b1 = Inr b'"
    by (auto simp: std_addControls_def and_then_eq_Inr)
  then have "strictly_sorted (map qubit (controls b1))"
    using Cons.prems(2) set_emplace_qubits [of "controls b" c]
    by (fastforce simp: std_addControl_def op_actsOn_def controls_contain_def split: if_splits)
  then show ?case by (rule Cons.IH [OF b1(2)])
qed (simp add: std_addControls_def)

lemma std_op_regular: "std_op cs ts t = Inr op \<Longrightarrow> regular op"
proof -
  assume "std_op cs ts t = Inr op"
  then obtain t' ps b where b: "std_addControls cs \<lparr>controls = [], targets = ts, parameter = ps, optype = t', opname = op_toString t'\<rparr> = Inr b"
    "op = StandardOp b"
    unfolding std_op_def StandardOperation_controlled_def StandardOperation_new_def and_then_eq_Inr by auto
  then show ?thesis using std_addControls_regular [OF b(1)] by simp
qed

section \<open>decomposeSWAP\<close>

lemma std_op_named:
  "checkUgate t [] = Inr (t, [])"
  "std_op [] ts t = Inr (named_gate [] ts t)"
  "c \<notin> set ts \<Longrightarrow> std_op [Control c Pos] ts t = Inr (named_gate [Control c Pos] ts t)"
  by (simp_all add: checkUgate_def std_op_def StandardOperation_controlled_def StandardOperation_new_def
      std_addControls_def std_addControl_def op_actsOn_def controls_contain_def)

lemma swap_from_cx: "a \<noteq> b \<Longrightarrow> cx_map a b (cx_map b a (cx_map a b y)) = swap_map a b y"
  by (auto simp: fun_eq_iff cx_map_def swap_map_def)

lemma decomposed_swap_sound:
  assumes n: "0 < n" and op: "isStandardOperation op" "getType op = opSWAP" "getControls op = []"
    and os: "decomposed_swap directed (getTargets op) = Inr os"
  shows "replaces n [op] os"
proof (rule replaces_matrix [OF n])
  show "list_all regular os"
    using os std_op_regular by (auto simp: decomposed_swap_def and_then_eq_Inr split: if_splits)
  fix A
  assume "ops_matrix n [op] A"
  from swap_matrixD [OF n op this] obtain a b where ab: "getTargets op = [a, b]" "a < n" "b < n" "a \<noteq> b"
    and A: "A = perm_mat n (swap_map a b)" by blast
  let ?x = "named_gate [Control a Pos] [b] opX" and ?r = "named_gate [Control b Pos] [a] opX"
  have "ops_matrix n [?x, ?r, ?x] (mat_mult n (mat_mult n (perm_mat n (cx_map a b)) (perm_mat n (cx_map b a)))
      (perm_mat n (cx_map a b)))"
    using ab cx_gate [OF n] by (intro ops_matrix_Cons [OF n]) auto
  also have "mat_mult n (mat_mult n (perm_mat n (cx_map a b)) (perm_mat n (cx_map b a))) (perm_mat n (cx_map a b)) = A"
    using ab by (simp add: A perm_mat_mult bits_below_cx bits_below_comp swap_from_cx)
  finally have three: "ops_matrix n [?x, ?r, ?x] A" .
  show "ops_matrix n os A"
  proof (cases directed)
    case False
    then have "os = [?x, ?r, ?x]" using os ab by (simp add: decomposed_swap_def deref_res_def std_op_named)
    with three show ?thesis by simp
  next
    case True
    let ?h = "\<lambda>q. named_gate [] [q] opH"
    have "os = [?x] @ [?h b, ?h a, ?x, ?h b, ?h a] @ [?x]"
      using True os ab by (simp add: decomposed_swap_def deref_res_def std_op_named)
    moreover have eq: "equiv_ops n ([?x] @ [?r] @ [?x]) ([?x] @ [?h b, ?h a, ?x, ?h b, ?h a] @ [?x])"
      by (rule equiv_within [OF n turned_cx [OF n ab(2,3,4)]])
    moreover have "ops_matrix n ([?x] @ [?r] @ [?x]) A" using three by simp
    ultimately show ?thesis by (simp only: equiv_ops_matrix [OF eq])
  qed
qed

text \<open>A SWAP gate with controls loses them, so the pass is correct for SWAP gates without controls.\<close>

fun plain_swaps :: "Operation \<Rightarrow> bool" where
  "plain_swaps (CompoundOp b ops cust) = list_all plain_swaps ops"
| "plain_swaps op = (getType op = opSWAP \<longrightarrow> getControls op = [])"

lemma decompose_op_sound:
  "0 < n \<Longrightarrow> plain_swaps op \<Longrightarrow> decompose_op directed op = Inr os \<Longrightarrow> replaces n [op] os"
  using decomposed_swap_sound [of n op directed os] by (cases op) (auto simp: decompose_op_def split: if_splits)

lemma decomposeSWAP_sound:
  assumes n: "0 < n" and plain: "list_all plain_swaps ops" and os: "decomposeSWAP directed ops = Inr os"
  shows "replaces n ops os"
proof -
  let ?f = "\<lambda>op. case op of
       CompoundOp b cops cust \<Rightarrow> and_then (map_res (decompose_op directed) cops)
         (\<lambda>cs. Inr [CompoundOp b (concat cs) cust])
     | _ \<Rightarrow> decompose_op directed op"
  from os obtain oss where oss: "map_res ?f ops = Inr oss" "os = concat oss"
    by (auto simp: decomposeSWAP_def and_then_eq_Inr)
  show ?thesis unfolding oss(2)
  proof (rule replaces_map_res [OF n oss(1)])
    fix op os
    assume "op \<in> set ops" and f: "?f op = Inr os"
    then have op: "plain_swaps op" using plain by (simp add: list_all_iff)
    show "replaces n [op] os"
    proof (cases op)
      case (CompoundOp b cops cust)
      with f obtain cs where cs: "map_res (decompose_op directed) cops = Inr cs" "os = [CompoundOp b (concat cs) cust]"
        by (auto simp: and_then_eq_Inr)
      have "replaces n cops (concat cs)"
      proof (rule replaces_map_res [OF n cs(1)])
        fix cop os
        assume cop: "cop \<in> set cops" "decompose_op directed cop = Inr os"
        then have "plain_swaps cop" using op CompoundOp by (simp add: list_all_iff)
        then show "replaces n [cop] os" by (rule decompose_op_sound [OF n _ cop(2)])
      qed
      then show ?thesis using replaces_compound [OF n] CompoundOp cs(2) by simp
    qed (use f decompose_op_sound [OF n op] in simp_all)
  qed
qed

lemma decomposeSWAP_drops_controls:
  "decomposeSWAP False [named_gate [Control 2 Pos] [0, 1] opSWAP] =
    Inr [named_gate [Control 0 Pos] [1] opX, named_gate [Control 1 Pos] [0] opX, named_gate [Control 0 Pos] [1] opX]"
  by (simp add: decomposeSWAP_def decompose_op_def decomposed_swap_def deref_res_def std_op_named)

section \<open>replaceMCXWithMCZ\<close>

lemma set_emplace_last: "\<forall>x \<in> set xs. x < c \<Longrightarrow> set_emplace c xs = xs @ [c]" for c :: "'a::linorder"
  by (induction xs) auto

lemma std_addControls_sorted:
  "strictly_sorted (map qubit (controls b @ cs)) \<Longrightarrow> \<forall>c \<in> set cs. qubit c \<notin> set (targets b) \<Longrightarrow>
    std_addControls cs b = Inr (b\<lparr>controls := controls b @ cs\<rparr>)"
proof (induction cs arbitrary: b)
  case (Cons c cs)
  let ?b = "b\<lparr>controls := controls b @ [c]\<rparr>"
  have less: "qubit x < qubit c" if "x \<in> set (controls b)" for x
    using Cons.prems(1) that by (auto simp: sorted_wrt_append)
  then have "\<not> op_actsOn b (qubit c)" using Cons.prems(2) by (fastforce simp: op_actsOn_def controls_contain_def)
  moreover have "set_emplace c (controls b) = controls b @ [c]"
    by (rule set_emplace_last) (use less in \<open>auto simp: less_Control_def control_less_def\<close>)
  ultimately have "std_addControl c b = Inr ?b" by (simp add: std_addControl_def)
  moreover have "std_addControls cs ?b = Inr (?b\<lparr>controls := controls ?b @ cs\<rparr>)"
    by (rule Cons.IH) (use Cons.prems in simp_all)
  ultimately show ?case by (simp add: std_addControls_def)
qed (simp add: std_addControls_def)

lemma std_op_sorted:
  "strictly_sorted (map qubit cs) \<Longrightarrow> \<forall>c \<in> set cs. qubit c \<notin> set ts \<Longrightarrow> std_op cs ts t = Inr (named_gate cs ts t)"
  by (simp add: std_op_def StandardOperation_controlled_def StandardOperation_new_def checkUgate_def std_addControls_sorted)

lemma mcx_replacement_sound:
  assumes n: "0 < n" and op: "\<not> isCompoundOperation op" "getType op = opX" and os: "mcx_replacement op = Inr os"
  shows "replaces n [op] os"
proof (rule replaces_matrix [OF n])
  from os obtain t where t: "getTargets op = [t]" by (auto simp: mcx_replacement_def split: list.splits)
  show "list_all regular os" using os t std_op_regular by (auto simp: mcx_replacement_def and_then_eq_Inr)
  fix A
  assume A: "ops_matrix n [op] A"
  then have reg: "regular op" by (simp add: ops_matrix_def)
  have std: "isStandardOperation op"
  proof (rule ccontr)
    assume "\<not> isStandardOperation op"
    then have "op_DD n op = Inl InvalidArgument" using op by (cases op) simp_all
    then show False using A by (simp add: ops_matrix_def circuit_DD_def)
  qed
  then have gate: "executed_gate op" using op by (simp add: executed_gate_def)
  have cs: "strictly_sorted (map qubit (getControls op))" using reg executed_regular [OF gate] by simp
  from gate_matrixD [OF n gate A] op t obtain M where
    M: "gate_entries opX (parameter (getBase op)) = Inr (1, M)"
    "gate_fits n (getControls op) [t]" "A = gate_matrix n M (getControls op) [t]" by auto
  then have "M = (\<lambda>r s. [0, 1, 1, 0] ! (2 * r + s))"
    by (simp add: gate_entries_def isSingleQubitGate_def opToSingleQubitGateMatrix_def)
  moreover have "os = [named_gate [] [t] opH, named_gate (getControls op) [t] opZ, named_gate [] [t] opH]"
    using os t M(2) cs by (simp add: mcx_replacement_def std_op_named std_op_sorted gate_fits_def)
  ultimately show "ops_matrix n os A" using mcx_rule [OF n M(2) cs] M(3) by simp
qed

lemma replaceMCX_op_sound: "0 < n \<Longrightarrow> replaceMCX_op op = Inr os \<Longrightarrow> replaces n [op] os"
proof (induction op arbitrary: os rule: replaceMCX_op.induct)
  case (1 b ops cust)
  show ?case
  proof (cases "optype b = opX \<and> controls b \<noteq> []")
    case True
    then show ?thesis using 1(3) std_op_regular by (auto simp: replaces_def)
  next
    case False
    then obtain oss where oss: "map_res replaceMCX_op ops = Inr oss" "os = [CompoundOp b (concat oss) cust]"
      using 1(3) by (auto simp: and_then_eq_Inr)
    have "replaces n ops (concat oss)"
      by (rule replaces_map_res [OF 1(2) oss(1)]) (rule 1(1) [OF False _ 1(2)])
    then show ?thesis using replaces_compound [OF 1(2)] oss(2) by simp
  qed
qed (use mcx_replacement_sound in \<open>auto split: if_splits\<close>)

lemma replaceMCXWithMCZ_sound:
  assumes "0 < n" "replaceMCXWithMCZ ops = Inr os"
  shows "replaces n ops os"
proof -
  from assms(2) obtain oss where oss: "map_res replaceMCX_op ops = Inr oss" "os = concat oss"
    by (auto simp: replaceMCXWithMCZ_def and_then_eq_Inr)
  show ?thesis unfolding oss(2) by (rule replaces_map_res [OF assms(1) oss(1) replaceMCX_op_sound [OF assms(1)]])
qed

section \<open>The passes return\<close>

lemma map_res_returns: "(\<And>x. x \<in> set xs \<Longrightarrow> \<exists>y. f x = Inr y) \<Longrightarrow> \<exists>ys. map_res f xs = Inr ys"
  by (induction xs) force+

lemma circuit_DD_each:
  assumes "0 < n" "list_all regular ops" "circuit_DD n ops = Inr e" "op \<in> set ops"
  shows "\<exists>d. op_DD n op = Inr d"
proof -
  from assms obtain ds where ds: "list_all2 (\<lambda>op d. op_DD n op = Inr d) ops ds" by (auto simp: circuit_DD_factors)
  obtain i where "i < length ops" "op = ops ! i" using assms(4) by (auto simp: in_set_conv_nth)
  then show ?thesis using ds by (auto simp: list_all2_conv_all_nth)
qed

lemma decompose_op_returns:
  assumes n: "0 < n" and reg: "regular op" and d: "op_DD n op = Inr d" and plain: "plain_swaps op"
  shows "\<exists>os. decompose_op directed op = Inr os"
proof (cases "isStandardOperation op \<and> getType op = opSWAP")
  case True
  then have "getControls op = []" using plain by (cases op) auto
  from swap_matrixD [OF n _ _ this ops_matrix_single [OF n reg d]] True
  obtain a b where "getTargets op = [a, b]" "a \<noteq> b" by blast
  then show ?thesis using True by (simp add: decompose_op_def decomposed_swap_def deref_res_def std_op_named)
qed (auto simp: decompose_op_def)

lemma decomposeSWAP_returns:
  assumes n: "0 < n" and reg: "list_all regular ops" and e: "circuit_DD n ops = Inr e" and plain: "list_all plain_swaps ops"
  shows "\<exists>os. decomposeSWAP directed ops = Inr os"
proof -
  let ?f = "\<lambda>op. case op of
       CompoundOp b cops cust \<Rightarrow> and_then (map_res (decompose_op directed) cops)
         (\<lambda>cs. Inr [CompoundOp b (concat cs) cust])
     | _ \<Rightarrow> decompose_op directed op"
  have "\<exists>oss. map_res ?f ops = Inr oss"
  proof (rule map_res_returns)
    fix op
    assume op: "op \<in> set ops"
    then obtain d where d: "op_DD n op = Inr d" using circuit_DD_each [OF n reg e] by blast
    have r: "regular op" "plain_swaps op" using op reg plain by (simp_all add: list_all_iff)
    show "\<exists>os. ?f op = Inr os"
    proof (cases op)
      case (CompoundOp b cops cust)
      have "circuit_DD n cops = Inr d" "list_all regular cops"
        using d r CompoundOp circuit_DD_compound [of b n cops cust] by (simp_all del: getDD.simps)
      note each = circuit_DD_each [OF n this(2,1)]
      have "\<exists>cs. map_res (decompose_op directed) cops = Inr cs"
      proof (rule map_res_returns)
        fix cop
        assume cop: "cop \<in> set cops"
        then have "regular cop" "plain_swaps cop" using r CompoundOp by (simp_all add: list_all_iff)
        then show "\<exists>os. decompose_op directed cop = Inr os" using each [OF cop] decompose_op_returns [OF n] by blast
      qed
      then show ?thesis using CompoundOp by auto
    qed (use decompose_op_returns [OF n r(1) d r(2)] in simp_all)
  qed
  then show ?thesis by (auto simp: decomposeSWAP_def)
qed

lemma mcx_replacement_returns:
  assumes n: "0 < n" and reg: "regular op" and d: "op_DD n op = Inr d" and op: "\<not> isCompoundOperation op" "getType op = opX"
  shows "\<exists>os. mcx_replacement op = Inr os"
proof -
  have std: "isStandardOperation op" using d op by (cases op) (auto split: if_splits)
  then have gate: "executed_gate op" using op by (simp add: executed_gate_def)
  have cs: "strictly_sorted (map qubit (getControls op))" using reg executed_regular [OF gate] by simp
  from gate_matrixD [OF n gate ops_matrix_single [OF n reg d]] op obtain M where
    M: "gate_entries opX (parameter (getBase op)) = Inr (length (getTargets op), M)" "gate_fits n (getControls op) (getTargets op)"
    by auto
  then have "length (getTargets op) = 1" by (auto simp: gate_entries_def isSingleQubitGate_def and_then_eq_Inr)
  then obtain t where "getTargets op = [t]" by (auto simp: length_Suc_conv)
  then show ?thesis using M(2) cs by (simp add: mcx_replacement_def std_op_named std_op_sorted gate_fits_def)
qed

lemma replaceMCX_leaf_returns:
  assumes "0 < n" "regular op" "op_DD n op = Inr d" "\<not> isCompoundOperation op"
  shows "\<exists>os. replaceMCX_op op = Inr os"
proof (cases "getType op = opX")
  case True
  then obtain os where "mcx_replacement op = Inr os" using mcx_replacement_returns [OF assms] by blast
  then show ?thesis using assms(4) by (cases op) auto
qed (use assms(4) in \<open>cases op; simp\<close>)

lemma replaceMCX_op_returns:
  "0 < n \<Longrightarrow> regular op \<Longrightarrow> op_DD n op = Inr d \<Longrightarrow> \<exists>os. replaceMCX_op op = Inr os"
proof (induction op arbitrary: d rule: replaceMCX_op.induct)
  case (1 b ops cust)
  then have b: "\<not> (optype b = opX \<and> controls b \<noteq> [])" and r: "list_all regular ops" by auto
  have "circuit_DD n ops = Inr d" using 1(3,4) circuit_DD_compound [of b n ops cust] by (simp del: getDD.simps)
  note each = circuit_DD_each [OF 1(2) r this]
  have "\<exists>oss. map_res replaceMCX_op ops = Inr oss"
  proof (rule map_res_returns)
    fix x
    assume x: "x \<in> set ops"
    then have "regular x" using r by (simp add: list_all_iff)
    then show "\<exists>os. replaceMCX_op x = Inr os" using each [OF x] 1(1) [OF b x 1(2)] by blast
  qed
  then show ?case using b by auto
qed (rule replaceMCX_leaf_returns; simp del: getDD.simps)+

lemma replaceMCXWithMCZ_returns:
  assumes n: "0 < n" and reg: "list_all regular ops" and e: "circuit_DD n ops = Inr e"
  shows "\<exists>os. replaceMCXWithMCZ ops = Inr os"
proof -
  have "\<exists>oss. map_res replaceMCX_op ops = Inr oss"
  proof (rule map_res_returns)
    fix op
    assume op: "op \<in> set ops"
    then have "regular op" using reg by (simp add: list_all_iff)
    then show "\<exists>os. replaceMCX_op op = Inr os" using circuit_DD_each [OF n reg e op] replaceMCX_op_returns [OF n] by blast
  qed
  then show ?thesis by (auto simp: replaceMCXWithMCZ_def)
qed

end
