(* ===== verification/OptGates.thy ===== *)
theory OptGates
  imports OptCancel OptSimpleSound
begin

text \<open>
  The gates that \<open>swapReconstruction\<close> and \<open>cancelCNOTs\<close> rewrite: CNOT and SWAP gates in a
  circuit, the products of two or three of them, and the law by which a pair or a triple of them
  is replaced although operations on other qubits stand between them.
\<close>

section \<open>CNOT and SWAP gates in place\<close>

definition live_ops :: "Operation list \<Rightarrow> Operation list" where
  "live_ops ops = filter (\<lambda>op. getType op \<noteq> opI) ops"

definition cnot_at :: "nat \<Rightarrow> Operation \<Rightarrow> nat \<Rightarrow> nat \<Rightarrow> bool" where
  "cnot_at n op c t \<longleftrightarrow> isStandardOperation op \<and> getType op = opX \<and> getControls op = [Control c Pos] \<and>
     getTargets op = [t] \<and> c < n \<and> t < n \<and> c \<noteq> t"

definition swap_at :: "nat \<Rightarrow> Operation \<Rightarrow> nat \<Rightarrow> nat \<Rightarrow> bool" where
  "swap_at n op a b \<longleftrightarrow> isStandardOperation op \<and> getType op = opSWAP \<and> getControls op = [] \<and>
     getTargets op = [a, b] \<and> a < n \<and> b < n \<and> a \<noteq> b"

lemma cnot_at_matrix: "0 < n \<Longrightarrow> cnot_at n op c t \<Longrightarrow> ops_matrix n [op] (perm_mat n (cx_map c t))"
  by (rule cnot_matrixI) (simp_all add: cnot_at_def)

lemma swap_at_matrix: "0 < n \<Longrightarrow> swap_at n op a b \<Longrightarrow> ops_matrix n [op] (perm_mat n (swap_map a b))"
  by (rule swap_matrixI) (simp_all add: swap_at_def)

lemma matrix_standard:
  assumes "ops_matrix n [op] A" "getType op = opX \<or> getType op = opSWAP"
  shows "isStandardOperation op"
proof (rule ccontr)
  assume not: "\<not> isStandardOperation op"
  show False
  proof (cases op)
    case (CompoundOp b ops cust)
    then show False using assms by (auto simp: ops_matrix_def)
  qed (use assms not in \<open>auto simp: ops_matrix_def circuit_DD_def\<close>)
qed

lemma is_cnot_at:
  assumes n: "0 < n" and A: "ops_matrix n [op] A" and op: "is_cnot op"
  shows "\<exists>t. cnot_at n op (first_control op) t"
proof -
  obtain c where c: "getControls op = [Control c Pos]"
    using op by (auto simp: is_cnot_def length_Suc_conv) (metis Control.exhaust_sel)
  have X: "getType op = opX" using op by (simp add: is_cnot_def)
  have std: "isStandardOperation op" using matrix_standard [OF A] X by simp
  from cnot_matrixD [OF n std X c A] show ?thesis using std X c by (auto simp: cnot_at_def)
qed

lemma is_swap_at:
  assumes n: "0 < n" and A: "ops_matrix n [op] A" and op: "is_swap op"
  shows "\<exists>a b. swap_at n op a b"
proof -
  have X: "getType op = opSWAP" "getControls op = []" using op by (simp_all add: is_swap_def)
  have std: "isStandardOperation op" using matrix_standard [OF A] X by simp
  from swap_matrixD [OF n std X A] show ?thesis using std X by (auto simp: swap_at_def)
qed

lemma cnot_not_swap: "is_cnot op \<Longrightarrow> \<not> is_swap op" "cnot_at n op c t \<Longrightarrow> is_cnot op" "swap_at n op a b \<Longrightarrow> is_swap op"
  by (auto simp: is_cnot_def is_swap_def cnot_at_def swap_at_def)

lemma cnot_at_acts: "cnot_at n op c t \<Longrightarrow> actsOn op q \<longleftrightarrow> q = c \<or> q = t"
  by (cases op) (auto simp: cnot_at_def op_actsOn_def controls_contain_def)

lemma swap_at_acts: "swap_at n op a b \<Longrightarrow> actsOn op q \<longleftrightarrow> q = a \<or> q = b"
  by (cases op) (auto simp: swap_at_def op_actsOn_def controls_contain_def)

section \<open>Changing a gate\<close>

lemma getBase_map_base [simp]: "getBase (map_base f op) = f (getBase op)"
  by (cases op) simp_all

lemma isStandardOperation_map_base [simp]: "isStandardOperation (map_base f op) = isStandardOperation op"
  by (cases op) (simp_all add: sym_isStandardOperation_def)

lemma setters_standard [simp]:
  "isStandardOperation op \<Longrightarrow> setGate t op = Inr (with_gate t op)"
  "isStandardOperation op \<Longrightarrow> setTargets ts op = Inr (with_targets ts op)"
  by (cases op; simp add: setGate_def setTargets_def)+

lemma clearControls_standard: "isStandardOperation op \<Longrightarrow> clearControls op = Inr (map_base std_clearControls op)"
  by (cases op) (simp_all add: clearControls_def)

lemma setControls_standard:
  "isStandardOperation op \<Longrightarrow> q \<notin> set (getTargets op) \<Longrightarrow>
    setControls [Control q Pos] op = Inr (map_base (\<lambda>b. b\<lparr>controls := [Control q Pos]\<rparr>) op)"
  by (cases op) (simp_all add: setControls_def clearControls_def addControls_def std_clearControls_def std_addControl_def
      op_actsOn_def controls_contain_def)

lemma regular_standard: "isStandardOperation op \<Longrightarrow> regular op \<longleftrightarrow> strictly_sorted (map qubit (getControls op))"
  by (cases op) simp_all

lemma make_identity_standard:
  assumes op: "isStandardOperation op"
  shows "\<exists>op'. make_identity op = Inr op' \<and> getType op' = opI \<and> regular op' \<and> (\<forall>q. actsOn op' q \<longrightarrow> actsOn op q)"
proof -
  let ?op = "map_base std_clearControls (with_gate opI op)"
  have "actsOn ?op q \<Longrightarrow> actsOn op q" for q
    by (cases op) (auto simp: op_setGate_def std_clearControls_def op_actsOn_def controls_contain_def)
  then show ?thesis using op
    by (simp add: make_identity_def clearControls_standard op_setGate_def std_clearControls_def regular_standard)
qed

lemma at_standard: "cnot_at n op c t \<Longrightarrow> isStandardOperation op" "swap_at n op a b \<Longrightarrow> isStandardOperation op"
  by (simp_all add: cnot_at_def swap_at_def)

lemma turned_cnot:
  "isStandardOperation op \<Longrightarrow> getType op = opX \<Longrightarrow> c < n \<Longrightarrow> t < n \<Longrightarrow> c \<noteq> t \<Longrightarrow>
    \<exists>op'. setControls [Control c Pos] (with_targets [t] op) = Inr op' \<and> cnot_at n op' c t"
  by (simp add: setControls_standard cnot_at_def op_setGate_def)

lemma sorted_pair_swap:
  assumes "isStandardOperation op" "getControls op = []" "getType op = opSWAP" "a < n" "b < n" "a \<noteq> b"
  shows "swap_at n (with_targets (sorted_pair a b) op) (min a b) (max a b)"
  using assms by (auto simp: swap_at_def sorted_pair_def min_def max_def)

section \<open>Products of CNOT and SWAP gates\<close>

lemma perm_list:
  assumes "0 < n" "ops_matrix n [x] (perm_mat n f)" "ops_matrix n [y] (perm_mat n g)" "bits_below n g"
  shows "ops_matrix n [x, y] (perm_mat n (\<lambda>z. g (f z)))"
  using ops_matrix_Cons [OF assms(1-3)] by (simp add: perm_mat_mult [OF assms(4)])

lemma perm_list3:
  assumes "0 < n" "ops_matrix n [x] (perm_mat n f)" "ops_matrix n [y] (perm_mat n g)" "bits_below n g"
    and "ops_matrix n [z] (perm_mat n h)" "bits_below n h"
  shows "ops_matrix n [x, y, z] (perm_mat n (\<lambda>u. h (g (f u))))"
  using ops_matrix_Cons [OF assms(1,2) perm_list [OF assms(1,3,5,6)]]
  by (simp add: perm_mat_mult [OF bits_below_comp [OF assms(6,4)]])

lemma bits_below_at: "cnot_at n op c t \<Longrightarrow> bits_below n (cx_map c t)" "swap_at n op a b \<Longrightarrow> bits_below n (swap_map a b)"
  by (simp_all add: cnot_at_def swap_at_def bits_below_cx bits_below_swap)

lemma two_cnots_cancel:
  assumes n: "0 < n" and "cnot_at n x c t" "cnot_at n y c t"
  shows "equiv_ops n [x, y] []"
proof (rule equiv_matrix [OF n])
  have "cx_map c t (cx_map c t z) = z" for z using assms by (auto simp: cnot_at_def cx_map_def fun_eq_iff)
  then show "ops_matrix n [x, y] (den n mone)"
    using perm_list [OF n cnot_at_matrix [OF n assms(2)] cnot_at_matrix [OF n assms(3)] bits_below_at(1) [OF assms(3)]]
    by (simp add: den_mone_perm)
qed (rule ops_matrix_Nil)

lemma two_swaps_cancel:
  assumes n: "0 < n" and "swap_at n x a b" "swap_at n y a' b'" "{a, b} = {a', b'}"
  shows "equiv_ops n [x, y] []"
proof (rule equiv_matrix [OF n])
  have "swap_map a' b' (swap_map a b z) = z" for z
    using assms(4) by (auto simp: doubleton_eq_iff swap_map_def fun_eq_iff)
  then show "ops_matrix n [x, y] (den n mone)"
    using perm_list [OF n swap_at_matrix [OF n assms(2)] swap_at_matrix [OF n assms(3)] bits_below_at(2) [OF assms(3)]]
    by (simp add: den_mone_perm)
qed (rule ops_matrix_Nil)

lemma two_gates:
  assumes n: "0 < n" and "ops_matrix n [x] (perm_mat n f)" "ops_matrix n [y] (perm_mat n g)" "bits_below n g"
    and "ops_matrix n [u] (perm_mat n f')" "ops_matrix n [v] (perm_mat n g')" "bits_below n g'"
    and "\<And>z. g (f z) = g' (f' z)"
  shows "equiv_ops n [x, y] [u, v]"
  using equiv_matrix [OF n perm_list [OF n assms(2-4)]] perm_list [OF n assms(5-7)] assms(8) by simp

lemma turned_cnots:
  assumes n: "0 < n" and "cnot_at n x t c" "cnot_at n y c t" "swap_at n u a b" "{a, b} = {c, t}" "cnot_at n v t c"
  shows "equiv_ops n [x, y] [u, v]"
proof (rule two_gates [OF n cnot_at_matrix [OF n assms(2)] cnot_at_matrix [OF n assms(3)] bits_below_at(1) [OF assms(3)]
      swap_at_matrix [OF n assms(4)] cnot_at_matrix [OF n assms(6)] bits_below_at(1) [OF assms(6)]])
  show "cx_map c t (cx_map t c z) = cx_map t c (swap_map a b z)" for z
    using assms(2,5) by (auto simp: cnot_at_def doubleton_eq_iff cx_map_def swap_map_def fun_eq_iff)
qed

lemma swap_cnot:
  assumes n: "0 < n" and "swap_at n x a b" "{a, b} = {q0, q1}" "cnot_at n y q1 q0" "cnot_at n u q1 q0" "cnot_at n v q0 q1"
  shows "equiv_ops n [x, y] [u, v]"
proof (rule two_gates [OF n swap_at_matrix [OF n assms(2)] cnot_at_matrix [OF n assms(4)] bits_below_at(1) [OF assms(4)]
      cnot_at_matrix [OF n assms(5)] cnot_at_matrix [OF n assms(6)] bits_below_at(1) [OF assms(6)]])
  show "cx_map q1 q0 (swap_map a b z) = cx_map q0 q1 (cx_map q1 q0 z)" for z
    using assms(3,4) by (auto simp: cnot_at_def doubleton_eq_iff cx_map_def swap_map_def fun_eq_iff)
qed

lemma cnot_swap:
  assumes n: "0 < n" and "cnot_at n x p1 p0" "swap_at n y a b" "{a, b} = {p0, p1}" "cnot_at n u p0 p1" "cnot_at n v p1 p0"
  shows "equiv_ops n [x, y] [u, v]"
proof (rule two_gates [OF n cnot_at_matrix [OF n assms(2)] swap_at_matrix [OF n assms(3)] bits_below_at(2) [OF assms(3)]
      cnot_at_matrix [OF n assms(5)] cnot_at_matrix [OF n assms(6)] bits_below_at(1) [OF assms(6)]])
  show "swap_map a b (cx_map p1 p0 z) = cx_map p1 p0 (cx_map p0 p1 z)" for z
    using assms(2,4) by (auto simp: cnot_at_def doubleton_eq_iff cx_map_def swap_map_def fun_eq_iff)
qed

lemma three_cnots_swap:
  assumes n: "0 < n" and "cnot_at n x c t" "cnot_at n y t c" "cnot_at n z c t" "swap_at n u a b" "{a, b} = {c, t}"
  shows "equiv_ops n [x, y, z] [u]"
proof (rule equiv_matrix [OF n _ swap_at_matrix [OF n assms(5)]])
  have "cx_map c t (cx_map t c (cx_map c t w)) = swap_map a b w" for w
    using assms(2,6) by (auto simp: cnot_at_def doubleton_eq_iff cx_map_def swap_map_def fun_eq_iff)
  then show "ops_matrix n [x, y, z] (perm_mat n (swap_map a b))"
    using perm_list3 [OF n cnot_at_matrix [OF n assms(2)] cnot_at_matrix [OF n assms(3)] bits_below_at(1) [OF assms(3)]
        cnot_at_matrix [OF n assms(4)] bits_below_at(1) [OF assms(4)]] by simp
qed

section \<open>Replacing operations that are next to each other on two qubits\<close>

definition acts_in :: "nat set \<Rightarrow> Operation \<Rightarrow> bool" where
  "acts_in Q op \<longleftrightarrow> inside Q op \<and> \<not> outside Q op"

lemma acts_in_at: "cnot_at n op c t \<Longrightarrow> acts_in {c, t} op" "swap_at n op a b \<Longrightarrow> acts_in {a, b} op"
  by (auto simp: acts_in_def inside_def outside_def cnot_at_acts swap_at_acts)

lemma live_append: "live_ops (xs @ ys) = live_ops xs @ live_ops ys" "live_ops [] = []"
  "live_ops (x # xs) = (if getType x = opI then live_ops xs else x # live_ops xs)"
  by (simp_all add: live_ops_def)

text \<open>
  Two lists agree outside of \<open>Q\<close> position by position, and elsewhere they have operations in \<open>Q\<close>
  or identities.
\<close>

definition differ_in :: "nat set \<Rightarrow> Operation list \<Rightarrow> Operation list \<Rightarrow> bool" where
  "differ_in Q xs ys \<longleftrightarrow> list_all2 (\<lambda>x y.
     x = y \<and> (getType x = opI \<or> outside Q x) \<or>
     (getType x = opI \<or> acts_in Q x) \<and> (getType y = opI \<or> acts_in Q y)) xs ys"

lemma differ_in_filters:
  "differ_in Q xs ys \<Longrightarrow> (\<forall>op \<in> set (live_ops xs) \<union> set (live_ops ys). inside Q op \<or> outside Q op) \<and>
    filter (outside Q) (live_ops xs) = filter (outside Q) (live_ops ys)"
  unfolding differ_in_def by (induction xs ys rule: list_all2_induct) (auto simp: live_append acts_in_def)

lemma replaces_block:
  assumes n: "0 < n" and d: "differ_in Q xs ys"
    and r: "replaces n (filter (\<lambda>op. \<not> outside Q op) (live_ops xs)) (filter (\<lambda>op. \<not> outside Q op) (live_ops ys))"
  shows "replaces n (live_ops (us @ xs @ vs)) (live_ops (us @ ys @ vs))"
proof -
  have "replaces n (live_ops xs) (live_ops ys)"
    by (rule replaces_segment [OF n, of _ Q]) (use differ_in_filters [OF d] r in auto)
  then show ?thesis using replaces_within [OF n] by (simp add: live_append)
qed

lemma differ_in_same:
  "\<forall>x \<in> set mid. getType x = opI \<or> outside Q x \<Longrightarrow> differ_in Q mid mid"
  by (auto simp: differ_in_def list.rel_refl_strong)

lemma filter_mid: "\<forall>x \<in> set mid. getType x = opI \<or> outside Q x \<Longrightarrow> filter (\<lambda>op. \<not> outside Q op) (live_ops mid) = []"
  by (auto simp: live_ops_def filter_empty_conv)

lemma replaces_pair:
  assumes n: "0 < n" and mid: "\<forall>x \<in> set mid. getType x = opI \<or> outside Q x"
    and abs: "acts_in Q a" "acts_in Q b" "getType a \<noteq> opI" "getType b \<noteq> opI"
      "getType a' = opI \<or> acts_in Q a'" "getType b' = opI \<or> acts_in Q b'"
    and r: "replaces n [a, b] (live_ops [a', b'])"
  shows "replaces n (live_ops (us @ a # mid @ b # vs)) (live_ops (us @ a' # mid @ b' # vs))"
proof -
  have d: "differ_in Q (a # mid @ [b]) (a' # mid @ [b'])"
    using differ_in_same [OF mid] abs by (simp add: differ_in_def list_all2_appendI)
  have "filter (\<lambda>op. \<not> outside Q op) (live_ops (a # mid @ [b])) = [a, b]"
    "filter (\<lambda>op. \<not> outside Q op) (live_ops (a' # mid @ [b'])) = live_ops [a', b']"
    using abs filter_mid [OF mid] by (auto simp: live_append acts_in_def)
  then have "replaces n (live_ops (us @ (a # mid @ [b]) @ vs)) (live_ops (us @ (a' # mid @ [b']) @ vs))"
    using r by (intro replaces_block [OF n d]) simp
  then show ?thesis by simp
qed

lemma replaces_triple:
  assumes n: "0 < n" and mid: "\<forall>x \<in> set mid1 \<union> set mid2. getType x = opI \<or> outside Q x"
    and abc: "acts_in Q a" "acts_in Q b" "acts_in Q c" "getType a \<noteq> opI" "getType b \<noteq> opI" "getType c \<noteq> opI"
      "acts_in Q a'" "getType a' \<noteq> opI" "getType b' = opI" "getType c' = opI"
    and r: "replaces n [a, b, c] [a']"
  shows "replaces n (live_ops (us @ a # mid1 @ b # mid2 @ c # vs)) (live_ops (us @ a' # mid1 @ b' # mid2 @ c' # vs))"
proof -
  have m: "\<forall>x \<in> set mid1. getType x = opI \<or> outside Q x" "\<forall>x \<in> set mid2. getType x = opI \<or> outside Q x"
    using mid by auto
  have d: "differ_in Q (a # mid1 @ b # mid2 @ [c]) (a' # mid1 @ b' # mid2 @ [c'])"
    using differ_in_same [OF m(1)] differ_in_same [OF m(2)] abc by (simp add: differ_in_def list_all2_appendI)
  have "filter (\<lambda>op. \<not> outside Q op) (live_ops (a # mid1 @ b # mid2 @ [c])) = [a, b, c]"
    "filter (\<lambda>op. \<not> outside Q op) (live_ops (a' # mid1 @ b' # mid2 @ [c'])) = [a']"
    using abc filter_mid [OF m(1)] filter_mid [OF m(2)] by (auto simp: live_append acts_in_def)
  then have "replaces n (live_ops (us @ (a # mid1 @ b # mid2 @ [c]) @ vs)) (live_ops (us @ (a' # mid1 @ b' # mid2 @ [c']) @ vs))"
    using r by (intro replaces_block [OF n d]) simp
  then show ?thesis by simp
qed

lemma split_two:
  assumes "j < i" "i < length ops"
  obtains us mid vs where "ops = us @ ops ! j # mid @ ops ! i # vs" "length us = j"
    "ops[j := a, i := b] = us @ a # mid @ b # vs" "\<And>x. x \<in> set mid \<Longrightarrow> \<exists>k. j < k \<and> k < i \<and> x = ops ! k"
proof -
  define us mid vs where "us = take j ops" and "mid = take (i - Suc j) (drop (Suc j) ops)" and "vs = drop (Suc i) ops"
  have len: "length us = j" "length mid = i - Suc j" using assms by (simp_all add: us_def mid_def)
  have "ops = us @ ops ! j # drop (Suc j) ops" using assms by (simp add: us_def id_take_nth_drop [symmetric])
  moreover have "drop (Suc j) ops = mid @ ops ! i # vs"
  proof -
    have "drop (i - Suc j) (drop (Suc j) ops) = ops ! i # vs"
      using assms by (simp add: vs_def Cons_nth_drop_Suc)
    then show ?thesis unfolding mid_def by (metis append_take_drop_id)
  qed
  ultimately have eq: "ops = us @ ops ! j # mid @ ops ! i # vs" by simp
  have "ops[j := a, i := b] = us @ a # mid @ b # vs"
  proof -
    have "(us @ x # mid @ y # vs)[j := a, i := b] = us @ a # mid @ b # vs" for x y
    proof -
      have "i - j = Suc (length mid)" using len assms by simp
      then show ?thesis using len assms by (simp add: list_update_append)
    qed
    then show ?thesis using eq by metis
  qed
  moreover have "\<exists>k. j < k \<and> k < i \<and> x = ops ! k" if "x \<in> set mid" for x
  proof -
    from that obtain m where "m < length mid" "x = mid ! m" by (auto simp: in_set_conv_nth)
    then show ?thesis using assms len by (intro exI [of _ "Suc j + m"]) (simp add: mid_def)
  qed
  ultimately show thesis using that [OF eq len(1)] by blast
qed

end
