(* ===== verification/OptCancelSound.thy ===== *)
theory OptCancelSound
  imports OptGates
begin

text \<open>
  \<open>swapReconstruction\<close> and \<open>cancelCNOTs\<close> return a circuit with the same decision diagram.  The
  queues of the graph hold every operation so far that acts on their qubit and is no identity, so
  the operations between the last one on two qubits and the current one can be moved out of the way.
\<close>

section \<open>The invariant of the graph\<close>

definition dag_ok :: "nat \<Rightarrow> dag_state \<Rightarrow> bool" where
  "dag_ok i st \<longleftrightarrow> (case st of (ops, dag) \<Rightarrow>
     (\<forall>q < length dag. strictly_sorted (dag ! q) \<and> (\<forall>j \<in> set (dag ! q). j < i \<and> actsOn (ops ! j) q)) \<and>
     (\<forall>j < i. getType (ops ! j) \<noteq> opI \<longrightarrow> (\<forall>q. actsOn (ops ! j) q \<longrightarrow> q < length dag \<and> j \<in> set (dag ! q))))"

definition state_ok :: "nat \<Rightarrow> mEdge \<Rightarrow> nat \<Rightarrow> dag_state \<Rightarrow> bool" where
  "state_ok n e i st \<longleftrightarrow> list_all regular (fst st) \<and> circuit_DD n (live_ops (fst st)) = Inr e \<and> dag_ok i st \<and>
     list_all (qubits_below (length (snd st))) (fst st)"

lemma dag_okI:
  assumes "\<And>q. q < length dag \<Longrightarrow> strictly_sorted (dag ! q)"
    and "\<And>q k. q < length dag \<Longrightarrow> k \<in> set (dag ! q) \<Longrightarrow> k < i \<and> actsOn (ops ! k) q"
    and "\<And>k q. k < i \<Longrightarrow> getType (ops ! k) \<noteq> opI \<Longrightarrow> actsOn (ops ! k) q \<Longrightarrow> q < length dag \<and> k \<in> set (dag ! q)"
  shows "dag_ok i (ops, dag)"
  using assms unfolding dag_ok_def prod.case by blast

lemma dag_sorted: "dag_ok i (ops, dag) \<Longrightarrow> q < length dag \<Longrightarrow> strictly_sorted (dag ! q)"
  unfolding dag_ok_def prod.case by blast

lemma dag_entry: "dag_ok i (ops, dag) \<Longrightarrow> q < length dag \<Longrightarrow> k \<in> set (dag ! q) \<Longrightarrow> k < i \<and> actsOn (ops ! k) q"
  unfolding dag_ok_def prod.case by blast

lemma dag_acts:
  "dag_ok i (ops, dag) \<Longrightarrow> k < i \<Longrightarrow> getType (ops ! k) \<noteq> opI \<Longrightarrow> actsOn (ops ! k) q \<Longrightarrow>
    q < length dag \<and> k \<in> set (dag ! q)"
  unfolding dag_ok_def prod.case by blast

definition pushed :: "Operation \<Rightarrow> nat \<Rightarrow> nat list list \<Rightarrow> nat list list" where
  "pushed op i dag = map (\<lambda>q. if actsOn op q then dag ! q @ [i] else dag ! q) [0..<length dag]"

lemma pushed_nth:
  "length (pushed op i dag) = length dag"
  "q < length dag \<Longrightarrow> pushed op i dag ! q = (if actsOn op q then dag ! q @ [i] else dag ! q)"
  by (simp_all add: pushed_def)

lemma dag_push:
  assumes dag: "dag_ok i (ops, dag)" and lt: "\<And>q. actsOn (ops ! i) q \<Longrightarrow> q < length dag"
  shows "dag_ok (Suc i) (ops, pushed (ops ! i) i dag)"
proof (rule dag_okI; unfold pushed_nth(1))
  fix q
  assume q: "q < length dag"
  have "\<forall>k \<in> set (dag ! q). k < i" using dag_entry [OF dag q] by blast
  then show "strictly_sorted (pushed (ops ! i) i dag ! q)"
    using dag_sorted [OF dag q] by (simp add: pushed_nth q sorted_wrt_append)
next
  fix q k
  assume q: "q < length dag" and "k \<in> set (pushed (ops ! i) i dag ! q)"
  then have "k = i \<and> actsOn (ops ! i) q \<or> k \<in> set (dag ! q)" by (simp add: pushed_nth q split: if_splits)
  then show "k < Suc i \<and> actsOn (ops ! k) q" using dag_entry [OF dag q, of k] by auto
next
  fix k q
  assume k: "k < Suc i" "getType (ops ! k) \<noteq> opI" "actsOn (ops ! k) q"
  show "q < length dag \<and> k \<in> set (pushed (ops ! i) i dag ! q)"
  proof (cases "k = i")
    case True
    then show ?thesis using lt [of q] k(3) by (simp add: pushed_nth)
  next
    case False
    then have "q < length dag \<and> k \<in> set (dag ! q)" using dag_acts [OF dag _ k(2,3)] k(1) by simp
    then show ?thesis by (simp add: pushed_nth)
  qed
qed

lemma addToDag_eq:
  "addToDag ops i dag = (if list_all (\<lambda>q. q < length dag) (getUsedQubits (ops ! i))
     then Inr (pushed (ops ! i) i dag) else Inl OutOfRange)"
proof -
  have "distinct (getUsedQubits (ops ! i))" using getUsedQubits_sorted [of "ops ! i"] by (simp add: strict_sorted_iff)
  from push_uses [OF this refl, of dag i] show ?thesis by (simp add: addToDag_def getUsedQubits_actsOn pushed_def cong: if_cong)
qed

lemma keep_op_eq:
  "keep_op i (ops, dag) = Inr st' \<longleftrightarrow> (\<forall>q. actsOn (ops ! i) q \<longrightarrow> q < length dag) \<and>
    st' = (ops, pushed (ops ! i) i dag)"
  by (auto simp: keep_op_def addToDag_eq list_all_iff getUsedQubits_actsOn)

lemma keep_op_ok:
  assumes "state_ok n e i st" "keep_op i st = Inr st'"
  shows "state_ok n e (Suc i) st'"
proof -
  obtain ops dag where st: "st = (ops, dag)" by force
  show ?thesis using assms dag_push [of i ops dag] unfolding st keep_op_eq state_ok_def by (simp add: pushed_nth)
qed

lemma strictly_sorted_le_last: "strictly_sorted xs \<Longrightarrow> x \<in> set xs \<Longrightarrow> x \<le> last xs" for x :: nat
  by (rule sorted_last_upper)

lemma after_last:
  assumes "dag_ok i (ops, dag)" "q < length dag" "last (dag ! q) < k" "k < i"
  shows "getType (ops ! k) = opI \<or> \<not> actsOn (ops ! k) q"
proof (rule ccontr)
  assume "\<not> ?thesis"
  then have "k \<in> set (dag ! q)" using assms(1,4) by (auto simp: dag_ok_def)
  moreover have "strictly_sorted (dag ! q)" using assms(1,2) by (auto simp: dag_ok_def)
  ultimately have "k \<le> last (dag ! q)" by (intro strictly_sorted_le_last)
  with assms(3) show False by simp
qed

lemma live_matrix:
  assumes n: "0 < n" and ok: "list_all regular ops" "circuit_DD n (live_ops ops) = Inr e" and op: "op \<in> set ops" "getType op \<noteq> opI"
  shows "\<exists>A. ops_matrix n [op] A"
proof -
  have reg: "list_all regular (live_ops ops)" using ok(1) by (auto simp: live_ops_def list_all_iff)
  from circuit_DD_factors [OF n reg] ok(2) obtain ds where ds: "list_all2 (\<lambda>op d. op_DD n op = Inr d) (live_ops ops) ds" by blast
  have "op \<in> set (live_ops ops)" using op by (simp add: live_ops_def)
  then obtain i where i: "i < length (live_ops ops)" "op = live_ops ops ! i" by (auto simp: in_set_conv_nth)
  then have "op_DD n op = Inr (ds ! i)" using ds by (auto simp: list_all2_conv_all_nth)
  moreover have "regular op" using ok(1) op(1) by (simp add: list_all_iff)
  ultimately show ?thesis using ops_matrix_single [OF n] by blast
qed

lemma state_cnot:
  "0 < n \<Longrightarrow> state_ok n e i (ops, dag) \<Longrightarrow> j < length ops \<Longrightarrow> is_cnot (ops ! j) \<Longrightarrow>
    \<exists>t. cnot_at n (ops ! j) (first_control (ops ! j)) t"
  using live_matrix [of n ops e "ops ! j"] is_cnot_at [of n "ops ! j"] by (auto simp: state_ok_def is_cnot_def)

lemma state_swap:
  "0 < n \<Longrightarrow> state_ok n e i (ops, dag) \<Longrightarrow> j < length ops \<Longrightarrow> is_swap (ops ! j) \<Longrightarrow> \<exists>a b. swap_at n (ops ! j) a b"
  using live_matrix [of n ops e "ops ! j"] is_swap_at [of n "ops ! j"] by (auto simp: state_ok_def is_swap_def)

lemma list_all_update: "list_all P ops \<Longrightarrow> P a \<Longrightarrow> list_all P (ops[j := a])"
  using set_update_subset_insert [of ops j a] by (auto simp: list_all_iff)

text \<open>A pair of operations that are next to each other on their two qubits is replaced.\<close>

lemma pair_ok:
  assumes n: "0 < n" and ok: "state_ok n e i (ops, dag)" and i: "i < length ops"
    and q: "q0 < length dag" "q1 < length dag" "dag ! q0 \<noteq> []"
    and j: "j = last (dag ! q0)" "j = last (dag ! q1)"
    and acts: "acts_in {q0, q1} (ops ! j)" "acts_in {q0, q1} (ops ! i)" "getType (ops ! j) \<noteq> opI" "getType (ops ! i) \<noteq> opI"
      "getType a = opI \<or> acts_in {q0, q1} a" "getType b = opI \<or> acts_in {q0, q1} b"
    and reg: "regular a" "regular b" and r: "replaces n [ops ! j, ops ! i] (live_ops [a, b])"
    and below: "\<And>q. actsOn a q \<or> actsOn b q \<Longrightarrow> q < length dag" and len: "length dag' = length dag"
    and dag': "dag_ok (Suc i) (ops[j := a, i := b], dag')"
  shows "state_ok n e (Suc i) (ops[j := a, i := b], dag')"
proof -
  have dag: "dag_ok i (ops, dag)" and e: "circuit_DD n (live_ops ops) = Inr e" and regs: "list_all regular ops"
    and belows: "list_all (qubits_below (length dag)) ops"
    using ok by (simp_all add: state_ok_def)
  have ji: "j < i" using dag_entry [OF dag q(1) last_in_set [OF q(3)]] j(1) by simp
  obtain us mid vs where split: "ops = us @ ops ! j # mid @ ops ! i # vs" "length us = j"
    "ops[j := a, i := b] = us @ a # mid @ b # vs" "\<And>x. x \<in> set mid \<Longrightarrow> \<exists>k. j < k \<and> k < i \<and> x = ops ! k"
    by (rule split_two [OF ji i, of a b]) blast
  have "\<forall>x \<in> set mid. getType x = opI \<or> outside {q0, q1} x"
  proof
    fix x
    assume "x \<in> set mid"
    from split(4) [OF this] obtain k where k: "j < k" "k < i" "x = ops ! k" by blast
    show "getType x = opI \<or> outside {q0, q1} x"
      using after_last [OF dag q(1), of k] after_last [OF dag q(2), of k] k j by (auto simp: outside_def)
  qed
  from replaces_pair [OF n this acts r, of us vs]
  have "replaces n (live_ops ops) (live_ops (us @ a # mid @ b # vs))" unfolding split(1) [symmetric] .
  then have rep: "replaces n (live_ops ops) (live_ops (ops[j := a, i := b]))" unfolding split(3) .
  have "list_all regular (ops[j := a, i := b])" by (intro list_all_update regs reg)
  moreover have "list_all (qubits_below (length dag)) (ops[j := a, i := b])"
    by (intro list_all_update belows) (simp_all add: qubits_below_actsOn below)
  moreover have "list_all regular (live_ops ops)" using regs by (auto simp: live_ops_def list_all_iff)
  ultimately show ?thesis using rep e dag' len by (simp add: state_ok_def replaces_def)
qed

section \<open>The steps keep the invariant\<close>

lemma pop_back_nth:
  "length (pop_back q dag) = length dag"
  "p < length dag \<Longrightarrow> pop_back q dag ! p = (if p = q then butlast (dag ! p) else dag ! p)"
  by (simp_all add: pop_back_def nth_list_update)

lemma in_butlast: "x \<in> set (butlast xs) \<longleftrightarrow> x \<in> set xs \<and> x \<noteq> last xs" if "strictly_sorted xs" for xs :: "nat list"
  using that by (induction xs) auto

lemma dag_pop:
  assumes dag: "dag_ok i (ops, dag)" and i: "j < i" "i < length ops"
    and q: "q0 \<noteq> q1" "last (dag ! q0) = j" "last (dag ! q1) = j"
    and only: "\<And>q. actsOn (ops ! j) q \<Longrightarrow> q = q0 \<or> q = q1" and I: "getType a = opI" "getType b = opI"
  shows "dag_ok (Suc i) (ops[j := a, i := b], pop_back q1 (pop_back q0 dag))"
proof -
  let ?ops = "ops[j := a, i := b]" and ?dag = "pop_back q1 (pop_back q0 dag)"
  have len: "length ?dag = length dag" by (simp add: pop_back_nth)
  have nth: "?dag ! q = (if q = q0 \<or> q = q1 then butlast (dag ! q) else dag ! q)" if "q < length dag" for q
    using that q(1) by (simp add: pop_back_nth)
  have mem: "k \<in> set (?dag ! q) \<longleftrightarrow> k \<in> set (dag ! q) \<and> k \<noteq> j" if "q < length dag" for k q
    using dag_sorted [OF dag that] dag_entry [OF dag that, of k] only [of q] q
    by (auto simp: nth [OF that] in_butlast)
  have ops: "?ops ! k = (if k = i then b else if k = j then a else ops ! k)" if "k \<le> i" for k
    using that i by (simp add: nth_list_update)
  show ?thesis
  proof (rule dag_okI; unfold len)
    show "strictly_sorted (?dag ! q)" if "q < length dag" for q
      using dag_sorted [OF dag that] by (simp add: nth [OF that] butlast_conv_take sorted_wrt_take)
    show "k < Suc i \<and> actsOn (?ops ! k) q" if "q < length dag" "k \<in> set (?dag ! q)" for k q
      using dag_entry [OF dag that(1), of k] that(2) mem [OF that(1)] ops [of k] by auto
    show "q < length dag \<and> k \<in> set (?dag ! q)" if "k < Suc i" "getType (?ops ! k) \<noteq> opI" "actsOn (?ops ! k) q" for k q
    proof -
      have k: "k \<noteq> i" "k \<noteq> j" "?ops ! k = ops ! k" using ops [of k] that I by (auto split: if_splits)
      then have "q < length dag \<and> k \<in> set (dag ! q)" using dag_acts [OF dag, of k q] that by simp
      then show ?thesis using mem k by blast
    qed
  qed
qed

lemma dag_update:
  assumes dag: "dag_ok i (ops, dag)" and i: "j < i" "i < length ops"
    and a: "\<And>q. actsOn a q \<longleftrightarrow> actsOn (ops ! j) q" and j: "getType (ops ! j) \<noteq> opI"
  shows "dag_ok i (ops[j := a, i := b], dag)"
proof (rule dag_okI)
  have ops: "ops[j := a, i := b] ! k = (if k = j then a else ops ! k)" if "k < i" for k
    using that i by (simp add: nth_list_update)
  show "strictly_sorted (dag ! q)" if "q < length dag" for q by (rule dag_sorted [OF dag that])
  show "k < i \<and> actsOn (ops[j := a, i := b] ! k) q" if "q < length dag" "k \<in> set (dag ! q)" for k q
    using dag_entry [OF dag that] ops [of k] a by auto
  show "q < length dag \<and> k \<in> set (dag ! q)"
    if "k < i" "getType (ops[j := a, i := b] ! k) \<noteq> opI" "actsOn (ops[j := a, i := b] ! k) q" for k q
    using dag_acts [OF dag that(1)] that(2,3) ops [OF that(1)] a j by (cases "k = j") auto
qed

definition two_qubit :: "nat \<Rightarrow> Operation \<Rightarrow> nat \<Rightarrow> nat \<Rightarrow> bool" where
  "two_qubit n op a b \<longleftrightarrow> cnot_at n op a b \<or> cnot_at n op b a \<or> swap_at n op a b \<or> swap_at n op b a"

lemma two_qubit_acts: "two_qubit n op a b \<Longrightarrow> actsOn op q \<longleftrightarrow> q = a \<or> q = b"
  by (auto simp: two_qubit_def cnot_at_acts swap_at_acts)

lemma two_qubit_in: "two_qubit n op a b \<Longrightarrow> acts_in {a, b} op"
  by (auto simp: acts_in_def inside_def outside_def two_qubit_acts)

lemma two_qubit_type: "two_qubit n op a b \<Longrightarrow> getType op \<noteq> opI \<and> isStandardOperation op \<and> a \<noteq> b"
  by (auto simp: two_qubit_def cnot_at_def swap_at_def)

lemma two_qubit_regular: "two_qubit n op a b \<Longrightarrow> regular op"
  by (auto simp: two_qubit_def cnot_at_def swap_at_def regular_standard)

lemma equiv_replaces: "equiv_ops n xs ys \<Longrightarrow> replaces n xs ys"
  by (simp add: equiv_ops_def)

lemma live_two: "two_qubit n x a b \<Longrightarrow> two_qubit n y a b \<Longrightarrow> live_ops [x, y] = [x, y]"
  using two_qubit_type by (auto simp: live_ops_def)

lemma eliminate_ok:
  assumes n: "0 < n" and ok: "state_ok n e i (ops, dag)" and i: "i < length ops"
    and q: "q0 < length dag" "q1 < length dag" "dag ! q0 \<noteq> []" and j: "last (dag ! q0) = j" "last (dag ! q1) = j"
    and two: "two_qubit n (ops ! j) q0 q1" "two_qubit n (ops ! i) q0 q1" and r: "equiv_ops n [ops ! j, ops ! i] []"
    and st': "eliminate j i q0 q1 (ops, dag) = Inr st'"
  shows "state_ok n e (Suc i) st' \<and> length (fst st') = length ops"
proof -
  obtain a where a: "make_identity (ops ! j) = Inr a" "getType a = opI" "regular a" "\<forall>q. actsOn a q \<longrightarrow> actsOn (ops ! j) q"
    using make_identity_standard two_qubit_type [OF two(1)] by blast
  obtain b where b: "make_identity (ops ! i) = Inr b" "getType b = opI" "regular b" "\<forall>q. actsOn b q \<longrightarrow> actsOn (ops ! i) q"
    using make_identity_standard two_qubit_type [OF two(2)] by blast
  have st: "st' = (ops[j := a, i := b], pop_back q1 (pop_back q0 dag))"
    using st' a(1) b(1) by (simp add: eliminate_def)
  have dag: "dag_ok i (ops, dag)" using ok by (simp add: state_ok_def)
  have ji: "j < i" using dag_entry [OF dag q(1) last_in_set [OF q(3)]] j(1) by simp
  have "dag_ok (Suc i) (ops[j := a, i := b], pop_back q1 (pop_back q0 dag))"
    by (rule dag_pop [OF dag ji i _ j _ a(2) b(2)]) (use two_qubit_acts [OF two(1)] two_qubit_type [OF two(1)] in auto)
  from pair_ok [OF n ok i q j [symmetric] two_qubit_in [OF two(1)] two_qubit_in [OF two(2)] _ _ _ _ a(3) b(3) _ _ _ this]
  show ?thesis using two_qubit_type [OF two(1)] two_qubit_type [OF two(2)] equiv_replaces [OF r] a(2,4) b(2,4)
      two_qubit_acts [OF two(1)] two_qubit_acts [OF two(2)] q(1,2) by (auto simp: st live_ops_def pop_back_nth)
qed

lemma exchange_ok:
  assumes n: "0 < n" and ok: "state_ok n e i (ops, dag)" and i: "i < length ops"
    and q: "q0 < length dag" "q1 < length dag" "dag ! q0 \<noteq> []" and j: "last (dag ! q0) = j" "last (dag ! q1) = j"
    and two: "two_qubit n (ops ! j) q0 q1" "two_qubit n (ops ! i) q0 q1" "two_qubit n a q0 q1" "two_qubit n b q0 q1"
    and r: "equiv_ops n [ops ! j, ops ! i] [a, b]" and st': "keep_op i (ops[j := a, i := b], dag) = Inr st'"
  shows "state_ok n e (Suc i) st' \<and> length (fst st') = length ops"
proof -
  have dag: "dag_ok i (ops, dag)" using ok by (simp add: state_ok_def)
  have ji: "j < i" using dag_entry [OF dag q(1) last_in_set [OF q(3)]] j(1) by simp
  have "dag_ok i (ops[j := a, i := b], dag)"
    by (rule dag_update [OF dag ji i]) (use two_qubit_acts [OF two(1)] two_qubit_acts [OF two(3)] two_qubit_type [OF two(1)] in auto)
  from dag_push [OF this] st' have st: "fst st' = ops[j := a, i := b]" and "dag_ok (Suc i) st'"
    and len: "length (snd st') = length dag"
    unfolding keep_op_eq by (auto simp: pushed_nth)
  then have d: "dag_ok (Suc i) (ops[j := a, i := b], snd st')" by (metis prod.collapse)
  from pair_ok [OF n ok i q j [symmetric] two_qubit_in [OF two(1)] two_qubit_in [OF two(2)] _ _ _ _
      two_qubit_regular [OF two(3)] two_qubit_regular [OF two(4)] _ _ len d]
  show ?thesis using two_qubit_type [OF two(1)] two_qubit_type [OF two(2)] equiv_replaces [OF r]
      two_qubit_in [OF two(3)] two_qubit_in [OF two(4)] live_two [OF two(3,4)] st
      two_qubit_acts [OF two(3)] two_qubit_acts [OF two(4)] q(1,2) by (metis length_list_update prod.collapse)
qed

lemma pushed_back:
  assumes dag: "q0 < length dag" "q1 < length dag" "dag ! q0 \<noteq> []" "dag ! q1 \<noteq> []" "q0 \<noteq> q1"
    and j: "last (dag ! q0) = j" "last (dag ! q1) = j" and acts: "\<And>q. actsOn op q \<longleftrightarrow> q = q0 \<or> q = q1"
  shows "pushed op j (pop_back q1 (pop_back q0 dag)) = dag"
proof (rule nth_equalityI)
  fix q
  assume "q < length (pushed op j (pop_back q1 (pop_back q0 dag)))"
  then have q: "q < length dag" by (simp add: pushed_nth pop_back_nth)
  then have nth: "pop_back q1 (pop_back q0 dag) ! q = (if q = q0 \<or> q = q1 then butlast (dag ! q) else dag ! q)"
    using dag(5) by (simp add: pop_back_nth)
  show "pushed op j (pop_back q1 (pop_back q0 dag)) ! q = dag ! q"
  proof (cases "q = q0 \<or> q = q1")
    case True
    then have "butlast (dag ! q) @ [j] = dag ! q" using dag(3,4) j by (metis append_butlast_last_id)
    then show ?thesis using True q acts [of q] by (simp add: pushed_nth pop_back_nth(1) nth)
  next
    case False
    then show ?thesis using q acts [of q] by (simp add: pushed_nth pop_back_nth(1) nth)
  qed
qed (simp add: pushed_nth pop_back_nth)

lemma clear_swap:
  assumes "isStandardOperation op" "a < n" "b < n" "a \<noteq> b"
  shows "\<exists>op'. clearControls (with_targets (sorted_pair a b) (with_gate opSWAP op)) = Inr op' \<and> swap_at n op' (min a b) (max a b)"
proof -
  have "isStandardOperation (with_targets (sorted_pair a b) (with_gate opSWAP op))" using assms by simp
  then show ?thesis using assms
    by (auto simp: clearControls_standard swap_at_def sorted_pair_def op_setGate_def std_clearControls_def min_def max_def)
qed

lemma two_qubit_minmax: "swap_at n op (min a b) (max a b) \<Longrightarrow> two_qubit n op a b"
  by (auto simp: two_qubit_def min_def max_def split: if_splits)

lemma minmax_set: "{min a b, max a b} = {a, b}" for a b :: nat
  by (auto simp: min_def max_def)

lemma reconstruct_swap_ok:
  assumes n: "0 < n" and ok: "state_ok n e i (ops, dag)" and i: "i < length ops"
    and q: "c < length dag" "t < length dag" "dag ! c \<noteq> []" "dag ! t \<noteq> []" and j: "last (dag ! c) = j" "last (dag ! t) = j"
    and cnot: "cnot_at n (ops ! j) t c" "cnot_at n (ops ! i) c t"
    and st': "reconstruct_swap j i c t (ops, dag) = Inr st'"
  shows "state_ok n e (Suc i) st' \<and> length (fst st') = length ops"
proof -
  have ct: "c < n" "t < n" "c \<noteq> t" "isStandardOperation (ops ! j)" "isStandardOperation (ops ! i)" "getType (ops ! i) = opX"
    using cnot by (auto simp: cnot_at_def)
  have dag: "dag_ok i (ops, dag)" using ok by (simp add: state_ok_def)
  have ji: "j < i" using dag_entry [OF dag q(1) last_in_set [OF q(3)]] j(1) by simp
  obtain a where a: "clearControls (with_targets (sorted_pair c t) (with_gate opSWAP (ops ! j))) = Inr a" "swap_at n a (min c t) (max c t)"
    using clear_swap [OF ct(4,1,2,3)] by blast
  obtain b where b: "setControls [Control t Pos] (with_targets [c] (ops ! i)) = Inr b" "cnot_at n b t c"
    using turned_cnot [OF ct(5,6,2,1)] ct(3) by blast
  have two: "two_qubit n (ops ! j) c t" "two_qubit n (ops ! i) c t" "two_qubit n a c t" "two_qubit n b c t"
    using cnot b(2) two_qubit_minmax [OF a(2)] by (simp_all add: two_qubit_def)
  have "ops[j := a] ! j = a" "ops[j := a] ! i = ops ! i" using ji i by simp_all
  moreover have "pushed a j (pop_back t (pop_back c dag)) = dag"
    by (rule pushed_back [OF q ct(3) j two_qubit_acts [OF two(3)]])
  ultimately have "keep_op i (ops[j := a, i := b], dag) = Inr st'"
    using st' a(1) b(1) ct(4,5) by (auto simp: reconstruct_swap_def Let_def addToDag_eq and_then_eq_Inr split: if_splits)
  from exchange_ok [OF n ok i q(1-3) j two turned_cnots [OF n cnot a(2) minmax_set b(2)] this] show ?thesis .
qed

lemma at_res_Inr: "at_res xs k = Inr x \<longleftrightarrow> k < length xs \<and> x = xs ! k"
  by (auto simp: at_res_def)

lemma state_cnot_at:
  assumes "0 < n" "state_ok n e i (ops, dag)" "j < length ops" "is_cnot (ops ! j)" "at_res (getTargets (ops ! j)) 0 = Inr t"
  shows "cnot_at n (ops ! j) (first_control (ops ! j)) t"
  using state_cnot [OF assms(1-4)] assms(5) by (auto simp: at_res_Inr cnot_at_def)

lemma last_same:
  assumes dag: "dag_ok i (ops, dag)" and q: "q0 < length dag" "q1 < length dag" "dag ! q0 \<noteq> []" "dag ! q1 \<noteq> []"
    and two: "two_qubit n (ops ! last (dag ! q0)) q0 q1" "two_qubit n (ops ! last (dag ! q1)) q0 q1"
  shows "last (dag ! q0) = last (dag ! q1)"
proof -
  have le: "last (dag ! p) \<le> last (dag ! r)"
    if "p < length dag" "r < length dag" "dag ! p \<noteq> []" "two_qubit n (ops ! last (dag ! p)) q0 q1" "r = q0 \<or> r = q1" for p r
  proof -
    have "last (dag ! p) < i" using dag_entry [OF dag that(1) last_in_set [OF that(3)]] by simp
    then have "last (dag ! p) \<in> set (dag ! r)"
      using dag_acts [OF dag, of "last (dag ! p)" r] two_qubit_type [OF that(4)] two_qubit_acts [OF that(4), of r] that(5) by blast
    then show ?thesis using strictly_sorted_le_last [OF dag_sorted [OF dag that(2)]] by simp
  qed
  show ?thesis using le [OF q(1,2,3) two(1)] le [OF q(2,1,4) two(2)] by simp
qed

lemma step_kept:
  "state_ok n e i (ops, dag) \<Longrightarrow> keep_op i (ops, dag) = Inr st' \<Longrightarrow> state_ok n e (Suc i) st' \<and> length (fst st') = length ops"
  using keep_op_ok [of n e i "(ops, dag)" st'] by (auto simp: keep_op_eq)

lemma if_chain:
  "(if \<not> A \<or> \<not> B then x else if C \<and> C' then y else if D \<and> D' then z else x) = r \<Longrightarrow> x \<noteq> r \<Longrightarrow>
    A \<and> B \<and> (C \<and> C' \<and> y = r \<or> D \<and> D' \<and> z = r)"
  by (auto split: if_splits)

lemma swapReconstruction_step_ok:
  assumes n: "0 < n" and ok: "state_ok n e i (ops, dag)" and i: "i < length ops"
    and st': "swapReconstruction_step i (ops, dag) = Inr st'"
  shows "state_ok n e (Suc i) st' \<and> length (fst st') = length ops"
proof (cases "keep_op i (ops, dag) = Inr st'")
  case True
  then show ?thesis by (rule step_kept [OF ok])
next
  case False
  define c where "c = first_control (ops ! i)"
  have op: "isStandardOperation (ops ! i)" "is_cnot (ops ! i)"
    using st' False by (auto simp: swapReconstruction_step_def Let_def split: if_splits)
  then obtain t where t: "at_res (getTargets (ops ! i)) 0 = Inr t" "c < length dag" "dag ! c \<noteq> []" "t < length dag" "dag ! t \<noteq> []"
    using st' False by (auto simp: swapReconstruction_step_def c_def Let_def and_then_eq_Inr at_res_Inr split: if_splits)
  define j k where "j = last (dag ! c)" and "k = last (dag ! t)"
  have dt: "at_res dag c = Inr (dag ! c)" "at_res dag t = Inr (dag ! t)" using t by (simp_all add: at_res_Inr)
  have jk: "is_cnot (ops ! j)" "is_cnot (ops ! k)"
    using st' False op t(1,3,5) dt
    by (auto simp: swapReconstruction_step_def Let_def c_def [symmetric] j_def [symmetric] k_def [symmetric] split: if_splits)
  have dag: "dag_ok i (ops, dag)" using ok by (simp add: state_ok_def)
  have less: "j < length ops" "k < length ops"
    using dag_entry [OF dag t(2) last_in_set [OF t(3)]] dag_entry [OF dag t(4) last_in_set [OF t(5)]] i
    by (simp_all add: j_def k_def)
  obtain tj tk where tjk: "at_res (getTargets (ops ! j)) 0 = Inr tj" "at_res (getTargets (ops ! k)) 0 = Inr tk"
    using state_cnot [OF n ok less(1) jk(1)] state_cnot [OF n ok less(2) jk(2)] by (auto simp: at_res_Inr cnot_at_def)
  have at: "cnot_at n (ops ! i) c t" "cnot_at n (ops ! j) (first_control (ops ! j)) tj" "cnot_at n (ops ! k) (first_control (ops ! k)) tk"
    using state_cnot_at [OF n ok i op(2) t(1)] state_cnot_at [OF n ok less(1) jk(1) tjk(1)]
      state_cnot_at [OF n ok less(2) jk(2) tjk(2)] by (simp_all add: c_def)
  have "swapReconstruction_step i (ops, dag) = (if first_control (ops ! j) \<noteq> first_control (ops ! k) \<or> tj \<noteq> tk then keep_op i (ops, dag)
     else if c = first_control (ops ! j) \<and> t = tj then eliminate j i c t (ops, dag)
     else if c = tj \<and> t = first_control (ops ! j) then reconstruct_swap j i c t (ops, dag)
     else keep_op i (ops, dag))"
    by (simp only: swapReconstruction_step_def Let_def prod.case c_def [symmetric] op t(1,3,5) dt j_def [symmetric]
        k_def [symmetric] jk tjk and_then.simps not_True_eq_False if_False if_True simp_thms)
  from if_chain [OF this [symmetric, unfolded st'] False]
  have same: "first_control (ops ! j) = first_control (ops ! k)" "tj = tk"
    and cancel: "c = first_control (ops ! j) \<and> t = tj \<and> eliminate j i c t (ops, dag) = Inr st' \<or>
      c = tj \<and> t = first_control (ops ! j) \<and> reconstruct_swap j i c t (ops, dag) = Inr st'" by blast+
  have two: "two_qubit n (ops ! j) c t" "two_qubit n (ops ! k) c t" "two_qubit n (ops ! i) c t"
    using at same cancel by (auto simp: two_qubit_def)
  have kj: "last (dag ! c) = j" "last (dag ! t) = j"
    using last_same [OF dag t(2,4,3,5) two(1) [unfolded j_def] two(2) [unfolded k_def]] by (simp_all add: j_def)
  from cancel show ?thesis
  proof (elim disjE conjE)
    assume e: "c = first_control (ops ! j)" "t = tj" "eliminate j i c t (ops, dag) = Inr st'"
    have "equiv_ops n [ops ! j, ops ! i] []" by (rule two_cnots_cancel [OF n _ at(1)]) (use at(2) e in simp)
    from eliminate_ok [OF n ok i t(2,4,3) kj two(1,3) this e(3)] show ?thesis .
  next
    assume e: "c = tj" "t = first_control (ops ! j)" "reconstruct_swap j i c t (ops, dag) = Inr st'"
    have "cnot_at n (ops ! j) t c" using at(2) e by simp
    from reconstruct_swap_ok [OF n ok i t(2,4,3,5) kj this at(1) e(3)] show ?thesis .
  qed
qed

lemma step_two:
  assumes "0 < n" "state_ok n e i (ops, dag)" "j < length ops" "is_cnot (ops ! j) \<or> is_swap (ops ! j)"
  obtains q0 q1 where "at_res (getTargets (ops ! j)) 0 = Inr q0" "other_qubit (ops ! j) = Inr q1"
    "is_cnot (ops ! j) \<Longrightarrow> cnot_at n (ops ! j) q1 q0" "is_swap (ops ! j) \<Longrightarrow> swap_at n (ops ! j) q0 q1"
    "two_qubit n (ops ! j) q0 q1"
proof (cases "is_cnot (ops ! j)")
  case True
  obtain t where t: "cnot_at n (ops ! j) (first_control (ops ! j)) t" using state_cnot [OF assms(1-3) True] by blast
  then show thesis using True cnot_not_swap(1) [OF True]
    by (intro that [of t "first_control (ops ! j)"]) (auto simp: at_res_Inr cnot_at_def other_qubit_def two_qubit_def)
next
  case False
  then have sw: "is_swap (ops ! j)" using assms(4) by simp
  obtain a b where t: "swap_at n (ops ! j) a b" using state_swap [OF assms(1-3) sw] by blast
  then show thesis using False sw
    by (intro that [of a b]) (auto simp: at_res_Inr swap_at_def other_qubit_def two_qubit_def)
qed

lemma two_qubit_same:
  assumes "two_qubit n op a b" "actsOn op c" "actsOn op d" "c \<noteq> d"
  shows "two_qubit n op c d \<and> (a = c \<and> b = d \<or> a = d \<and> b = c)"
  using assms two_qubit_acts [OF assms(1)] by (auto simp: two_qubit_def)

lemma swap_sorted:
  "isStandardOperation op \<Longrightarrow> a < n \<Longrightarrow> b < n \<Longrightarrow> a \<noteq> b \<Longrightarrow>
    \<exists>op'. clearControls (with_gate opSWAP op) = Inr op' \<and> isStandardOperation op' \<and> swap_at n (with_targets (sorted_pair a b) op') (min a b) (max a b)"
  by (auto simp: clearControls_standard swap_at_def sorted_pair_def op_setGate_def std_clearControls_def min_def max_def)

lemma split_three:
  assumes "k < j" "j < i" "i < length ops"
  obtains us mid1 mid2 vs where "ops = us @ ops ! k # mid1 @ ops ! j # mid2 @ ops ! i # vs"
    "ops[k := a, j := b, i := c] = us @ a # mid1 @ b # mid2 @ c # vs"
    "\<And>x. x \<in> set mid1 \<Longrightarrow> \<exists>m. k < m \<and> m < j \<and> x = ops ! m" "\<And>x. x \<in> set mid2 \<Longrightarrow> \<exists>m. j < m \<and> m < i \<and> x = ops ! m"
proof -
  obtain us mid2 vs where s: "ops = us @ ops ! j # mid2 @ ops ! i # vs" "length us = j"
    "ops[j := b, i := c] = us @ b # mid2 @ c # vs" "\<And>x. x \<in> set mid2 \<Longrightarrow> \<exists>m. j < m \<and> m < i \<and> x = ops ! m"
    by (rule split_two [OF assms(2,3), of b c]) blast
  have nth: "us ! m = ops ! m" if "m < j" for m
  proof -
    have "(us @ ops ! j # mid2 @ ops ! i # vs) ! m = us ! m" using that s(2) by (simp add: nth_append)
    then show ?thesis unfolding s(1) [symmetric] by simp
  qed
  define us1 mid1 where "us1 = take k us" and "mid1 = drop (Suc k) us"
  have us: "us = us1 @ ops ! k # mid1" using assms(1) s(2) nth [of k] id_take_nth_drop [of k us] by (simp add: us1_def mid1_def)
  have len: "length us1 = k" using assms(1) s(2) by (simp add: us1_def)
  have "ops = us1 @ ops ! k # mid1 @ ops ! j # mid2 @ ops ! i # vs" using s(1) unfolding us by simp
  moreover have "ops[k := a, j := b, i := c] = us1 @ a # mid1 @ b # mid2 @ c # vs"
  proof -
    have "ops[k := a, j := b, i := c] = (ops[j := b, i := c])[k := a]" using assms by (simp add: list_update_swap)
    also have "\<dots> = us1 @ a # mid1 @ b # mid2 @ c # vs" unfolding s(3) us using len by (simp add: list_update_append)
    finally show ?thesis .
  qed
  moreover have "\<exists>m. k < m \<and> m < j \<and> x = ops ! m" if x: "x \<in> set mid1" for x
  proof -
    from x obtain m where "m < length mid1" "x = mid1 ! m" by (auto simp: in_set_conv_nth)
    then have "x = us ! (Suc k + m)" "Suc k + m < j" using s(2) by (auto simp: mid1_def)
    then show ?thesis using nth [of "Suc k + m"] by (intro exI [of _ "Suc k + m"]) simp
  qed
  ultimately show thesis using that s(4) by blast
qed

lemma before_last:
  assumes dag: "dag_ok i (ops, dag)" and q: "q < length dag" "last (butlast (dag ! q)) < k" "k < last (dag ! q)" "k < i"
  shows "getType (ops ! k) = opI \<or> \<not> actsOn (ops ! k) q"
proof (rule ccontr)
  assume "\<not> ?thesis"
  then have "k \<in> set (dag ! q)" using dag_acts [OF dag q(4), of q] by blast
  then have "k \<in> set (butlast (dag ! q))" using in_butlast [OF dag_sorted [OF dag q(1)]] q(3) by auto
  moreover have "strictly_sorted (butlast (dag ! q))"
    using dag_sorted [OF dag q(1)] by (simp add: butlast_conv_take sorted_wrt_take)
  ultimately show False using strictly_sorted_le_last q(2) by fastforce
qed

lemma three_cnots_ok:
  assumes n: "0 < n" and ok: "state_ok n e i (ops, dag)" and i: "i < length ops"
    and q: "q0 < length dag" "q1 < length dag" "dag ! q0 \<noteq> []" and j: "last (dag ! q0) = j" "last (dag ! q1) = j"
    and cnot: "cnot_at n (ops ! j) q0 q1" "cnot_at n (ops ! i) q1 q0"
    and st': "three_cnots j i q0 q1 q1 q0 (ops, dag) = Inr st'"
  shows "state_ok n e (Suc i) st' \<and> length (fst st') = length ops"
proof (cases "keep_op i (ops, dag) = Inr st'")
  case True
  then show ?thesis by (rule step_kept [OF ok])
next
  case False
  define k where "k = last (butlast (dag ! q0))"
  from st' False have len: "2 \<le> length (dag ! q0)" "2 \<le> length (dag ! q1)" and k1: "last (butlast (dag ! q1)) = k" and kc: "is_cnot (ops ! k)"
    by (auto simp: three_cnots_def Let_def k_def split: if_splits)
  have dag: "dag_ok i (ops, dag)" and e: "circuit_DD n (live_ops ops) = Inr e" and regs: "list_all regular ops"
    and belows: "list_all (qubits_below (length dag)) ops" using ok by (simp_all add: state_ok_def)
  have "butlast (dag ! q0) \<noteq> []" using len(1) by (cases "dag ! q0") auto
  then have "k \<in> set (butlast (dag ! q0))" unfolding k_def by (rule last_in_set)
  then have kin: "k \<in> set (dag ! q0)" "k \<noteq> j" using in_butlast [OF dag_sorted [OF dag q(1)]] j(1) by auto
  then have kj: "k < j" using strictly_sorted_le_last [OF dag_sorted [OF dag q(1)], of k] j(1) by simp
  have ji: "j < i" using dag_entry [OF dag q(1) last_in_set [OF q(3)]] j(1) by simp
  have kl: "k < length ops" using kj ji i by simp
  obtain p0 p1 where p: "at_res (getTargets (ops ! k)) 0 = Inr p0" "cnot_at n (ops ! k) p1 p0"
    using step_two [OF n ok kl] kc by metis
  have p1: "first_control (ops ! k) = p1" using p(2) by (simp add: cnot_at_def)
  obtain a0 where a0: "clearControls (with_gate opSWAP (ops ! k)) = Inr a0" "isStandardOperation a0" "swap_at n (with_targets (sorted_pair q1 q0) a0) (min q1 q0) (max q1 q0)"
    using swap_sorted [of "ops ! k" q1 n q0] p(2) cnot by (auto simp: cnot_at_def)
  define a where "a = with_targets (sorted_pair q1 q0) a0"
  obtain b where b: "make_identity (ops ! j) = Inr b" "getType b = opI" "regular b" "\<forall>q. actsOn b q \<longrightarrow> actsOn (ops ! j) q"
    using make_identity_standard at_standard(1) [OF cnot(1)] by blast
  obtain c where c: "make_identity (ops ! i) = Inr c" "getType c = opI" "regular c" "\<forall>q. actsOn c q \<longrightarrow> actsOn (ops ! i) q"
    using make_identity_standard at_standard(1) [OF cnot(2)] by blast
  have "three_cnots j i q0 q1 q1 q0 (ops, dag) = (if q0 = p0 \<and> q1 = p1
    then Inr (ops[k := a, j := b, i := c], pop_back q1 (pop_back q0 dag)) else keep_op i (ops, dag))"
    using len k1 kc p(1) p1 a0(1,2) at_standard(1) [OF p(2)] b(1) c(1) by (simp add: three_cnots_def Let_def k_def [symmetric] a_def)
  then have pq: "q0 = p0" "q1 = p1" and st: "st' = (ops[k := a, j := b, i := c], pop_back q1 (pop_back q0 dag))"
    using st' False by (auto split: if_splits)
  have two: "two_qubit n (ops ! k) q0 q1" "two_qubit n (ops ! j) q0 q1" "two_qubit n (ops ! i) q0 q1" "two_qubit n a q0 q1"
    using cnot p(2) pq two_qubit_minmax [of n a q0 q1] a0(3) by (simp_all add: two_qubit_def a_def min.commute max.commute)
  obtain us mid1 mid2 vs where s: "ops = us @ ops ! k # mid1 @ ops ! j # mid2 @ ops ! i # vs"
    "ops[k := a, j := b, i := c] = us @ a # mid1 @ b # mid2 @ c # vs"
    "\<And>x. x \<in> set mid1 \<Longrightarrow> \<exists>m. k < m \<and> m < j \<and> x = ops ! m" "\<And>x. x \<in> set mid2 \<Longrightarrow> \<exists>m. j < m \<and> m < i \<and> x = ops ! m"
    by (rule split_three [OF kj ji i, of a b c]) blast
  have between: "\<forall>x \<in> set mid1 \<union> set mid2. getType x = opI \<or> outside {q0, q1} x"
  proof
    fix x
    assume "x \<in> set mid1 \<union> set mid2"
    then consider m where "k < m" "m < j" "x = ops ! m" | m where "j < m" "m < i" "x = ops ! m" using s(3,4) by blast
    then show "getType x = opI \<or> outside {q0, q1} x"
    proof cases
      case 1
      then show ?thesis using before_last [OF dag q(1), of m] before_last [OF dag q(2), of m] k1 j ji
        by (auto simp: outside_def k_def)
    next
      case 2
      then show ?thesis using after_last [OF dag q(1), of m] after_last [OF dag q(2), of m] j by (auto simp: outside_def)
    qed
  qed
  have "equiv_ops n [ops ! k, ops ! j, ops ! i] [a]"
    using three_cnots_swap [OF n _ cnot(1) cnot(2), of "ops ! k" a] p(2) pq a0(3) minmax_set [of q1 q0] by (simp add: a_def)
  from replaces_triple [OF n between two_qubit_in [OF two(1)] two_qubit_in [OF two(2)] two_qubit_in [OF two(3)] _ _ _
      two_qubit_in [OF two(4)] _ b(2) c(2) equiv_replaces [OF this], of us vs]
  have "replaces n (live_ops (us @ ops ! k # mid1 @ ops ! j # mid2 @ ops ! i # vs)) (live_ops (us @ a # mid1 @ b # mid2 @ c # vs))"
    using two two_qubit_type by blast
  then have rep: "replaces n (live_ops ops) (live_ops (fst st'))" unfolding s(1) [symmetric] st s(2) by simp
  have "dag_ok i (ops[k := a, i := ops ! i], dag)"
    by (rule dag_update [OF dag less_trans [OF kj ji] i])
      (use two_qubit_acts [OF two(1)] two_qubit_acts [OF two(4)] two_qubit_type [OF two(1)] in auto)
  moreover have "ops[k := a, i := ops ! i] = ops[k := a]" using kj ji list_update_swap [of k i ops a "ops ! i"] by simp
  ultimately have d: "dag_ok i (ops[k := a], dag)" by simp
  have "ops[k := a] ! j = ops ! j" using kj by simp
  then have "dag_ok (Suc i) (ops[k := a, j := b, i := c], pop_back q1 (pop_back q0 dag))"
    by (intro dag_pop [OF d ji _ _ j _ b(2) c(2)]) (use i two_qubit_acts [OF two(2)] two_qubit_type [OF two(2)] in auto)
  moreover have "list_all regular (fst st')"
    unfolding st fst_conv by (intro list_all_update regs b c two_qubit_regular [OF two(4)])
  moreover have "list_all regular (live_ops ops)" using regs by (auto simp: live_ops_def list_all_iff)
  moreover have "list_all (qubits_below (length (snd st'))) (fst st')"
    unfolding st fst_conv snd_conv pop_back_nth(1)
    by (intro list_all_update belows) (use b(4) c(4) q(1,2) two_qubit_acts [OF two(2)] two_qubit_acts [OF two(3)]
        two_qubit_acts [OF two(4)] in \<open>auto simp: qubits_below_actsOn\<close>)
  ultimately show ?thesis using rep e by (simp add: state_ok_def replaces_def st)
qed

lemma cancelCNOTs_step_eq:
  assumes op: "isStandardOperation (ops ! i)" "is_cnot (ops ! i) \<or> is_swap (ops ! i)"
    and q: "at_res (getTargets (ops ! i)) 0 = Inr q0" "other_qubit (ops ! i) = Inr q1"
    and d: "dag ! q0 \<noteq> []" "dag ! q1 \<noteq> []" "at_res dag q0 = Inr (dag ! q0)" "at_res dag q1 = Inr (dag ! q1)"
    and j: "last (dag ! q0) = j" "last (dag ! q1) = j" "is_cnot (ops ! j) \<or> is_swap (ops ! j)"
    and p: "at_res (getTargets (ops ! j)) 0 = Inr p0" "other_qubit (ops ! j) = Inr p1"
  shows "cancelCNOTs_step i (ops, dag) =
    (if is_cnot (ops ! i) \<and> is_cnot (ops ! j) then
       if q0 = p0 \<and> q1 = p1 then eliminate j i q0 q1 (ops, dag) else three_cnots j i q0 q1 p0 p1 (ops, dag)
     else if is_swap (ops ! i) \<and> is_swap (ops ! j) then
       if {q0, q1} = {p0, p1} then eliminate j i q0 q1 (ops, dag) else keep_op i (ops, dag)
     else if is_cnot (ops ! i) then cnot_after_swap j i q0 q1 (ops, dag)
     else swap_after_cnot j i p0 p1 (ops, dag))"
  using op j(3) by (simp only: cancelCNOTs_step_def Let_def prod.case q p d j(1,2)
      and_then.simps not_True_eq_False if_False if_True simp_thms) auto

lemma cancelCNOTs_step_ok:
  assumes n: "0 < n" and ok: "state_ok n e i (ops, dag)" and i: "i < length ops"
    and st': "cancelCNOTs_step i (ops, dag) = Inr st'"
  shows "state_ok n e (Suc i) st' \<and> length (fst st') = length ops"
proof (cases "keep_op i (ops, dag) = Inr st'")
  case True
  then show ?thesis by (rule step_kept [OF ok])
next
  case False
  have op: "isStandardOperation (ops ! i)" "is_cnot (ops ! i) \<or> is_swap (ops ! i)"
    using st' False by (auto simp: cancelCNOTs_step_def Let_def split: if_splits)
  obtain q0 q1 where q: "at_res (getTargets (ops ! i)) 0 = Inr q0" "other_qubit (ops ! i) = Inr q1"
    "is_cnot (ops ! i) \<Longrightarrow> cnot_at n (ops ! i) q1 q0" "is_swap (ops ! i) \<Longrightarrow> swap_at n (ops ! i) q0 q1" "two_qubit n (ops ! i) q0 q1"
    by (rule step_two [OF n ok i op(2)]) blast
  have d: "q0 < length dag" "dag ! q0 \<noteq> []" "q1 < length dag" "dag ! q1 \<noteq> []"
    using st' False op q(1,2) by (auto simp: cancelCNOTs_step_def Let_def and_then_eq_Inr at_res_Inr split: if_splits)
  have dt: "at_res dag q0 = Inr (dag ! q0)" "at_res dag q1 = Inr (dag ! q1)" using d by (simp_all add: at_res_Inr)
  define j where "j = last (dag ! q0)"
  have j: "last (dag ! q1) = j" "is_cnot (ops ! j) \<or> is_swap (ops ! j)"
    using st' False op q(1,2) d(2,4) dt by (auto simp: cancelCNOTs_step_def Let_def j_def [symmetric] split: if_splits)
  have dag: "dag_ok i (ops, dag)" using ok by (simp add: state_ok_def)
  have acts: "j < i" "actsOn (ops ! j) q0" "actsOn (ops ! j) q1"
    using dag_entry [OF dag d(1) last_in_set [OF d(2)]] dag_entry [OF dag d(3) last_in_set [OF d(4)]] j(1) by (simp_all add: j_def)
  have less: "j < length ops" using acts(1) i by simp
  obtain p0 p1 where p: "at_res (getTargets (ops ! j)) 0 = Inr p0" "other_qubit (ops ! j) = Inr p1"
    "is_cnot (ops ! j) \<Longrightarrow> cnot_at n (ops ! j) p1 p0" "is_swap (ops ! j) \<Longrightarrow> swap_at n (ops ! j) p0 p1" "two_qubit n (ops ! j) p0 p1"
    by (rule step_two [OF n ok less j(2)]) blast
  have ne: "q0 \<noteq> q1" using two_qubit_type [OF q(5)] by simp
  have two: "two_qubit n (ops ! j) q0 q1" "p0 = q0 \<and> p1 = q1 \<or> p0 = q1 \<and> p1 = q0"
    using two_qubit_same [OF p(5) acts(2,3) ne] by simp_all
  have j0: "last (dag ! q0) = j" by (simp add: j_def)
  note step = cancelCNOTs_step_eq [OF op q(1,2) d(2,4) dt j0 j(1) j(2) p(1,2)]
  note at = ok i d(1,3,2) j0 j(1)
  consider (cc) "is_cnot (ops ! i)" "is_cnot (ops ! j)" | (ss) "is_swap (ops ! i)" "is_swap (ops ! j)"
    | (cs) "is_cnot (ops ! i)" "is_swap (ops ! j)" | (sc) "is_swap (ops ! i)" "is_cnot (ops ! j)" using op(2) j(2) by blast
  then show ?thesis
  proof cases
    case cc
    have cn: "cnot_at n (ops ! i) q1 q0" "cnot_at n (ops ! j) p1 p0" using q(3) p(3) cc by blast+
    show ?thesis
    proof (cases "q0 = p0 \<and> q1 = p1")
      case True
      then have st: "eliminate j i q0 q1 (ops, dag) = Inr st'" using step st' cc by simp
      have "equiv_ops n [ops ! j, ops ! i] []" by (rule two_cnots_cancel [OF n _ cn(1)]) (use cn(2) True in simp)
      from eliminate_ok [OF n at two(1) q(5) this st] show ?thesis .
    next
      case False
      then have p': "p0 = q1" "p1 = q0" using two(2) by auto
      then have st: "three_cnots j i q0 q1 q1 q0 (ops, dag) = Inr st'" using step st' cc False by auto
      have "cnot_at n (ops ! j) q0 q1" using cn(2) p' by simp
      from three_cnots_ok [OF n at this cn(1) st] show ?thesis .
    qed
  next
    case ss
    have sw: "swap_at n (ops ! i) q0 q1" "swap_at n (ops ! j) p0 p1" using q(4) p(4) ss by blast+
    have same: "{p0, p1} = {q0, q1}" using two(2) by auto
    have "\<not> is_cnot (ops ! i)" using ss cnot_not_swap(1) by blast
    then have st: "eliminate j i q0 q1 (ops, dag) = Inr st'" using step st' ss same by simp
    from eliminate_ok [OF n at two(1) q(5) two_swaps_cancel [OF n sw(2,1) same] st] show ?thesis .
  next
    case cs
    have cn: "cnot_at n (ops ! i) q1 q0" and sw: "swap_at n (ops ! j) p0 p1" using q(3) p(4) cs by blast+
    have less: "q0 < n" "q1 < n" "isStandardOperation (ops ! i)" "getType (ops ! i) = opX" using cn by (auto simp: cnot_at_def)
    have "isStandardOperation (with_gate opX (ops ! j))" "getType (with_gate opX (ops ! j)) = opX"
      using sw by (simp_all add: swap_at_def op_setGate_def)
    from turned_cnot [OF this less(2,1)] obtain a where
      a: "setControls [Control q1 Pos] (with_targets [q0] (with_gate opX (ops ! j))) = Inr a" "cnot_at n a q1 q0" using ne by metis
    obtain b where b: "setControls [Control q0 Pos] (with_targets [q1] (ops ! i)) = Inr b" "cnot_at n b q0 q1"
      using turned_cnot [OF less(3,4,1,2) ne] by blast
    have "\<not> is_cnot (ops ! j)" "\<not> is_swap (ops ! i)" using cs cnot_not_swap(1) by blast+
    then have st: "keep_op i (ops[j := a, i := b], dag) = Inr st'"
      using step st' cs a(1) b(1) less(3) at_standard(2) [OF sw] by (simp add: cnot_after_swap_def)
    have "two_qubit n a q0 q1" "two_qubit n b q0 q1" "{p0, p1} = {q0, q1}" using a b two(2) by (auto simp: two_qubit_def)
    from exchange_ok [OF n at two(1) q(5) this(1,2) swap_cnot [OF n sw this(3) cn a(2) b(2)] st] show ?thesis .
  next
    case sc
    have cn: "cnot_at n (ops ! j) p1 p0" and sw: "swap_at n (ops ! i) q0 q1" using q(4) p(3) sc by blast+
    have less: "p0 < n" "p1 < n" "isStandardOperation (ops ! j)" "getType (ops ! j) = opX" "p0 \<noteq> p1" using cn by (auto simp: cnot_at_def)
    have "isStandardOperation (with_gate opX (ops ! i))" "getType (with_gate opX (ops ! i)) = opX"
      using sw by (simp_all add: swap_at_def op_setGate_def)
    from turned_cnot [OF this less(2,1)] obtain b where
      b: "setControls [Control p1 Pos] (with_targets [p0] (with_gate opX (ops ! i))) = Inr b" "cnot_at n b p1 p0" using less(5) by metis
    obtain a where a: "setControls [Control p0 Pos] (with_targets [p1] (ops ! j)) = Inr a" "cnot_at n a p0 p1"
      using turned_cnot [OF less(3,4,1,2) less(5)] by blast
    have "\<not> is_cnot (ops ! i)" "\<not> is_swap (ops ! j)" using sc cnot_not_swap(1) by blast+
    then have st: "keep_op i (ops[j := a, i := b], dag) = Inr st'"
      using step st' sc a(1) b(1) less(3) at_standard(2) [OF sw] by (simp add: swap_after_cnot_def)
    have "two_qubit n a q0 q1" "two_qubit n b q0 q1" "{q0, q1} = {p0, p1}" using a b two(2) by (auto simp: two_qubit_def)
    from exchange_ok [OF n at two(1) q(5) this(1,2) cnot_swap [OF n cn sw this(3) a(2) b(2)] st] show ?thesis .
  qed
qed

section \<open>The steps return\<close>

lemma keep_returns:
  assumes ok: "state_ok n e i (ops, dag)" and i: "i < length ops"
  shows "\<exists>st'. keep_op i (ops, dag) = Inr st'"
proof -
  have "qubits_below (length dag) (ops ! i)" using ok i by (simp add: state_ok_def list_all_length)
  then show ?thesis by (simp add: keep_op_def addToDag_eq qubits_below_def)
qed

lemma eliminate_returns:
  "isStandardOperation (ops ! j) \<Longrightarrow> isStandardOperation (ops ! i) \<Longrightarrow> \<exists>st'. eliminate j i q0 q1 (ops, dag) = Inr st'"
  using make_identity_standard [of "ops ! j"] make_identity_standard [of "ops ! i"] by (auto simp: eliminate_def)

lemma exchange_returns:
  assumes "two_qubit n b q0 q1" "q0 < length dag" "q1 < length dag" "i < length ops"
  shows "\<exists>st'. keep_op i (ops[j := a, i := b], dag) = Inr st'"
  using assms two_qubit_acts [OF assms(1)] by (auto simp: keep_op_eq)

lemma reconstruct_swap_returns:
  assumes q: "c < length dag" "t < length dag" and j: "j < length ops" "i < length ops" "j \<noteq> i"
    and cnot: "cnot_at n (ops ! j) t c" "cnot_at n (ops ! i) c t"
  shows "\<exists>st'. reconstruct_swap j i c t (ops, dag) = Inr st'"
proof -
  have ct: "c < n" "t < n" "c \<noteq> t" "isStandardOperation (ops ! j)" "isStandardOperation (ops ! i)" "getType (ops ! i) = opX"
    using cnot by (auto simp: cnot_at_def)
  obtain a where a: "clearControls (with_targets (sorted_pair c t) (with_gate opSWAP (ops ! j))) = Inr a" "swap_at n a (min c t) (max c t)"
    using clear_swap [OF ct(4,1,2,3)] by blast
  obtain b where b: "setControls [Control t Pos] (with_targets [c] (ops ! i)) = Inr b" "cnot_at n b t c"
    using turned_cnot [OF ct(5,6,2,1)] ct(3) by blast
  have acts: "actsOn a q \<Longrightarrow> q < length dag" "actsOn b q \<Longrightarrow> q < length dag" for q
    using two_qubit_acts [OF two_qubit_minmax [OF a(2)], of q] cnot_at_acts [OF b(2), of q] q by auto
  let ?dag = "pushed a j (pop_back t (pop_back c dag))"
  have "addToDag (ops[j := a]) j (pop_back t (pop_back c dag)) = Inr ?dag"
    using acts(1) j by (simp add: addToDag_eq list_all_iff getUsedQubits_actsOn pop_back_nth)
  moreover have "keep_op i (ops[j := a, i := b], ?dag) = Inr (ops[j := a, i := b], pushed b i ?dag)"
    unfolding keep_op_eq using acts(2) j by (simp add: pushed_nth pop_back_nth)
  ultimately show ?thesis using a(1) b(1) j ct(4,5) by (simp add: reconstruct_swap_def Let_def)
qed

lemma swapReconstruction_step_returns:
  assumes n: "0 < n" and ok: "state_ok n e i (ops, dag)" and i: "i < length ops"
  shows "\<exists>st'. swapReconstruction_step i (ops, dag) = Inr st'"
proof (cases "isStandardOperation (ops ! i) \<and> is_cnot (ops ! i)")
  case False
  then show ?thesis using keep_returns [OF ok i] by (auto simp: swapReconstruction_step_def Let_def)
next
  case op: True
  define c where "c = first_control (ops ! i)"
  obtain t where t: "cnot_at n (ops ! i) c t" using state_cnot [OF n ok i] op by (auto simp: c_def)
  have "qubits_below (length dag) (ops ! i)" using ok i by (simp add: state_ok_def list_all_length)
  then have q: "c < length dag" "t < length dag" using cnot_at_acts [OF t] by (auto simp: qubits_below_actsOn)
  have get: "at_res (getTargets (ops ! i)) 0 = Inr t" "at_res dag c = Inr (dag ! c)" "at_res dag t = Inr (dag ! t)"
    using t q by (auto simp: at_res_Inr cnot_at_def)
  define j k where "j = last (dag ! c)" and "k = last (dag ! t)"
  have dag: "dag_ok i (ops, dag)" using ok by (simp add: state_ok_def)
  show ?thesis
  proof (cases "dag ! c = [] \<or> dag ! t = [] \<or> \<not> is_cnot (ops ! j) \<or> \<not> is_cnot (ops ! k)")
    case True
    then have "swapReconstruction_step i (ops, dag) = keep_op i (ops, dag)"
      using op get by (auto simp: swapReconstruction_step_def Let_def c_def [symmetric] j_def [symmetric] k_def [symmetric])
    then show ?thesis using keep_returns [OF ok i] by simp
  next
    case False
    then have ne: "dag ! c \<noteq> []" "dag ! t \<noteq> []" and jk: "is_cnot (ops ! j)" "is_cnot (ops ! k)" by auto
    have ji: "j < i" "k < i" using dag_entry [OF dag q(1) last_in_set [OF ne(1)]] dag_entry [OF dag q(2) last_in_set [OF ne(2)]]
      by (simp_all add: j_def k_def)
    then obtain tj tk where at: "cnot_at n (ops ! j) (first_control (ops ! j)) tj" "cnot_at n (ops ! k) (first_control (ops ! k)) tk"
      using state_cnot [OF n ok _ jk(1)] state_cnot [OF n ok _ jk(2)] i by (meson less_trans)
    have tjk: "at_res (getTargets (ops ! j)) 0 = Inr tj" "at_res (getTargets (ops ! k)) 0 = Inr tk"
      using at by (auto simp: at_res_Inr cnot_at_def)
    have "swapReconstruction_step i (ops, dag) = (if first_control (ops ! j) \<noteq> first_control (ops ! k) \<or> tj \<noteq> tk then keep_op i (ops, dag)
     else if c = first_control (ops ! j) \<and> t = tj then eliminate j i c t (ops, dag)
     else if c = tj \<and> t = first_control (ops ! j) then reconstruct_swap j i c t (ops, dag)
     else keep_op i (ops, dag))"
      by (simp only: swapReconstruction_step_def Let_def prod.case c_def [symmetric] op get ne j_def [symmetric]
          k_def [symmetric] jk tjk and_then.simps not_True_eq_False if_False if_True simp_thms)
    moreover have "\<exists>st'. eliminate j i c t (ops, dag) = Inr st'"
      by (rule eliminate_returns) (use at(1) t in \<open>simp_all add: cnot_at_def\<close>)
    moreover have "\<exists>st'. reconstruct_swap j i c t (ops, dag) = Inr st'" if "c = tj" "t = first_control (ops ! j)"
      by (rule reconstruct_swap_returns [OF q _ i _ _ t]) (use at(1) that ji i in auto)
    ultimately show ?thesis using keep_returns [OF ok i] by presburger
  qed
qed

lemma three_cnots_returns:
  assumes n: "0 < n" and ok: "state_ok n e i (ops, dag)" and i: "i < length ops"
    and q: "q0 < length dag" "j < length ops"
    and std: "isStandardOperation (ops ! j)" "isStandardOperation (ops ! i)"
  shows "\<exists>st'. three_cnots j i q0 q1 p0 p1 (ops, dag) = Inr st'"
proof (cases "length (dag ! q0) < 2 \<or> length (dag ! q1) < 2 \<or> last (butlast (dag ! q0)) \<noteq> last (butlast (dag ! q1)) \<or>
    \<not> is_cnot (ops ! last (butlast (dag ! q0)))")
  case True
  then show ?thesis using keep_returns [OF ok i] by (auto simp: three_cnots_def Let_def)
next
  case False
  define k where "k = last (butlast (dag ! q0))"
  have k: "2 \<le> length (dag ! q0)" "2 \<le> length (dag ! q1)" "last (butlast (dag ! q1)) = k" "is_cnot (ops ! k)"
    using False by (auto simp: k_def)
  have "butlast (dag ! q0) \<noteq> []" using k(1) by (cases "dag ! q0") auto
  then have "k \<in> set (dag ! q0)" unfolding k_def by (meson in_set_butlastD last_in_set)
  moreover have "dag_ok i (ops, dag)" using ok by (simp add: state_ok_def)
  ultimately have kl: "k < length ops" using dag_entry [OF _ q(1), of i ops k] i by simp
  obtain t where t: "cnot_at n (ops ! k) (first_control (ops ! k)) t" using state_cnot [OF n ok kl k(4)] by blast
  then have "at_res (getTargets (ops ! k)) 0 = Inr t" by (simp add: at_res_Inr cnot_at_def)
  moreover obtain a where "isStandardOperation (ops ! k)" "clearControls (with_gate opSWAP (ops ! k)) = Inr a" "isStandardOperation a"
    using clearControls_standard [of "with_gate opSWAP (ops ! k)"] t by (simp add: cnot_at_def)
  ultimately show ?thesis
    using k make_identity_standard [OF std(1)] make_identity_standard [OF std(2)] keep_returns [OF ok i]
    by (auto simp: three_cnots_def Let_def k_def [symmetric])
qed

lemma cancelCNOTs_step_returns:
  assumes n: "0 < n" and ok: "state_ok n e i (ops, dag)" and i: "i < length ops"
  shows "\<exists>st'. cancelCNOTs_step i (ops, dag) = Inr st'"
proof (cases "isStandardOperation (ops ! i) \<and> (is_cnot (ops ! i) \<or> is_swap (ops ! i))")
  case False
  then show ?thesis using keep_returns [OF ok i] by (auto simp: cancelCNOTs_step_def Let_def)
next
  case True
  then have op: "isStandardOperation (ops ! i)" "is_cnot (ops ! i) \<or> is_swap (ops ! i)" by simp_all
  obtain q0 q1 where q: "at_res (getTargets (ops ! i)) 0 = Inr q0" "other_qubit (ops ! i) = Inr q1"
    "is_cnot (ops ! i) \<Longrightarrow> cnot_at n (ops ! i) q1 q0" "is_swap (ops ! i) \<Longrightarrow> swap_at n (ops ! i) q0 q1" "two_qubit n (ops ! i) q0 q1"
    by (rule step_two [OF n ok i op(2)]) blast
  have "qubits_below (length dag) (ops ! i)" using ok i by (simp add: state_ok_def list_all_length)
  then have d: "q0 < length dag" "q1 < length dag" using two_qubit_acts [OF q(5)] by (auto simp: qubits_below_actsOn)
  have dt: "at_res dag q0 = Inr (dag ! q0)" "at_res dag q1 = Inr (dag ! q1)" using d by (simp_all add: at_res_Inr)
  define j where "j = last (dag ! q0)"
  show ?thesis
  proof (cases "dag ! q0 = [] \<or> dag ! q1 = [] \<or> last (dag ! q1) \<noteq> j \<or> \<not> is_cnot (ops ! j) \<and> \<not> is_swap (ops ! j)")
    case True
    then have "cancelCNOTs_step i (ops, dag) = keep_op i (ops, dag)"
      using op q(1,2) dt by (auto simp: cancelCNOTs_step_def Let_def j_def [symmetric])
    then show ?thesis using keep_returns [OF ok i] by simp
  next
    case False
    then have ne: "dag ! q0 \<noteq> []" "dag ! q1 \<noteq> []" and j: "last (dag ! q1) = j" "is_cnot (ops ! j) \<or> is_swap (ops ! j)" by auto
    have dag: "dag_ok i (ops, dag)" using ok by (simp add: state_ok_def)
    have acts: "j < i" "actsOn (ops ! j) q0" "actsOn (ops ! j) q1"
      using dag_entry [OF dag d(1) last_in_set [OF ne(1)]] dag_entry [OF dag d(2) last_in_set [OF ne(2)]] j(1) by (simp_all add: j_def)
    have less: "j < length ops" using acts(1) i by simp
    obtain p0 p1 where p: "at_res (getTargets (ops ! j)) 0 = Inr p0" "other_qubit (ops ! j) = Inr p1"
      "is_cnot (ops ! j) \<Longrightarrow> cnot_at n (ops ! j) p1 p0" "is_swap (ops ! j) \<Longrightarrow> swap_at n (ops ! j) p0 p1" "two_qubit n (ops ! j) p0 p1"
      by (rule step_two [OF n ok less j(2)]) blast
    have std: "isStandardOperation (ops ! j)" using two_qubit_type [OF p(5)] by simp
    have j0: "last (dag ! q0) = j" by (simp add: j_def)
    have pl: "p0 < n" "p1 < n" "p0 \<noteq> p1" "q0 < n" "q1 < n" "q0 \<noteq> q1"
      using p(5) q(5) by (auto simp: two_qubit_def cnot_at_def swap_at_def)
    have same: "p0 = q0 \<and> p1 = q1 \<or> p0 = q1 \<and> p1 = q0" using two_qubit_same [OF p(5) acts(2,3) pl(6)] by simp
    have typeX: "getType (with_gate opX op) = opX" for op by (simp add: op_setGate_def)
    have "\<exists>st'. cnot_after_swap j i q0 q1 (ops, dag) = Inr st'" if cn: "is_cnot (ops ! i)"
    proof -
      obtain a where a: "setControls [Control q1 Pos] (with_targets [q0] (with_gate opX (ops ! j))) = Inr a"
        using turned_cnot [of "with_gate opX (ops ! j)" q1 n q0] std typeX pl by auto
      obtain b where b: "setControls [Control q0 Pos] (with_targets [q1] (ops ! i)) = Inr b" "cnot_at n b q0 q1"
        using turned_cnot [of "ops ! i" q0 n q1] q(3) [OF cn] pl by (auto simp: cnot_at_def)
      have "two_qubit n b q0 q1" using b(2) by (simp add: two_qubit_def)
      from exchange_returns [OF this d i, of j a] show ?thesis using a b(1) std op(1) by (simp add: cnot_after_swap_def)
    qed
    moreover have "\<exists>st'. swap_after_cnot j i p0 p1 (ops, dag) = Inr st'" if cn: "is_cnot (ops ! j)"
    proof -
      obtain a where a: "setControls [Control p0 Pos] (with_targets [p1] (ops ! j)) = Inr a"
        using turned_cnot [of "ops ! j" p0 n p1] p(3) [OF cn] pl by (auto simp: cnot_at_def)
      obtain b where b: "setControls [Control p1 Pos] (with_targets [p0] (with_gate opX (ops ! i))) = Inr b" "cnot_at n b p1 p0"
        using turned_cnot [of "with_gate opX (ops ! i)" p1 n p0] op(1) typeX pl by auto
      have "two_qubit n b q0 q1" using b(2) same by (auto simp: two_qubit_def)
      from exchange_returns [OF this d i, of j a] show ?thesis using a b(1) std op(1) by (simp add: swap_after_cnot_def)
    qed
    ultimately show ?thesis
      unfolding cancelCNOTs_step_eq [OF op q(1,2) ne dt j0 j(1) j(2) p(1,2)]
      using eliminate_returns [OF std op(1), of q0 q1 dag] three_cnots_returns [OF n ok i d(1) less std op(1), of q1 p0 p1]
        keep_returns [OF ok i] op(2) j(2) by presburger
  qed
qed

section \<open>The passes\<close>

lemma removeIdentities_live: "removeIdentities (live_ops ops) = removeIdentities ops"
  by (induction ops) (simp_all add: live_ops_def removeIdentities_def removeOperation_def remove_op_def op_matches_def)

lemma live_sound: "0 < n \<Longrightarrow> replaces n ops (live_ops ops)"
  unfolding live_ops_def by (rule replaces_filter) (use identity_leaf in auto)

lemma dag_pass_sound:
  assumes n: "0 < n" and below: "list_all (qubits_below (getHighestPhysicalQubitIndex qc + 1)) (qc_ops qc)"
    and reg: "list_all regular (qc_ops qc)" and e: "circuit_DD n (qc_ops qc) = Inr e"
    and step: "\<And>i ops dag. state_ok n e i (ops, dag) \<Longrightarrow> i < length ops \<Longrightarrow>
      \<exists>st'. step i (ops, dag) = Inr st' \<and> state_ok n e (Suc i) st' \<and> length (fst st') = length ops"
  shows "\<exists>qc'. dag_pass step qc = Inr qc' \<and> list_all regular (qc_ops qc') \<and> circuit_DD n (qc_ops qc') = Inr e"
proof -
  let ?st = "(qc_ops qc, replicate (getHighestPhysicalQubitIndex qc + 1) [])"
  have start: "state_ok n e 0 ?st"
    using live_sound [OF n, of "qc_ops qc"] reg e below by (auto simp: state_ok_def replaces_def dag_ok_def simp del: replicate_Suc)
  have "\<exists>st'. fold_res step [0..<m] ?st = Inr st' \<and> state_ok n e m st' \<and> length (fst st') = length (qc_ops qc)"
    if "m \<le> length (qc_ops qc)" for m
    using that
  proof (induction m)
    case (Suc m)
    then obtain ops dag where st: "fold_res step [0..<m] ?st = Inr (ops, dag)" "state_ok n e m (ops, dag)" "length ops = length (qc_ops qc)"
      by auto
    with step [OF st(2)] Suc.prems show ?case by (auto simp: fold_res_append)
  qed (use start in simp)
  then obtain ops dag where st: "fold_res step [0..<length (qc_ops qc)] ?st = Inr (ops, dag)" "state_ok n e (length (qc_ops qc)) (ops, dag)"
    by fastforce
  have "list_all regular (live_ops ops)" "circuit_DD n (live_ops ops) = Inr e"
    using st(2) by (auto simp: state_ok_def live_ops_def list_all_iff)
  then have "list_all regular (removeIdentities ops) \<and> circuit_DD n (removeIdentities ops) = Inr e"
    using removeIdentities_sound [OF n, of "live_ops ops"] unfolding replaces_def removeIdentities_live by blast
  then show ?thesis using st(1) by (simp add: dag_pass_def del: replicate_Suc add: replicate_Suc [symmetric])
qed

lemma swapReconstruction_sound:
  assumes "0 < n" "list_all (qubits_below (getHighestPhysicalQubitIndex qc + 1)) (qc_ops qc)"
    and "list_all regular (qc_ops qc)" "circuit_DD n (qc_ops qc) = Inr e"
  shows "\<exists>qc'. swapReconstruction qc = Inr qc' \<and> list_all regular (qc_ops qc') \<and> circuit_DD n (qc_ops qc') = Inr e"
  unfolding swapReconstruction_def
  by (rule dag_pass_sound [OF assms])
    (use swapReconstruction_step_returns [OF assms(1)] swapReconstruction_step_ok [OF assms(1)] in blast)

lemma cancelCNOTs_sound:
  assumes "0 < n" "list_all (qubits_below (getHighestPhysicalQubitIndex qc + 1)) (qc_ops qc)"
    and "list_all regular (qc_ops qc)" "circuit_DD n (qc_ops qc) = Inr e"
  shows "\<exists>qc'. cancelCNOTs qc = Inr qc' \<and> list_all regular (qc_ops qc') \<and> circuit_DD n (qc_ops qc') = Inr e"
  unfolding cancelCNOTs_def
  by (rule dag_pass_sound [OF assms])
    (use cancelCNOTs_step_returns [OF assms(1)] cancelCNOTs_step_ok [OF assms(1)] in blast)

end
