(* ===== verification/OptSamples.thy ===== *)
theory OptSamples
  imports OptCancelSound IRSamples
begin

text \<open>Sample circuits for the optimizer.\<close>

abbreviation cnot :: "nat \<Rightarrow> nat \<Rightarrow> Operation" where
  "cnot c t \<equiv> named_gate [Control c Pos] [t] opX"

abbreviation with_ops :: "Operation list \<Rightarrow> QuantumComputation" where
  "with_ops ops \<equiv> (empty_qc 0)\<lparr>qc_ops := ops, nqubits := 2, initialLayout := [(0, 0), (1, 1)]\<rparr>"

lemma cnot_at_sample: "c < n \<Longrightarrow> t < n \<Longrightarrow> c \<noteq> t \<Longrightarrow> cnot_at n (cnot c t) c t"
  by (simp add: cnot_at_def)

lemma cnots_DD:
  "\<exists>e. circuit_DD 2 [cnot 0 1, cnot 1 0] = Inr e" "\<exists>e. circuit_DD 2 [cnot 0 1, cnot 1 0, cnot 0 1] = Inr e"
proof -
  have m: "ops_matrix 2 [cnot 0 1] (perm_mat 2 (cx_map 0 1))" "ops_matrix 2 [cnot 1 0] (perm_mat 2 (cx_map 1 0))"
    by (rule cnot_at_matrix, simp, rule cnot_at_sample; simp)+
  have l: "bits_below 2 (cx_map 0 1)" "bits_below 2 (cx_map 1 0)" by (simp_all add: bits_below_cx)
  show "\<exists>e. circuit_DD 2 [cnot 0 1, cnot 1 0] = Inr e"
    using perm_list [OF _ m l(2)] unfolding ops_matrix_def by fastforce
  show "\<exists>e. circuit_DD 2 [cnot 0 1, cnot 1 0, cnot 0 1] = Inr e"
    using perm_list3 [OF _ m l(2) m(1) l(1)] unfolding ops_matrix_def by fastforce
qed

lemma sample_pass:
  assumes "fold_res step [0..<length ops] (ops, [[], []]) = Inr (ops', dag)"
  shows "dag_pass step (with_ops ops) = Inr (with_ops (removeIdentities ops'))"
proof -
  have start: "(qc_ops (with_ops ops), replicate (getHighestPhysicalQubitIndex (with_ops ops) + 1) []) = (ops, [[], []])"
    by (simp add: getHighestPhysicalQubitIndex_def perm_maxKey_def)
  have len: "length (qc_ops (with_ops ops)) = length ops" by simp
  show ?thesis unfolding dag_pass_def start len assms by simp
qed

lemma upt_sample: "[0..<length [a, b]] = [0, 1]" "[0..<length [a, b, c]] = [0, 1, 2]"
  by (simp_all add: upt_conv_Cons numeral_2_eq_2)

lemmas opt_eval = keep_op_def addToDag_def pop_back_def is_cnot_def is_swap_def make_identity_def
  sorted_pair_def eliminate_def setGate_def setTargets_def op_setGate_def at_res_def
  Let_def set_of_list_def push_use_def op_usedQubits_def clearControls_def std_clearControls_def setControls_def
  addControls_def std_addControl_def op_actsOn_def controls_contain_def

lemmas remove_eval = removeIdentities_def removeOperation_def remove_op_def op_matches_def

abbreviation identity_at :: "nat \<Rightarrow> Operation" where
  "identity_at t \<equiv> named_gate [] [t] opI"

lemma swapReconstruction_sample:
  "swapReconstruction (with_ops [cnot 0 1, cnot 1 0]) = Inr (with_ops [named_gate [] [0, 1] opSWAP, cnot 0 1])"
proof -
  let ?ops = "[cnot 0 1, cnot 1 0]" and ?ops' = "[named_gate [] [0, 1] opSWAP, cnot 0 1]"
  have 0: "swapReconstruction_step 0 (?ops, [[], []]) = Inr (?ops, [[0], [0]])"
    by (simp add: opt_eval swapReconstruction_step_def)
  have 1: "swapReconstruction_step 1 (?ops, [[0], [0]]) = Inr (?ops', [[0, 1], [0, 1]])"
    by (simp add: opt_eval swapReconstruction_step_def reconstruct_swap_def)
  have "fold_res swapReconstruction_step [0..<length ?ops] (?ops, [[], []]) = Inr (?ops', [[0, 1], [0, 1]])"
    by (simp only: upt_sample fold_res.simps 0 1 and_then.simps)
  from sample_pass [OF this] have "swapReconstruction (with_ops ?ops) = Inr (with_ops (removeIdentities ?ops'))"
    unfolding swapReconstruction_def .
  moreover have "removeIdentities ?ops' = ?ops'" by (simp add: remove_eval)
  ultimately show ?thesis by (simp only:)
qed

lemma cancelCNOTs_sample:
  "cancelCNOTs (with_ops [cnot 0 1, cnot 1 0, cnot 0 1]) = Inr (with_ops [named_gate [] [0, 1] opSWAP])"
proof -
  let ?ops = "[cnot 0 1, cnot 1 0, cnot 0 1]" and ?ops' = "[named_gate [] [0, 1] opSWAP, identity_at 0, identity_at 1]"
  have 0: "cancelCNOTs_step 0 (?ops, [[], []]) = Inr (?ops, [[0], [0]])"
    by (simp add: opt_eval cancelCNOTs_step_def other_qubit_def)
  have 1: "cancelCNOTs_step 1 (?ops, [[0], [0]]) = Inr (?ops, [[0, 1], [0, 1]])"
    by (simp add: opt_eval cancelCNOTs_step_def other_qubit_def three_cnots_def)
  have 2: "cancelCNOTs_step 2 (?ops, [[0, 1], [0, 1]]) = Inr (?ops', [[0], [0]])"
    by (simp add: opt_eval cancelCNOTs_step_def other_qubit_def three_cnots_def)
  have "fold_res cancelCNOTs_step [0..<length ?ops] (?ops, [[], []]) = Inr (?ops', [[0], [0]])"
    by (simp only: upt_sample fold_res.simps 0 1 2 and_then.simps)
  from sample_pass [OF this] have "cancelCNOTs (with_ops ?ops) = Inr (with_ops (removeIdentities ?ops'))"
    unfolding cancelCNOTs_def .
  moreover have "removeIdentities ?ops' = [named_gate [] [0, 1] opSWAP]" by (simp add: remove_eval)
  ultimately show ?thesis by (simp only:)
qed

lemma cnot_DD: "\<exists>e. circuit_DD 2 [cnot 0 1] = Inr e"
proof -
  have "ops_matrix 2 [cnot 0 1] (perm_mat 2 (cx_map 0 1))" by (rule cnot_at_matrix, simp, rule cnot_at_sample; simp)
  then show ?thesis unfolding ops_matrix_def by blast
qed

lemma swap_DD: "\<exists>e. circuit_DD 2 [named_gate [] [0, 1] opSWAP] = Inr e"
proof -
  have "swap_at 2 (named_gate [] [0, 1] opSWAP) 0 1" by (simp add: swap_at_def)
  from swap_at_matrix [OF _ this] show ?thesis unfolding ops_matrix_def by simp blast
qed

lemma decomposeSWAP_sample:
  "decomposeSWAP False [named_gate [] [0, 1] opSWAP] = Inr [cnot 0 1, cnot 1 0, cnot 0 1]"
  by (simp add: decomposeSWAP_def decompose_op_def decomposed_swap_def deref_res_def std_op_named)

lemma replaceMCXWithMCZ_sample:
  "replaceMCXWithMCZ [cnot 0 1] =
    Inr [named_gate [] [1] opH, named_gate [Control 0 Pos] [1] opZ, named_gate [] [1] opH]"
  by (simp add: replaceMCXWithMCZ_def mcx_replacement_def std_op_named)

definition compound_sample :: Operation where
  "compound_sample = CompoundOp (empty_base opCompound ''compound'') [cnot 0 1, cnot 1 0] False"

lemma compound_sample_DD: "\<exists>e. circuit_DD 2 [compound_sample] = Inr e" "regular compound_sample"
proof -
  show reg: "regular compound_sample" by (simp add: compound_sample_def empty_base_def)
  have "op_DD 2 compound_sample = circuit_DD 2 [cnot 0 1, cnot 1 0]"
    unfolding compound_sample_def by (rule circuit_DD_compound) (simp add: empty_base_def)
  then show "\<exists>e. circuit_DD 2 [compound_sample] = Inr e" using cnots_DD(1) circuit_DD_single [OF _ reg] by auto
qed

end
