(* ===== verification/DDReduce.thy ===== *)
theory DDReduce
  imports DDArith
begin

text \<open>
  Ancillary and garbage qubits in matrix diagrams (\<open>src/dd/Package.cpp\<close>): \<open>reduceAncillae\<close>,
  \<open>reduceGarbage\<close> and \<open>createInitialMatrix\<close>.  The flags of successors that share a node with an
  earlier one only save a second recursion and are left out.
\<close>

section \<open>Ancillary qubits\<close>

text \<open>Levels between two nodes that are ancillary get a node that keeps only the first entry.\<close>

definition wrap_ancillae :: "Numbers \<Rightarrow> bool list \<Rightarrow> nat \<Rightarrow> nat \<Rightarrow> mEdge \<Rightarrow> mEdge" where
  "wrap_ancillae N ancillary lo hi g =
     fold (\<lambda>j g. if ancillary ! j then makeDDNode N j [g, mzero, mzero, mzero] else g) [lo..<hi] g"

definition ancilla_zeroed :: "bool \<Rightarrow> nat \<Rightarrow> bool" where
  "ancilla_zeroed regular i \<longleftrightarrow> i = 3 \<or> i = 1 \<and> regular \<or> i = 2 \<and> \<not> regular"

definition ancilla_successor ::
    "Numbers \<Rightarrow> bool list \<Rightarrow> nat \<Rightarrow> bool \<Rightarrow> nat \<Rightarrow> bool \<Rightarrow> mEdge \<Rightarrow> mEdge result \<Rightarrow> nat \<Rightarrow> mEdge result" where
  "ancilla_successor N ancillary lowerbound regular v anc e reduced i = (
     if anc \<and> ancilla_zeroed regular i then Inr mzero
     else if isTerminal e \<and> snd e = 0 then Inr e
     else if edge_isIdentity e then Inr (fst (wrap_ancillae N ancillary lowerbound v mone), snd e)
     else and_then reduced (\<lambda>g. let g = wrap_ancillae N ancillary (node_var (fst e) + 1) v g
       in Inr (fst g, snd g * snd e)))"

fun reduceAncillaeRecursion :: "Numbers \<Rightarrow> bool list \<Rightarrow> nat \<Rightarrow> bool \<Rightarrow> mNode \<Rightarrow> mEdge result" where
  "reduceAncillaeRecursion N ancillary lowerbound regular MTerminal = Inl Undefined"
| "reduceAncillaeRecursion N ancillary lowerbound regular (MNode v es) = (
     if v < lowerbound then Inr (MNode v es, 1)
     else and_then (deref_res ancillary v) (\<lambda>anc.
       let reduced = map (\<lambda>e. reduceAncillaeRecursion N ancillary lowerbound regular (fst e)) es
       in and_then (map_res (\<lambda>i. ancilla_successor N ancillary lowerbound regular v anc (es ! i) (reduced ! i) i) [0..<4])
         (\<lambda>edges. Inr (makeDDNode N v (if \<not> anc then edges
           else if regular then [edges ! 0, mzero, edges ! 2, mzero] else [edges ! 0, edges ! 1, mzero, mzero])))))"

text \<open>The first index that is set.\<close>

definition first_set :: "bool list \<Rightarrow> nat" where
  "first_set bs = length (takeWhile Not bs)"

definition reduceAncillae :: "Numbers \<Rightarrow> mEdge \<Rightarrow> bool list \<Rightarrow> bool \<Rightarrow> mEdge result" where
  "reduceAncillae N e ancillary regular = (
     if list_all Not ancillary \<or> isTerminal e \<and> snd e = 0 then Inr e
     else if edge_isIdentity e then Inr (wrap_ancillae N ancillary 0 (length ancillary) e)
     else let lowerbound = first_set ancillary; v = node_var (fst e)
       in and_then (if lowerbound \<le> v then reduceAncillaeRecursion N ancillary lowerbound regular (fst e)
           else Inr (fst e, 1))
         (\<lambda>g. let g = wrap_ancillae N ancillary (v + 1) (length ancillary) g
           in Inr (fst g, cn_lookup N (snd g * snd e))))"

definition createInitialMatrix :: "Numbers \<Rightarrow> bool list \<Rightarrow> mEdge result" where
  "createInitialMatrix N ancillary = reduceAncillae N mone ancillary True"

text \<open>The entries in which an ancillary qubit of the column (or of the row) is set.\<close>

definition ancilla_set :: "bool list \<Rightarrow> nat \<Rightarrow> nat \<Rightarrow> bool \<Rightarrow> (nat \<Rightarrow> bool) \<Rightarrow> (nat \<Rightarrow> bool) \<Rightarrow> bool" where
  "ancilla_set ancillary lo hi regular x y \<longleftrightarrow>
     list_ex (\<lambda>q. ancillary ! q \<and> (if regular then y q else x q)) [lo..<hi]"

lemma ancilla_set_Suc:
  "lo \<le> hi \<Longrightarrow> ancilla_set anc lo (Suc hi) regular x y \<longleftrightarrow>
    ancilla_set anc lo hi regular x y \<or> anc ! hi \<and> (if regular then y hi else x hi)"
  by (auto simp: ancilla_set_def)

lemma ancilla_set_split:
  "lo \<le> mid \<Longrightarrow> mid \<le> hi \<Longrightarrow> ancilla_set anc lo hi regular x y \<longleftrightarrow>
    ancilla_set anc lo mid regular x y \<or> ancilla_set anc mid hi regular x y"
  using upt_add_eq_append [of lo mid "hi - mid"] by (auto simp: ancilla_set_def)

lemma ancilla_set_none: "(\<And>q. lo \<le> q \<Longrightarrow> q < hi \<Longrightarrow> \<not> anc ! q) \<Longrightarrow> \<not> ancilla_set anc lo hi regular x y"
  by (auto simp: ancilla_set_def list_ex_iff)

lemma keep_first_canonical:
  assumes "exact N" "canonical v (fst g)"
  shows "edge_canonical (Suc v) (makeDDNode N v [g, mzero, mzero, mzero])"
  by (rule makeDDNode_canonical [OF assms(1)]) (use assms(2) in \<open>auto simp: less_Suc_eq numeral_eq_Suc mzero_def\<close>)

lemma keep_first_den:
  assumes "exact N" "canonical v (fst g)"
  shows "den (Suc v) (makeDDNode N v [g, mzero, mzero, mzero]) x y = (if \<not> x v \<and> \<not> y v then den v g x y else 0)"
proof -
  have "edges_ok v [g, mzero, mzero, mzero]"
    using canonical_mwf [OF assms(2)] by (auto simp: edges_ok_def less_Suc_eq numeral_eq_Suc mzero_def)
  from makeDDNode_ok [OF assms(1) this, of x y] show ?thesis
    by (cases "x v"; cases "y v") (simp_all add: child_index_def mzero_def numeral_2_eq_2 numeral_3_eq_3 del: den.simps)
qed

lemma edge_canonical_mono: "edge_canonical k e \<Longrightarrow> k \<le> l \<Longrightarrow> edge_canonical l e"
  using canonical_mono by (auto simp: edge_canonical_def)

lemma wrap_ancillae_ok:
  assumes ex: "exact N" and g: "edge_canonical lo g" and "lo \<le> hi"
  shows "edge_canonical hi (wrap_ancillae N anc lo hi g) \<and> (\<forall>x y. den hi (wrap_ancillae N anc lo hi g) x y =
    (if ancilla_set anc lo hi regular x y then 0 else den hi g x y))"
  using assms(3)
proof (induction hi rule: dec_induct)
  case base
  then show ?case using g by (simp add: wrap_ancillae_def ancilla_set_def)
next
  case (step hi)
  let ?w = "wrap_ancillae N anc lo hi g"
  have can: "canonical hi (fst ?w)" "mwf hi (fst ?w)" "mwf hi (fst g)"
    using step.IH canonical_mono [of lo "fst g" hi] g step.hyps canonical_mwf by (auto simp: edge_canonical_def)
  have skip: "den (Suc hi) e x y = (if x hi = y hi then den hi e x y else 0)" if "mwf hi (fst e)" for e x y
    using den_skip [of hi "fst e" "snd e" x y] that by (simp del: den.simps)
  have next_wrap: "wrap_ancillae N anc lo (Suc hi) g = (if anc ! hi then makeDDNode N hi [?w, mzero, mzero, mzero] else ?w)"
    using step.hyps by (simp add: wrap_ancillae_def)
  show ?case
  proof (cases "anc ! hi")
    case True
    then show ?thesis unfolding next_wrap
      using keep_first_canonical [OF ex can(1)] keep_first_den [OF ex can(1)] step.IH skip [OF can(3)] step.hyps
      by (auto simp: ancilla_set_Suc simp del: den.simps)
  next
    case False
    then show ?thesis unfolding next_wrap
      using edge_canonical_mono [of hi ?w "Suc hi"] skip [OF can(2)] skip [OF can(3)] step.IH step.hyps
      by (auto simp: ancilla_set_Suc simp del: den.simps)
  qed
qed

lemma keep_first_weight: "exact N \<Longrightarrow> snd g = 1 \<Longrightarrow> snd (makeDDNode N v [g, mzero, mzero, mzero]) = 1"
  by (simp add: makeDDNode_def mnormalize_def scan_weight_def exact_zero upt_4 Let_def mzero_def mag2_def)

lemma wrap_ancillae_weight: "exact N \<Longrightarrow> snd g = 1 \<Longrightarrow> snd (wrap_ancillae N anc lo hi g) = 1"
proof (induction hi)
  case (Suc hi)
  then show ?case using keep_first_weight [of N "wrap_ancillae N anc lo hi g" hi] by (auto simp: wrap_ancillae_def)
qed (simp add: wrap_ancillae_def)

lemma pair_weight: "den k (fst g, snd g * w) x y = w * den k g x y"
  using den_scale [of k "fst g" "snd g * w"] den_pair [of k g] by (simp add: mult.commute mult.left_commute)

lemma pair_canonical: "edge_canonical k g \<Longrightarrow> w \<noteq> 0 \<Longrightarrow> edge_canonical k (fst g, snd g * w)"
  by (simp add: edge_canonical_def)

text \<open>
  What is known of the reduction of a node: the entries in which an ancillary qubit is set
  become zero.
\<close>

definition reduced_ok :: "bool list \<Rightarrow> bool \<Rightarrow> nat \<Rightarrow> mEdge \<Rightarrow> mEdge \<Rightarrow> bool" where
  "reduced_ok anc regular k e g \<longleftrightarrow> edge_canonical k g \<and>
     (\<forall>x y. den k g x y = (if ancilla_set anc 0 k regular x y then 0 else den k e x y))"

lemma reduced_ok_scale:
  "reduced_ok anc regular k (p, 1) g \<Longrightarrow> w \<noteq> 0 \<Longrightarrow> reduced_ok anc regular k (p, w) (fst g, snd g * w)"
  using den_scale [of k p w] by (simp add: reduced_ok_def pair_weight pair_canonical)

lemma reduced_ok_wrap:
  assumes ex: "exact N" and g: "reduced_ok anc regular l e g" and l: "l \<le> k" "canonical l (fst e)"
  shows "reduced_ok anc regular k e (wrap_ancillae N anc l k g)"
proof -
  have can: "edge_canonical l g" using g by (simp add: reduced_ok_def)
  note wrap = wrap_ancillae_ok [OF ex can l(1), of anc regular]
  have lift: "den k h x y = (if \<forall>q. l \<le> q \<and> q < k \<longrightarrow> x q = y q then den l h x y else 0)" if "mwf l (fst h)" for h x y
    using l(1)
  proof (induction k rule: dec_induct)
    case (step k)
    have "mwf k (fst h)" using mwf_mono [OF that] step.hyps by simp
    then have "den (Suc k) h x y = (if x k = y k then den k h x y else 0)"
      using den_skip [of k "fst h" "snd h" x y] by (simp del: den.simps)
    then show ?case using step.IH step.hyps by (auto simp: less_Suc_eq simp del: den.simps)
  next
    case base
    have "(\<forall>q. l \<le> q \<and> q < l \<longrightarrow> x q = y q) = True" by auto
    then show ?case by (simp only: if_True)
  qed
  have "den k g x y = (if ancilla_set anc 0 l regular x y then 0 else den k e x y)" for x y
    using lift [of g x y] lift [of e x y] g canonical_mwf l(2) can by (auto simp: reduced_ok_def edge_canonical_def simp del: den.simps)
  then show ?thesis using wrap l(1) ancilla_set_split [of 0 l k anc regular] by (auto simp: reduced_ok_def)
qed

lemma reduced_ok_identity:
  assumes ex: "exact N" and w: "w \<noteq> 0" and low: "\<forall>q < lo. \<not> anc ! q" "lo \<le> k"
  shows "reduced_ok anc regular k (MTerminal, w) (fst (wrap_ancillae N anc lo k mone), w)"
proof -
  let ?g = "wrap_ancillae N anc lo k mone"
  have one: "reduced_ok anc regular lo (MTerminal, 1) mone"
    using ancilla_set_none [of 0 lo anc regular] low by (auto simp: reduced_ok_def mone_def edge_canonical_def)
  have "reduced_ok anc regular k (MTerminal, 1) ?g" using reduced_ok_wrap [OF ex one low(2)] by simp
  from reduced_ok_scale [OF this w] show ?thesis using wrap_ancillae_weight [OF ex, of mone anc lo k] by (simp add: mone_def)
qed

lemma ancilla_successor_ok:
  assumes ex: "exact N" and e: "edge_canonical v e" and low: "\<forall>q < lo. \<not> anc ! q" "lo \<le> v"
    and rec: "fst e \<noteq> MTerminal \<Longrightarrow> \<exists>g. reduced = Inr g \<and> reduced_ok anc regular (Suc (node_var (fst e))) (fst e, 1) g"
  shows "\<exists>g. ancilla_successor N anc lo regular v a e reduced i = Inr g \<and> canonical v (fst g) \<and>
    (\<not> (a \<and> ancilla_zeroed regular i) \<longrightarrow> reduced_ok anc regular v e g)"
proof -
  obtain p w where pw: "e = (p, w)" by force
  consider (skip) "a \<and> ancilla_zeroed regular i" | (zero) "\<not> (a \<and> ancilla_zeroed regular i)" "p = MTerminal" "w = 0"
    | (one) "\<not> (a \<and> ancilla_zeroed regular i)" "p = MTerminal" "w \<noteq> 0"
    | (node) u es where "\<not> (a \<and> ancilla_zeroed regular i)" "p = MNode u es" by (cases p) auto
  then show ?thesis
  proof cases
    case skip
    then show ?thesis by (simp add: ancilla_successor_def mzero_def)
  next
    case zero
    then have "ancilla_successor N anc lo regular v a e reduced i = Inr e"
      unfolding ancilla_successor_def by (simp add: pw mzero_def)
    then show ?thesis using e zero(2,3) by (simp add: pw reduced_ok_def)
  next
    case one
    have "ancilla_successor N anc lo regular v a e reduced i = Inr (fst (wrap_ancillae N anc lo v mone), w)"
      unfolding ancilla_successor_def if_not_P [OF one(1)] using one by (simp add: pw)
    then show ?thesis using reduced_ok_identity [OF ex one(3) low, of regular] one
      by (simp add: pw reduced_ok_def edge_canonical_def)
  next
    case node
    obtain g where g: "reduced = Inr g" "reduced_ok anc regular (Suc u) (p, 1) g" using rec node by (auto simp: pw)
    have w: "w \<noteq> 0" and can: "canonical v p" using e node by (auto simp: edge_canonical_def pw)
    have u: "Suc u \<le> v" "canonical (Suc u) p" using can by (simp_all add: node canonical_MNode)
    have "reduced_ok anc regular v (p, 1) (wrap_ancillae N anc (Suc u) v g)"
      by (rule reduced_ok_wrap [OF ex g(2) u(1)]) (simp add: u(2))
    note ok = reduced_ok_scale [OF this w]
    have "ancilla_successor N anc lo regular v a e reduced i =
        Inr (let g = wrap_ancillae N anc (Suc u) v g in (fst g, snd g * w))"
      unfolding ancilla_successor_def if_not_P [OF node(1)] using node g(1) by (simp add: pw Let_def)
    then show ?thesis using ok by (simp add: pw Let_def reduced_ok_def edge_canonical_def)
  qed
qed

lemma ancilla_node_ok:
  assumes ex: "exact N" and es: "length es = 4" "length fs = 4" and can: "\<And>i. i < 4 \<Longrightarrow> canonical v (fst (fs ! i))"
    and fs: "\<And>i. i < 4 \<Longrightarrow> \<not> (anc ! v \<and> ancilla_zeroed regular i) \<Longrightarrow> reduced_ok anc regular v (es ! i) (fs ! i)"
  shows "reduced_ok anc regular (Suc v) (MNode v es, 1) (makeDDNode N v (if \<not> anc ! v then fs
    else if regular then [fs ! 0, mzero, fs ! 2, mzero] else [fs ! 0, fs ! 1, mzero, mzero]))"
proof -
  let ?fs = "if \<not> anc ! v then fs else if regular then [fs ! 0, mzero, fs ! 2, mzero] else [fs ! 0, fs ! 1, mzero, mzero]"
  have nth: "?fs ! i = (if anc ! v \<and> ancilla_zeroed regular i then mzero else fs ! i)" if "i < 4" for i
    using that by (auto simp: less_Suc_eq numeral_eq_Suc ancilla_zeroed_def)
  have len: "length ?fs = 4" using es by simp
  have c: "canonical v (fst (?fs ! i))" if "i < 4" for i using nth [OF that] can [OF that] by (simp add: mzero_def)
  have "edges_ok v ?fs" using len c canonical_mwf by (auto simp: edges_ok_def)
  note den = makeDDNode_ok [OF ex this]
  have "den (Suc v) (makeDDNode N v ?fs) x y =
      (if ancilla_set anc 0 (Suc v) regular x y then 0 else den (Suc v) (MNode v es, 1) x y)" for x y
  proof -
    let ?i = "child_index v x y"
    have i: "?i < 4" by (rule child_index_less)
    have zeroed: "ancilla_zeroed regular ?i \<longleftrightarrow> (if regular then y v else x v)"
      by (auto simp: ancilla_zeroed_def child_index_def)
    show ?thesis
    proof (cases "anc ! v \<and> ancilla_zeroed regular ?i")
      case True
      then have "?fs ! ?i = mzero" unfolding nth [OF i] by (rule if_P)
      then show ?thesis using den [of x y] True zeroed by (simp add: ancilla_set_Suc mzero_def del: den.simps)
    next
      case False
      then have "?fs ! ?i = fs ! ?i" unfolding nth [OF i] by (rule if_not_P)
      then show ?thesis using den [of x y] False zeroed fs [OF i False]
        by (auto simp: ancilla_set_Suc reduced_ok_def simp del: den.simps simp add: den_node)
    qed
  qed
  then show ?thesis using makeDDNode_canonical [OF ex len c] unfolding reduced_ok_def by blast
qed

lemma first_set_less: "q < first_set bs \<Longrightarrow> \<not> bs ! q"
  unfolding first_set_def using nth_length_takeWhile set_takeWhileD takeWhile_nth by (metis nth_mem)

lemma reduceAncillaeRecursion_ok:
  assumes ex: "exact N" and low: "\<forall>q < lo. \<not> anc ! q"
  shows "canonical k p \<Longrightarrow> p \<noteq> MTerminal \<Longrightarrow> k \<le> length anc \<Longrightarrow>
    \<exists>g. reduceAncillaeRecursion N anc lo regular p = Inr g \<and> reduced_ok anc regular (Suc (node_var p)) (p, 1) g"
proof (induction p arbitrary: k)
  case (MNode v es)
  have v: "v < k" "length es = 4" "edge_canonical v (es ! i)" if "i < 4" for i
    using MNode.prems canonical_child [of k v es] that by (simp_all add: canonical_MNode)
  have es: "v < k" "length es = 4" using MNode.prems by (simp_all add: canonical_MNode)
  show ?case
  proof (cases "v < lo")
    case True
    have "edge_canonical (Suc v) (MNode v es, 1)"
      using MNode.prems(1) by (simp add: edge_canonical_def canonical_MNode)
    then show ?thesis using True low ancilla_set_none [of 0 "Suc v" anc regular]
      by (simp add: reduced_ok_def less_Suc_eq del: den.simps) (metis dual_order.strict_trans less_SucE)
  next
    case False
    let ?red = "map (\<lambda>e. reduceAncillaeRecursion N anc lo regular (fst e)) es"
    let ?f = "\<lambda>i. ancilla_successor N anc lo regular v (anc ! v) (es ! i) (?red ! i) i"
    have "\<exists>g. ?f i = Inr g \<and> (canonical v (fst g) \<and>
        (\<not> (anc ! v \<and> ancilla_zeroed regular i) \<longrightarrow> reduced_ok anc regular v (es ! i) g))" if i: "i < 4" for i
    proof (rule ancilla_successor_ok [OF ex v(3) [OF i] low])
      show "lo \<le> v" using False by simp
      assume p: "fst (es ! i) \<noteq> MTerminal"
      have "canonical v (fst (es ! i))" using v(3) [OF i] by (simp add: edge_canonical_def)
      moreover have "es ! i \<in> set es" "fst (es ! i) \<in> Basic_BNFs.fsts (es ! i)" using i es(2) by (auto simp: fsts.simps)
      ultimately show "\<exists>g. ?red ! i = Inr g \<and> reduced_ok anc regular (Suc (node_var (fst (es ! i)))) (fst (es ! i), 1) g"
        using MNode.IH [of "es ! i" "fst (es ! i)" v] p es i MNode.prems(3) by simp
    qed
    from map_res_nth_ok [of 4 ?f "\<lambda>i g. canonical v (fst g) \<and>
        (\<not> (anc ! v \<and> ancilla_zeroed regular i) \<longrightarrow> reduced_ok anc regular v (es ! i) g)", OF this] obtain fs where fs: "map_res ?f [0..<4] = Inr fs" "length fs = 4"
      "\<forall>i < 4. canonical v (fst (fs ! i)) \<and>
        (\<not> (anc ! v \<and> ancilla_zeroed regular i) \<longrightarrow> reduced_ok anc regular v (es ! i) (fs ! i))" by blast
    have "deref_res anc v = Inr (anc ! v)" using es(1) MNode.prems(3) by (simp add: deref_res_def)
    then show ?thesis using False fs ancilla_node_ok [OF ex es(2) fs(2), of v anc regular] by (simp add: Let_def)
  qed
qed simp

lemma reduceAncillae_ok:
  assumes ex: "exact N" and e: "edge_canonical (length anc) e"
  shows "\<exists>g. reduceAncillae N e anc regular = Inr g \<and> reduced_ok anc regular (length anc) e g"
proof -
  obtain p w where pw: "e = (p, w)" by force
  consider (none) "list_all Not anc" | (zero) "\<not> list_all Not anc" "p = MTerminal" "w = 0"
    | (one) "\<not> list_all Not anc" "p = MTerminal" "w \<noteq> 0"
    | (node) v es where "\<not> list_all Not anc" "p = MNode v es" by (cases p) auto
  then show ?thesis
  proof cases
    case none
    then show ?thesis using e ancilla_set_none [of 0 "length anc" anc regular]
      by (simp add: reduceAncillae_def reduced_ok_def list_all_length)
  next
    case zero
    then show ?thesis using e by (simp add: reduceAncillae_def reduced_ok_def pw)
  next
    case one
    have "reduced_ok anc regular 0 e e" using one by (simp add: reduced_ok_def ancilla_set_def edge_canonical_def pw)
    from reduced_ok_wrap [OF ex this, of "length anc"] show ?thesis
      using one by (simp add: reduceAncillae_def pw)
  next
    case node
    have w: "w \<noteq> 0" and can: "canonical (length anc) p" using e node by (auto simp: edge_canonical_def pw)
    have v: "v < length anc" "canonical (Suc v) p" using can by (simp_all add: node canonical_MNode)
    have low: "\<forall>q < first_set anc. \<not> anc ! q" using first_set_less by blast
    have "\<exists>g. (if first_set anc \<le> v then reduceAncillaeRecursion N anc (first_set anc) regular p else Inr (p, 1)) = Inr g \<and>
        reduced_ok anc regular (Suc v) (p, 1) g"
    proof (cases "first_set anc \<le> v")
      case True
      then show ?thesis using reduceAncillaeRecursion_ok [OF ex low can, of regular] node by simp
    next
      case False
      then have "\<not> ancilla_set anc 0 (Suc v) regular x y" for x y
        by (intro ancilla_set_none) (use low in auto)
      then show ?thesis using False v(2) by (simp add: reduced_ok_def edge_canonical_def)
    qed
    then obtain g where g: "(if first_set anc \<le> v then reduceAncillaeRecursion N anc (first_set anc) regular p
        else Inr (p, 1)) = Inr g" "reduced_ok anc regular (Suc v) (p, 1) g" by blast
    have "reduced_ok anc regular (length anc) (p, 1) (wrap_ancillae N anc (Suc v) (length anc) g)"
      by (rule reduced_ok_wrap [OF ex g(2)]) (use v in simp_all)
    note ok = reduced_ok_scale [OF this w]
    have "reduceAncillae N e anc regular = and_then (if first_set anc \<le> v
        then reduceAncillaeRecursion N anc (first_set anc) regular p else Inr (p, 1))
      (\<lambda>g. let g = wrap_ancillae N anc (v + 1) (length anc) g in Inr (fst g, snd g * w))"
      using node by (simp add: reduceAncillae_def pw exact_lookup [OF ex] del: reduceAncillaeRecursion.simps)
    then show ?thesis unfolding g(1) using ok by (simp add: Let_def pw)
  qed
qed

lemma createInitialMatrix_ok:
  assumes "exact N"
  shows "\<exists>g. createInitialMatrix N anc = Inr g \<and> reduced_ok anc True (length anc) mone g"
  unfolding createInitialMatrix_def by (rule reduceAncillae_ok [OF assms]) (simp add: mone_def edge_canonical_def)

end
