(* ===== verification/DDBuild.thy ===== *)
theory DDBuild
  imports DDReduce DDOperations IRCircuit
begin

text \<open>
  The functionality of a circuit (\<open>src/dd/FunctionalityConstruction.cpp\<close>,
  \<open>changePermutation\<close> in \<open>dd/Operations.hpp\<close>): the operations are multiplied one after the other
  or in a binary tree, SWAP gates only change the permutation of the qubits, and the permutation is
  corrected at the end.  \<open>n\<close> is the number of qubits of the package.
\<close>

section \<open>Garbage qubits\<close>

definition magnitude :: "complex \<Rightarrow> complex" where
  "magnitude w = complex_of_real (sqrt (mag2 w))"

definition magnitude_shortcut :: "mEdge \<Rightarrow> mEdge \<Rightarrow> mEdge option" where
  "magnitude_shortcut x y = (
     if snd x = 0 then Some (if snd y = 0 then mzero else (fst y, magnitude (snd y)))
     else if snd y = 0 then Some (fst x, magnitude (snd x))
     else if fst x = fst y then Some (fst x, complex_of_real (sqrt (mag2 (snd x) + mag2 (snd y))))
     else None)"

fun addMagnitudes :: "Numbers \<Rightarrow> mEdge \<Rightarrow> mEdge \<Rightarrow> nat \<Rightarrow> mEdge result" where
  "addMagnitudes N x y 0 = (case magnitude_shortcut x y of Some e \<Rightarrow> Inr e | None \<Rightarrow> Inl Undefined)"
| "addMagnitudes N x y (Suc var) = (case magnitude_shortcut x y of Some e \<Rightarrow> Inr e
     | None \<Rightarrow> and_then (map_res (\<lambda>i. addMagnitudes N (add_successor var x i) (add_successor var y i) var) [0..<4])
         (\<lambda>es. Inr (makeDDNode N var es)))"

definition wrap_garbage :: "Numbers \<Rightarrow> bool list \<Rightarrow> bool \<Rightarrow> nat \<Rightarrow> nat \<Rightarrow> mEdge \<Rightarrow> mEdge" where
  "wrap_garbage N garb regular lo hi g = fold (\<lambda>j g. if garb ! j
     then makeDDNode N j (if regular then [g, g, mzero, mzero] else [g, mzero, g, mzero]) else g) [lo..<hi] g"

definition garbage_successor ::
    "Numbers \<Rightarrow> bool list \<Rightarrow> nat \<Rightarrow> bool \<Rightarrow> bool \<Rightarrow> nat \<Rightarrow> mEdge \<Rightarrow> mEdge result \<Rightarrow> mEdge result" where
  "garbage_successor N garb lowerbound regular normalizeWeights v e reduced = (
     if isTerminal e \<and> snd e = 0 then Inr mzero
     else if edge_isIdentity e then
       let g = wrap_garbage N garb regular lowerbound v mone
       in Inr (fst g, snd g * (if normalizeWeights then magnitude (snd e) else snd e))
     else and_then reduced (\<lambda>g. let g = wrap_garbage N garb regular (node_var (fst e) + 1) v g
       in Inr (fst g, if normalizeWeights then magnitude (snd g * snd e) else snd g * snd e)))"

fun reduceGarbageRecursion :: "Numbers \<Rightarrow> bool list \<Rightarrow> nat \<Rightarrow> bool \<Rightarrow> bool \<Rightarrow> mNode \<Rightarrow> mEdge result" where
  "reduceGarbageRecursion N garb lowerbound regular normalizeWeights MTerminal = Inl Undefined"
| "reduceGarbageRecursion N garb lowerbound regular normalizeWeights (MNode v es) = (
     if \<not> normalizeWeights \<and> v < lowerbound then Inr (MNode v es, 1)
     else let reduced = map (\<lambda>e. reduceGarbageRecursion N garb lowerbound regular normalizeWeights (fst e)) es
       in and_then (map_res (\<lambda>i. garbage_successor N garb lowerbound regular normalizeWeights v (es ! i) (reduced ! i)) [0..<4])
         (\<lambda>edges. and_then (deref_res garb v) (\<lambda>g.
           if \<not> g then Inr (makeDDNode N v edges)
           else if regular then
             and_then (addMagnitudes N (edges ! 0) (edges ! 2) v) (\<lambda>e0.
             and_then (addMagnitudes N (edges ! 1) (edges ! 3) v) (\<lambda>e1. Inr (makeDDNode N v [e0, e1, mzero, mzero])))
           else
             and_then (addMagnitudes N (edges ! 0) (edges ! 1) v) (\<lambda>e0.
             and_then (addMagnitudes N (edges ! 2) (edges ! 3) v) (\<lambda>e2. Inr (makeDDNode N v [e0, mzero, e2, mzero]))))))"

definition reduceGarbage :: "Numbers \<Rightarrow> mEdge \<Rightarrow> bool list \<Rightarrow> bool \<Rightarrow> bool \<Rightarrow> mEdge result" where
  "reduceGarbage N e garb regular normalizeWeights = (
     if \<not> normalizeWeights \<and> (list_all Not garb \<or> isTerminal e \<and> snd e = 0) then Inr e
     else if edge_isIdentity e then Inr (wrap_garbage N garb regular 0 (length garb) e)
     else if isTerminal e then Inl Undefined
     else let lowerbound = (if list_all Not garb then 0 else first_set garb); v = node_var (fst e)
       in and_then (if lowerbound \<le> v \<or> normalizeWeights
           then reduceGarbageRecursion N garb lowerbound regular normalizeWeights (fst e) else Inr (fst e, 1))
         (\<lambda>g. let g = wrap_garbage N garb regular (v + 1) (length garb) g; weight = snd g * snd e
           in Inr (fst g, cn_lookup N (if normalizeWeights then magnitude weight else weight))))"

section \<open>Permutations of qubits\<close>

definition virtual_swap :: "Operation \<Rightarrow> bool" where
  "virtual_swap op \<longleftrightarrow> getType op = opSWAP \<and> getControls op = []"

text \<open>\<open>std::swap\<close> of the entries of the two targets.\<close>

definition exchange_targets :: "Operation \<Rightarrow> Permutation \<Rightarrow> Permutation result" where
  "exchange_targets op p =
     and_then (deref_res (getTargets op) 0) (\<lambda>t0. and_then (deref_res (getTargets op) 1) (\<lambda>t1.
     and_then (map_at p t0) (\<lambda>v0. and_then (map_at p t1) (\<lambda>v1.
     Inr (map_assign t0 v1 (map_assign t1 v0 p))))))"

definition applyUnitaryOperation ::
    "Numbers \<Rightarrow> nat \<Rightarrow> Operation \<Rightarrow> mEdge \<Rightarrow> Permutation \<Rightarrow> bool \<Rightarrow> mEdge result" where
  "applyUnitaryOperation N n op e p applyFromLeft = and_then (getDD N n p False op)
     (\<lambda>d. if applyFromLeft then dd_multiply N d e else dd_multiply N e d)"

definition find_value :: "nat \<Rightarrow> Permutation \<Rightarrow> nat" where
  "find_value goal p = (case List.find (\<lambda>x. snd x = goal) p of Some x \<Rightarrow> fst x | None \<Rightarrow> 0)"

definition change_step :: "Numbers \<Rightarrow> nat \<Rightarrow> bool \<Rightarrow> nat \<times> nat \<Rightarrow> mEdge \<times> Permutation \<Rightarrow> (mEdge \<times> Permutation) result" where
  "change_step N n regular ig st = (case (ig, st) of ((i, goal), (e, p)) \<Rightarrow>
     case map_of p i of
       None \<Rightarrow> Inl Undefined
     | Some current \<Rightarrow> if current = goal then Inr (e, p)
         else let j = find_value goal p
         in and_then (opToTwoQubitGateMatrix opSWAP []) (\<lambda>swap. and_then (map_at p j) (\<lambda>vj.
            and_then (makeTwoQubitGateDD N n swap [] current vj) (\<lambda>swapDD.
            and_then (if regular then dd_multiply N swapDD e else dd_multiply N e swapDD) (\<lambda>e.
            Inr (e, map_assign j current (map_assign i goal p)))))))"

definition changePermutation ::
    "Numbers \<Rightarrow> nat \<Rightarrow> mEdge \<Rightarrow> Permutation \<Rightarrow> Permutation \<Rightarrow> bool \<Rightarrow> (mEdge \<times> Permutation) result" where
  "changePermutation N n e p q regular = (
     if length p < length q then Inl Undefined
     else if isTerminal e \<and> snd e = 0 then Inr (e, p)
     else fold_res (change_step N n regular) q (e, p))"

section \<open>One operation after the other\<close>

definition build_step :: "Numbers \<Rightarrow> nat \<Rightarrow> Operation \<Rightarrow> mEdge \<times> Permutation \<Rightarrow> (mEdge \<times> Permutation) result" where
  "build_step N n op st = (case st of (e, p) \<Rightarrow>
     if virtual_swap op then and_then (exchange_targets op p) (\<lambda>p. Inr (e, p))
     else and_then (applyUnitaryOperation N n op e p True) (\<lambda>e. Inr (e, p)))"

text \<open>The end of both constructions: the output permutation, ancillary and garbage qubits.\<close>

definition build_finish :: "Numbers \<Rightarrow> nat \<Rightarrow> QuantumComputation \<Rightarrow> mEdge \<times> Permutation \<Rightarrow> mEdge result" where
  "build_finish N n qc st = (case st of (e, p) \<Rightarrow>
     and_then (changePermutation N n e p (outputPermutation qc) True) (\<lambda>(e, p).
     and_then (reduceAncillae N e (ancillary qc) True) (\<lambda>e.
     reduceGarbage N e (garbage qc) True False)))"

definition buildFunctionality :: "Numbers \<Rightarrow> nat \<Rightarrow> QuantumComputation \<Rightarrow> mEdge result" where
  "buildFunctionality N n qc = (if getNqubits qc = 0 then Inr mone
     else and_then (createInitialMatrix N (ancillary qc)) (\<lambda>e.
       and_then (fold_res (build_step N n) (qc_ops qc) (e, initialLayout qc)) (build_finish N n qc)))"

section \<open>In a binary tree\<close>

definition build_leaf :: "Numbers \<Rightarrow> nat \<Rightarrow> Operation \<Rightarrow> Permutation \<Rightarrow> (mEdge \<times> Permutation) result" where
  "build_leaf N n op p = (if virtual_swap op then and_then (exchange_targets op p) (\<lambda>p. Inr (mone, p))
     else and_then (getDD N n p False op) (\<lambda>e. Inr (e, p)))"

text \<open>The flag tells whether operations are left; the diagrams are on a stack.\<close>

fun buildFunctionalityRecursive_rec :: "Numbers \<Rightarrow> nat \<Rightarrow> Operation list \<Rightarrow> nat \<Rightarrow> nat \<Rightarrow>
    mEdge list \<times> Permutation \<Rightarrow> (bool \<times> mEdge list \<times> Permutation) result" where
  "buildFunctionalityRecursive_rec N n ops 0 opIdx st = Inl Undefined"
| "buildFunctionalityRecursive_rec N n ops (Suc 0) opIdx (s, p) =
     and_then (at_res ops opIdx) (\<lambda>op. and_then (build_leaf N n op p) (\<lambda>(e, p).
     if opIdx + 1 = length ops then Inr (False, e # s, p)
     else and_then (at_res ops (opIdx + 1)) (\<lambda>op. and_then (build_leaf N n op p) (\<lambda>(f, p).
     and_then (dd_multiply N f e) (\<lambda>g. Inr (opIdx + 1 \<noteq> length ops - 1, g # s, p))))))"
| "buildFunctionalityRecursive_rec N n ops (Suc (Suc d)) opIdx st =
     and_then (buildFunctionalityRecursive_rec N n ops (Suc d) (unset_bit (Suc d) opIdx) st) (\<lambda>(more, st).
     if \<not> more then Inr (False, st)
     else and_then (buildFunctionalityRecursive_rec N n ops (Suc d) (set_bit (Suc d) opIdx) st) (\<lambda>(success, s, p).
       case s of e # f # s \<Rightarrow> and_then (dd_multiply N e f) (\<lambda>g. Inr (success, g # s, p)) | _ \<Rightarrow> Inl Undefined))"

text \<open>\<open>std::ceil(std::log2(size))\<close>.\<close>

fun ceil_log2 :: "nat \<Rightarrow> nat" where
  "ceil_log2 m = (if m \<le> 1 then 0 else Suc (ceil_log2 ((m + 1) div 2)))"

declare ceil_log2.simps [simp del]

definition buildFunctionalityRecursive :: "Numbers \<Rightarrow> nat \<Rightarrow> QuantumComputation \<Rightarrow> mEdge result" where
  "buildFunctionalityRecursive N n qc = (if getNqubits qc = 0 then Inr mone
     else case qc_ops qc of
       [] \<Rightarrow> Inl Undefined
     | [op] \<Rightarrow> getDD N n (initialLayout qc) False op
     | ops \<Rightarrow> and_then (buildFunctionalityRecursive_rec N n ops (ceil_log2 (length ops)) 0 ([], initialLayout qc))
         (\<lambda>(more, s, p). case s of e # _ \<Rightarrow> build_finish N n qc (e, p) | [] \<Rightarrow> Inl Undefined))"

end
