(* ===== verification/DDRelabel.thy ===== *)
theory DDRelabel
  imports DDBuild DDRules
begin

text \<open>
  Diagrams of operations under a layout: the matrix of an operation whose qubits are renamed is
  the matrix of the operation, with the qubits of row and column renamed.  SWAP gates rename
  the qubits of the row.
\<close>

section \<open>Layouts\<close>

definition layout_ok :: "nat \<Rightarrow> Permutation \<Rightarrow> bool" where
  "layout_ok n p \<longleftrightarrow> map fst p = [0..<n] \<and> distinct (map snd p) \<and> list_all (\<lambda>x. snd x < n) p"

definition perm_fun :: "Permutation \<Rightarrow> nat \<Rightarrow> nat" where
  "perm_fun p q = (case map_of p q of Some v \<Rightarrow> v | None \<Rightarrow> q)"

lemma layout_dom: "layout_ok n p \<Longrightarrow> dom (map_of p) = {..<n}"
  by (auto simp: layout_ok_def dom_map_of_conv_image_fst simp flip: set_map)

lemma layout_map_of: "layout_ok n p \<Longrightarrow> q < n \<Longrightarrow> map_of p q = Some (perm_fun p q)"
  using layout_dom [of n p] by (auto simp: perm_fun_def split: option.splits)

lemma layout_nth: "layout_ok n p \<Longrightarrow> q < n \<Longrightarrow> p ! q = (q, perm_fun p q)"
proof -
  assume p: "layout_ok n p" and q: "q < n"
  then have len: "length p = n" unfolding layout_ok_def by (metis diff_zero length_map length_upt)
  then have "fst (p ! q) = q" using p q unfolding layout_ok_def by (metis add_0 nth_map nth_upt)
  moreover have "distinct (map fst p)" using p by (simp add: layout_ok_def)
  then have "map_of p (fst (p ! q)) = Some (snd (p ! q))"
    using len q by (intro map_of_is_SomeI) simp_all
  ultimately show ?thesis using layout_map_of [OF p q] by (metis option.inject prod.collapse)
qed

lemma layout_length: "layout_ok n p \<Longrightarrow> length p = n"
  unfolding layout_ok_def by (metis diff_zero length_map length_upt)

lemma layout_eq:
  assumes "layout_ok n p"
  shows "p = map (\<lambda>q. (q, perm_fun p q)) [0..<n]"
proof (rule nth_equalityI)
  show len: "length p = length (map (\<lambda>q. (q, perm_fun p q)) [0..<n])" using layout_length [OF assms] by simp
  fix i
  assume "i < length p"
  then have i: "i < n" using len by simp
  then show "p ! i = map (\<lambda>q. (q, perm_fun p q)) [0..<n] ! i" unfolding layout_nth [OF assms i] by simp
qed

lemma perm_fun_less:
  assumes p: "layout_ok n p" and q: "q < n"
  shows "perm_fun p q < n"
proof -
  have "list_all (\<lambda>x. snd x < n) p" using p by (simp add: layout_ok_def)
  then have "snd (p ! q) < n" using layout_length [OF p] q by (simp add: list_all_length)
  then show ?thesis by (simp add: layout_nth [OF p q])
qed

lemma perm_fun_above: "layout_ok n p \<Longrightarrow> n \<le> q \<Longrightarrow> perm_fun p q = q"
proof -
  assume "layout_ok n p" "n \<le> q"
  then have "q \<notin> dom (map_of p)" using layout_dom [of n p] by simp
  then show ?thesis by (simp add: perm_fun_def domIff)
qed

lemma perm_fun_inj: "layout_ok n p \<Longrightarrow> q < n \<Longrightarrow> r < n \<Longrightarrow> perm_fun p q = perm_fun p r \<Longrightarrow> q = r"
proof -
  assume p: "layout_ok n p" and qr: "q < n" "r < n" "perm_fun p q = perm_fun p r"
  have "distinct (map snd p)" using p by (simp add: layout_ok_def)
  moreover have "map snd p ! q = map snd p ! r" using p qr layout_nth [of n p] layout_length [of n p] by simp
  ultimately show ?thesis using qr layout_length [OF p] by (simp add: distinct_conv_nth) metis
qed

lemma perm_fun_bij: "layout_ok n p \<Longrightarrow> bij_betw (perm_fun p) {..<n} {..<n}"
proof -
  assume p: "layout_ok n p"
  then have "inj_on (perm_fun p) {..<n}" by (auto simp: inj_on_def dest: perm_fun_inj)
  moreover have "perm_fun p ` {..<n} \<subseteq> {..<n}" using perm_fun_less [OF p] by auto
  ultimately show ?thesis by (simp add: bij_betw_def endo_inj_surj)
qed

lemma perm_fun_surj: "layout_ok n p \<Longrightarrow> v < n \<Longrightarrow> \<exists>q < n. perm_fun p q = v"
  using perm_fun_bij [of n p] unfolding bij_betw_def by (metis imageE lessThan_iff)

lemma layoutI:
  assumes "map fst p = [0..<n]" "\<And>q r. q < n \<Longrightarrow> r < n \<Longrightarrow> perm_fun p q = perm_fun p r \<Longrightarrow> q = r"
    "\<And>q. q < n \<Longrightarrow> perm_fun p q < n"
  shows "layout_ok n p"
proof -
  have len: "length p = n" using assms(1) by (metis diff_zero length_map length_upt)
  have at: "p ! q = (q, perm_fun p q)" if q: "q < n" for q
  proof -
    have "fst (p ! q) = q" using assms(1) q len by (metis add_0 nth_map nth_upt)
    moreover have "map_of p (fst (p ! q)) = Some (snd (p ! q))"
      using len q assms(1) by (intro map_of_is_SomeI) simp_all
    ultimately show ?thesis by (metis option.simps(5) perm_fun_def prod.collapse)
  qed
  have snd: "snd (p ! q) = perm_fun p q" if "q < n" for q using at [OF that] by simp
  show ?thesis unfolding layout_ok_def distinct_conv_nth list_all_length length_map len
  proof (intro conjI allI impI)
    show "map fst p = [0..<n]" by (rule assms(1))
    fix q r
    assume "q < n" "r < n" "q \<noteq> r"
    then show "map snd p ! q \<noteq> map snd p ! r" using snd len assms(2) [of q r] by auto
  qed (use snd assms(3) in simp)
qed

text \<open>Exchanging the values of two keys.\<close>

definition exchange :: "nat \<Rightarrow> nat \<Rightarrow> nat \<Rightarrow> nat" where
  "exchange a b q = (if q = a then b else if q = b then a else q)"

lemma set_emplace_upt: "a < n \<Longrightarrow> set_emplace a [0..<n] = [0..<n]"
  by (rule set_emplace_member) simp_all

lemma assign_two:
  assumes p: "layout_ok n p" and ab: "a < n" "b < n" and q: "q = map_assign a v (map_assign b w p)"
  shows "map fst q = [0..<n]" "map_of q = (map_of p)(b \<mapsto> w, a \<mapsto> v)"
proof -
  have "map_ok p" using p by (simp add: layout_ok_def)
  then show "map fst q = [0..<n]" "map_of q = (map_of p)(b \<mapsto> w, a \<mapsto> v)"
    using p ab by (simp_all add: q fst_map_assign set_emplace_upt layout_ok_def map_of_map_assign map_assign_ok)
qed

lemma exchange_simps: "exchange a b a = b" "exchange a b b = a" "exchange a b (exchange a b q) = q"
  by (simp_all add: exchange_def)

lemma layout_update:
  assumes p: "layout_ok n p" and keys: "map fst q = [0..<n]" and f: "\<And>i. i < n \<Longrightarrow> perm_fun q i = perm_fun p (f i)"
    and "\<And>i. i < n \<Longrightarrow> f i < n" "inj_on f {..<n}"
  shows "layout_ok n q"
proof (rule layoutI [OF keys])
  fix i j
  assume ij: "i < n" "j < n" "perm_fun q i = perm_fun q j"
  then have "f i = f j" using f assms(4) perm_fun_inj [OF p, of "f i" "f j"] by simp
  then show "i = j" using ij assms(5) by (simp add: inj_on_def)
qed (use f assms(4) perm_fun_less [OF p] in simp)

lemma exchange_inj: "inj_on (exchange a b) A"
  by (rule inj_onI) (metis exchange_simps(3))

lemma exchange_less: "a < n \<Longrightarrow> b < n \<Longrightarrow> q < n \<Longrightarrow> exchange a b q < n"
  by (simp add: exchange_def)

text \<open>The layout after a virtual SWAP of the keys \<open>a\<close> and \<open>b\<close>.\<close>

lemma exchange_layout:
  assumes p: "layout_ok n p" and ab: "a < n" "b < n"
  shows "map_at p a = Inr (perm_fun p a)"
    "layout_ok n (map_assign a (perm_fun p b) (map_assign b (perm_fun p a) p))"
    "perm_fun (map_assign a (perm_fun p b) (map_assign b (perm_fun p a) p)) q = perm_fun p (exchange a b q)"
proof -
  let ?q = "map_assign a (perm_fun p b) (map_assign b (perm_fun p a) p)"
  note two = assign_two [OF p ab refl, of "perm_fun p b" "perm_fun p a"]
  show "map_at p a = Inr (perm_fun p a)" using layout_map_of [OF p ab(1)] by (simp add: map_at_def)
  have fn: "perm_fun ?q q = perm_fun p (exchange a b q)" for q
    unfolding perm_fun_def [of ?q] two(2) by (auto simp: exchange_def perm_fun_def)
  show "perm_fun ?q q = perm_fun p (exchange a b q)" by (rule fn)
  show "layout_ok n ?q"
    by (rule layout_update [OF p two(1), of "exchange a b"]) (simp_all add: fn exchange_less ab exchange_inj)
qed

section \<open>Sums over reindexed qubits\<close>

lemma bit_sum_set:
  fixes f :: "(nat \<Rightarrow> bool) \<Rightarrow> 'a::comm_monoid_add"
  shows "finite {z. \<forall>q \<ge> n. z q = x q} \<and> bit_sum n f x = sum f {z. \<forall>q \<ge> n. z q = x q}"
proof (induction n arbitrary: x)
  case 0
  have "{z. \<forall>q \<ge> 0. z q = x q} = {x}" by (auto simp: fun_eq_iff)
  then show ?case by simp
next
  case (Suc n)
  let ?S = "\<lambda>x. {z. \<forall>q \<ge> n. z q = x q}"
  have "{z. \<forall>q \<ge> Suc n. z q = x q} = ?S (x(n := False)) \<union> ?S (x(n := True))"
  proof (intro set_eqI)
    fix z
    have "(\<forall>q \<ge> n. z q = (x(n := b)) q) \<longleftrightarrow> z n = b \<and> (\<forall>q \<ge> Suc n. z q = x q)" for b
      by (metis Suc_le_eq fun_upd_apply le_less less_irrefl)
    then show "z \<in> {z. \<forall>q \<ge> Suc n. z q = x q} \<longleftrightarrow> z \<in> ?S (x(n := False)) \<union> ?S (x(n := True))" by auto
  qed
  moreover have "?S (x(n := False)) \<inter> ?S (x(n := True)) = {}" by fastforce
  ultimately show ?case using Suc.IH by (simp add: sum.union_disjoint)
qed

lemma bit_sum_reindex:
  assumes p: "layout_ok n p"
  shows "bit_sum n (\<lambda>z. f (z \<circ> perm_fun p)) x = bit_sum n f (x \<circ> perm_fun p)"
proof -
  let ?S = "\<lambda>x. {z. \<forall>q \<ge> n. z q = x q}"
  have "bij_betw (\<lambda>z. z \<circ> perm_fun p) (?S x) (?S (x \<circ> perm_fun p))"
    unfolding bij_betw_def
  proof
    show "inj_on (\<lambda>z. z \<circ> perm_fun p) (?S x)"
    proof (rule inj_onI, rule ext)
      fix z w q
      assume zw: "z \<in> ?S x" "w \<in> ?S x" "z \<circ> perm_fun p = w \<circ> perm_fun p"
      show "z q = w q"
      proof (cases "q < n")
        case True
        then obtain r where "perm_fun p r = q" using perm_fun_surj [OF p] by blast
        then show ?thesis using zw(3) by (metis comp_apply)
      qed (use zw in simp)
    qed
    show "(\<lambda>z. z \<circ> perm_fun p) ` ?S x = ?S (x \<circ> perm_fun p)"
    proof
      show "(\<lambda>z. z \<circ> perm_fun p) ` ?S x \<subseteq> ?S (x \<circ> perm_fun p)" using perm_fun_above [OF p] by auto
      show "?S (x \<circ> perm_fun p) \<subseteq> (\<lambda>z. z \<circ> perm_fun p) ` ?S x"
      proof
        fix z
        assume z: "z \<in> ?S (x \<circ> perm_fun p)"
        define w where "w q = (if q < n then z (inv_into {..<n} (perm_fun p) q) else x q)" for q
        have "w (perm_fun p r) = z r" for r
        proof (cases "r < n")
          case True
          then show ?thesis
            using perm_fun_bij [OF p] perm_fun_less [OF p True] by (simp add: w_def bij_betw_def)
        next
          case False
          then show ?thesis using z perm_fun_above [OF p, of r] by (simp add: w_def)
        qed
        then have "z = w \<circ> perm_fun p" by (simp add: fun_eq_iff)
        moreover have "w \<in> ?S x" by (simp add: w_def)
        ultimately show "z \<in> (\<lambda>z. z \<circ> perm_fun p) ` ?S x" by blast
      qed
    qed
  qed
  from sum.reindex_bij_betw [OF this, of f] show ?thesis
    unfolding bit_sum_set [THEN conjunct2] .
qed

lemma mat_mult_relabel:
  assumes p: "layout_ok n p" and A: "\<And>x y. A' x y = A (x \<circ> perm_fun p) (y \<circ> perm_fun p)"
    and B: "\<And>x. B' x y = B (x \<circ> perm_fun p) y'"
  shows "mat_mult n A' B' x y = mat_mult n A B (x \<circ> perm_fun p) y'"
  unfolding mat_mult_def A B using bit_sum_reindex [OF p, of "\<lambda>z. A (x \<circ> perm_fun p) z * B z y'" x] by simp

section \<open>Gates\<close>

lemma layout_nonempty: "layout_ok n p \<Longrightarrow> 0 < n \<Longrightarrow> p \<noteq> []"
  using layout_length [of n p] by auto

lemma layout_map_at: "layout_ok n p \<Longrightarrow> q < n \<Longrightarrow> map_at p q = Inr (perm_fun p q)"
  by (simp add: map_at_def layout_map_of)

definition relabel_controls :: "(nat \<Rightarrow> nat) \<Rightarrow> Controls \<Rightarrow> Controls" where
  "relabel_controls f cs = set_of_list (map (\<lambda>c. Control (f (qubit c)) (ctype c)) cs)"

lemma relabel_applied:
  assumes p: "layout_ok n p" and n: "0 < n" and fits: "gate_fits n cs ts"
  shows "perm_apply_targets p ts = Inr (map (perm_fun p) ts)"
    "perm_apply_controls p cs = Inr (relabel_controls (perm_fun p) cs)"
proof -
  have "map_res (map_at p) ts = Inr (map (perm_fun p) ts)"
    by (rule map_res_total) (use layout_map_at [OF p] fits in \<open>auto simp: gate_fits_def\<close>)
  then show "perm_apply_targets p ts = Inr (map (perm_fun p) ts)"
    using layout_nonempty [OF p n] by (simp add: perm_apply_targets_def)
  have "map_res (\<lambda>c. and_then (map_at p (qubit c)) (\<lambda>q. Inr (Control q (ctype c)))) cs =
    Inr (map (\<lambda>c. Control (perm_fun p (qubit c)) (ctype c)) cs)"
    by (rule map_res_total) (use layout_map_at [OF p] fits in \<open>auto simp: gate_fits_def\<close>)
  then show "perm_apply_controls p cs = Inr (relabel_controls (perm_fun p) cs)"
    using layout_nonempty [OF p n] by (simp add: perm_apply_controls_def relabel_controls_def)
qed

lemma sorted_qubits:
  assumes "strictly_sorted (cs :: Controls)" "inj_on qubit (set cs)"
  shows "strictly_sorted (map qubit cs)"
proof -
  have "sorted_wrt (\<lambda>a b. qubit a < qubit b) cs"
  proof (rule sorted_wrt_mono_rel [OF _ assms(1)])
    fix a b
    assume "a \<in> set cs" "b \<in> set cs" "a < b"
    moreover from \<open>a < b\<close> have "qubit a \<le> qubit b" by (auto simp: less_Control_def control_less_def)
    ultimately show "qubit a < qubit b" using assms(2) by (metis inj_onD le_less less_irrefl)
  qed
  then show ?thesis by (simp add: sorted_wrt_map)
qed

lemma relabel_controls_ok:
  assumes p: "layout_ok n p" and cs: "strictly_sorted (map qubit cs)" "\<forall>c \<in> set cs. qubit c < n"
  shows "strictly_sorted (map qubit (relabel_controls (perm_fun p) cs))"
proof (rule sorted_qubits)
  let ?r = "\<lambda>c. Control (perm_fun p (qubit c)) (ctype c)"
  show "strictly_sorted (relabel_controls (perm_fun p) cs)" by (simp add: relabel_controls_def)
  have inj: "inj_on qubit (set cs)" using cs(1) by (simp add: strict_sorted_iff distinct_map)
  show "inj_on qubit (set (relabel_controls (perm_fun p) cs))"
  proof (rule inj_onI)
    fix a b
    assume "a \<in> set (relabel_controls (perm_fun p) cs)" "b \<in> set (relabel_controls (perm_fun p) cs)" "qubit a = qubit b"
    then obtain c d where "c \<in> set cs" "a = ?r c" "d \<in> set cs" "b = ?r d" "perm_fun p (qubit c) = perm_fun p (qubit d)"
      by (auto simp: relabel_controls_def)
    moreover from this have "c = d" using perm_fun_inj [OF p] cs(2) inj by (metis inj_onD)
    ultimately show "a = b" by simp
  qed
qed

lemma relabel_fits:
  assumes p: "layout_ok n p" and fits: "gate_fits n cs ts"
  shows "gate_fits n (relabel_controls (perm_fun p) cs) (map (perm_fun p) ts)"
  using fits perm_fun_less [OF p] perm_fun_inj [OF p]
  by (auto simp: gate_fits_def relabel_controls_def distinct_map inj_on_def) metis+

lemma gate_matrix_relabel:
  assumes p: "layout_ok n p" and fits: "gate_fits n cs ts"
  shows "gate_matrix n M (relabel_controls (perm_fun p) cs) (map (perm_fun p) ts) x y =
    gate_matrix n M cs ts (x \<circ> perm_fun p) (y \<circ> perm_fun p)"
proof -
  let ?f = "perm_fun p"
  have "same_rest n (map ?f ts) x y \<longleftrightarrow> same_rest n ts (x \<circ> ?f) (y \<circ> ?f)"
  proof -
    have "(\<forall>q < n. q \<in> ?f ` set ts \<or> x q = y q) \<longleftrightarrow> (\<forall>r < n. ?f r \<in> ?f ` set ts \<or> x (?f r) = y (?f r))"
      using perm_fun_surj [OF p] perm_fun_less [OF p] by metis
    moreover have "?f r \<in> ?f ` set ts \<longleftrightarrow> r \<in> set ts" if "r < n" for r
      using that perm_fun_inj [OF p] fits by (auto simp: gate_fits_def)
    ultimately show ?thesis by (auto simp: same_rest_def list_all_iff)
  qed
  moreover have "active (relabel_controls ?f cs) x \<longleftrightarrow> active cs (x \<circ> ?f)"
    by (auto simp: active_def relabel_controls_def list_all_iff)
  moreover have "target_index (map ?f ts) z = target_index ts (z \<circ> ?f)" for z
    by (simp add: target_index_def foldl_map)
  moreover have "list_all (\<lambda>t. x t = y t) (map ?f ts) \<longleftrightarrow> list_all (\<lambda>t. (x \<circ> ?f) t = (y \<circ> ?f) t) ts"
    by (simp add: list_all_iff)
  ultimately show ?thesis by (simp add: gate_matrix_def)
qed

section \<open>Operations under a layout\<close>

definition relabelled :: "nat \<Rightarrow> Permutation \<Rightarrow> mEdge \<Rightarrow> mEdge \<Rightarrow> bool" where
  "relabelled n p d e \<longleftrightarrow> edge_canonical n d \<and> edge_canonical n e \<and>
     (\<forall>x y. den n e x y = den n d (x \<circ> perm_fun p) (y \<circ> perm_fun p))"

lemma relabelled_terminal:
  assumes p: "layout_ok n p"
  shows "relabelled n p (MTerminal, w) (MTerminal, w)"
proof -
  have "(\<forall>q < n. x q = y q) \<longleftrightarrow> (\<forall>q < n. x (perm_fun p q) = y (perm_fun p q))" for x y :: "nat \<Rightarrow> bool"
    using perm_fun_surj [OF p] perm_fun_less [OF p] by metis
  then show ?thesis by (auto simp: relabelled_def edge_canonical_def den_terminal same_above_def)
qed

lemma relabelled_multiply:
  assumes p: "layout_ok n p" and n: "0 < n" and r: "relabelled n p a a'" "relabelled n p b b'"
  shows "\<exists>c c'. dd_multiply exact_numbers a b = Inr c \<and> dd_multiply exact_numbers a' b' = Inr c' \<and> relabelled n p c c'"
proof -
  have can: "edge_canonical n a" "edge_canonical n b" "edge_canonical n a'" "edge_canonical n b'"
    using r by (simp_all add: relabelled_def)
  from dd_multiply_ok [OF exact_exact_numbers n can(1,2)] obtain c where
    c: "dd_multiply exact_numbers a b = Inr c" "edge_canonical n c" "\<forall>x y. den n c x y = mat_mult n (den n a) (den n b) x y" by blast
  from dd_multiply_ok [OF exact_exact_numbers n can(3,4)] obtain c' where
    c': "dd_multiply exact_numbers a' b' = Inr c'" "edge_canonical n c'" "\<forall>x y. den n c' x y = mat_mult n (den n a') (den n b') x y" by blast
  have "mat_mult n (den n a') (den n b') x y = mat_mult n (den n a) (den n b) (x \<circ> perm_fun p) (y \<circ> perm_fun p)" for x y
    by (rule mat_mult_relabel [OF p]) (use r in \<open>simp_all add: relabelled_def\<close>)
  then show ?thesis using c c' by (simp add: relabelled_def)
qed

lemma gate_relabelled:
  assumes p: "layout_ok n p" and n: "0 < n" and cs: "strictly_sorted (map qubit (controls b))"
    and d: "permuted_DD exact_numbers n [] False b = Inr d"
  shows "\<exists>e. permuted_DD exact_numbers n p False b = Inr e \<and> relabelled n p d e"
proof -
  let ?f = "perm_fun p" and ?cs = "controls b" and ?ts = "targets b"
  have "getStandardOperationDD_parts exact_numbers n (optype b) (parameter b) ?cs ?ts = Inr d"
    using d by (simp add: permuted_DD_def getStandardOperationDD_def)
  from parts_ok [OF exact_exact_numbers cs this] obtain M where
    M: "gate_entries (optype b) (parameter b) = Inr (length ?ts, M)" "gate_fits n ?cs ?ts" "edge_canonical n d"
      "\<forall>x y. den n d x y = gate_matrix n M ?cs ?ts x y" by blast
  have cs': "strictly_sorted (map qubit (relabel_controls ?f ?cs))"
    by (rule relabel_controls_ok [OF p cs]) (use M(2) in \<open>simp add: gate_fits_def\<close>)
  obtain e where e: "getStandardOperationDD_parts exact_numbers n (optype b) (parameter b)
      (relabel_controls ?f ?cs) (map ?f ?ts) = Inr e"
    using parts_total [OF exact_exact_numbers cs' _ relabel_fits [OF p M(2)] n, of "optype b" "parameter b" M] M(1) by auto
  from parts_ok [OF exact_exact_numbers cs' e] M(1)
  have "edge_canonical n e" "den n e x y = gate_matrix n M (relabel_controls ?f ?cs) (map ?f ?ts) x y" for x y by auto
  then have "relabelled n p d e" using M gate_matrix_relabel [OF p M(2)] by (simp add: relabelled_def)
  moreover have "permuted_DD exact_numbers n p False b = Inr e"
    using e by (simp add: permuted_DD_def getStandardOperationDD_def relabel_applied [OF p n M(2)])
  ultimately show ?thesis by blast
qed

lemma phase_relabelled:
  "layout_ok n p \<Longrightarrow> phase_DD N b False = Inr d \<Longrightarrow> relabelled n p d d"
  using relabelled_terminal by (auto simp: phase_DD_def and_then_eq_Inr Let_def mterminal_def)

theorem getDD_relabelled:
  assumes p: "layout_ok n p" and n: "0 < n"
  shows "regular op \<Longrightarrow> op_DD n op = Inr d \<Longrightarrow> \<exists>e. getDD exact_numbers n p False op = Inr e \<and> relabelled n p d e"
proof (induction op arbitrary: d)
  case (CompoundOp b ops cust)
  have fold: "list_all regular xs \<Longrightarrow> set xs \<subseteq> set ops \<Longrightarrow> relabelled n p a a' \<Longrightarrow>
    fold_res (\<lambda>op e. and_then (op_DD n op) (\<lambda>d. dd_multiply exact_numbers d e)) xs a = Inr c \<Longrightarrow>
    \<exists>c'. fold_res (\<lambda>op e. and_then (getDD exact_numbers n p False op) (\<lambda>d. dd_multiply exact_numbers d e)) xs a' = Inr c' \<and>
      relabelled n p c c'" for xs a a' c
  proof (induction xs arbitrary: a a')
    case (Cons x xs)
    from Cons.prems(4) obtain d m where d: "op_DD n x = Inr d" "dd_multiply exact_numbers d a = Inr m"
      "fold_res (\<lambda>op e. and_then (op_DD n op) (\<lambda>d. dd_multiply exact_numbers d e)) xs m = Inr c"
      by (auto simp: and_then_eq_Inr)
    obtain e where e: "getDD exact_numbers n p False x = Inr e" "relabelled n p d e"
      using CompoundOp.IH [of x d] Cons.prems(1,2) d(1) by auto
    obtain m' where "dd_multiply exact_numbers e a' = Inr m'" "relabelled n p m m'"
      using relabelled_multiply [OF p n e(2) Cons.prems(3)] d(2) by auto
    then show ?case using Cons.IH [OF _ _ _ d(3), of m'] Cons.prems(1,2) e(1) by auto
  qed auto
  have "relabelled n p mone mone" using relabelled_terminal [OF p] by (simp add: mone_def)
  then show ?case using CompoundOp.prems fold [of ops mone mone d] by simp
next
  case (StandardOp b)
  then show ?case using gate_relabelled [OF p n, of b] phase_relabelled [OF p] relabelled_terminal [OF p, of 1]
    by (auto simp: mone_def split: if_splits simp del: split_paired_Ex split_paired_All)
next
  case (SymbolicOp s)
  then show ?case using gate_relabelled [OF p n, of "base s"] phase_relabelled [OF p] relabelled_terminal [OF p, of 1]
    by (auto simp: mone_def split: if_splits simp del: split_paired_Ex split_paired_All)
next
  case (NonUnitaryOp b cs)
  then show ?case using gate_relabelled [OF p n, of b] phase_relabelled [OF p] relabelled_terminal [OF p, of 1]
    by (auto simp: mone_def split: if_splits simp del: split_paired_Ex split_paired_All)
next
  case (IfElseOp b t e c)
  then show ?case using gate_relabelled [OF p n, of b] phase_relabelled [OF p] relabelled_terminal [OF p, of 1]
    by (auto simp: mone_def split: if_splits simp del: split_paired_Ex split_paired_All)
qed

end
