(* ===== verification/DDBuildSound.thy ===== *)
theory DDBuildSound
  imports DDRelabel
begin

text \<open>
  The diagram \<open>buildFunctionality\<close> computes: the product of the operations, with the rows in the
  order of the output permutation and the columns in the order of the initial layout, and zero in
  the columns in which an ancillary qubit is set.
\<close>

section \<open>Virtual SWAP gates\<close>

lemma virtual_swap_matrix:
  assumes op: "regular op" "virtual_swap op" "op_DD n op = Inr d"
  shows "\<exists>a b. getTargets op = [a, b] \<and> a < n \<and> b < n \<and> a \<noteq> b \<and> den n d = perm_mat n (swap_map a b)"
proof -
  have "executed_gate op" using op by (cases op) (auto simp: executed_gate_def virtual_swap_def split: if_splits)
  then have "getStandardOperationDD_parts exact_numbers n opSWAP (parameter (getBase op)) [] (getTargets op) = Inr d"
    using op op_DD_gate [of op n] by (simp add: virtual_swap_def)
  from parts_ok [OF exact_exact_numbers _ this] obtain M where
    M: "gate_entries opSWAP (parameter (getBase op)) = Inr (length (getTargets op), M)" "gate_fits n [] (getTargets op)"
      "\<forall>x y. den n d x y = gate_matrix n M [] (getTargets op) x y" by auto
  have "length (getTargets op) = 2" "M = (\<lambda>r s. [[1, 0, 0, 0], [0, 0, 1, 0], [0, 1, 0, 0], [0, 0, 0, 1]] ! r ! s)"
    using M(1) by (auto simp: gate_entries_def isSingleQubitGate_def isTwoQubitGate_def opToTwoQubitGateMatrix_def double_mats)
  moreover from this obtain a b where ab: "getTargets op = [a, b]" by (auto simp: length_Suc_conv numeral_2_eq_2)
  ultimately have "a < n" "b < n" "a \<noteq> b" "den n d x y = perm_mat n (swap_map a b) x y" for x y
    using M(2,3) gate_matrix_swap_gate [of a n b] by (auto simp: gate_fits_def)
  then show ?thesis using ab by (simp add: fun_eq_iff del: den.simps)
qed

lemma perm_mat_left:
  assumes ab: "a < n" "b < n"
  shows "mat_mult n (perm_mat n (swap_map a b)) B x y = B (swap_map a b x) y"
proof -
  have "mat_mult n (perm_mat n (swap_map a b)) B x y =
      perm_mat n (swap_map a b) x (swap_map a b x) * B (swap_map a b x) y"
    unfolding mat_mult_def
  proof (rule bit_sum_single)
    fix z
    assume z: "\<forall>q \<ge> n. z q = x q" "z \<noteq> swap_map a b x"
    have "z = swap_map a b x" if "\<forall>q < n. x q = swap_map a b z q"
    proof
      fix q
      show "z q = swap_map a b x q"
        using that z(1) ab by (cases "q < n") (auto simp: swap_map_def)
    qed
    with z(2) show "perm_mat n (swap_map a b) x z * B z y = 0" by (auto simp: perm_mat_def)
  qed (use ab in \<open>auto simp: swap_map_def\<close>)
  moreover have "perm_mat n (swap_map a b) x (swap_map a b x) = 1" by (auto simp: perm_mat_def swap_map_def)
  ultimately show ?thesis by simp
qed

lemma swap_map_exchange: "swap_map a b x = x \<circ> exchange a b"
  by (auto simp: swap_map_def exchange_def fun_eq_iff)

section \<open>One operation\<close>

text \<open>
  \<open>e\<close> is the diagram \<open>u\<close> under the layout \<open>p\<close> of the rows and \<open>p0\<close> of the columns, with the
  columns in \<open>k\<close> cleared.
\<close>

definition tracks :: "nat \<Rightarrow> ((nat \<Rightarrow> bool) \<Rightarrow> bool) \<Rightarrow> Permutation \<Rightarrow> Permutation \<Rightarrow> mEdge \<Rightarrow> mEdge \<Rightarrow> bool" where
  "tracks n k p0 p u e \<longleftrightarrow> layout_ok n p \<and> edge_canonical n u \<and> edge_canonical n e \<and>
     (\<forall>x y. den n e x y = (if k y then 0 else den n u (x \<circ> perm_fun p) (y \<circ> perm_fun p0)))"

lemma mat_mult_zero: "mat_mult n A (\<lambda>x y. 0) x y = 0"
proof -
  have "bit_sum n (\<lambda>z. 0) x = (0 :: complex)" for x by (induction n arbitrary: x) simp_all
  then show ?thesis by (simp add: mat_mult_def)
qed

lemma tracks_virtual:
  assumes n: "0 < n" and t: "tracks n k p0 p u e" and op: "regular op" "virtual_swap op" "op_DD n op = Inr d"
    and v: "dd_multiply exact_numbers d u = Inr v"
  shows "\<exists>q. exchange_targets op p = Inr q \<and> tracks n k p0 q v e"
proof -
  have p: "layout_ok n p" and u: "edge_canonical n u" using t by (simp_all add: tracks_def)
  obtain a b where ab: "getTargets op = [a, b]" "a < n" "b < n" "a \<noteq> b" "den n d = perm_mat n (swap_map a b)"
    using virtual_swap_matrix [OF op] by blast
  let ?q = "map_assign a (perm_fun p b) (map_assign b (perm_fun p a) p)"
  note ex = exchange_layout [OF p ab(2,3)] and ex' = exchange_layout(1) [OF p ab(3,2)]
  have "exchange_targets op p = Inr ?q" by (simp add: exchange_targets_def deref_res_def ab(1) ex(1) ex')
  moreover have vv: "edge_canonical n v" "\<forall>x y. den n v x y = mat_mult n (den n d) (den n u) x y"
    using dd_multiply_ok [OF exact_exact_numbers n op_DD_canonical [OF n op(1,3)] u] v by auto
  have "den n v x y = den n u (swap_map a b x) y" for x y using vv(2) perm_mat_left [OF ab(2,3)] ab(5) by simp
  moreover have "swap_map a b (x \<circ> perm_fun ?q) = x \<circ> perm_fun p" for x :: "nat \<Rightarrow> bool"
    by (simp add: swap_map_exchange fun_eq_iff ex(3) exchange_simps)
  ultimately have "tracks n k p0 ?q v e" using t vv(1) ex(2) by (simp add: tracks_def del: den.simps)
  with \<open>exchange_targets op p = Inr ?q\<close> show ?thesis by blast
qed

lemma tracks_multiply:
  assumes n: "0 < n" and t: "tracks n k p0 p u e" and d: "relabelled n p d d'" and v: "dd_multiply exact_numbers d u = Inr v"
  shows "\<exists>e'. dd_multiply exact_numbers d' e = Inr e' \<and> tracks n k p0 p v e'"
proof -
  have p: "layout_ok n p" and can: "edge_canonical n u" "edge_canonical n e" "edge_canonical n d" "edge_canonical n d'"
    using t d by (simp_all add: tracks_def relabelled_def)
  have vv: "edge_canonical n v" "\<forall>x y. den n v x y = mat_mult n (den n d) (den n u) x y"
    using dd_multiply_ok [OF exact_exact_numbers n can(3,1)] v by auto
  obtain e' where e': "dd_multiply exact_numbers d' e = Inr e'" "edge_canonical n e'"
    "\<forall>x y. den n e' x y = mat_mult n (den n d') (den n e) x y"
    using dd_multiply_ok [OF exact_exact_numbers n can(4,2)] by blast
  have "mat_mult n (den n d') (den n e) x y =
      (if k y then 0 else mat_mult n (den n d) (den n u) (x \<circ> perm_fun p) (y \<circ> perm_fun p0))" for x y
  proof -
    have "mat_mult n (den n d') (den n e) x y = mat_mult n (den n d) (\<lambda>z w. if k y then 0 else den n u z w)
        (x \<circ> perm_fun p) (y \<circ> perm_fun p0)"
      by (rule mat_mult_relabel [OF p]) (use t d in \<open>simp_all add: tracks_def relabelled_def\<close>)
    then show ?thesis by (simp add: mat_mult_zero)
  qed
  then have "tracks n k p0 p v e'" using p vv e' by (simp add: tracks_def)
  with e'(1) show ?thesis by blast
qed

lemma build_step_tracks:
  assumes n: "0 < n" and t: "tracks n k p0 p u e" and op: "regular op" "op_DD n op = Inr d"
    and v: "dd_multiply exact_numbers d u = Inr v"
  shows "\<exists>e' q. build_step exact_numbers n op (e, p) = Inr (e', q) \<and> tracks n k p0 q v e'"
proof (cases "virtual_swap op")
  case True
  then show ?thesis using tracks_virtual [OF n t op(1) _ op(2) v] by (auto simp: build_step_def simp del: split_paired_Ex)
next
  case False
  have "layout_ok n p" using t by (simp add: tracks_def)
  from getDD_relabelled [OF this n op] obtain d' where d': "getDD exact_numbers n p False op = Inr d'" "relabelled n p d d'"
    by blast
  from tracks_multiply [OF n t d'(2) v] d'(1) False show ?thesis
    by (auto simp: build_step_def applyUnitaryOperation_def simp del: split_paired_Ex)
qed

lemma build_steps_track:
  assumes n: "0 < n"
  shows "list_all regular ops \<Longrightarrow> tracks n k p0 p u e \<Longrightarrow>
    fold_res (\<lambda>op e. and_then (op_DD n op) (\<lambda>d. dd_multiply exact_numbers d e)) ops u = Inr v \<Longrightarrow>
    \<exists>e' q. fold_res (build_step exact_numbers n) ops (e, p) = Inr (e', q) \<and> tracks n k p0 q v e'"
proof (induction ops arbitrary: u e p)
  case (Cons op ops)
  from Cons.prems(3) obtain d w where d: "op_DD n op = Inr d" "dd_multiply exact_numbers d u = Inr w"
    "fold_res (\<lambda>op e. and_then (op_DD n op) (\<lambda>d. dd_multiply exact_numbers d e)) ops w = Inr v"
    by (auto simp: and_then_eq_Inr)
  obtain e' q where "build_step exact_numbers n op (e, p) = Inr (e', q)" "tracks n k p0 q w e'"
    using build_step_tracks [OF n Cons.prems(2) _ d(1,2)] Cons.prems(1) by auto
  with Cons.IH [OF _ _ d(3)] Cons.prems(1) show ?case by simp
qed auto

section \<open>The output permutation\<close>

text \<open>\<open>e'\<close> is \<open>e\<close> with its rows in the order of \<open>q\<close> instead of \<open>p\<close>.\<close>

definition row_moved :: "nat \<Rightarrow> Permutation \<Rightarrow> Permutation \<Rightarrow> mEdge \<Rightarrow> mEdge \<Rightarrow> bool" where
  "row_moved n p q e e' \<longleftrightarrow> edge_canonical n e' \<and>
     (\<forall>x x' y. (\<forall>i < n. x (perm_fun q i) = x' (perm_fun p i)) \<longrightarrow> den n e' x y = den n e x' y)"

lemma row_moved_refl: "layout_ok n p \<Longrightarrow> edge_canonical n e \<Longrightarrow> row_moved n p p e e"
  unfolding row_moved_def
proof (intro conjI allI impI)
  assume p: "layout_ok n p"
  fix x x' :: "nat \<Rightarrow> bool" and y
  assume x: "\<forall>i < n. x (perm_fun p i) = x' (perm_fun p i)"
  have "x v = x' v" if "v < n" for v using perm_fun_surj [OF p that] x by blast
  then show "den n e x y = den n e x' y" by (intro den_cong) simp_all
qed

lemma other_row:
  assumes "layout_ok n p" "layout_ok n q"
  shows "\<exists>x'. \<forall>i < n. (x (perm_fun q i) :: bool) = x' (perm_fun p i)"
proof -
  let ?x = "\<lambda>j. x (perm_fun q (inv_into {..<n} (perm_fun p) j))"
  have "?x (perm_fun p i) = x (perm_fun q i)" if "i < n" for i
    using perm_fun_bij [OF assms(1)] that by (simp add: bij_betw_def)
  then show ?thesis by (intro exI [of _ ?x]) simp
qed

lemma row_moved_trans:
  assumes l: "layout_ok n p" "layout_ok n q" "layout_ok n r" and m: "row_moved n p q e f" "row_moved n q r f g"
  shows "row_moved n p r e g"
  unfolding row_moved_def
proof (intro conjI allI impI)
  show "edge_canonical n g" using m(2) by (simp add: row_moved_def)
  fix x x' y :: "nat \<Rightarrow> bool"
  assume x: "\<forall>i < n. x (perm_fun r i) = x' (perm_fun p i)"
  obtain z :: "nat \<Rightarrow> bool" where z: "\<forall>i < n. x (perm_fun r i) = z (perm_fun q i)" using other_row [OF l(2,3)] by blast
  then have "den n g x y = den n f z y" using m(2) unfolding row_moved_def by blast
  also have "\<dots> = den n e x' y" using m(1) x z unfolding row_moved_def by metis
  finally show "den n g x y = den n e x' y" .
qed

lemma find_value_ok:
  assumes p: "layout_ok n p" and goal: "goal < n"
  shows "find_value goal p < n" "perm_fun p (find_value goal p) = goal"
proof -
  obtain j where j: "j < n" "perm_fun p j = goal" using perm_fun_surj [OF p goal] by blast
  then have mem: "(j, goal) \<in> set p" using layout_nth [OF p j(1)] layout_length [OF p] by (metis nth_mem)
  then obtain x where x: "List.find (\<lambda>x. snd x = goal) p = Some x" by (cases "List.find (\<lambda>x. snd x = goal) p") (auto simp: find_None_iff)
  then obtain i where i: "i < length p" "x = p ! i" "snd x = goal" by (auto simp: find_Some_iff)
  then have "x = (i, perm_fun p i)" "i < n" using layout_nth [OF p, of i] layout_length [OF p] by simp_all
  then show "find_value goal p < n" "perm_fun p (find_value goal p) = goal" using x i(3) by (auto simp: find_value_def)
qed

lemma exchange_DD:
  assumes ab: "a < n" "b < n" "a \<noteq> b" and e: "edge_canonical n e"
  shows "\<exists>M d f. opToTwoQubitGateMatrix opSWAP [] = Inr M \<and> makeTwoQubitGateDD exact_numbers n M [] a b = Inr d \<and>
    dd_multiply exact_numbers d e = Inr f \<and> edge_canonical n f \<and> (\<forall>x y. den n f x y = den n e (x \<circ> exchange a b) y)"
proof -
  let ?M = "[[1, 0, 0, 0], [0, 0, 1, 0], [0, 1, 0, 0], [0, 0, 0, 1]] :: complex list list"
  have n: "0 < n" using ab by simp
  have M: "opToTwoQubitGateMatrix opSWAP [] = Inr ?M" by (simp add: opToTwoQubitGateMatrix_def)
  have "ensureGateQubitsInRange n [] [a, b] = Inr ()" using ab by (simp add: ensureGateQubitsInRange_def)
  from makeTwoQubitGateDD_ok [OF exact_exact_numbers _ this, of ?M] gate_matrix_swap_gate [OF ab]
  obtain d where d: "makeTwoQubitGateDD exact_numbers n ?M [] a b = Inr d" "edge_canonical n d"
    "den n d = perm_mat n (swap_map a b)" by (auto simp: fun_eq_iff simp del: den.simps)
  from dd_multiply_ok [OF exact_exact_numbers n d(2) e] obtain f where
    f: "dd_multiply exact_numbers d e = Inr f" "edge_canonical n f" "\<forall>x y. den n f x y = mat_mult n (den n d) (den n e) x y"
    by blast
  have "den n f x y = den n e (x \<circ> exchange a b) y" for x y
    using f(3) by (simp add: d(3) perm_mat_left [OF ab(1,2)] swap_map_exchange)
  with M d(1) f(1,2) show ?thesis by blast
qed

lemma change_step_ok:
  assumes p: "layout_ok n p" and e: "edge_canonical n e" and i: "i < n" and goal: "goal < n"
  shows "\<exists>e' q. change_step exact_numbers n True (i, goal) (e, p) = Inr (e', q) \<and> layout_ok n q \<and>
    row_moved n p q e e' \<and> perm_fun q i = goal \<and>
    (\<forall>k < n. k \<noteq> i \<longrightarrow> perm_fun p k \<noteq> goal \<longrightarrow> perm_fun q k = perm_fun p k)"
proof (cases "perm_fun p i = goal")
  case True
  have "change_step exact_numbers n True (i, goal) (e, p) = Inr (e, p)"
    using layout_map_of [OF p i] True by (simp add: change_step_def)
  then show ?thesis using True p row_moved_refl [OF p e] by blast
next
  case False
  let ?c = "perm_fun p i" and ?j = "find_value goal p"
  note j = find_value_ok [OF p goal]
  have ij: "i \<noteq> ?j" using j(2) False by metis
  let ?q = "map_assign ?j ?c (map_assign i goal p)"
  note ex = exchange_layout [OF p j(1) i, unfolded j(2)]
  have c: "?c < n" by (rule perm_fun_less [OF p i])
  from exchange_DD [OF c goal False e] obtain M d f where
    M: "opToTwoQubitGateMatrix opSWAP [] = Inr M" "makeTwoQubitGateDD exact_numbers n M [] ?c goal = Inr d"
      "dd_multiply exact_numbers d e = Inr f" "edge_canonical n f" "\<forall>x y. den n f x y = den n e (x \<circ> exchange ?c goal) y"
    by blast
  have step: "change_step exact_numbers n True (i, goal) (e, p) = Inr (f, ?q)"
    using layout_map_of [OF p i] False ex(1) by (simp add: change_step_def M(1,2,3))
  have q: "perm_fun ?q k = exchange ?c goal (perm_fun p k)" if k: "k < n" for k
  proof -
    consider "k = i" | "k = ?j" | "k \<noteq> i" "k \<noteq> ?j" by blast
    then show ?thesis
    proof cases
      case 3
      then have "perm_fun p k \<noteq> ?c" "perm_fun p k \<noteq> goal"
        using perm_fun_inj [OF p k i] perm_fun_inj [OF p k j(1)] j(2) by auto
      then show ?thesis using 3 unfolding ex(3) by (simp add: exchange_def)
    qed (unfold ex(3), simp_all add: exchange_simps j(2))
  qed
  have "row_moved n p ?q e f"
    unfolding row_moved_def
  proof (intro conjI allI impI)
    fix x x' y :: "nat \<Rightarrow> bool"
    assume x: "\<forall>k < n. x (perm_fun ?q k) = x' (perm_fun p k)"
    have "(x \<circ> exchange ?c goal) v = x' v" if v: "v < n" for v
    proof -
      obtain k where "k < n" "perm_fun p k = v" using perm_fun_surj [OF p v] by blast
      then show ?thesis using x q by auto
    qed
    then have "den n e (x \<circ> exchange ?c goal) y = den n e x' y" by (intro den_cong) simp_all
    then show "den n f x y = den n e x' y" using M(5) by simp
  qed (rule M(4))
  moreover have "perm_fun ?q i = goal" using q [OF i] by (simp add: exchange_simps)
  moreover have "perm_fun ?q k = perm_fun p k" if "k < n" "k \<noteq> i" "perm_fun p k \<noteq> goal" for k
    using q [OF that(1)] that(3) perm_fun_inj [OF p that(1) i] that(2) by (auto simp: exchange_def)
  ultimately show ?thesis using step ex(2) by blast
qed

lemma change_steps_ok:
  assumes out: "\<And>i goal. (i, goal) \<in> set xs \<Longrightarrow> i < n \<and> goal < n" "distinct (map fst xs)" "distinct (map snd xs)"
  shows "layout_ok n p \<Longrightarrow> edge_canonical n e \<Longrightarrow> \<exists>e' q. fold_res (change_step exact_numbers n True) xs (e, p) = Inr (e', q) \<and>
    layout_ok n q \<and> row_moved n p q e e' \<and> (\<forall>(i, goal) \<in> set xs. perm_fun q i = goal)"
  using out
proof (induction xs rule: rev_induct)
  case Nil
  then show ?case using row_moved_refl by auto
next
  case (snoc x xs)
  obtain i goal where x: "x = (i, goal)" by force
  from snoc obtain f r where f: "fold_res (change_step exact_numbers n True) xs (e, p) = Inr (f, r)" "layout_ok n r"
    "row_moved n p r e f" "\<forall>(i, goal) \<in> set xs. perm_fun r i = goal"
    using snoc.IH [OF snoc.prems(1,2)] snoc.prems(3-) by (simp del: split_paired_Ex) blast
  have "i < n" "goal < n" "edge_canonical n f" using snoc.prems(3) f(3) by (auto simp: x row_moved_def)
  from change_step_ok [OF f(2) this(3,1,2)] obtain e' q where
    q: "change_step exact_numbers n True (i, goal) (f, r) = Inr (e', q)" "layout_ok n q" "row_moved n r q f e'"
      "perm_fun q i = goal" "\<forall>k < n. k \<noteq> i \<longrightarrow> perm_fun r k \<noteq> goal \<longrightarrow> perm_fun q k = perm_fun r k" by blast
  have "perm_fun q k = g" if "(k, g) \<in> set xs" for k g
  proof -
    have "k < n" "k \<noteq> i" "g \<noteq> goal" using that snoc.prems by (force simp: x)+
    moreover have "perm_fun r k = g" using f(4) that by auto
    ultimately show ?thesis using q(5) by simp
  qed
  then have "\<forall>(k, g) \<in> set (xs @ [x]). perm_fun q k = g" using q(4) by (auto simp: x)
  moreover have "fold_res (change_step exact_numbers n True) (xs @ [x]) (e, p) = Inr (e', q)"
    using f(1) q(1) by (simp add: fold_res_append x)
  ultimately show ?case using q(2) row_moved_trans [OF snoc.prems(1) f(2) q(2) f(3) q(3)] by blast
qed

lemma changePermutation_ok:
  assumes p: "layout_ok n p" and out: "layout_ok n out" and e: "edge_canonical n e"
  shows "\<exists>e' q. changePermutation exact_numbers n e p out True = Inr (e', q) \<and> row_moved n p out e e'"
proof (cases "isTerminal e \<and> snd e = 0")
  case True
  then have "fst e = MTerminal" by (cases e) simp
  then have "den n e x y = 0" for x y using True by (cases e) (simp add: den_terminal)
  then have "row_moved n p out e e" using e by (simp add: row_moved_def)
  then show ?thesis using True by (auto simp: changePermutation_def layout_length [OF p] layout_length [OF out])
next
  case False
  have set: "i < n \<and> goal = perm_fun out i" if "(i, goal) \<in> set out" for i goal
    using that layout_eq [OF out] by (metis (no_types, lifting) atLeastLessThan_iff imageE list.set_map prod.inject set_upt)
  have "\<exists>e' q. fold_res (change_step exact_numbers n True) out (e, p) = Inr (e', q) \<and>
    layout_ok n q \<and> row_moved n p q e e' \<and> (\<forall>(i, goal) \<in> set out. perm_fun q i = goal)"
    by (rule change_steps_ok [OF _ _ _ p e]) (use set perm_fun_less [OF out] out in \<open>auto simp: layout_ok_def\<close>)
  then obtain e' q where q: "fold_res (change_step exact_numbers n True) out (e, p) = Inr (e', q)"
    "row_moved n p q e e'" "\<forall>(i, goal) \<in> set out. perm_fun q i = goal" by blast
  have "perm_fun q i = perm_fun out i" if "i < n" for i
    using q(3) layout_nth [OF out that] layout_length [OF out] that nth_mem by fastforce
  then have "row_moved n p out e e'" using q(2) by (simp add: row_moved_def)
  moreover have "changePermutation exact_numbers n e p out True = Inr (e', q)"
    unfolding changePermutation_def layout_length [OF p] layout_length [OF out] if_not_P [OF False] using q(1) by simp
  ultimately show ?thesis by blast
qed

section \<open>The functionality\<close>

definition layouts_ok :: "nat \<Rightarrow> QuantumComputation \<Rightarrow> bool" where
  "layouts_ok n qc \<longleftrightarrow> getNqubits qc = n \<and> length (ancillary qc) = n \<and>
     layout_ok n (initialLayout qc) \<and> layout_ok n (outputPermutation qc)"

lemma tracks_initial:
  assumes p: "layout_ok n p" and g: "reduced_ok anc True n mone g"
  shows "tracks n (\<lambda>y. ancilla_set anc 0 n True y y) p p mone g"
proof -
  have "ancilla_set anc 0 n True x y = ancilla_set anc 0 n True y y" for x y by (simp add: ancilla_set_def)
  then have "den n g x y = (if ancilla_set anc 0 n True y y then 0 else den n mone x y)" for x y
    using g unfolding reduced_ok_def by metis
  moreover have "relabelled n p mone mone" using relabelled_terminal [OF p, of 1] by (simp add: mone_def)
  then have "den n mone x y = den n mone (x \<circ> perm_fun p) (y \<circ> perm_fun p)" for x y unfolding relabelled_def by blast
  moreover have "edge_canonical n g" using g by (simp add: reduced_ok_def)
  ultimately show ?thesis using p mone_canonical [of n] unfolding tracks_def by metis
qed

lemma reduceGarbage_none: "list_all Not garb \<Longrightarrow> reduceGarbage N e garb True False = Inr e"
  by (simp add: reduceGarbage_def)

lemma build_finish_ok:
  assumes qc: "layouts_ok n qc" and t: "tracks n k (initialLayout qc) p u e"
    and k: "k = (\<lambda>y. ancilla_set (ancillary qc) 0 n True y y)"
  shows "\<exists>f. build_finish exact_numbers n qc (e, p) = reduceGarbage exact_numbers f (garbage qc) True False \<and>
    tracks n k (initialLayout qc) (outputPermutation qc) u f"
proof -
  let ?out = "outputPermutation qc"
  have lay: "layout_ok n p" "layout_ok n ?out" and e: "edge_canonical n e" and len: "length (ancillary qc) = n"
    using qc t by (simp_all add: layouts_ok_def tracks_def)
  obtain e' q where e': "changePermutation exact_numbers n e p ?out True = Inr (e', q)" "row_moved n p ?out e e'"
    using changePermutation_ok [OF lay e] by blast
  have can: "edge_canonical n e'" using e'(2) by (simp add: row_moved_def)
  obtain f where f: "reduceAncillae exact_numbers e' (ancillary qc) True = Inr f" "reduced_ok (ancillary qc) True n e' f"
    using reduceAncillae_ok [OF exact_exact_numbers, of "ancillary qc" e' True] can len by auto
  have "den n f x y = (if k y then 0 else den n u (x \<circ> perm_fun ?out) (y \<circ> perm_fun (initialLayout qc)))" for x y
  proof -
    obtain x' where x': "\<forall>i < n. x (perm_fun ?out i) = x' (perm_fun p i)" using other_row [OF lay] by blast
    then have "den n e' x y = den n e x' y" using e'(2) unfolding row_moved_def by blast
    moreover have "den n u (x' \<circ> perm_fun p) z = den n u (x \<circ> perm_fun ?out) z" for z
      by (rule den_cong) (use x' in simp_all)
    moreover have "ancilla_set (ancillary qc) 0 n True x y = k y" by (simp add: k ancilla_set_def)
    ultimately show ?thesis using f(2) t by (simp add: reduced_ok_def tracks_def)
  qed
  moreover have "build_finish exact_numbers n qc (e, p) = reduceGarbage exact_numbers f (garbage qc) True False"
    using e'(1) f(1) by (simp add: build_finish_def)
  ultimately show ?thesis using f(2) t lay by (auto simp: tracks_def reduced_ok_def simp del: den.simps split_paired_Ex)
qed

theorem buildFunctionality_tracks:
  assumes n: "0 < n" and qc: "layouts_ok n qc" and reg: "list_all regular (qc_ops qc)"
    and u: "circuit_DD n (qc_ops qc) = Inr u"
  shows "\<exists>e. buildFunctionality exact_numbers n qc = reduceGarbage exact_numbers e (garbage qc) True False \<and>
    tracks n (\<lambda>y. ancilla_set (ancillary qc) 0 n True y y) (initialLayout qc) (outputPermutation qc) u e"
proof -
  have lay: "getNqubits qc = n" "length (ancillary qc) = n" "layout_ok n (initialLayout qc)"
    using qc by (simp_all add: layouts_ok_def)
  obtain g where g: "createInitialMatrix exact_numbers (ancillary qc) = Inr g" "reduced_ok (ancillary qc) True n mone g"
    using createInitialMatrix_ok [OF exact_exact_numbers, of "ancillary qc"] lay(2) by auto
  from build_steps_track [OF n reg tracks_initial [OF lay(3) g(2)]] u obtain e q where
    e: "fold_res (build_step exact_numbers n) (qc_ops qc) (g, initialLayout qc) = Inr (e, q)"
      "tracks n (\<lambda>y. ancilla_set (ancillary qc) 0 n True y y) (initialLayout qc) q u e"
    unfolding circuit_DD_def by blast
  from build_finish_ok [OF qc e(2) refl] obtain f where
    f: "build_finish exact_numbers n qc (e, q) = reduceGarbage exact_numbers f (garbage qc) True False"
    "tracks n (\<lambda>y. ancilla_set (ancillary qc) 0 n True y y) (initialLayout qc) (outputPermutation qc) u f" by blast
  have "getNqubits qc \<noteq> 0" using lay(1) n by simp
  then have "buildFunctionality exact_numbers n qc = reduceGarbage exact_numbers f (garbage qc) True False"
    unfolding buildFunctionality_def g(1) and_then.simps e(1) using f(1) by simp
  with f(2) show ?thesis by blast
qed

end
