(* ===== verification/DDBuildTree.thy ===== *)
theory DDBuildTree
  imports DDBuildSound
begin

text \<open>
  \<open>buildFunctionalityRecursive\<close> computes the same diagram as \<open>buildFunctionality\<close>, errors
  included: both turn the operations into the same list of diagrams, and the tree of products is
  the product of the list.
\<close>

section \<open>The diagrams of the operations\<close>

fun leaf_run :: "nat \<Rightarrow> Operation list \<Rightarrow> Permutation \<Rightarrow> (mEdge list \<times> Permutation) result" where
  "leaf_run n [] p = Inr ([], p)"
| "leaf_run n (op # ops) p = and_then (build_leaf exact_numbers n op p)
     (\<lambda>(d, q). and_then (leaf_run n ops q) (\<lambda>(ds, r). Inr (d # ds, r)))"

abbreviation multiply_all :: "mEdge list \<Rightarrow> mEdge \<Rightarrow> mEdge result" where
  "multiply_all ds e \<equiv> fold_res (\<lambda>d e. dd_multiply exact_numbers d e) ds e"

lemma map_at_layout: "layout_ok n p \<Longrightarrow> map_at p q = Inr v \<longleftrightarrow> q < n \<and> v = perm_fun p q"
  using layout_dom [of n p] by (auto simp: map_at_def perm_fun_def split: option.splits)

lemma applied_controls_sorted:
  assumes p: "layout_ok n p" and n: "0 < n" and cs: "strictly_sorted (map qubit cs)" "perm_apply_controls p cs = Inr cs'"
  shows "strictly_sorted (map qubit cs')"
proof -
  obtain ds where ds: "map_res (\<lambda>c. and_then (map_at p (qubit c)) (\<lambda>q. Inr (Control q (ctype c)))) cs = Inr ds"
      "cs' = set_of_list ds"
    using cs(2) layout_nonempty [OF p n] by (auto simp: perm_apply_controls_def and_then_eq_Inr)
  have step: "and_then (map_at p (qubit c)) (\<lambda>q. Inr (Control q (ctype c))) = Inr d \<longleftrightarrow>
      qubit c < n \<and> d = Control (perm_fun p (qubit c)) (ctype c)" for c d
    by (auto simp: and_then_eq_Inr map_at_layout [OF p])
  from ds(1) have all: "list_all2 (\<lambda>c d. qubit c < n \<and> d = Control (perm_fun p (qubit c)) (ctype c)) cs ds"
    unfolding map_res_Inr step .
  have "ds = map (\<lambda>c. Control (perm_fun p (qubit c)) (ctype c)) cs" "\<forall>c \<in> set cs. qubit c < n"
    using all by (auto simp: list_all2_conv_all_nth in_set_conv_nth intro: nth_equalityI)
  then show ?thesis using relabel_controls_ok [OF p cs(1)] ds(2) by (simp add: relabel_controls_def)
qed

lemma regular_layout_distinct:
  assumes p: "layout_ok n p" and n: "0 < n"
  shows "regular op \<Longrightarrow> distinct_controls p op"
proof (induction op)
  case (CompoundOp b ops cust)
  then show ?case by (simp add: list_all_iff)
qed (use applied_controls_sorted [OF p n] in \<open>auto split: sum.splits\<close>)

lemma exchange_targets_layout:
  assumes p: "layout_ok n p" and q: "exchange_targets op p = Inr q"
  shows "layout_ok n q"
proof -
  obtain a b where "a < n" "b < n" "q = map_assign a (perm_fun p b) (map_assign b (perm_fun p a) p)"
    using q by (auto simp: exchange_targets_def and_then_eq_Inr map_at_layout [OF p])
  then show ?thesis using exchange_layout(2) [OF p] by simp
qed

lemma build_leaf_ok:
  assumes p: "layout_ok n p" and n: "0 < n" and op: "regular op" and d: "build_leaf exact_numbers n op p = Inr (d, q)"
  shows "edge_canonical n d \<and> layout_ok n q"
proof (cases "virtual_swap op")
  case True
  then show ?thesis using d exchange_targets_layout [OF p, of op q] mone_canonical
    by (auto simp: build_leaf_def and_then_eq_Inr)
next
  case False
  then have "getDD exact_numbers n p False op = Inr d" "q = p" using d by (auto simp: build_leaf_def and_then_eq_Inr)
  then show ?thesis using getDD_pair [OF exact_exact_numbers n regular_layout_distinct [OF p n op]] p
    by (auto simp: inverse_pair_def unitary_edge_def)
qed

lemma leaf_run_ok:
  assumes n: "0 < n"
  shows "layout_ok n p \<Longrightarrow> list_all regular ops \<Longrightarrow> leaf_run n ops p = Inr (ds, q) \<Longrightarrow>
    list_all (edge_canonical n) ds \<and> layout_ok n q"
proof (induction ops arbitrary: p ds)
  case (Cons op ops)
  from Cons.prems(3) obtain d r es where d: "build_leaf exact_numbers n op p = Inr (d, r)" "leaf_run n ops r = Inr (es, q)"
    "ds = d # es" by (auto simp: and_then_eq_Inr)
  have "edge_canonical n d \<and> layout_ok n r" using build_leaf_ok [OF Cons.prems(1) n _ d(1)] Cons.prems(2) by simp
  then show ?case using Cons.IH [OF _ _ d(2)] Cons.prems(2) d(3) by simp
qed simp

lemma leaf_run_append:
  "leaf_run n (xs @ ys) p = and_then (leaf_run n xs p) (\<lambda>(ds, q). and_then (leaf_run n ys q) (\<lambda>(es, r). Inr (ds @ es, r)))"
proof (induction xs arbitrary: p)
  case (Cons x xs)
  show ?case
    unfolding append_Cons leaf_run.simps Cons.IH case_prod_beta and_then_assoc and_then.simps fst_conv snd_conv append.simps ..
qed (simp add: case_prod_beta)

text \<open>One operation after the other.\<close>

lemma build_steps_leaves:
  assumes n: "0 < n"
  shows "layout_ok n p \<Longrightarrow> list_all regular ops \<Longrightarrow> edge_canonical n e \<Longrightarrow>
    fold_res (build_step exact_numbers n) ops (e, p) =
    and_then (leaf_run n ops p) (\<lambda>(ds, q). and_then (multiply_all ds e) (\<lambda>e. Inr (e, q)))"
proof (induction ops arbitrary: p e)
  case (Cons op ops)
  have step: "build_step exact_numbers n op (e, p) = and_then (build_leaf exact_numbers n op p)
      (\<lambda>(d, q). and_then (dd_multiply exact_numbers d e) (\<lambda>e. Inr (e, q)))"
    using dd_multiply_one(1) [OF exact_exact_numbers n Cons.prems(3)]
    by (simp add: build_step_def build_leaf_def applyUnitaryOperation_def and_then_assoc)
  show ?case
  proof (cases "build_leaf exact_numbers n op p")
    case (Inr dq)
    obtain d q where dq: "dq = (d, q)" by (cases dq)
    have ok: "edge_canonical n d" "layout_ok n q"
      using build_leaf_ok [OF Cons.prems(1) n, of op d q] Cons.prems(2) Inr dq by simp_all
    obtain f where f: "dd_multiply exact_numbers d e = Inr f" "edge_canonical n f"
      using dd_multiply_ok [OF exact_exact_numbers n ok(1) Cons.prems(3)] by blast
    show ?thesis using Cons.IH [OF ok(2) _ f(2)] Cons.prems(2) f(1)
      by (simp add: step Inr dq and_then_assoc case_prod_beta)
  qed (simp add: step)
qed simp

section \<open>The tree\<close>

text \<open>The subtree of depth \<open>d\<close> at \<open>opIdx\<close> pushes the product of its \<open>2 ^ d\<close> operations.\<close>

definition tree_result :: "nat \<Rightarrow> Operation list \<Rightarrow> nat \<Rightarrow> nat \<Rightarrow> mEdge list \<times> Permutation \<Rightarrow>
    (bool \<times> mEdge list \<times> Permutation) result" where
  "tree_result n ops m i st = and_then (leaf_run n (take m (drop i ops)) (snd st)) (\<lambda>(ds, q).
     and_then (multiply_all ds mone) (\<lambda>g. Inr (i + m < length ops, g # fst st, q)))"

lemma multiply_all_total:
  "0 < n \<Longrightarrow> list_all (edge_canonical n) ds \<Longrightarrow> edge_canonical n e \<Longrightarrow> \<exists>f. multiply_all ds e = Inr f \<and> edge_canonical n f"
  using dd.product_total [of "n - 1" ds e] by simp

lemma tree_leaf:
  assumes n: "0 < n" and i: "i < length ops" and reg: "list_all regular ops" and p: "layout_ok n p"
  shows "buildFunctionalityRecursive_rec exact_numbers n ops (Suc 0) i (s, p) = tree_result n ops 2 i (s, p)"
proof -
  have reg': "regular (ops ! j)" if "j < length ops" for j using reg that by (simp add: list_all_length)
  have one: "dd_multiply exact_numbers d mone = Inr d" if "edge_canonical n d" for d
    by (rule dd_multiply_one(2) [OF exact_exact_numbers n that])
  show ?thesis
  proof (cases "build_leaf exact_numbers n (ops ! i) p")
    case (Inl err)
    have "take 2 (drop i ops) = ops ! i # take 1 (drop (Suc i) ops)"
      using i by (simp add: Cons_nth_drop_Suc [symmetric] numeral_2_eq_2)
    then show ?thesis using Inl i by (simp add: tree_result_def at_res_def)
  next
    case (Inr dq)
    obtain d q where dq: "dq = (d, q)" by (cases dq)
    have d: "edge_canonical n d" "layout_ok n q"
      using build_leaf_ok [OF p n reg' [OF i], of d q] Inr dq by simp_all
    show ?thesis
    proof (cases "i + 1 = length ops")
      case True
      then have "take 2 (drop i ops) = [ops ! i]" using i by (simp add: Cons_nth_drop_Suc [symmetric] numeral_2_eq_2)
      then show ?thesis using Inr dq i True one [OF d(1)] by (simp add: tree_result_def at_res_def)
    next
      case False
      then have j: "Suc i < length ops" using i by simp
      then have tk: "take 2 (drop i ops) = [ops ! i, ops ! Suc i]"
        using i by (simp add: Cons_nth_drop_Suc [symmetric] numeral_2_eq_2)
      show ?thesis
      proof (cases "build_leaf exact_numbers n (ops ! Suc i) q")
        case (Inl err)
        then show ?thesis using Inr dq i j False by (simp add: tree_result_def tk at_res_def)
      next
        case (Inr fr)
        obtain f r where fr: "fr = (f, r)" by (cases fr)
        have "Suc i \<noteq> length ops - Suc 0 \<longleftrightarrow> i + 2 < length ops" using j by linarith
        then show ?thesis
          using Inr fr \<open>build_leaf exact_numbers n (ops ! i) p = Inr dq\<close> dq i j False one [OF d(1)]
          by (cases "dd_multiply exact_numbers f d") (simp_all add: tree_result_def tk at_res_def)
      qed
    qed
  qed
qed

lemma tree_bits:
  assumes "2 ^ Suc k dvd (i :: nat)"
  shows "unset_bit k i = i" "set_bit k i = i + 2 ^ k" "2 ^ k dvd i" "2 ^ k dvd i + 2 ^ k"
proof -
  have "\<not> bit i k" using assms by (auto simp: bit_iff_odd elim!: dvdE)
  then show "unset_bit k i = i" "set_bit k i = i + 2 ^ k"
    by (auto simp: set_bit_eq bit_unset_bit_iff intro!: bit_eqI)
  show "2 ^ k dvd i" using assms by (meson le_imp_power_dvd dvd_trans lessI less_imp_le)
  then show "2 ^ k dvd i + 2 ^ k" by simp
qed

lemma tree_node:
  assumes n: "0 < n" and reg: "list_all regular ops" and p: "layout_ok n p" and more: "i + m < length ops"
  shows "and_then (tree_result n ops m i (s, p)) (\<lambda>(more, st). and_then (tree_result n ops m (i + m) st)
      (\<lambda>(success, s, p). case s of e # f # s \<Rightarrow> and_then (dd_multiply exact_numbers e f) (\<lambda>g. Inr (success, g # s, p)) | _ \<Rightarrow> Inl Undefined))
    = tree_result n ops (2 * m) i (s, p)"
proof -
  let ?xs = "take m (drop i ops)" and ?ys = "take m (drop (i + m) ops)"
  have split: "take (2 * m) (drop i ops) = ?xs @ ?ys" by (simp add: mult_2 take_add add.commute)
  have flag: "i + m + m < length ops \<longleftrightarrow> i + 2 * m < length ops" by linarith
  have reg': "list_all regular ?xs" "list_all regular ?ys"
    using reg by (auto simp: list_all_iff dest: in_set_takeD in_set_dropD)
  show ?thesis
  proof (cases "leaf_run n ?xs p")
    case (Inr dq)
    obtain ds q where dq: "dq = (ds, q)" by (cases dq)
    have ds: "list_all (edge_canonical n) ds" "layout_ok n q" using leaf_run_ok [OF n p reg'(1), of ds q] Inr dq by simp_all
    from multiply_all_total [OF n ds(1) mone_canonical] obtain f where f: "multiply_all ds mone = Inr f" by blast
    show ?thesis
    proof (cases "leaf_run n ?ys q")
      case (Inl err)
      then show ?thesis using Inr dq f by (simp add: tree_result_def split leaf_run_append)
    next
      case (Inr er)
      obtain es r where er: "er = (es, r)" by (cases er)
      have es: "list_all (edge_canonical n) es" using leaf_run_ok [OF n ds(2) reg'(2), of es r] Inr er by simp
      from multiply_all_total [OF n es mone_canonical] obtain g where g: "multiply_all es mone = Inr g" by blast
      have "multiply_all (ds @ es) mone = dd_multiply exact_numbers g f"
        using dd.product_append [of "n - 1" ds es] ds(1) es n f g by simp
      then show ?thesis
        using \<open>leaf_run n ?xs p = Inr dq\<close> dq Inr er f g
        by (cases "dd_multiply exact_numbers g f") (simp_all add: tree_result_def split leaf_run_append flag)
    qed
  qed (simp add: tree_result_def split leaf_run_append)
qed

lemma tree_ok:
  assumes n: "0 < n" and reg: "list_all regular ops"
  shows "layout_ok n p \<Longrightarrow> i < length ops \<Longrightarrow> 2 ^ Suc d dvd i \<Longrightarrow>
    buildFunctionalityRecursive_rec exact_numbers n ops (Suc d) i (s, p) = tree_result n ops (2 ^ Suc d) i (s, p)"
proof (induction d arbitrary: i s p)
  case 0
  then show ?case using tree_leaf [OF n _ reg] by simp
next
  case (Suc d)
  let ?m = "2 ^ Suc d :: nat" and ?rec = "buildFunctionalityRecursive_rec exact_numbers n ops"
  let ?join = "\<lambda>(success, s, p). case s of e # f # s \<Rightarrow> and_then (dd_multiply exact_numbers e f) (\<lambda>g. Inr (success, g # s, p))
      | _ \<Rightarrow> Inl Undefined"
  note bits = tree_bits [OF Suc.prems(3)]
  have left: "?rec (Suc d) i (s, p) = tree_result n ops ?m i (s, p)" by (rule Suc.IH [OF Suc.prems(1,2) bits(3)])
  have unfold: "?rec (Suc (Suc d)) i (s, p) = and_then (tree_result n ops ?m i (s, p))
      (\<lambda>(more, st). if \<not> more then Inr (False, st) else and_then (?rec (Suc d) (i + ?m) st) ?join)"
    unfolding buildFunctionalityRecursive_rec.simps(3) bits(1,2) left ..
  have flag: "r = (i + ?m < length ops) \<and> layout_ok n (snd st)" if "tree_result n ops ?m i (s, p) = Inr (r, st)" for r st
  proof -
    have "list_all regular (take ?m (drop i ops))" using reg by (auto simp: list_all_iff dest: in_set_takeD in_set_dropD)
    then show ?thesis using that leaf_run_ok [OF n Suc.prems(1)]
      by (auto simp: tree_result_def and_then_eq_Inr simp del: power_Suc)
  qed
  show ?case
  proof (cases "i + ?m < length ops")
    case True
    have "?rec (Suc (Suc d)) i (s, p) = and_then (tree_result n ops ?m i (s, p))
        (\<lambda>(more, st). and_then (tree_result n ops ?m (i + ?m) st) ?join)"
      unfolding unfold
    proof (rule and_then_cong [OF refl])
      fix x
      assume x: "tree_result n ops ?m i (s, p) = Inr x"
      obtain r t q where x': "x = (r, t, q)" by (cases x)
      have "r" "layout_ok n q" using flag [of r "(t, q)"] x x' True by simp_all
      then show "(\<lambda>(more, st). if \<not> more then Inr (False, st) else and_then (?rec (Suc d) (i + ?m) st) ?join) x =
          (\<lambda>(more, st). and_then (tree_result n ops ?m (i + ?m) st) ?join) x"
        using Suc.IH [OF _ True bits(4), of q t] by (simp add: x')
    qed
    also have "\<dots> = tree_result n ops (2 * ?m) i (s, p)" by (rule tree_node [OF n reg Suc.prems(1) True])
    finally show ?thesis by simp
  next
    case False
    have "?rec (Suc (Suc d)) i (s, p) = and_then (tree_result n ops ?m i (s, p)) (\<lambda>(more, st). Inr (False, st))"
      unfolding unfold by (rule and_then_cong [OF refl]) (use flag False in auto)
    also have "\<dots> = tree_result n ops (2 * ?m) i (s, p)"
      using False by (simp add: tree_result_def and_then_assoc split_def)
    finally show ?thesis by simp
  qed
qed

section \<open>The end\<close>

lemma build_finish_eq:
  assumes qc: "layouts_ok n qc" and p: "layout_ok n p" and e: "edge_canonical n e" "edge_canonical n e'"
    and den: "\<And>x y. den n e x y = (if ancilla_set (ancillary qc) 0 n True y y then 0 else den n e' x y)"
  shows "build_finish exact_numbers n qc (e, p) = build_finish exact_numbers n qc (e', p)"
proof -
  let ?out = "outputPermutation qc" and ?anc = "ancillary qc"
  have out: "layout_ok n ?out" and len: "length ?anc = n" using qc by (simp_all add: layouts_ok_def)
  obtain f q where f: "changePermutation exact_numbers n e p ?out True = Inr (f, q)" "row_moved n p ?out e f"
    using changePermutation_ok [OF p out e(1)] by blast
  obtain f' q' where f': "changePermutation exact_numbers n e' p ?out True = Inr (f', q')" "row_moved n p ?out e' f'"
    using changePermutation_ok [OF p out e(2)] by blast
  have can: "edge_canonical n f" "edge_canonical n f'" using f(2) f'(2) by (simp_all add: row_moved_def)
  obtain g where g: "reduceAncillae exact_numbers f ?anc True = Inr g" "reduced_ok ?anc True n f g"
    using reduceAncillae_ok [OF exact_exact_numbers, of ?anc f True] can len by auto
  obtain g' where g': "reduceAncillae exact_numbers f' ?anc True = Inr g'" "reduced_ok ?anc True n f' g'"
    using reduceAncillae_ok [OF exact_exact_numbers, of ?anc f' True] can len by auto
  have "g = g'"
  proof (rule canonical_unique)
    show "edge_canonical n g" "edge_canonical n g'" using g(2) g'(2) by (simp_all add: reduced_ok_def)
    fix x y :: "nat \<Rightarrow> bool"
    obtain x' :: "nat \<Rightarrow> bool" where "\<forall>i < n. x (perm_fun ?out i) = x' (perm_fun p i)" using other_row [OF p out] by blast
    then have moved: "den n f x y = den n e x' y" "den n f' x y = den n e' x' y"
      using f(2) f'(2) unfolding row_moved_def by blast+
    have "ancilla_set ?anc 0 n True x y = ancilla_set ?anc 0 n True y y" by (simp add: ancilla_set_def)
    then have "den n g x y = (if ancilla_set ?anc 0 n True y y then 0 else den n e x' y)"
      "den n g' x y = (if ancilla_set ?anc 0 n True y y then 0 else den n e' x' y)"
      using g(2) g'(2) moved unfolding reduced_ok_def by metis+
    then show "den n g x y = den n g' x y" using den [of x' y] by simp
  qed
  then show ?thesis using f(1) f'(1) g(1) g'(1) by (simp add: build_finish_def)
qed

lemma ceil_log2_ok: "m \<le> 2 ^ ceil_log2 m"
proof (induction m rule: ceil_log2.induct)
  case (1 m)
  show ?case
  proof (cases "m \<le> 1")
    case False
    then have "(m + 1) div 2 \<le> 2 ^ ceil_log2 ((m + 1) div 2)" by (rule 1)
    then show ?thesis using False by (simp add: ceil_log2.simps [of m])
  qed (simp add: ceil_log2.simps [of m])
qed

theorem buildFunctionalityRecursive_same:
  assumes n: "0 < n" and qc: "layouts_ok n qc" and reg: "list_all regular (qc_ops qc)" and two: "2 \<le> length (qc_ops qc)"
  shows "buildFunctionalityRecursive exact_numbers n qc = buildFunctionality exact_numbers n qc"
proof -
  let ?ops = "qc_ops qc" and ?p = "initialLayout qc" and ?anc = "ancillary qc"
  have lay: "getNqubits qc = n" "length ?anc = n" "layout_ok n ?p" using qc by (simp_all add: layouts_ok_def)
  obtain g where g: "createInitialMatrix exact_numbers ?anc = Inr g" "reduced_ok ?anc True n mone g"
    using createInitialMatrix_ok [OF exact_exact_numbers, of ?anc] lay(2) by auto
  have gc: "edge_canonical n g" using g(2) by (simp add: reduced_ok_def)
  obtain a b ops where ops: "?ops = a # b # ops" using two by (cases ?ops; cases "tl ?ops") auto
  have "ceil_log2 (length ?ops) \<noteq> 0" using two ceil_log2_ok [of "length ?ops"] by (cases "ceil_log2 (length ?ops)") auto
  then obtain d where d: "ceil_log2 (length ?ops) = Suc d" by (cases "ceil_log2 (length ?ops)") auto
  then have all: "take (2 ^ Suc d) ?ops = ?ops" using ceil_log2_ok [of "length ?ops"] by simp
  have tree: "buildFunctionalityRecursive_rec exact_numbers n ?ops (Suc d) 0 ([], ?p) =
      and_then (leaf_run n ?ops ?p) (\<lambda>(ds, q). and_then (multiply_all ds mone) (\<lambda>e. Inr (2 ^ Suc d < length ?ops, [e], q)))"
    using tree_ok [OF n reg lay(3), of 0 d "[]"] ops unfolding tree_result_def drop_0 all fst_conv snd_conv add_0 by (simp only: length_greater_0_conv list.distinct not_False_eq_True dvd_0_right)
  have nq: "getNqubits qc \<noteq> 0" using lay(1) n by simp
  have left: "buildFunctionality exact_numbers n qc = and_then (leaf_run n ?ops ?p)
      (\<lambda>(ds, q). and_then (multiply_all ds g) (\<lambda>e. build_finish exact_numbers n qc (e, q)))"
    unfolding buildFunctionality_def if_not_P [OF nq] g(1) and_then.simps build_steps_leaves [OF n lay(3) reg gc]
    by (simp add: and_then_assoc split_def)
  have right: "buildFunctionalityRecursive exact_numbers n qc = and_then (leaf_run n ?ops ?p)
      (\<lambda>(ds, q). and_then (multiply_all ds mone) (\<lambda>e. build_finish exact_numbers n qc (e, q)))"
    using tree ops d unfolding buildFunctionalityRecursive_def if_not_P [OF nq]
    by (simp add: and_then_assoc split_def del: power_Suc)
  show ?thesis
    unfolding left right
  proof (rule and_then_cong [OF refl])
    fix x
    assume x: "leaf_run n ?ops ?p = Inr x"
    obtain ds q where x': "x = (ds, q)" by (cases x)
    have ds: "list_all (edge_canonical n) ds" "layout_ok n q" using leaf_run_ok [OF n lay(3) reg, of ds q] x x' by simp_all
    obtain e where e: "multiply_all ds mone = Inr e" "edge_canonical n e" using multiply_all_total [OF n ds(1) mone_canonical] by blast
    obtain f where f: "dd_multiply exact_numbers e g = Inr f" "edge_canonical n f"
      "\<forall>x y. den n f x y = mat_mult n (den n e) (den n g) x y"
      using dd_multiply_ok [OF exact_exact_numbers n e(2) gc] by blast
    have "multiply_all ds g = Inr f" using dd.product_from [of "n - 1" ds g] ds(1) gc n e(1) f(1) by simp
    moreover have "build_finish exact_numbers n qc (f, q) = build_finish exact_numbers n qc (e, q)"
    proof (rule build_finish_eq [OF qc ds(2) f(2) e(2)])
      fix x y
      have "den n g z y = (if ancilla_set ?anc 0 n True y y then 0 else den n mone z y)" for z
        using g(2) by (simp add: reduced_ok_def ancilla_set_def)
      then have "mat_mult n (den n e) (den n g) x y =
          mat_mult n (den n e) (if ancilla_set ?anc 0 n True y y then (\<lambda>x y. 0) else den n mone) x y"
        unfolding mat_mult_def by simp
      then show "den n f x y = (if ancilla_set ?anc 0 n True y y then 0 else den n e x y)"
        using f(3) by (simp add: mat_mult_zero mone_def mat_mult_identity_right)
    qed
    ultimately show "(\<lambda>(ds, q). and_then (multiply_all ds mone) (\<lambda>e. build_finish exact_numbers n qc (e, q))) x =
        (\<lambda>(ds, q). and_then (multiply_all ds g) (\<lambda>e. build_finish exact_numbers n qc (e, q))) x"
      using e(1) by (simp add: x')
  qed
qed

end
