(* ===== verification/DDGarbage.thy ===== *)
theory DDGarbage
  imports DDBuild
begin

text \<open>
  \<open>reduceGarbage\<close> keeps probabilities: the squared magnitudes of the entries are summed over the
  values of the garbage qubits, and only the entries with these qubits at zero remain.
\<close>

section \<open>Sums over garbage qubits\<close>

fun garbage_sum :: "bool list \<Rightarrow> bool \<Rightarrow> nat \<Rightarrow> ((nat \<Rightarrow> bool) \<Rightarrow> (nat \<Rightarrow> bool) \<Rightarrow> real) \<Rightarrow>
    (nat \<Rightarrow> bool) \<Rightarrow> (nat \<Rightarrow> bool) \<Rightarrow> real" where
  "garbage_sum garb regular 0 A x y = A x y"
| "garbage_sum garb regular (Suc k) A x y = (
     if \<not> garb ! k then garbage_sum garb regular k A x y
     else if regular then
       if x k then 0 else garbage_sum garb regular k A (x(k := False)) y + garbage_sum garb regular k A (x(k := True)) y
     else if y k then 0 else garbage_sum garb regular k A x (y(k := False)) + garbage_sum garb regular k A x (y(k := True)))"

lemma garbage_sum_none: "(\<And>q. q < k \<Longrightarrow> \<not> garb ! q) \<Longrightarrow> garbage_sum garb regular k A x y = A x y"
  by (induction k) simp_all

text \<open>Only qubits below \<open>k\<close> change.\<close>

lemma garbage_sum_cong:
  assumes "\<And>u v. (\<forall>q \<ge> k. u q = x q \<and> v q = y q) \<Longrightarrow> A u v = B u v"
  shows "garbage_sum garb regular k A x y = garbage_sum garb regular k B x y"
  using assms
proof (induction k arbitrary: x y)
  case (Suc k)
  have "garbage_sum garb regular k A (x(k := b)) (y(k := c)) = garbage_sum garb regular k B (x(k := b)) (y(k := c))" for b c
    by (rule Suc.IH) (rule Suc.prems, simp add: Suc_le_eq)
  then have "garbage_sum garb regular k A (x(k := b)) y = garbage_sum garb regular k B (x(k := b)) y"
    "garbage_sum garb regular k A x (y(k := b)) = garbage_sum garb regular k B x (y(k := b))"
    "garbage_sum garb regular k A x y = garbage_sum garb regular k B x y" for b
    by (metis fun_upd_triv)+
  then show ?case by (cases regular) simp_all
qed simp

lemma garbage_sum_base:
  assumes A: "\<And>u v u' v'. (\<forall>i < m. u i = u' i \<and> v i = v' i) \<Longrightarrow> A u v = A u' v'"
  shows "k \<le> m \<Longrightarrow> \<forall>i < m. x i = x' i \<and> y i = y' i \<Longrightarrow> garbage_sum garb regular k A x y = garbage_sum garb regular k A x' y'"
proof (induction k arbitrary: x x' y y')
  case 0
  then show ?case using A [of x x' y y'] by simp
next
  case (Suc k)
  have k: "x k = x' k" "y k = y' k" "k \<le> m" using Suc.prems by auto
  have "garbage_sum garb regular k A (x(k := b)) y = garbage_sum garb regular k A (x'(k := b)) y'"
    "garbage_sum garb regular k A x (y(k := b)) = garbage_sum garb regular k A x' (y'(k := b))"
    "garbage_sum garb regular k A x y = garbage_sum garb regular k A x' y'" for b
    by (rule Suc.IH [OF k(3)]; use Suc.prems(2) in simp)+
  then show ?case using k by (cases regular) simp_all
qed

lemma garbage_sum_scale: "garbage_sum garb regular k (\<lambda>x y. c * A x y) x y = c * garbage_sum garb regular k A x y"
  by (induction k arbitrary: x y; cases regular) (simp_all add: distrib_left)

lemma garbage_sum_zero: "garbage_sum garb regular k (\<lambda>x y. 0) x y = 0"
  by (induction k arbitrary: x y; cases regular) simp_all

lemma mag2_magnitude: "mag2 (magnitude w) = mag2 w"
  by (simp add: magnitude_def mag2_cmod)

section \<open>addMagnitudes\<close>

lemma magnitude_zero [simp]: "magnitude w = 0 \<longleftrightarrow> w = 0"
  by (simp add: magnitude_def mag2_cmod)

lemma mag2_den: "mag2 (den k (p, a) x y) = mag2 a * mag2 (den k (p, 1) x y)"
  using den_scale [of k p a x y] by (simp add: mag2_mult del: den.simps)

lemma magnitude_shortcut_ok:
  assumes e: "magnitude_shortcut x y = Some e" and can: "edge_canonical k x" "edge_canonical k y"
  shows "edge_canonical k e \<and> mag2 (den k e r c) = mag2 (den k x r c) + mag2 (den k y r c)"
proof -
  obtain p a where x: "x = (p, a)" by (cases x)
  obtain q b where y: "y = (q, b)" by (cases y)
  let ?s = "complex_of_real (sqrt (mag2 a + mag2 b))"
  have zero: "mag2 (den k (p, 0) r c) = 0" for p using mag2_den [of k p 0] by (simp del: den.simps)
  consider "a = 0" "b = 0" | "a = 0" "b \<noteq> 0" | "a \<noteq> 0" "b = 0" | "a \<noteq> 0" "b \<noteq> 0" "p = q"
    using e by (auto simp: magnitude_shortcut_def x y split: if_splits)
  then show ?thesis
  proof cases
    case 1
    then show ?thesis using e zero by (auto simp: magnitude_shortcut_def x y mzero_def edge_canonical_def simp del: den.simps)
  next
    case 2
    then have "e = (q, magnitude b)" using e by (simp add: magnitude_shortcut_def x y)
    then show ?thesis using 2 can zero mag2_den [of k q b] mag2_den [of k q "magnitude b"]
      by (simp add: x y edge_canonical_def mag2_magnitude del: den.simps)
  next
    case 3
    then have "e = (p, magnitude a)" using e by (simp add: magnitude_shortcut_def x y)
    then show ?thesis using 3 can zero mag2_den [of k p a] mag2_den [of k p "magnitude a"]
      by (simp add: x y edge_canonical_def mag2_magnitude del: den.simps)
  next
    case 4
    then have e': "e = (p, ?s)" using e by (simp add: magnitude_shortcut_def x y)
    have sq: "mag2 ?s = mag2 a + mag2 b" by (simp add: mag2_cmod)
    then have "?s \<noteq> 0" using 4 mag2_pos [of a] mag2_pos [of b] by (metis add_pos_pos mag2_simps(1) less_irrefl)
    then show ?thesis
      using 4 can sq mag2_den [of k p a] mag2_den [of k p b] mag2_den [of k p ?s]
      by (simp add: x y e' edge_canonical_def distrib_right del: den.simps)
  qed
qed

lemma add_successor_edge:
  assumes "edge_canonical (Suc k) x" and "snd x \<noteq> 0" and "i < 4"
  shows "edge_canonical k (add_successor k x i)"
proof -
  obtain p a where x: "x = (p, a)" by (cases x)
  from assms(1) have "canonical (Suc k) p" by (simp add: x edge_canonical_def)
  then show ?thesis
  proof (cases rule: canonical_cases)
    case below
    then show ?thesis using assms(2) by (auto simp: x add_successor_def edge_canonical_def)
  next
    case (here es)
    then show ?thesis using here(5) [OF assms(3)] assms(2)
      by (auto simp: x add_successor_def edge_canonical_def split: prod.split)
  qed
qed

lemma addMagnitudes_ok:
  assumes ex: "exact N"
  shows "edge_canonical k x \<Longrightarrow> edge_canonical k y \<Longrightarrow> \<exists>e. addMagnitudes N x y k = Inr e \<and> edge_canonical k e \<and>
    (\<forall>r c. mag2 (den k e r c) = mag2 (den k x r c) + mag2 (den k y r c))"
proof (induction k arbitrary: x y)
  case 0
  then have "fst x = MTerminal" "fst y = MTerminal" by (auto simp: edge_canonical_def dest!: canonical_mwf elim: mwf.cases)
  then have "magnitude_shortcut x y \<noteq> None" by (simp add: magnitude_shortcut_def)
  then obtain e where "magnitude_shortcut x y = Some e" by blast
  with magnitude_shortcut_ok [OF this 0] show ?case by simp
next
  case (Suc k)
  show ?case
  proof (cases "magnitude_shortcut x y")
    case (Some e)
    with magnitude_shortcut_ok [OF Some Suc.prems] show ?thesis by (auto simp del: den.simps)
  next
    case None
    then have nz: "snd x \<noteq> 0" "snd y \<noteq> 0" by (auto simp: magnitude_shortcut_def split: if_splits)
    have mwf: "mwf (Suc k) (fst x)" "mwf (Suc k) (fst y)" using Suc.prems canonical_mwf by (auto simp: edge_canonical_def)
    have succ: "edge_canonical k (add_successor k x i)" "edge_canonical k (add_successor k y i)" if "i < 4" for i
      using add_successor_edge Suc.prems nz that by blast+
    let ?f = "\<lambda>i. addMagnitudes N (add_successor k x i) (add_successor k y i) k"
    let ?P = "\<lambda>i e. edge_canonical k e \<and> (\<forall>r c. mag2 (den k e r c) =
        mag2 (den k (add_successor k x i) r c) + mag2 (den k (add_successor k y i) r c))"
    have "\<exists>e. ?f i = Inr e \<and> ?P i e" if "i < 4" for i by (rule Suc.IH [OF succ [OF that]])
    from map_res_nth_ok [of 4 ?f ?P, OF this] obtain es where
      es: "map_res ?f [0..<4] = Inr es" "length es = 4" "\<forall>i < 4. ?P i (es ! i)" by blast
    have c: "canonical k (fst (es ! i))" if "i < 4" for i using es(3) that by (simp add: edge_canonical_def)
    then have "edges_ok k es" using es(2) canonical_mwf by (simp add: edges_ok_def)
    then have "mag2 (den (Suc k) (makeDDNode N k es) r s) = mag2 (den (Suc k) x r s) + mag2 (den (Suc k) y r s)" for r s
      using makeDDNode_ok [OF ex, of k es r s] es(3) child_index_less [of k r s]
        add_successor_den' [OF mwf(1) nz(1), of r s] add_successor_den' [OF mwf(2) nz(2), of r s]
      by (simp del: den.simps)
    moreover have "edge_canonical (Suc k) (makeDDNode N k es)" by (rule makeDDNode_canonical [OF ex es(2) c])
    ultimately show ?thesis using None es(1) by (simp del: den.simps)
  qed
qed

section \<open>Reducing nodes\<close>

definition garb_ok :: "bool list \<Rightarrow> bool \<Rightarrow> nat \<Rightarrow> mEdge \<Rightarrow> mEdge \<Rightarrow> bool" where
  "garb_ok garb regular k e g \<longleftrightarrow> edge_canonical k g \<and>
     (\<forall>x y. mag2 (den k g x y) = garbage_sum garb regular k (\<lambda>x y. mag2 (den k e x y)) x y)"

lemma garb_ok_scale:
  assumes g: "garb_ok garb regular k (p, 1) g" and w: "w \<noteq> 0" and v: "mag2 v = mag2 (snd g * w)"
  shows "garb_ok garb regular k (p, w) (fst g, v)"
proof -
  have can: "canonical k (fst g)" "snd g = 0 \<longrightarrow> fst g = MTerminal" using g by (simp_all add: garb_ok_def edge_canonical_def)
  have "v = 0 \<Longrightarrow> snd g = 0" using v w by (simp add: mag2_mult mag2_cmod)
  then have "edge_canonical k (fst g, v)" using can by (simp add: edge_canonical_def)
  moreover have "mag2 (den k (fst g, v) x y) = garbage_sum garb regular k (\<lambda>x y. mag2 (den k (p, w) x y)) x y" for x y
  proof -
    have "mag2 (den k (fst g, v) x y) = mag2 w * mag2 (den k g x y)"
      using mag2_den [of k "fst g" v x y] mag2_den [of k "fst g" "snd g" x y] v
      by (simp add: mag2_mult mult.commute mult.left_commute del: den.simps)
    also have "\<dots> = garbage_sum garb regular k (\<lambda>x y. mag2 w * mag2 (den k (p, 1) x y)) x y"
      unfolding garbage_sum_scale using g by (simp add: garb_ok_def del: den.simps)
    finally show ?thesis by (simp only: mag2_den [of k p w])
  qed
  ultimately show ?thesis by (simp add: garb_ok_def del: den.simps)
qed

lemma den_one_level: "canonical k (fst e) \<Longrightarrow> den (Suc k) e x y = (if x k = y k then den k e x y else 0)"
  using den_skip [of k "fst e" "snd e" x y] canonical_mwf by (simp del: den.simps)

lemma garbage_sum_if:
  assumes "\<And>u v. \<forall>q \<ge> k. u q = x q \<and> v q = y q \<Longrightarrow> P u v = P x y"
  shows "garbage_sum garb regular k (\<lambda>u v. if P u v then B u v else 0) x y = (if P x y then garbage_sum garb regular k B x y else 0)"
proof -
  have "garbage_sum garb regular k (\<lambda>u v. if P u v then B u v else 0) x y =
    garbage_sum garb regular k (if P x y then B else (\<lambda>u v. 0)) x y"
  proof (rule garbage_sum_cong)
    fix u v
    assume "\<forall>q \<ge> k. u q = x q \<and> v q = y q"
    then have "P u v = P x y" by (rule assms)
    then show "(if P u v then B u v else 0) = (if P x y then B else (\<lambda>u v. 0)) u v" by simp
  qed
  then show ?thesis by (simp add: garbage_sum_zero)
qed

lemma garbage_sum_lift:
  assumes "canonical k (fst e)"
  shows "garbage_sum garb regular k (\<lambda>x y. mag2 (den (Suc k) e x y)) x y =
    (if x k = y k then garbage_sum garb regular k (\<lambda>x y. mag2 (den k e x y)) x y else 0)"
proof -
  have "mag2 (den (Suc k) e x y) = (if x k = y k then mag2 (den k e x y) else 0)" for x y
    using den_one_level [OF assms, of x y] by (simp del: den.simps)
  then show ?thesis by (simp add: garbage_sum_if del: den.simps)
qed

lemma garbage_sum_above:
  "(\<And>i. i < k \<Longrightarrow> x i = x' i) \<Longrightarrow> (\<And>i. i < k \<Longrightarrow> y i = y' i) \<Longrightarrow>
    garbage_sum garb regular k (\<lambda>x y. mag2 (den k e x y)) x y = garbage_sum garb regular k (\<lambda>x y. mag2 (den k e x y)) x' y'"
proof (rule garbage_sum_base [of k])
  fix u v u' v' :: "nat \<Rightarrow> bool"
  assume "\<forall>i < k. u i = u' i \<and> v i = v' i"
  then have "den k e u v = den k e u' v'" by (intro den_cong) simp_all
  then show "mag2 (den k e u v) = mag2 (den k e u' v')" by simp
qed simp_all

lemma garb_ok_keep:
  assumes g: "garb_ok garb regular k e g" and e: "canonical k (fst e)" and k: "\<not> garb ! k"
  shows "garb_ok garb regular (Suc k) e g"
proof -
  have can: "edge_canonical k g" "canonical k (fst g)" using g by (simp_all add: garb_ok_def edge_canonical_def)
  have "mag2 (den (Suc k) g x y) = (if x k = y k then mag2 (den k g x y) else 0)" for x y
    using den_one_level [OF can(2), of x y] by (simp del: den.simps)
  then show ?thesis using g edge_canonical_mono [OF can(1), of "Suc k"] garbage_sum_lift [OF e] k
    by (simp add: garb_ok_def del: den.simps)
qed

lemma garb_ok_node:
  assumes ex: "exact N" and fs: "length fs = 4" and can: "\<And>i. i < 4 \<Longrightarrow> canonical k (fst (fs ! i))"
    and den: "\<And>x y. mag2 (den k (fs ! child_index k x y) x y) = garbage_sum garb regular (Suc k) (\<lambda>x y. mag2 (den (Suc k) e x y)) x y"
  shows "garb_ok garb regular (Suc k) e (makeDDNode N k fs)"
proof -
  have "edges_ok k fs" using fs can canonical_mwf by (simp add: edges_ok_def)
  from makeDDNode_ok [OF ex this] den show ?thesis
    using makeDDNode_canonical [OF ex fs can] by (simp add: garb_ok_def del: den.simps)
qed

lemma garb_ok_merge:
  assumes ex: "exact N" and g: "garb_ok garb regular k e g" and e: "canonical k (fst e)" and k: "garb ! k"
  shows "garb_ok garb regular (Suc k) e
    (makeDDNode N k (if regular then [g, g, mzero, mzero] else [g, mzero, g, mzero]))"
proof (rule garb_ok_node [OF ex])
  let ?S = "garbage_sum garb regular k (\<lambda>x y. mag2 (den k e x y))"
  let ?fs = "if regular then [g, g, mzero, mzero] else [g, mzero, g, mzero]"
  show "length ?fs = 4" by simp
  show "canonical k (fst (?fs ! i))" if "i < 4" for i
    using that g by (auto simp: garb_ok_def edge_canonical_def less_Suc_eq numeral_eq_Suc mzero_def)
  fix x y :: "nat \<Rightarrow> bool"
  have zero: "mag2 (den k mzero x y) = 0" using mag2_den [of k MTerminal 0] by (simp add: mzero_def del: den.simps)
  have den: "mag2 (den k g x y) = ?S x y" using g by (simp add: garb_ok_def del: den.simps)
  have same: "?S (x(k := b)) y = ?S x y" "?S x (y(k := b)) = ?S x y" for b
    by (rule garbage_sum_above; simp)+
  show "mag2 (den k (?fs ! child_index k x y) x y) = garbage_sum garb regular (Suc k) (\<lambda>x y. mag2 (den (Suc k) e x y)) x y"
    using zero den k garbage_sum_lift [OF e] same
    by (cases regular; cases "x k"; cases "y k")
      (simp_all add: child_index_def numeral_2_eq_2 numeral_3_eq_3 del: den.simps)
qed

lemma wrap_garbage_ok:
  assumes ex: "exact N" and g: "garb_ok garb regular lo e g" and e: "canonical lo (fst e)" and "lo \<le> hi"
  shows "garb_ok garb regular hi e (wrap_garbage N garb regular lo hi g)"
  using assms(4)
proof (induction hi rule: dec_induct)
  case base
  then show ?case using g by (simp add: wrap_garbage_def)
next
  case (step hi)
  have e': "canonical hi (fst e)" using canonical_mono [OF e] step.hyps by simp
  have "wrap_garbage N garb regular lo (Suc hi) g = (let w = wrap_garbage N garb regular lo hi g in if garb ! hi
     then makeDDNode N hi (if regular then [w, w, mzero, mzero] else [w, mzero, w, mzero]) else w)"
    using step.hyps by (simp add: wrap_garbage_def Let_def)
  then show ?case using garb_ok_keep [OF step.IH e'] garb_ok_merge [OF ex step.IH e'] by (simp add: Let_def)
qed

lemma garbage_identity:
  assumes ex: "exact N" and w: "w \<noteq> 0" "mag2 v = mag2 w" and low: "\<forall>q < lo. \<not> garb ! q" "lo \<le> k"
  shows "garb_ok garb regular k (MTerminal, w)
    (fst (wrap_garbage N garb regular lo k mone), snd (wrap_garbage N garb regular lo k mone) * v)"
proof -
  have "garb_ok garb regular lo (MTerminal, 1) mone"
    using garbage_sum_none [of lo garb] low(1) mone_canonical [of lo] by (simp add: garb_ok_def mone_def del: den.simps)
  from wrap_garbage_ok [OF ex this _ low(2)] show ?thesis
    by (intro garb_ok_scale [OF _ w(1)]) (simp_all add: mag2_mult w(2))
qed

lemma garbage_zero: "garb_ok garb regular k (p, 0) mzero"
proof -
  have "mag2 (den k (q, 0) x y) = 0" for q x y using mag2_den [of k q 0] by (simp del: den.simps)
  then show ?thesis by (simp add: garb_ok_def edge_canonical_def mzero_def garbage_sum_zero del: den.simps)
qed

lemma garbage_successor_ok:
  assumes ex: "exact N" and e: "edge_canonical v e" and low: "\<forall>q < lo. \<not> garb ! q"
    and lo: "lo \<le> v \<or> v < lo"
    and rec: "fst e \<noteq> MTerminal \<Longrightarrow> \<exists>g. reduced = Inr g \<and> garb_ok garb regular (Suc (node_var (fst e))) (fst e, 1) g"
  shows "\<exists>g. garbage_successor N garb lo regular nw v e reduced = Inr g \<and> garb_ok garb regular v e g"
proof -
  obtain p w where pw: "e = (p, w)" by (cases e)
  consider (zero) "p = MTerminal" "w = 0" | (one) "p = MTerminal" "w \<noteq> 0" | (node) u es where "p = MNode u es"
    by (cases p) auto
  then show ?thesis
  proof cases
    case zero
    then show ?thesis using garbage_zero by (simp add: garbage_successor_def pw)
  next
    case one
    let ?v = "if nw then magnitude w else w"
    have v: "mag2 ?v = mag2 w" by (simp add: mag2_magnitude)
    have "garb_ok garb regular v (MTerminal, w)
      (fst (wrap_garbage N garb regular lo v mone), snd (wrap_garbage N garb regular lo v mone) * ?v)"
    proof (cases "lo \<le> v")
      case True
      then show ?thesis using garbage_identity [OF ex one(2) v low] by simp
    next
      case False
      then have "wrap_garbage N garb regular lo v mone = wrap_garbage N garb regular v v mone" by (simp add: wrap_garbage_def)
      then show ?thesis using garbage_identity [OF ex one(2) v, of v garb v] low False by simp
    qed
    then show ?thesis using one by (cases nw) (simp_all add: garbage_successor_def pw Let_def)
  next
    case node
    obtain g where g: "reduced = Inr g" "garb_ok garb regular (Suc u) (p, 1) g" using rec node by (auto simp: pw)
    have w: "w \<noteq> 0" and can: "canonical v p" using e node by (auto simp: edge_canonical_def pw)
    have u: "Suc u \<le> v" "canonical (Suc u) p" using can by (simp_all add: node canonical_MNode)
    let ?g = "wrap_garbage N garb regular (Suc u) v g"
    have ok: "garb_ok garb regular v (p, 1) ?g" by (rule wrap_garbage_ok [OF ex g(2) _ u(1)]) (simp add: u(2))
    have "garb_ok garb regular v e (fst ?g, if nw then magnitude (snd ?g * w) else snd ?g * w)"
      unfolding pw by (rule garb_ok_scale [OF ok w]) (simp add: mag2_magnitude)
    then show ?thesis using node g(1) by (cases nw) (simp_all add: garbage_successor_def pw Let_def)
  qed
qed

lemma child_sum:
  assumes fs: "\<forall>i < 4. garb_ok garb regular v (es ! i) (fs ! i)"
  shows "garbage_sum garb regular v (\<lambda>x y. mag2 (den (Suc v) (MNode v es, 1) x y)) x y =
    mag2 (den v (fs ! child_index v x y) x y)"
proof -
  have "garbage_sum garb regular v (\<lambda>x y. mag2 (den (Suc v) (MNode v es, 1) x y)) x y =
      garbage_sum garb regular v (\<lambda>u w. mag2 (den v (es ! child_index v x y) u w)) x y"
    by (rule garbage_sum_cong) (simp add: child_index_def)
  then show ?thesis using fs child_index_less [of v x y] by (simp add: garb_ok_def del: den.simps)
qed

lemma children_kept:
  assumes ex: "exact N" and fs: "length fs = 4" "\<forall>i < 4. garb_ok garb regular v (es ! i) (fs ! i)" and v: "\<not> garb ! v"
  shows "garb_ok garb regular (Suc v) (MNode v es, 1) (makeDDNode N v fs)"
proof (rule garb_ok_node [OF ex fs(1)])
  show "canonical v (fst (fs ! i))" if "i < 4" for i using fs(2) that by (simp add: garb_ok_def edge_canonical_def)
qed (use v child_sum [OF fs(2)] in \<open>simp del: den.simps\<close>)

lemma children_merged:
  assumes ex: "exact N" and fs: "\<forall>i < 4. garb_ok garb regular v (es ! i) (fs ! i)" and v: "garb ! v"
    and gs: "gs = (if regular then [a, b, mzero, mzero] else [a, mzero, b, mzero])"
    and a: "edge_canonical v a" "\<forall>r c. mag2 (den v a r c) =
      mag2 (den v (fs ! 0) r c) + mag2 (den v (fs ! (if regular then 2 else 1)) r c)"
    and b: "edge_canonical v b" "\<forall>r c. mag2 (den v b r c) =
      mag2 (den v (fs ! (if regular then 1 else 2)) r c) + mag2 (den v (fs ! 3) r c)"
  shows "garb_ok garb regular (Suc v) (MNode v es, 1) (makeDDNode N v gs)"
proof (rule garb_ok_node [OF ex])
  show "length gs = 4" by (simp add: gs)
  show "canonical v (fst (gs ! i))" if "i < 4" for i
    using that a(1) b(1) by (auto simp: gs edge_canonical_def less_Suc_eq numeral_eq_Suc mzero_def)
  fix x y :: "nat \<Rightarrow> bool"
  have zero: "mag2 (den v mzero x y) = 0" using mag2_den [of v MTerminal 0] by (simp add: mzero_def del: den.simps)
  have same: "den v e (x(v := c)) y = den v e x y" "den v e x (y(v := c)) = den v e x y" for e c
    by (rule den_cong; simp)+
  have idx: "child_index v (x(v := c)) y = 2 * of_bool c + of_bool (y v)"
    "child_index v x (y(v := c)) = 2 * of_bool (x v) + of_bool c" for c by (simp_all add: child_index_def)
  have sum: "\<forall>x y. garbage_sum garb regular v (\<lambda>x y. mag2 (den (Suc v) (MNode v es, 1) x y)) x y =
      mag2 (den v (fs ! child_index v x y) x y)" using child_sum [OF fs] by blast
  show "mag2 (den v (gs ! child_index v x y) x y) =
      garbage_sum garb regular (Suc v) (\<lambda>x y. mag2 (den (Suc v) (MNode v es, 1) x y)) x y"
    using zero v a(2) b(2) sum
    by (cases regular; cases "x v"; cases "y v")
      (simp_all add: gs idx same child_index_def [of v x y] numeral_2_eq_2 numeral_3_eq_3 del: den.simps)
qed

lemma reduceGarbageRecursion_ok:
  assumes ex: "exact N" and low: "\<forall>q < lo. \<not> garb ! q"
  shows "canonical k p \<Longrightarrow> p \<noteq> MTerminal \<Longrightarrow> k \<le> length garb \<Longrightarrow>
    \<exists>g. reduceGarbageRecursion N garb lo regular nw p = Inr g \<and> garb_ok garb regular (Suc (node_var p)) (p, 1) g"
proof (induction p arbitrary: k)
  case (MNode v es)
  have v: "edge_canonical v (es ! i)" if "i < 4" for i
    using MNode.prems canonical_child [of k v es] that by (simp_all add: canonical_MNode)
  have es: "v < k" "length es = 4" and can: "canonical (Suc v) (MNode v es)" using MNode.prems by (simp_all add: canonical_MNode)
  show ?case
  proof (cases "\<not> nw \<and> v < lo")
    case True
    have "edge_canonical (Suc v) (MNode v es, 1)" using can by (simp add: edge_canonical_def)
    moreover have "garbage_sum garb regular (Suc v) A x y = A x y" for A x y
      by (rule garbage_sum_none) (use True low in auto)
    ultimately show ?thesis using True by (simp add: garb_ok_def del: den.simps garbage_sum.simps)
  next
    case False
    let ?red = "map (\<lambda>e. reduceGarbageRecursion N garb lo regular nw (fst e)) es"
    let ?f = "\<lambda>i. garbage_successor N garb lo regular nw v (es ! i) (?red ! i)"
    have "\<exists>g. ?f i = Inr g \<and> garb_ok garb regular v (es ! i) g" if i: "i < 4" for i
    proof (rule garbage_successor_ok [OF ex v [OF i] low])
      assume p: "fst (es ! i) \<noteq> MTerminal"
      have "canonical v (fst (es ! i))" using v [OF i] by (simp add: edge_canonical_def)
      moreover have "es ! i \<in> set es" "fst (es ! i) \<in> Basic_BNFs.fsts (es ! i)" using i es(2) by (auto simp: fsts.simps)
      ultimately show "\<exists>g. ?red ! i = Inr g \<and> garb_ok garb regular (Suc (node_var (fst (es ! i)))) (fst (es ! i), 1) g"
        using MNode.IH [of "es ! i" "fst (es ! i)" v] p es i MNode.prems(3) by simp
    qed linarith
    from map_res_nth_ok [of 4 ?f "\<lambda>i g. garb_ok garb regular v (es ! i) g", OF this] obtain fs where
      fs: "map_res ?f [0..<4] = Inr fs" "length fs = 4" "\<forall>i < 4. garb_ok garb regular v (es ! i) (fs ! i)" by blast
    have can_f: "edge_canonical v (fs ! i)" if "i < 4" for i using fs(3) that by (simp add: garb_ok_def)
    note sum = addMagnitudes_ok [OF ex can_f can_f]
    have deref: "deref_res garb v = Inr (garb ! v)" using es(1) MNode.prems(3) by (simp add: deref_res_def)
    have unfold: "reduceGarbageRecursion N garb lo regular nw (MNode v es) = (if \<not> garb ! v then Inr (makeDDNode N v fs)
      else if regular then and_then (addMagnitudes N (fs ! 0) (fs ! 2) v) (\<lambda>e0.
             and_then (addMagnitudes N (fs ! 1) (fs ! 3) v) (\<lambda>e1. Inr (makeDDNode N v [e0, e1, mzero, mzero])))
      else and_then (addMagnitudes N (fs ! 0) (fs ! 1) v) (\<lambda>e0.
             and_then (addMagnitudes N (fs ! 2) (fs ! 3) v) (\<lambda>e2. Inr (makeDDNode N v [e0, mzero, e2, mzero]))))"
      unfolding reduceGarbageRecursion.simps if_not_P [OF False] Let_def fs(1) and_then.simps deref ..
    consider (none) "\<not> garb ! v" | (rows) "garb ! v" "regular" | (cols) "garb ! v" "\<not> regular" by blast
    then show ?thesis
    proof cases
      case none
      then show ?thesis using children_kept [OF ex fs(2,3)] by (simp add: unfold del: reduceGarbageRecursion.simps)
    next
      case rows
      obtain a where a: "addMagnitudes N (fs ! 0) (fs ! 2) v = Inr a" "edge_canonical v a"
        "\<forall>r c. mag2 (den v a r c) = mag2 (den v (fs ! 0) r c) + mag2 (den v (fs ! 2) r c)" using sum [of 0 2] by auto
      obtain b where b: "addMagnitudes N (fs ! 1) (fs ! 3) v = Inr b" "edge_canonical v b"
        "\<forall>r c. mag2 (den v b r c) = mag2 (den v (fs ! 1) r c) + mag2 (den v (fs ! 3) r c)" using sum [of 1 3] by auto
      have "garb_ok garb regular (Suc v) (MNode v es, 1) (makeDDNode N v [a, b, mzero, mzero])"
        by (rule children_merged [OF ex fs(3) rows(1), of _ a b]) (use rows a b in simp_all)
      then show ?thesis unfolding unfold using rows a(1) b(1) by (simp del: split_paired_Ex)
    next
      case cols
      obtain a where a: "addMagnitudes N (fs ! 0) (fs ! 1) v = Inr a" "edge_canonical v a"
        "\<forall>r c. mag2 (den v a r c) = mag2 (den v (fs ! 0) r c) + mag2 (den v (fs ! 1) r c)" using sum [of 0 1] by auto
      obtain b where b: "addMagnitudes N (fs ! 2) (fs ! 3) v = Inr b" "edge_canonical v b"
        "\<forall>r c. mag2 (den v b r c) = mag2 (den v (fs ! 2) r c) + mag2 (den v (fs ! 3) r c)" using sum [of 2 3] by auto
      have "garb_ok garb regular (Suc v) (MNode v es, 1) (makeDDNode N v [a, mzero, b, mzero])"
        by (rule children_merged [OF ex fs(3) cols(1), of _ a b]) (use cols a b in simp_all)
      then show ?thesis unfolding unfold using cols a(1) b(1) by (simp del: split_paired_Ex)
    qed
  qed
qed simp

theorem reduceGarbage_ok:
  assumes ex: "exact N" and e: "edge_canonical (length garb) e" and nz: "nw \<longrightarrow> snd e \<noteq> 0"
  shows "\<exists>g. reduceGarbage N e garb regular nw = Inr g \<and> garb_ok garb regular (length garb) e g"
proof -
  let ?n = "length garb" and ?lo = "if list_all Not garb then 0 else first_set garb"
  obtain p w where pw: "e = (p, w)" by (cases e)
  consider (early) "\<not> nw \<and> (list_all Not garb \<or> isTerminal e \<and> snd e = 0)"
    | (one) "\<not> (\<not> nw \<and> (list_all Not garb \<or> isTerminal e \<and> snd e = 0))" "p = MTerminal"
    | (node) v es where "\<not> (\<not> nw \<and> (list_all Not garb \<or> isTerminal e \<and> snd e = 0))" "p = MNode v es" by (cases p) auto
  then show ?thesis
  proof cases
    case early
    have "garb_ok garb regular ?n e e"
    proof (cases "list_all Not garb")
      case True
      then show ?thesis using e garbage_sum_none [of ?n garb] by (simp add: garb_ok_def list_all_length del: den.simps)
    next
      case False
      then have "e = mzero" using early by (simp add: pw mzero_def)
      then show ?thesis using garbage_zero [of garb regular ?n MTerminal] by (simp add: mzero_def)
    qed
    then show ?thesis using early by (simp add: reduceGarbage_def)
  next
    case one
    then have w: "w \<noteq> 0" using nz by (auto simp: pw)
    have "garb_ok garb regular 0 e e" using e one w by (simp add: garb_ok_def pw edge_canonical_def)
    from wrap_garbage_ok [OF ex this, of ?n] show ?thesis
      unfolding reduceGarbage_def if_not_P [OF one(1)] using one(2) w by (simp add: pw)
  next
    case node
    have w: "w \<noteq> 0" and can: "canonical ?n p" using e node by (auto simp: edge_canonical_def pw)
    have v: "v < ?n" "canonical (Suc v) p" using can by (simp_all add: node canonical_MNode)
    have low: "\<forall>q < ?lo. \<not> garb ! q" using first_set_less [of _ garb] by auto
    let ?r = "if ?lo \<le> v \<or> nw then reduceGarbageRecursion N garb ?lo regular nw p else Inr (p, 1)"
    have "\<exists>g. ?r = Inr g \<and> garb_ok garb regular (Suc v) (p, 1) g"
    proof (cases "?lo \<le> v \<or> nw")
      case True
      have "\<exists>g. reduceGarbageRecursion N garb ?lo regular nw p = Inr g \<and> garb_ok garb regular (Suc v) (p, 1) g"
        using reduceGarbageRecursion_ok [OF ex low can] node(2) by fastforce
      then show ?thesis unfolding if_P [OF True] .
    next
      case False
      then have "garbage_sum garb regular (Suc v) A x y = A x y" for A x y
        by (intro garbage_sum_none) (use low in auto)
      then have "garb_ok garb regular (Suc v) (p, 1) (p, 1)"
        using v(2) by (simp add: garb_ok_def edge_canonical_def del: den.simps garbage_sum.simps)
      then show ?thesis unfolding if_not_P [OF False] by blast
    qed
    then obtain g where g: "?r = Inr g" "garb_ok garb regular (Suc v) (p, 1) g" by blast
    let ?g = "wrap_garbage N garb regular (Suc v) ?n g"
    have ok: "garb_ok garb regular ?n (p, 1) ?g" by (rule wrap_garbage_ok [OF ex g(2)]) (use v in simp_all)
    have ok': "garb_ok garb regular ?n e (fst ?g, if nw then magnitude (snd ?g * w) else snd ?g * w)"
      unfolding pw by (rule garb_ok_scale [OF ok w]) (simp add: mag2_magnitude)
    have "reduceGarbage N e garb regular nw = and_then ?r
        (\<lambda>g. let g = wrap_garbage N garb regular (v + 1) ?n g; weight = snd g * w
         in Inr (fst g, if nw then magnitude weight else weight))"
      unfolding reduceGarbage_def if_not_P [OF node(1)]
      using node(2) by (simp add: pw exact_lookup [OF ex] Let_def del: reduceGarbageRecursion.simps)
    then show ?thesis unfolding g(1) using ok' by (simp add: Let_def)
  qed
qed

end
