(* ===== verification/OptElide.thy ===== *)
theory OptElide
  imports DDBuildSound
begin

text \<open>
  \<open>elidePermutations\<close> (\<open>src/circuit_optimizer/CircuitOptimizer.cpp\<close>): SWAP gates are removed, the
  qubits of the later operations are renamed instead, and the layouts are adjusted.  The
  functionality of the circuit stays the same.
\<close>

section \<open>The pass\<close>

text \<open>A violated \<open>assert\<close> is undefined behaviour.\<close>

definition elide_swap :: "Operation \<Rightarrow> Permutation \<Rightarrow> Permutation result" where
  "elide_swap op p = (case getTargets op of
     [t0, t1] \<Rightarrow> (case (map_of p t0, map_of p t1) of
       (Some v0, Some v1) \<Rightarrow> Inr (map_assign t0 v1 (map_assign t1 v0 p))
     | _ \<Rightarrow> Inl Undefined)
   | _ \<Rightarrow> Inl Undefined)"

fun elide_op :: "Operation \<Rightarrow> Permutation \<Rightarrow> (Operation list \<times> Permutation) result" where
  "elide_op (CompoundOp b ops cust) p =
     and_then (fold_res (\<lambda>op (os, p). and_then (elide_op op p) (\<lambda>(xs, p). Inr (os @ xs, p))) ops ([], p)) (\<lambda>(ops, p).
     if ops = [] then Inr ([], p)
     else if isConvertibleToSingleOperation (CompoundOp b ops cust) then
       and_then (collapseToSingleOperation (CompoundOp b ops cust)) (\<lambda>op. Inr ([op], p))
     else and_then (perm_apply_controls p (controls b)) (\<lambda>cs. Inr ([CompoundOp (b\<lparr>controls := cs\<rparr>) ops cust], p)))"
| "elide_op op p = (if virtual_swap op then and_then (elide_swap op p) (\<lambda>p. Inr ([], p))
     else and_then (apply_perm p op) (\<lambda>op. Inr ([op], p)))"

definition elide_ops :: "Operation list \<Rightarrow> Operation list \<times> Permutation \<Rightarrow> (Operation list \<times> Permutation) result" where
  "elide_ops ops st = fold_res (\<lambda>op (os, p). and_then (elide_op op p) (\<lambda>(xs, p). Inr (os @ xs, p))) ops st"

definition elidePermutations :: "QuantumComputation \<Rightarrow> QuantumComputation result" where
  "elidePermutations qc = (if qc_ops qc = [] then Inr qc
     else and_then (elide_ops (qc_ops qc) ([], initialLayout qc)) (\<lambda>(ops, p).
       let initial = fold (\<lambda>(physical, logical) m. map_assign logical logical m) (initialLayout qc) []
       in and_then (fold_res (\<lambda>(physical, logical) m. case map_of p physical of
              Some v \<Rightarrow> Inr (map_assign v logical m) | None \<Rightarrow> Inl Undefined) (outputPermutation qc) [])
          (\<lambda>out. Inr (qc\<lparr>qc_ops := ops, initialLayout := initial, outputPermutation := out\<rparr>))))"

section \<open>Products of diagrams\<close>

definition ops_product :: "nat \<Rightarrow> Operation list \<Rightarrow> mEdge \<Rightarrow> mEdge result" where
  "ops_product n ops e = fold_res (\<lambda>op e. and_then (op_DD n op) (\<lambda>d. dd_multiply exact_numbers d e)) ops e"

lemma ops_product_append: "ops_product n (xs @ ys) e = and_then (ops_product n xs e) (ops_product n ys)"
  unfolding ops_product_def [abs_def] by (rule fold_res_append)

lemma ops_product_Nil [simp]: "ops_product n [] e = Inr e"
  by (simp add: ops_product_def)

lemma ops_product_single: "ops_product n [op] e = and_then (op_DD n op) (\<lambda>d. dd_multiply exact_numbers d e)"
proof -
  have "fold_res f [] = Inr" for f :: "Operation \<Rightarrow> mEdge \<Rightarrow> mEdge result" by (simp add: fun_eq_iff)
  then show ?thesis by (simp add: ops_product_def)
qed

lemma circuit_DD_product: "circuit_DD n ops = ops_product n ops mone"
  by (simp add: circuit_DD_def ops_product_def)

lemma ops_product_factors:
  assumes n: "0 < n"
  shows "list_all regular ops \<Longrightarrow> edge_canonical n e \<Longrightarrow>
    ops_product n ops e = and_then (map_res (op_DD n) ops) (\<lambda>ds. fold_res (\<lambda>d e. dd_multiply exact_numbers d e) ds e)"
proof (induction ops arbitrary: e)
  case (Cons op ops)
  show ?case
  proof (cases "op_DD n op")
    case (Inr d)
    have "edge_canonical n d" using op_DD_canonical [OF n _ Inr] Cons.prems(1) by simp
    then obtain f where "dd_multiply exact_numbers d e = Inr f" "edge_canonical n f"
      using dd_multiply_ok [OF exact_exact_numbers n _ Cons.prems(2)] by blast
    then show ?thesis using Cons.IH [of f] Cons.prems(1) Inr by (simp add: ops_product_def and_then_assoc)
  qed (simp add: ops_product_def)
qed (simp add: ops_product_def)

lemma ops_product_from:
  assumes n: "0 < n" and ops: "list_all regular ops" and e: "edge_canonical n e"
  shows "ops_product n ops e = and_then (ops_product n ops mone) (\<lambda>d. dd_multiply exact_numbers d e)"
proof (cases "map_res (op_DD n) ops")
  case (Inr ds)
  then have "list_all2 (\<lambda>op d. op_DD n op = Inr d) ops ds" by (simp add: map_res_Inr)
  then have "edge_canonical n (ds ! i)" if "i < length ds" for i
    using op_DD_canonical [OF n, of "ops ! i"] ops that by (simp add: list_all2_conv_all_nth list_all_length)
  then have "list_all (edge_canonical n) ds" by (simp add: list_all_length)
  then show ?thesis
    using dd.product_from [of "n - 1" ds e] n e Inr
    unfolding ops_product_factors [OF n ops e] ops_product_factors [OF n ops mone_canonical] by simp
qed (simp add: ops_product_factors [OF n ops] e mone_canonical)

lemma ops_product_compound:
  assumes n: "0 < n" and ops: "list_all regular ops" and e: "edge_canonical n e" and b: "optype b = opCompound"
  shows "ops_product n [CompoundOp b ops cust] e = ops_product n ops e"
  unfolding ops_product_from [OF n ops e] ops_product_single circuit_DD_compound [OF b] circuit_DD_product ..

section \<open>Operations without SWAP gates\<close>

fun swap_free :: "Operation \<Rightarrow> bool" where
  "swap_free (CompoundOp b ops cust) = list_all swap_free ops"
| "swap_free op = (\<not> virtual_swap op)"

text \<open>All qubits an operation names are qubits of the circuit.\<close>

fun within_qubits :: "nat \<Rightarrow> Operation \<Rightarrow> bool" where
  "within_qubits n (CompoundOp b ops cust) = (list_all (\<lambda>c. qubit c < n) (controls b) \<and> list_all (within_qubits n) ops)"
| "within_qubits n (IfElseOp b t e c) = False"
| "within_qubits n op = (list_all (\<lambda>t. t < n) (getTargets op) \<and> list_all (\<lambda>c. qubit c < n) (getControls op))"

lemma collapse_sound:
  assumes n: "0 < n" and e: "edge_canonical n e"
  shows "isConvertibleToSingleOperation c \<Longrightarrow> regular c \<Longrightarrow> swap_free c \<Longrightarrow>
    \<exists>op. collapseToSingleOperation c = Inr op \<and> regular op \<and> swap_free op \<and> ops_product n [op] e = ops_product n [c] e"
proof (induction c rule: isConvertibleToSingleOperation.induct)
  case (1 b op cust)
  have c: "ops_product n [CompoundOp b [op] cust] e = ops_product n [op] e"
    using 1 by (intro ops_product_compound [OF n _ e]) simp_all
  show ?case using 1 unfolding c by (cases "isCompoundOperation op") auto
qed simp_all

lemma applied_targets:
  assumes p: "layout_ok n p" and n: "0 < n"
  shows "list_all (\<lambda>t. t < n) ts \<Longrightarrow> perm_apply_targets p ts = Inr (map (perm_fun p) ts)"
    "list_all (\<lambda>c. qubit c < n) cs \<Longrightarrow> perm_apply_controls p cs = Inr (relabel_controls (perm_fun p) cs)"
proof -
  show "perm_apply_targets p ts = Inr (map (perm_fun p) ts)" if "list_all (\<lambda>t. t < n) ts"
    using map_res_total [of ts "map_at p" "perm_fun p"] layout_map_at [OF p] that layout_nonempty [OF p n]
    by (simp add: perm_apply_targets_def list_all_iff)
  show "perm_apply_controls p cs = Inr (relabel_controls (perm_fun p) cs)" if "list_all (\<lambda>c. qubit c < n) cs"
    using map_res_total [of cs "\<lambda>c. and_then (map_at p (qubit c)) (\<lambda>q. Inr (Control q (ctype c)))"
        "\<lambda>c. Control (perm_fun p (qubit c)) (ctype c)"] layout_map_at [OF p] that layout_nonempty [OF p n]
    by (simp add: perm_apply_controls_def relabel_controls_def list_all_iff)
qed

lemma relabel_controls_Nil: "relabel_controls f cs = [] \<longleftrightarrow> cs = []"
  by (simp add: relabel_controls_def)

lemma apply_leaf:
  assumes p: "layout_ok n p" and n: "0 < n" and op: "within_qubits n op" "\<not> isCompoundOperation op" "regular op"
    and swap: "\<not> virtual_swap op"
  shows "\<exists>op'. apply_perm p op = Inr op' \<and> regular op' \<and> swap_free op' \<and> \<not> isCompoundOperation op' \<and>
    op_DD n op' = getDD exact_numbers n p False op"
proof -
  let ?f = "perm_fun p"
  note ap = applied_targets [OF p n]
  have cs: "strictly_sorted (map qubit (relabel_controls ?f cs))" if "strictly_sorted (map qubit cs)" "list_all (\<lambda>c. qubit c < n) cs" for cs
    using relabel_controls_ok [OF p that(1)] that(2) by (simp add: list_all_iff)
  show ?thesis
    using op swap
    by (cases op) (auto simp: ap op_apply_def sym_isStandardOperation_def virtual_swap_def relabel_controls_Nil cs permuted_DD_def
        getStandardOperationDD_def phase_DD_def)
qed

section \<open>The pass keeps the functionality\<close>

lemma elide_swap_same:
  assumes p: "layout_ok n p" and op: "getTargets op = [a, b]" "a < n" "b < n"
  shows "elide_swap op p = exchange_targets op p"
  using layout_map_of [OF p op(2)] layout_map_of [OF p op(3)] layout_map_at [OF p op(2)] layout_map_at [OF p op(3)]
  by (simp add: elide_swap_def exchange_targets_def op(1) deref_res_def)

text \<open>What the pass has done with a part of the circuit.\<close>

definition elided :: "nat \<Rightarrow> Permutation \<Rightarrow> mEdge \<Rightarrow> mEdge \<Rightarrow> Operation list \<Rightarrow> Permutation \<Rightarrow> bool" where
  "elided n p0 u v os q \<longleftrightarrow> list_all regular os \<and> list_all swap_free os \<and>
     (\<exists>w. ops_product n os v = Inr w \<and> tracks n (\<lambda>y. False) p0 q u w)"

lemma elide_leaf:
  assumes n: "0 < n" and op: "regular op" "within_qubits n op" "\<not> isCompoundOperation op"
    and t: "tracks n (\<lambda>y. False) p0 p u v" and u': "ops_product n [op] u = Inr u'"
  shows "\<exists>os q. elide_op op p = Inr (os, q) \<and> elided n p0 u' v os q"
proof -
  obtain d where d: "op_DD n op = Inr d" "dd_multiply exact_numbers d u = Inr u'"
    using u' by (auto simp: ops_product_single and_then_eq_Inr)
  have p: "layout_ok n p" using t by (simp add: tracks_def)
  have unfold: "elide_op op p = (if virtual_swap op then and_then (elide_swap op p) (\<lambda>p. Inr ([], p))
     else and_then (apply_perm p op) (\<lambda>op. Inr ([op], p)))" using op(3) by (cases op) simp_all
  show ?thesis
  proof (cases "virtual_swap op")
    case True
    obtain a b where ab: "getTargets op = [a, b]" "a < n" "b < n" using virtual_swap_matrix [OF op(1) True d(1)] by blast
    obtain q where q: "exchange_targets op p = Inr q" "tracks n (\<lambda>y. False) p0 q u' v"
      using tracks_virtual [OF n t op(1) True d] by blast
    then show ?thesis using True elide_swap_same [OF p ab] by (simp add: unfold elided_def del: split_paired_Ex)
  next
    case False
    obtain d' where d': "getDD exact_numbers n p False op = Inr d'" "relabelled n p d d'"
      using getDD_relabelled [OF p n op(1) d(1)] by blast
    obtain op' where op': "apply_perm p op = Inr op'" "regular op'" "swap_free op'" "op_DD n op' = Inr d'"
      using apply_leaf [OF p n op(2,3,1) False] d'(1) by auto
    obtain w where "dd_multiply exact_numbers d' v = Inr w" "tracks n (\<lambda>y. False) p0 p u' w"
      using tracks_multiply [OF n t d'(2) d(2)] by blast
    then have "elided n p0 u' v [op'] p" using op' by (simp add: elided_def ops_product_single)
    then show ?thesis using op'(1) False by (simp add: unfold del: elide_op.simps)
  qed
qed

lemma elided_append:
  assumes a: "elided n p0 u v os q"
    and b: "\<And>w. tracks n (\<lambda>y. False) p0 q u w \<Longrightarrow> elided n p0 u' w xs r"
  shows "elided n p0 u' v (os @ xs) r"
proof -
  obtain w where w: "ops_product n os v = Inr w" "tracks n (\<lambda>y. False) p0 q u w" using a by (auto simp: elided_def)
  then show ?thesis using a b [OF w(2)] by (auto simp: elided_def ops_product_append)
qed

lemma elide_list:
  assumes each: "\<And>op p u v u'. op \<in> set ops \<Longrightarrow> tracks n (\<lambda>y. False) p0 p u v \<Longrightarrow> ops_product n [op] u = Inr u' \<Longrightarrow>
      \<exists>os q. elide_op op p = Inr (os, q) \<and> elided n p0 u' v os q"
  shows "elided n p0 u v os p \<Longrightarrow> ops_product n ops u = Inr u' \<Longrightarrow>
    \<exists>os' q. elide_ops ops (os, p) = Inr (os', q) \<and> elided n p0 u' v os' q"
  using each
proof (induction ops arbitrary: os p u)
  case (Cons op ops)
  obtain m where m: "ops_product n [op] u = Inr m" "ops_product n ops m = Inr u'"
    using Cons.prems(2) ops_product_append [of n "[op]" ops u] unfolding append.simps
    by (metis and_then_eq_Inr)
  obtain w where w: "ops_product n os v = Inr w" "tracks n (\<lambda>y. False) p0 p u w"
    using Cons.prems(1) by (auto simp: elided_def)
  obtain xs q where xs: "elide_op op p = Inr (xs, q)" "elided n p0 m w xs q"
    using Cons.prems(3) [OF _ w(2) m(1)] by auto
  obtain w' where w': "ops_product n xs w = Inr w'" "tracks n (\<lambda>y. False) p0 q m w'" using xs(2) by (auto simp: elided_def)
  have "elided n p0 m v (os @ xs) q"
    using Cons.prems(1) xs(2) w(1) w' by (simp add: elided_def ops_product_append)
  from Cons.IH [OF this m(2)] Cons.prems(3) show ?case using xs(1) by (simp add: elide_ops_def)
qed (auto simp: elide_ops_def)

lemma elide_ok:
  assumes n: "0 < n"
  shows "regular op \<Longrightarrow> within_qubits n op \<Longrightarrow> tracks n (\<lambda>y. False) p0 p u v \<Longrightarrow> ops_product n [op] u = Inr u' \<Longrightarrow>
    \<exists>os q. elide_op op p = Inr (os, q) \<and> elided n p0 u' v os q"
proof (induction op arbitrary: p u v u')
  case (CompoundOp b ops cust)
  have reg: "list_all regular ops" "optype b = opCompound" and win: "list_all (within_qubits n) ops"
    "list_all (\<lambda>c. qubit c < n) (controls b)" using CompoundOp.prems by simp_all
  have can: "edge_canonical n u" "edge_canonical n v" using CompoundOp.prems(3) by (simp_all add: tracks_def)
  have "ops_product n ops u = Inr u'" using CompoundOp.prems(4) ops_product_compound [OF n reg(1) can(1) reg(2)] by simp
  moreover have "elided n p0 u v [] p" using CompoundOp.prems(3) by (simp add: elided_def)
  moreover have "\<exists>os q. elide_op op p = Inr (os, q) \<and> elided n p0 u' v os q"
    if "op \<in> set ops" "tracks n (\<lambda>y. False) p0 p u v" "ops_product n [op] u = Inr u'" for op p u v u'
    using CompoundOp.IH [OF that(1) _ _ that(2,3)] reg(1) win(1) that(1) by (simp add: list_all_iff)
  ultimately obtain os q where os: "elide_ops ops ([], p) = Inr (os, q)" "elided n p0 u' v os q"
    using elide_list [of ops n p0 u v "[]" p u'] by blast
  then have reg': "list_all regular os" "list_all swap_free os" and q: "layout_ok n q" by (auto simp: elided_def tracks_def)
  have unfold: "elide_op (CompoundOp b ops cust) p = (if os = [] then Inr ([], q)
     else if isConvertibleToSingleOperation (CompoundOp b os cust) then
       and_then (collapseToSingleOperation (CompoundOp b os cust)) (\<lambda>op. Inr ([op], q))
     else and_then (perm_apply_controls q (controls b)) (\<lambda>cs. Inr ([CompoundOp (b\<lparr>controls := cs\<rparr>) os cust], q)))"
    using os(1) by (simp add: elide_ops_def)
  have comp: "ops_product n [CompoundOp (b\<lparr>controls := cs\<rparr>) os cust] v = ops_product n os v" for cs
    by (rule ops_product_compound [OF n reg'(1) can(2)]) (simp add: reg(2))
  consider "os = []" | (single) "os \<noteq> []" "isConvertibleToSingleOperation (CompoundOp b os cust)"
    | (kept) "os \<noteq> []" "\<not> isConvertibleToSingleOperation (CompoundOp b os cust)" by blast
  then show ?case
  proof cases
    case single
    have "regular (CompoundOp b os cust)" "swap_free (CompoundOp b os cust)" using reg' reg(2) by simp_all
    from collapse_sound [OF n can(2) single(2) this] obtain op where
      op: "collapseToSingleOperation (CompoundOp b os cust) = Inr op" "regular op" "swap_free op"
        "ops_product n [op] v = ops_product n [CompoundOp b os cust] v" by blast
    moreover have "ops_product n [CompoundOp b os cust] v = ops_product n os v"
      using comp [of "controls b"] by simp
    ultimately have "elided n p0 u' v [op] q" using os(2) by (simp add: elided_def)
    then show ?thesis using single op(1) by (simp add: unfold del: elide_op.simps)
  next
    case kept
    have "elided n p0 u' v [CompoundOp (b\<lparr>controls := relabel_controls (perm_fun q) (controls b)\<rparr>) os cust] q"
      using os(2) reg' reg(2) by (simp add: elided_def comp)
    then show ?thesis using kept applied_targets(2) [OF q n win(2)] by (simp add: unfold del: elide_op.simps)
  qed (use os(2) in \<open>simp add: unfold del: elide_op.simps\<close>)
qed (rule elide_leaf [OF n]; simp only: isCompoundOperation.simps not_False_eq_True)+

text \<open>The adjusted layouts.\<close>

lemma initial_layout:
  assumes p: "layout_ok n p"
  shows "layout_ok n (fold (\<lambda>(physical, logical) m. map_assign logical logical m) p [])"
    "perm_fun (fold (\<lambda>(physical, logical) m. map_assign logical logical m) p []) q = q"
proof -
  let ?f = "\<lambda>(physical, logical) m. map_assign logical logical m"
  have gen: "map_ok (fold ?f xs m) \<and> map_of (fold ?f xs m) = (\<lambda>k. if k \<in> snd ` set xs then Some k else map_of m k)"
    if "map_ok m" for xs and m :: Permutation
    using that
  proof (induction xs arbitrary: m)
    case (Cons x xs)
    obtain a l where x: "x = (a, l)" by force
    show ?case using Cons.IH [of "map_assign l l m"] Cons.prems
      by (auto simp: x map_assign_ok map_of_map_assign fun_eq_iff)
  qed auto
  let ?m = "fold ?f p []"
  have m: "map_ok ?m" "map_of ?m = (\<lambda>k. if k \<in> snd ` set p then Some k else None)" using gen [of "[]" p]
    by (simp_all add: fun_eq_iff del: fold.simps)
  have "snd ` set p = {..<n}"
    using layout_eq [OF p] perm_fun_bij [OF p] by (metis (no_types, lifting) bij_betw_imp_surj_on image_comp list.set_map
        atLeast_upt lessThan_atLeast0 comp_def snd_conv image_cong set_upt)
  then have dom: "dom (map_of ?m) = {..<n}" by (auto simp: m(2) split: if_splits)
  have "map fst ?m = [0..<n]"
  proof (rule strict_sorted_equal)
    show "set (map fst ?m) = set [0..<n]" using dom by (auto simp: dom_map_of_conv_image_fst)
  qed (use m(1) in simp_all)
  moreover show f: "perm_fun ?m q = q" for q by (simp add: perm_fun_def m(2))
  ultimately show "layout_ok n ?m" by (intro layoutI) (simp_all only: f)
qed

lemma adjusted_output:
  assumes p: "layout_ok n p" and out: "layout_ok n out"
  shows "\<exists>r. fold_res (\<lambda>(physical, logical) m. case map_of p physical of
      Some v \<Rightarrow> Inr (map_assign v logical m) | None \<Rightarrow> Inl Undefined) out [] = Inr r \<and> layout_ok n r \<and>
    (\<forall>i < n. perm_fun r (perm_fun p i) = perm_fun out i)"
proof -
  let ?f = "\<lambda>(physical, logical) m. case map_of p physical of
      Some v \<Rightarrow> Inr (map_assign v logical m) | None \<Rightarrow> Inl Undefined"
  have run: "k \<le> n \<Longrightarrow> \<exists>r. fold_res ?f (map (\<lambda>q. (q, perm_fun out q)) [0..<k]) [] = Inr r \<and> map_ok r \<and>
      dom (map_of r) = perm_fun p ` {..<k} \<and> (\<forall>i < k. map_of r (perm_fun p i) = Some (perm_fun out i))" for k
  proof (induction k)
    case (Suc k)
    then obtain r where r: "fold_res ?f (map (\<lambda>q. (q, perm_fun out q)) [0..<k]) [] = Inr r" "map_ok r"
      "dom (map_of r) = perm_fun p ` {..<k}" "\<forall>i < k. map_of r (perm_fun p i) = Some (perm_fun out i)" by auto
    let ?r = "map_assign (perm_fun p k) (perm_fun out k) r"
    have "map_of p k = Some (perm_fun p k)" using layout_map_of [OF p, of k] Suc.prems by simp
    then have "fold_res ?f (map (\<lambda>q. (q, perm_fun out q)) [0..<Suc k]) [] = Inr ?r"
      using r(1) by (simp add: fold_res_append)
    moreover have "map_of ?r = (map_of r)(perm_fun p k \<mapsto> perm_fun out k)" by (rule map_of_map_assign [OF r(2)])
    moreover have "perm_fun p i \<noteq> perm_fun p k" if "i < k" for i
      using perm_fun_inj [OF p, of i k] that Suc.prems by auto
    ultimately show ?case using r(2-4) by (auto simp: map_assign_ok lessThan_Suc less_Suc_eq)
  qed simp
  from run [of n] layout_eq [OF out] obtain r where
    r: "fold_res ?f out [] = Inr r" "map_ok r" "dom (map_of r) = perm_fun p ` {..<n}"
      "\<forall>i < n. map_of r (perm_fun p i) = Some (perm_fun out i)" by auto
  have dom: "dom (map_of r) = {..<n}" using r(3) perm_fun_bij [OF p] by (simp add: bij_betw_def)
  have keys: "map fst r = [0..<n]"
  proof (rule strict_sorted_equal)
    show "set (map fst r) = set [0..<n]" using dom by (auto simp: dom_map_of_conv_image_fst)
  qed (use r(2) in simp_all)
  have val: "perm_fun r (perm_fun p i) = perm_fun out i" if "i < n" for i using r(4) that by (simp add: perm_fun_def)
  have "layout_ok n r"
  proof (rule layoutI [OF keys])
    fix a b
    assume ab: "a < n" "b < n" "perm_fun r a = perm_fun r b"
    obtain i j where ij: "i < n" "perm_fun p i = a" "j < n" "perm_fun p j = b" using perm_fun_surj [OF p] ab(1,2) by metis
    then have "perm_fun out i = perm_fun out j" using ab(3) val by metis
    then show "a = b" using perm_fun_inj [OF out ij(1,3)] ij by simp
  next
    fix a
    assume "a < n"
    then obtain i where "i < n" "perm_fun p i = a" using perm_fun_surj [OF p] by metis
    then show "perm_fun r a < n" using val [of i] perm_fun_less [OF out] by simp
  qed
  with r(1) val show ?thesis by blast
qed

theorem elidePermutations_functionality:
  assumes n: "0 < n" and qc: "layouts_ok n qc" and reg: "list_all regular (qc_ops qc)"
    and win: "list_all (within_qubits n) (qc_ops qc)" and u: "circuit_DD n (qc_ops qc) = Inr u"
  shows "\<exists>qc'. elidePermutations qc = Inr qc' \<and> list_all swap_free (qc_ops qc') \<and>
    buildFunctionality exact_numbers n qc' = buildFunctionality exact_numbers n qc"
proof (cases "qc_ops qc = []")
  case True
  then show ?thesis by (simp add: elidePermutations_def)
next
  case False
  let ?p = "initialLayout qc" and ?out = "outputPermutation qc"
  have lay: "getNqubits qc = n" "length (ancillary qc) = n" "layout_ok n ?p" "layout_ok n ?out"
    using qc by (simp_all add: layouts_ok_def)
  have "relabelled n ?p mone mone" using relabelled_terminal [OF lay(3), of 1] by (simp add: mone_def)
  then have "elided n ?p mone mone [] ?p" using lay(3) by (simp add: elided_def tracks_def relabelled_def)
  moreover have "ops_product n (qc_ops qc) mone = Inr u" using u by (simp add: circuit_DD_product)
  moreover have "\<exists>os q. elide_op op p = Inr (os, q) \<and> elided n ?p u' v os q"
    if "op \<in> set (qc_ops qc)" "tracks n (\<lambda>y. False) ?p p u v" "ops_product n [op] u = Inr u'" for op p u v u'
    using elide_ok [OF n _ _ that(2,3)] reg win that(1) by (simp add: list_all_iff)
  ultimately obtain os q where os: "elide_ops (qc_ops qc) ([], ?p) = Inr (os, q)" "elided n ?p u mone os q"
    using elide_list [of "qc_ops qc" n ?p mone mone "[]" ?p u] by blast
  then obtain w where w: "list_all regular os" "list_all swap_free os" "circuit_DD n os = Inr w"
    "tracks n (\<lambda>y. False) ?p q u w" by (auto simp: elided_def circuit_DD_product)
  have q: "layout_ok n q" using w(4) by (simp add: tracks_def)
  obtain r where r: "fold_res (\<lambda>(physical, logical) m. case map_of q physical of
      Some v \<Rightarrow> Inr (map_assign v logical m) | None \<Rightarrow> Inl Undefined) ?out [] = Inr r" "layout_ok n r"
    "\<forall>i < n. perm_fun r (perm_fun q i) = perm_fun ?out i" using adjusted_output [OF q lay(4)] by blast
  let ?init = "fold (\<lambda>(physical, logical) m. map_assign logical logical m) ?p []"
  let ?qc = "qc\<lparr>qc_ops := os, initialLayout := ?init, outputPermutation := r\<rparr>"
  have qc': "elidePermutations qc = Inr ?qc"
    using False os(1) r(1) by (simp add: elidePermutations_def)
  have lay': "layouts_ok n ?qc" using lay r(2) initial_layout(1) [OF lay(3)] by (simp add: layouts_ok_def getNqubits_def)
  let ?k = "\<lambda>y. ancilla_set (ancillary qc) 0 n True y y"
  obtain e where e: "buildFunctionality exact_numbers n qc = reduceGarbage exact_numbers e (garbage qc) True False"
    "tracks n ?k ?p ?out u e" using buildFunctionality_tracks [OF n qc reg u] by blast
  obtain f where f: "buildFunctionality exact_numbers n ?qc = reduceGarbage exact_numbers f (garbage qc) True False"
    "tracks n ?k ?init r w f" using buildFunctionality_tracks [OF n lay', of w] w(1,3) by auto
  have "f = e"
  proof (rule canonical_unique)
    show "edge_canonical n f" "edge_canonical n e" using e(2) f(2) by (simp_all add: tracks_def)
    fix x y :: "nat \<Rightarrow> bool"
    have "y \<circ> perm_fun ?init = y" by (simp add: fun_eq_iff initial_layout(2) [OF lay(3)])
    moreover have "den n u (x \<circ> perm_fun r \<circ> perm_fun q) z = den n u (x \<circ> perm_fun ?out) z" for z
      by (rule den_cong) (simp_all add: r(3))
    ultimately show "den n f x y = den n e x y" using e(2) f(2) w(4) by (simp add: tracks_def del: den.simps)
  qed
  then show ?thesis using qc' w(2) e(1) f(1) by auto
qed

end
