(* ===== verification/BuildSamples.thy ===== *)
theory BuildSamples
  imports DDBuildTree DDGarbage OptElide OptSamples
begin

text \<open>Sample circuits with SWAP gates.\<close>

abbreviation swap_op :: Operation where
  "swap_op \<equiv> named_gate [] [0, 1] opSWAP"

definition swapped_circuit :: "bool \<Rightarrow> QuantumComputation" where
  "swapped_circuit anc = (with_ops [swap_op, cnot 0 1])\<lparr>outputPermutation := [(0, 1), (1, 0)],
     ancillary := [False, anc], garbage := [False, anc]\<rparr>"

lemma swapped_layouts: "layouts_ok 2 (swapped_circuit anc)"
  by (simp add: layouts_ok_def swapped_circuit_def empty_qc_def getNqubits_def layout_ok_def upt_conv_Cons numeral_2_eq_2)

lemma swapped_regular: "list_all regular (qc_ops (swapped_circuit anc))"
  "list_all (within_qubits 2) (qc_ops (swapped_circuit anc))"
  by (simp_all add: swapped_circuit_def)

lemma swapped_DD: "\<exists>u. circuit_DD 2 (qc_ops (swapped_circuit anc)) = Inr u \<and>
    den 2 u = perm_mat 2 (\<lambda>y. cx_map 0 1 (swap_map 0 1 y))"
proof -
  have "swap_at 2 swap_op 0 1" by (simp add: swap_at_def)
  from swap_at_matrix [OF _ this] have s: "ops_matrix 2 [swap_op] (perm_mat 2 (swap_map 0 1))" by simp
  have c: "ops_matrix 2 [cnot 0 1] (perm_mat 2 (cx_map 0 1))" by (rule cnot_at_matrix, simp, rule cnot_at_sample; simp)
  have "ops_matrix 2 ([swap_op] @ [cnot 0 1]) (mat_mult 2 (perm_mat 2 (cx_map 0 1)) (perm_mat 2 (swap_map 0 1)))"
    by (rule ops_matrix_append [OF _ s c]) simp
  moreover have "mat_mult 2 (perm_mat 2 (cx_map 0 1)) (perm_mat 2 (swap_map 0 1)) =
      perm_mat 2 (\<lambda>y. cx_map 0 1 (swap_map 0 1 y))" by (rule perm_mat_mult) (simp add: bits_below_cx)
  ultimately show ?thesis by (auto simp: ops_matrix_def swapped_circuit_def simp del: split_paired_Ex den.simps)
qed

lemma swapped_elided:
  "elidePermutations (swapped_circuit anc) = Inr ((swapped_circuit anc)\<lparr>qc_ops := [cnot 1 0],
     outputPermutation := [(0, 0), (1, 1)]\<rparr>)"
  by (simp add: elidePermutations_def swapped_circuit_def elide_ops_def elide_swap_def virtual_swap_def map_at_def
      op_apply_def perm_apply_targets_def perm_apply_controls_def set_of_list_def)

end
