(* ===== verification/Spec2Isabelle.thy ===== *)
theory Spec2Isabelle
  imports ZXSamples IRSamples DDSamples OptSamples BuildSamples
begin

text \<open>
Verification library of MQT Core (\<open>src/\<close>), a C++ toolkit for quantum circuits.  This theory is
the root: it imports all others and states the properties, each under its number.

\<^bold>\<open>Parts of the program and where they are.\<close>
The program reads or builds a circuit (\<open>QuantumComputation\<close>, a vector of \<open>Operation\<close> objects with
registers, layouts and flags), rewrites it, and analyses it: as a ZX-diagram that is simplified
by graph rewriting, or as a decision diagram.

  \<^item> \<open>Prelude\<close>: option-valued loops and facts on lists and maps that the ZX theories share.
  \<^item> \<open>PiRational\<close> (\<open>zx/Rational.hpp\<close>, \<open>src/zx/Rational.cpp\<close>): phases as rational multiples of pi.
  \<^item> \<open>SymExpression\<close> (\<open>ir/operations/Expression.hpp\<close>): linear expressions in named variables, the
    registry of names, arithmetic, evaluation.
  \<^item> \<open>ZXDiagram\<close>, \<open>ZXInvariant\<close>, \<open>ZXIterators\<close>, \<open>ZXConstruct\<close>, \<open>ZXReach\<close> (\<open>zx/ZXDiagram.hpp\<close>,
    \<open>src/zx/ZXDiagram.cpp\<close>, \<open>src/zx/Utils.cpp\<close>): the vertex and edge vectors with their free list and
    counters, every operation on them, the iterators; the invariant and the abstract graph each
    operation implements.
  \<^item> \<open>ZXRules\<close>, \<open>ZXSimplify\<close> (\<open>src/zx/Rules.cpp\<close>, \<open>src/zx/Simplify.cpp\<close>): the rewrite rules with
    their applicability checks and the simplification loops.
  \<^item> \<open>ZXSemantics\<close>, \<open>ZXSoundness\<close>, \<open>ZXComplement\<close>, \<open>ZXPivot\<close>, \<open>ZXClifford\<close>, \<open>ZXSamples\<close>: the linear map
    of a diagram (up to a positive scalar) and the proof that the rules keep it.
  \<^item> \<open>IRTypes\<close>, \<open>IROpType\<close>, \<open>IRStandard\<close>, \<open>IRSymbolic\<close>, \<open>IROperation\<close>, \<open>IRControlFlow\<close>
    (\<open>include/mqt-core/ir/\<close>, \<open>src/ir/operations/\<close>): permutations, registers, controls, operation types
    with their codes and names, and the class hierarchy below \<open>Operation\<close> as one datatype whose
    virtual functions are defined by case distinction on the dynamic type.
  \<^item> \<open>IRCircuit\<close>, \<open>IRReorder\<close>, \<open>IRInverse\<close> (\<open>src/ir/QuantumComputation.cpp\<close>): the state of a circuit and
    the functions that change it; \<open>reorderOperations\<close>; \<open>isInverseOf\<close>.
  \<^item> \<open>IRLaws\<close>, \<open>IRDepth\<close>, \<open>IRBuilder\<close>, \<open>IRSamples\<close>: laws of single operations, the depth under
    reordering (through the interface \<open>independent_effects\<close>), the invariant of circuits built through
    the interface (step relation \<open>build_step\<close>, rule induction over \<open>reachable\<close>), sample circuits.
  \<^item> \<open>IRGates\<close> (\<open>src/dd/GateMatrixDefinitions.cpp\<close>): the gate matrices, and what \<open>invert\<close> and the
    constructors do to them.
  \<^item> \<open>DDNode\<close>, \<open>DDCanonical\<close> (\<open>dd/Node.hpp\<close>, \<open>dd/Edge.hpp\<close>, \<open>src/dd/CachedEdge.cpp\<close>, \<open>makeDDNode\<close>):
    matrix diagrams, their normalisation, the matrix \<open>den\<close> they denote, and canonicity.  The unique
    table makes nodes with equal contents the same node; in the model a node is its contents.
  \<^item> \<open>DDArith\<close>, \<open>DDTransform\<close>, \<open>DDKronecker\<close> (\<open>dd/Package.hpp\<close>, \<open>src/dd/Package.cpp\<close>): addition,
    multiplication, conjugate transpose, traces, Kronecker product.
  \<^item> \<open>DDRead\<close> (\<open>src/dd/Edge.cpp\<close>, \<open>makeDDFromMatrix\<close>): conversion from and to matrices.
  \<^item> \<open>DDGates\<close>, \<open>DDOperations\<close> (\<open>src/dd/Package.cpp\<close>, \<open>src/dd/Operations.cpp\<close>): diagrams of gates with
    controls, and of operations.
  \<^item> \<open>DDAlgebra\<close>, \<open>DDUnitary\<close>, \<open>DDGateUnitary\<close>, \<open>DDInverse\<close>, \<open>DDSamples\<close>: the monoid of diagrams (interface
    \<open>partial_monoid\<close>), unitarity of all gates, inverses, sample diagrams.
  \<^item> \<open>DDReduce\<close>, \<open>DDBuild\<close> (\<open>src/dd/Package.cpp\<close>, \<open>src/dd/FunctionalityConstruction.cpp\<close>): ancillary and
    garbage qubits, the functionality of a circuit, one operation after the other and as a tree;
    \<open>DDRelabel\<close>, \<open>DDGarbage\<close>, \<open>DDBuildSound\<close>, \<open>DDBuildTree\<close>, \<open>BuildSamples\<close>: diagrams under a layout, what
    the functionality is, and that both constructions agree.
  \<^item> \<open>OptElide\<close> (\<open>src/circuit_optimizer/CircuitOptimizer.cpp\<close>): the elision of SWAP gates and that it
    keeps the functionality.
  \<^item> \<open>DDLocal\<close>, \<open>DDRules\<close>: the diagram of a list of operations (\<open>circuit_DD\<close>), the laws by which a part
    of the list may be replaced (\<open>replaces\<close>), and the matrices of small gates.
  \<^item> \<open>OptSimple\<close>, \<open>OptCancel\<close> (\<open>src/circuit_optimizer/CircuitOptimizer.cpp\<close>): passes of the optimizer;
    \<open>OptSimpleSound\<close>, \<open>OptGates\<close>, \<open>OptCancelSound\<close>, \<open>OptSamples\<close>: that they keep the diagram of a
    circuit, through the invariant \<open>state_ok\<close> of the queues that a pass keeps for the qubits.

\<^bold>\<open>Conventions.\<close>
The ZX theories return \<open>option\<close>: \<open>None\<close> is undefined behaviour of the code (an access out of range,
an empty optional, an invalidated iterator).  The circuit theories return \<open>Error + 'a\<close>: the error
\<open>Undefined\<close> is undefined behaviour or a failed assertion, the other errors are the exceptions the
code throws.  A loop that might not end is a \<open>partial_function (option)\<close> or has fuel, and its
termination is a property.  Vertex numbers, the counter of destination vertices and register
counters have 64 bits where the code decrements or wraps them, casts to \<open>Qubit\<close> reduce modulo
\<open>2 ^ 32\<close>, operation codes are 8-bit words.  Doubles are rational numbers in parameters and exact
complex numbers in matrices; \<open>PI\<close> is the rational value of the constant, and where matrices are
concerned a parameter is read as an angle by scaling \<open>PI\<close> to pi.  Coefficients of symbolic
expressions keep the tolerance of the code.  An ordered set or map is a strictly sorted list, a
hash map an association list.  An owning pointer is the value it points to.

\<^bold>\<open>What the properties show.\<close>
The simplification of ZX-diagrams is total and sound: the four nested loops end, no step leaves the
defined behaviour, every rule keeps the linear map with its global phase.  The data structures keep
their invariants and implement their abstract graphs.  A circuit built through the interface
satisfies an invariant under which the functions that index without a check are safe; reordering
ends and only exchanges operations on disjoint qubits; inversion produces adjoint matrices and
commutes with instantiation; conditionals keep their meaning when they are canonicalised.  Where the
code deviates from its comments or from what it means to do, the property states what it does.
Decision diagrams are canonical, their arithmetic implements that of matrices, the diagram of a
controlled gate is the matrix of that gate, and the diagrams of operations are unitary with the
diagram of the inverted operation as their adjoint.
The functionality of a circuit is the product of its operations with rows and columns in the order
of the layouts, ancillary columns cleared and garbage qubits summed out.
The passes of the optimizer that are modelled return a circuit with the same decision diagram.

\<^bold>\<open>Not modelled.\<close>
Printing, OpenQASM output, hashing and random numbers.  Of the decision diagrams, vector diagrams
(a second node type) with state preparation, simulation, sampling and approximation, and the hash
tables, caches and memory management, of which the model assumes that they only save work: a
compute table returns what would be computed again, and a lookup returns the number it is given
(\<open>exact\<close>).  Of the optimizer, the fusion of gates, the passes around measurements and resets, the
back propagation of the output permutation and the collection of blocks.  The OpenQASM parser is a
compiler front end over file input that builds its circuit through the interface modelled here;
the neutral-atom computations work on coordinates in floating point; the translation of circuits
to ZX-diagrams approximates angles by fractions.  The MLIR part rests on an external framework,
the QDMI and FoMaC parts on an external device interface, the bindings are glue code.  The boundary
and gadget pivots are modelled but not proved sound.
\<close>

section \<open>Simplification of ZX-diagrams\<close>

text \<open>
C1: \<open>interiorCliffordSimp\<close> is total and sound.  On every well-formed non-empty diagram its four
nested rewriting loops stop, no step leaves the defined behaviour of the code (no access out of
range, no empty optional, no invalidated iterator), the result is well-formed, has no new
vertices and the same linear map up to a positive scalar, none of the four rules applies to it
any more, and the returned number of rounds is at most the number of vertices.
\<close>

theorem interiorCliffordSimp_sound:
  assumes "zx_inv d" "vertices d \<noteq> []"
  shows "\<exists>n d'. interiorCliffordSimp d = Some (n, d') \<and> zx_inv d' \<and> same_map d d' \<and>
    verts d' \<subseteq> verts d \<and> clifford_done d' \<and> n \<le> card (verts d)"
  using interiorCliffordSimp_result [OF assms] unfolding simplifies_def by blast

theorem interiorCliffordSimp_sound_witness:
  "\<exists>n d'. interiorCliffordSimp sample_fuse = Some (n, d') \<and> zx_inv d' \<and> same_map sample_fuse d' \<and>
    verts d' \<subseteq> verts sample_fuse \<and> clifford_done d' \<and> n \<le> card (verts sample_fuse)"
  by (rule interiorCliffordSimp_sound [OF sample_inv(1) sample_nonempty(1)])

text \<open>
C2: Pivoting is sound.  Where \<open>checkPivotPauli\<close> holds for two live vertices, \<open>pivotPauli\<close>
succeeds, removes exactly these two vertices, keeps the invariant, and the new diagram has the
same linear map up to a positive scalar, global phase included.
\<close>

theorem pivotPauli_sound:
  assumes "zx_inv d" "live d v0" "live d v1" "checkPivotPauli d v0 v1 = Some True"
  shows "\<exists>d'. pivotPauli v0 v1 d = Some d' \<and> zx_inv d' \<and> same_map d d' \<and> verts d' = verts d - {v0, v1}"
  using pivotPauli_ok [OF assms] unfolding rule_result_def by blast

theorem pivotPauli_sound_witness:
  "\<exists>d'. pivotPauli 4 5 sample_pivot = Some d' \<and> zx_inv d' \<and> same_map sample_pivot d' \<and>
    verts d' = verts sample_pivot - {4, 5}"
  by (rule pivotPauli_sound [OF sample_inv(3) _ _ sample_checks(4)]) (simp_all add: sample_live)

text \<open>
C3: Local complementation is sound.  Where \<open>checkLocalComp\<close> holds for a live vertex, \<open>localComp\<close>
succeeds, removes exactly this vertex, keeps the invariant and the linear map up to a positive
scalar; the global phase it adds is the right one.
\<close>

theorem localComp_sound:
  assumes "zx_inv d" "live d v" "checkLocalComp d v = Some True"
  shows "\<exists>d'. localComp v d = Some d' \<and> zx_inv d' \<and> same_map d d' \<and> verts d' = verts d - {v}"
  using localComp_ok [OF assms] unfolding rule_result_def by blast

theorem localComp_sound_witness:
  "\<exists>d'. localComp 4 sample_comp = Some d' \<and> zx_inv d' \<and> same_map sample_comp d' \<and>
    verts d' = verts sample_comp - {4}"
  by (rule localComp_sound [OF sample_inv(2) _ sample_checks(3)]) (simp add: sample_live)

text \<open>
C4: Spider fusion is sound.  Where \<open>checkSpiderFusion\<close> holds for two live vertices,
\<open>fuseSpiders\<close> succeeds, removes the second one and keeps the invariant and the linear map, also
when parallel edges, boundary neighbours and symbolic phases are involved.
\<close>

theorem fuseSpiders_sound:
  assumes "zx_inv d" "live d v0" "live d v1" "checkSpiderFusion d v0 v1 = Some True"
  shows "\<exists>d'. fuseSpiders v0 v1 d = Some d' \<and> zx_inv d' \<and> same_map d d' \<and> verts d' = verts d - {v1}"
  using fuseSpiders_ok [OF assms] unfolding rule_result_def by blast

theorem fuseSpiders_sound_witness:
  "\<exists>d'. fuseSpiders 2 3 sample_fuse = Some d' \<and> zx_inv d' \<and> same_map sample_fuse d' \<and>
    verts d' = verts sample_fuse - {3}"
  by (rule fuseSpiders_sound [OF sample_inv(1) _ _ sample_checks(1)]) (simp_all add: sample_live)

text \<open>
C5: Identity removal is sound.  Where \<open>checkIdSimp\<close> holds for a live vertex, \<open>removeId\<close>
succeeds, removes it and keeps the invariant and the linear map up to a positive scalar.
\<close>

theorem removeId_sound:
  assumes "zx_inv d" "live d v" "checkIdSimp d v = Some True"
  shows "\<exists>d'. removeId v d = Some d' \<and> zx_inv d' \<and> same_map d d' \<and> verts d' = verts d - {v}"
  using removeId_ok [OF assms] unfolding rule_result_def by blast

theorem removeId_sound_witness:
  "\<exists>d'. removeId 4 sample_fuse = Some d' \<and> zx_inv d' \<and> same_map sample_fuse d' \<and>
    verts d' = verts sample_fuse - {4}"
  by (rule removeId_sound [OF sample_inv(1) _ sample_checks(2)]) (simp add: sample_live)

text \<open>
C6: \<open>toGraphlike\<close> succeeds on every well-formed diagram, leaves no X spider, adds and removes no
vertex, and keeps the linear map.
\<close>

theorem toGraphlike_sound:
  assumes "zx_inv d"
  shows "\<exists>d'. toGraphlike d = Some d' \<and> zx_inv d' \<and> same_map d d' \<and> verts d' = verts d \<and>
    (\<forall>v. \<not> is_X (vdata d') v)"
  using toGraphlike_result [OF assms] by blast

theorem toGraphlike_sound_witness:
  "\<exists>d'. toGraphlike sample_fuse = Some d' \<and> zx_inv d' \<and> same_map sample_fuse d' \<and>
    verts d' = verts sample_fuse \<and> (\<forall>v. \<not> is_X (vdata d') v)"
  by (rule toGraphlike_sound [OF sample_inv(1)])

section \<open>The diagram data structure\<close>



text \<open>
C8: \<open>removeVertex\<close> implements vertex deletion on the abstract graph: on a live vertex of a
well-formed diagram it succeeds, keeps the invariant (both counters and the free list included)
and removes exactly the vertex and its edges.
\<close>

theorem removeVertex_refines:
  assumes "zx_ok d" "live d r"
  shows "\<exists>d'. removeVertex r d = Some d' \<and> zx_ok d' \<and> same_frame d d' \<and>
    vdata d' = (vdata d)(r := None) \<and> adj d' = (\<lambda>u v. if u = r \<or> v = r then None else adj d u v)"
  using removeVertex_ok [OF assms] by blast

theorem removeVertex_refines_witness:
  "\<exists>d'. removeVertex 2 sample_fuse = Some d' \<and> zx_ok d' \<and> same_frame sample_fuse d' \<and>
    vdata d' = (vdata sample_fuse)(2 := None) \<and>
    adj d' = (\<lambda>u v. if u = 2 \<or> v = 2 then None else adj sample_fuse u v)"
  by (rule removeVertex_refines) (use sample_inv(1) in \<open>simp_all add: sample_live zx_inv_ok\<close>)

text \<open>
\<open>addVertex\<close> never overwrites: whether it reuses a deleted slot or appends, the vertex it
returns was not live, it becomes live with the given data and without edges, everything else and
the invariant are kept.
\<close>

theorem addVertex_refines:
  assumes "zx_ok d" "length (vertices d) < 2 ^ 64"
  shows "\<exists>v d'. addVertex x d = Some (v, d') \<and> zx_ok d' \<and> \<not> live d v \<and>
    vdata d' = (vdata d)(v := Some x) \<and> adj d' = adj d \<and> same_frame d d'"
  using addVertex_ok [OF assms, of x] by blast

theorem addVertex_refines_witness:
  "\<exists>v d'. addVertex (spider Z 1) sample_fuse = Some (v, d') \<and> zx_ok d' \<and> \<not> live sample_fuse v \<and>
    vdata d' = (vdata sample_fuse)(v := Some (spider Z 1)) \<and> adj d' = adj sample_fuse \<and> same_frame sample_fuse d'"
  by (rule addVertex_refines) (use sample_inv(1) in \<open>simp_all add: zx_inv_ok sample_fuse_def sample_def\<close>)

text \<open>
C9: The constructor: \<open>ZXDiagram(n)\<close> yields a well-formed diagram with \<open>n\<close> inputs and \<open>n\<close>
outputs whose linear map is the identity.
\<close>

theorem ZXDiagram_new_identity:
  assumes "n + n < 2 ^ 64"
  shows "\<exists>d. ZXDiagram_new n = Some d \<and> zx_inv d \<and> ports_ok d \<and> inputs d = [0..<n] \<and> outputs d = [n..<n + n] \<and>
    (\<forall>s. \<forall>B \<subseteq> boundary_verts d. zx_sem s d B = (if \<forall>i<n. i \<in> B \<longleftrightarrow> n + i \<in> B then 1 else 0))"
  using ZXDiagram_new_result [OF assms] by blast

theorem ZXDiagram_new_identity_witness:
  "\<exists>d. ZXDiagram_new 3 = Some d \<and> zx_inv d \<and> ports_ok d \<and> inputs d = [0..<3] \<and> outputs d = [3..<3 + 3] \<and>
    (\<forall>s. \<forall>B \<subseteq> boundary_verts d. zx_sem s d B = (if \<forall>i<3. i \<in> B \<longleftrightarrow> 3 + i \<in> B then 1 else 0))"
  by (rule ZXDiagram_new_identity) simp

text \<open>
C10: \<open>invert\<close> (and \<open>adjoint\<close>) swaps inputs and outputs and conjugates the linear map of the graph,
and applying it twice gives the diagram back; but the global phase is left as it is, so the map
with its global phase is not conjugated.
\<close>

theorem invert_conjugates:
  assumes "zx_ok d" "phases_ok d"
  shows "zx_ok (invert d) \<and> inputs (invert d) = outputs d \<and> outputs (invert d) = inputs d \<and>
    (\<forall>s B. zx_sem s (invert d) B = phase_cis s (globalPhase d) * cnj (sem s (graph_of d) B)) \<and>
    vdata (invert (invert d)) = vdata d \<and> adj (invert (invert d)) = adj d"
proof -
  have "vdata (invert (invert d)) v = vdata d v" for v
    using phases_ok_vdata [OF assms(2), of v]
    by (cases "vdata d v") (auto simp: invert_reads conj_data_def expr_neg_neg)
  then show ?thesis
    using assms(1) invert_sem [OF assms(2)]
    by (auto simp: invert_reads zx_sem_def fun_eq_iff) (simp_all add: invert_def)
qed

theorem invert_conjugates_witness:
  "zx_ok (invert sample_fuse) \<and> inputs (invert sample_fuse) = outputs sample_fuse \<and>
    outputs (invert sample_fuse) = inputs sample_fuse \<and>
    (\<forall>s B. zx_sem s (invert sample_fuse) B
      = phase_cis s (globalPhase sample_fuse) * cnj (sem s (graph_of sample_fuse) B)) \<and>
    vdata (invert (invert sample_fuse)) = vdata sample_fuse \<and> adj (invert (invert sample_fuse)) = adj sample_fuse"
  by (rule invert_conjugates) (use sample_inv(1) in \<open>simp_all add: zx_inv_def\<close>)

text \<open>
\<open>removeDisconnectedSpiders\<close> keeps exactly the vertices from which an input or an output can
be reached, with all their data and edges, and removes the others without failing.
\<close>

theorem removeDisconnectedSpiders_keeps:
  assumes "zx_ok d"
  shows "\<exists>d'. removeDisconnectedSpiders d = Some d' \<and> zx_ok d' \<and> same_frame d d' \<and>
    verts d' = {v \<in> verts d. reaches_port d v} \<and>
    (\<forall>v \<in> verts d'. vdata d' v = vdata d v \<and> (\<forall>w \<in> verts d'. adj d' v w = adj d v w))"
proof -
  obtain d' where d': "removeDisconnectedSpiders d = Some d'" "kept d {v \<in> verts d. reaches_port d v} d'"
    using removeDisconnected_result [OF assms] by blast
  then have "verts d' = {v \<in> verts d. reaches_port d v}"
    using kept_live [OF d'(2)] by (auto simp: verts_def)
  with d' show ?thesis by (simp add: kept_def)
qed

theorem removeDisconnectedSpiders_keeps_witness:
  "\<exists>d'. removeDisconnectedSpiders sample_fuse = Some d' \<and> zx_ok d' \<and> same_frame sample_fuse d' \<and>
    verts d' = {v \<in> verts sample_fuse. reaches_port sample_fuse v} \<and>
    (\<forall>v \<in> verts d'. vdata d' v = vdata sample_fuse v \<and>
      (\<forall>w \<in> verts d'. adj d' v w = adj sample_fuse v w))"
  by (rule removeDisconnectedSpiders_keeps) (use sample_inv(1) in \<open>simp add: zx_inv_ok\<close>)

text \<open>
\<open>getConnectedSet\<close> returns the neighbours of the given vertices outside the excluded ones,
sorted and without repetition.
\<close>

theorem getConnectedSet_sorted:
  assumes "zx_ok d" "\<forall>v \<in> set vs. live d v"
  shows "\<exists>r. getConnectedSet d vs ex = Some r \<and> sorted r \<and> distinct r \<and>
    set r = {w. (\<exists>v \<in> set vs. adj d v w \<noteq> None) \<and> w \<notin> set ex}"
  using getConnectedSet_result [OF assms, of ex] by (simp add: neighbours_outside_def)

theorem getConnectedSet_sorted_witness:
  "\<exists>r. getConnectedSet sample_fuse [2, 4] [3] = Some r \<and> sorted r \<and> distinct r \<and>
    set r = {w. (\<exists>v \<in> set [2, 4]. adj sample_fuse v w \<noteq> None) \<and> w \<notin> set [3]}"
  by (rule getConnectedSet_sorted) (use sample_inv(1) in \<open>simp_all add: zx_inv_ok sample_live\<close>)

text \<open>
C11: The edge iterator: on a well-formed non-empty diagram, a loop from \<open>begin()\<close> to \<open>end()\<close> never
reads out of range and visits the edges of \<open>getEdges\<close>, each once from its smaller end.
\<close>

theorem edge_iterator_visits:
  assumes "zx_ok d" "vertices d \<noteq> []"
  shows "\<exists>pos es. edge_begin d = Some pos \<and> edge_walk d pos = Some es \<and>
    getEdges d = Some es \<and> set es = {(u, v). adj d u v \<noteq> None \<and> u \<le> v}"
proof -
  obtain pos where pos: "edge_begin d = Some pos" "edge_walk d pos = getEdges d"
    using edge_iterator_result [OF assms] by blast
  have "edges d \<noteq> []" using assms zx_ok_length [of d] by auto
  then obtain es where es: "getEdges d = Some es" by (simp add: getEdges_def)
  have "(u, v) \<in> set es \<longleftrightarrow> adj d u v \<noteq> None \<and> u \<le> v" for u v
    using es getEdges_mem [OF assms(1), of u v es] zx_ok_incident_adj [OF assms(1), of u]
    by (auto simp: getEdges_def set_getVertices verts_def split: if_splits)
  with pos es show ?thesis by auto
qed

theorem edge_iterator_visits_witness:
  "\<exists>pos es. edge_begin sample_fuse = Some pos \<and> edge_walk sample_fuse pos = Some es \<and>
    getEdges sample_fuse = Some es \<and> set es = {(u, v). adj sample_fuse u v \<noteq> None \<and> u \<le> v}"
  by (rule edge_iterator_visits) (use sample_inv(1) sample_nonempty(1) in \<open>simp_all add: zx_inv_ok\<close>)

section \<open>The circuit representation\<close>





text \<open>
C14: \<open>reorderOperations\<close> ends and only exchanges neighbours on disjoint qubits: when all qubits
are below the number of queues, the result is a reordering of the operations that use a qubit,
with the same sequence of operations on every qubit; otherwise the code throws
\<open>std::out_of_range\<close>.
\<close>

theorem reorder_terminates:
  "case reorder_ops n ops of
     None \<Rightarrow> False
   | Some (Inl err) \<Rightarrow> err = OutOfRange \<and> \<not> list_all (qubits_below n) ops
   | Some (Inr ops') \<Rightarrow> list_all (qubits_below n) ops \<and> reordering (filter uses_qubits ops) ops' \<and>
       mset ops' = mset (filter uses_qubits ops) \<and>
       (\<forall>q. filter (\<lambda>op. actsOn op q) ops' = filter (\<lambda>op. actsOn op q) ops)"
proof (cases "list_all (qubits_below n) ops")
  case True
  then obtain ops' where ops': "reorder_ops n ops = Some (Inr ops')" "reordering (filter uses_qubits ops) ops'"
    using reorder_ops_reordering by blast
  have "filter (\<lambda>op. actsOn op q) (filter uses_qubits ops) = filter (\<lambda>op. actsOn op q) ops" for q
    by (auto simp: uses_qubits_actsOn intro: filter_cong)
  with ops' True show ?thesis
    using reordering_mset [OF ops'(2)] reordering_qubit [OF ops'(2)] by auto
qed (simp add: reorder_ops_error)

text \<open>
C15: Every round of \<open>reorderOperations\<close> makes progress: as long as operations remain, one sweep
over the qubits schedules at least one of them, and only when none remains does it report that
it is done.
\<close>

theorem reorder_progress:
  assumes "rest_ok n ops todo"
  shows "\<exists>todo' new' finished. sweep n ops (dag_of n ops todo, new) = Inr ((dag_of n ops todo', new'), finished) \<and>
    rest_ok n ops todo' \<and> (finished \<longleftrightarrow> todo = []) \<and> (length todo' < length todo \<or> todo = [])"
proof (cases "todo = []")
  case True
  with assms show ?thesis using sweep_empty [of n ops new] by auto
next
  case False
  with sweep_nonempty [OF assms False, of new] show ?thesis by (auto simp: swept_def)
qed

theorem reorder_progress_witness:
  "\<exists>todo' new' finished. sweep 2 sample_ops (dag_of 2 sample_ops [0, 1, 2, 3], []) =
      Inr ((dag_of 2 sample_ops todo', new'), finished) \<and>
    rest_ok 2 sample_ops todo' \<and> \<not> finished \<and> length todo' < 4"
proof -
  have "rest_ok 2 sample_ops [0, 1, 2, 3]"
    by (auto simp: rest_ok_def sample_ops_def sample_gates_def op_actsOn_def controls_contain_def)
  from reorder_progress [OF this, of "[]"] show ?thesis by (simp add: eval_nat_numeral)
qed

text \<open>
C16: \<open>StandardOperation::invert\<close> produces the adjoint.  For gates on one, two and three qubits the
matrix of the inverted operation is the adjoint matrix; for \<open>DCX\<close>, whose targets are exchanged,
it is the adjoint with the two qubits exchanged.
\<close>

theorem invert_adjoint:
  assumes "std_invert op = Inr op'"
  shows "(opToSingleQubitGateMatrix (optype op) (parameter op) = Inr M1 \<longrightarrow>
      opToSingleQubitGateMatrix (optype op') (parameter op') = Inr (adjoint1 M1)) \<and>
    (opToTwoQubitGateMatrix (optype op) (parameter op) = Inr M2 \<longrightarrow>
      opToTwoQubitGateMatrix (optype op') (parameter op') =
        Inr (if optype op = opDCX then swap_qubits (adjointM M2) else adjointM M2)) \<and>
    (opToThreeQubitGateMatrix (optype op) (parameter op) = Inr M2 \<longrightarrow>
      opToThreeQubitGateMatrix (optype op') (parameter op') = Inr (adjointM M2))"
  using std_invert_matrix1 [OF assms, of M1] std_invert_matrix2 [OF assms, of M2] std_invert_matrix3 [OF assms, of M2]
  by blast

theorem invert_adjoint_witness:
  "opToSingleQubitGateMatrix opRX [- 1] = Inr (adjoint1 (rxMat 1))"
proof -
  let ?op = "\<lparr>controls = [], targets = [0], parameter = [1], optype = opRX, opname = []\<rparr> :: OpBase"
  have "std_invert ?op = Inr (?op\<lparr>parameter := [- 1]\<rparr>)"
    by (simp add: std_invert_def self_inverse_types_def negate_first_types_def)
  from invert_adjoint [OF this, of "rxMat 1" "[]"] show ?thesis
    by (simp add: opToSingleQubitGateMatrix_def [of opRX "[1]"] at_res_def)
qed

text \<open>
C17: The constructor of \<open>StandardOperation\<close> replaces generic \<open>P\<close>, \<open>U2\<close> and \<open>U\<close> gates by named ones;
when the angles are exact, so that no tolerance and no snapping applies, the replacement has the
same matrix.
\<close>

theorem constructor_keeps_matrix:
  assumes "list_all exact_angle ps" "checkUgate t ps = Inr (t', ps')" "t \<in> {opP, opU2, opU}"
  shows "opToSingleQubitGateMatrix t' ps' = opToSingleQubitGateMatrix t ps"
  by (rule checkUgate_matrix [OF assms])

theorem constructor_keeps_matrix_witness:
  "opToSingleQubitGateMatrix opH [] = opToSingleQubitGateMatrix opU2 [0, PI]"
proof (rule constructor_keeps_matrix)
  show "checkUgate opU2 [0, PI] = Inr (opH, [])" by code_simp
  show "list_all exact_angle [0, PI]" by code_simp
qed simp





text \<open>
What a positive answer of \<open>CompoundOperation::isInverseOf\<close> means: the operations in use,
reordered on disjoint qubits, equal one by one a prefix of the inverted operations of the other
compound, reversed and reordered on disjoint qubits.
\<close>

theorem isInverseOf_sound:
  assumes "comp_isInverseOf ops (CompoundOp b ops' cust) = Some (Inr True)" "ops \<noteq> []"
  shows "\<exists>inv xs ys us. map_res op_invert ops' = Inr inv \<and>
    reordering (filter uses_qubits ops) xs \<and> reordering (filter uses_qubits (rev inv)) (ys @ us) \<and>
    list_all2 (\<lambda>x y. op_eq x y = Inr True) xs ys"
  by (rule comp_isInverseOf_sound [OF assms])

theorem isInverseOf_sound_witness:
  "\<exists>inv xs ys us. map_res op_invert [phase_op 2, hadamard_op 0] = Inr inv \<and>
    reordering (filter uses_qubits [hadamard_op 0, phase_op 1]) xs \<and>
    reordering (filter uses_qubits (rev inv)) (ys @ us) \<and> list_all2 (\<lambda>x y. op_eq x y = Inr True) xs ys"
  by (rule isInverseOf_sound [OF isInverseOf_ignores_phases]) simp

text \<open>
Operations without qubits are not compared: a Hadamard gate with a global phase \<open>x\<close> is
reported as the inverse of a global phase \<open>y\<close> with a Hadamard gate for all \<open>x\<close> and \<open>y\<close>, although
the product of the two is the identity only when the phases cancel.
\<close>

theorem isInverseOf_global_phase:
  "op_isInverseOf (CompoundOp a [hadamard_op 0, phase_op x] c) (CompoundOp b [phase_op y, hadamard_op 0] d)
    = Some (Inr True)"
  using isInverseOf_ignores_phases by (simp add: op_isInverseOf_def)


text \<open>
C21: The name table.  \<open>opTypeFromString\<close> finds a name by binary search exactly if the table of
names has it, and the name that \<open>toString\<close> gives a type is read back as that type; the one
exception is \<open>Bridge\<close>, whose name is missing from the table.
\<close>

theorem op_name_round_trip:
  "opTypeFromString s = (case map_of OP_NAME_TO_TYPE s of Some t \<Rightarrow> Inr t | None \<Rightarrow> Inl InvalidArgument) \<and>
    opTypeFromString (op_toString t) = (if t = opBridge then Inl InvalidArgument else Inr t)"
  using opTypeFromString_table opTypeFromString_toString by simp


text \<open>
Range checks.  On a circuit built through the interface the checks in front of a gate accept
exactly the existing qubits and throw \<open>QFRException\<close> (an out-of-range error) otherwise, and the
check of classical bits accepts exactly the existing bits.
\<close>

theorem range_checks:
  assumes "reachable qc"
  shows "checkGateRange (t # ts) cs qc =
      (if list_all (\<lambda>q. q < getNqubits qc) (t # map qubit cs @ ts) then Inr () else Inl OutOfRange) \<and>
    checkBitRanges bs qc = (if list_all (\<lambda>b. b < nclassics qc) bs then Inr () else Inl RuntimeError)"
  by (simp only: checkGateRange_ok [OF reachable_ok [OF assms]] checkBitRanges_ok)

theorem range_checks_witness:
  "checkGateRange [1] [Control 2 Pos] sample_qc = Inl OutOfRange \<and> checkGateRange [1] [Control 0 Pos] sample_qc = Inr () \<and>
    checkBitRanges [2] sample_qc = Inl RuntimeError"
  using range_checks [OF sample_reachable, of 1 "[]" "[Control 2 Pos]" "[2]"]
    range_checks [OF sample_reachable, of 1 "[]" "[Control 0 Pos]" "[]"] by (simp add: sample_qc_fields)

text \<open>
\<open>measureAll\<close> with fresh bits adds a register \<open>meas\<close> and one measurement per qubit, from the
last to the first, of qubit \<open>i\<close> into bit \<open>i\<close> of that register.
\<close>

theorem measureAll_measures:
  assumes "reachable qc" "0 < getNqubits qc" "map_of (classicalRegisters qc) ''meas'' = None"
    and "nclassics qc < 2 ^ 32"
  shows "\<exists>qc'. measureAll True False qc = Inr qc' \<and>
    qc_ops qc' = qc_ops qc @ map (\<lambda>i. measurement i (nclassics qc + i)) (rev [0..<getNqubits qc])"
  by (rule measureAll_spec [OF reachable_ok [OF assms(1)] assms(2-4)])

theorem measureAll_measures_witness:
  "\<exists>qc'. measureAll True False sample_qc = Inr qc' \<and>
    qc_ops qc' = sample_ops @ [measurement 1 3, measurement 0 2]"
  using measureAll_measures [OF sample_reachable]
  by (simp add: sample_qc_fields upt_2 flip: numeral_3_eq_3 numeral_2_eq_2)

text \<open>
Comparing an operation with itself under any permutation that maps its qubits gives
\<open>true\<close>, for every class of operations and nested to any depth.
\<close>

theorem equals_itself:
  assumes "comparable p op"
  shows "equals p p op op = Inr True"
  by (rule equals_reflexive [OF assms])

theorem equals_itself_witness:
  "equals [(0, 1), (1, 0)] [(0, 1), (1, 0)] (CompoundOp (empty_base opCompound []) sample_ops False)
    (CompoundOp (empty_base opCompound []) sample_ops False) = Inr True"
  by (rule equals_itself)
    (auto simp: sample_ops_def sample_gates_def base_mapped_def map_contains_def op_actsOn_def controls_contain_def
      split: if_splits)

section \<open>Decision diagrams\<close>

text \<open>
C23: \<open>makeDDNode\<close> gives the matrix with the four successors as its quadrants its only edge: the
result is canonical and denotes that matrix, and any canonical edge equals it exactly if it
denotes the same matrix.
\<close>

theorem makeDDNode_unique:
  assumes "exact N" "length es = 4" "\<forall>i < 4. edge_canonical v (es ! i)"
  shows "edge_canonical (Suc v) (makeDDNode N v es) \<and>
    (\<forall>f. edge_canonical (Suc v) f \<longrightarrow>
       (f = makeDDNode N v es \<longleftrightarrow> (\<forall>x y. den (Suc v) f x y = den v (es ! child_index v x y) x y)))"
proof -
  have can: "canonical v (fst (es ! i))" if "i < 4" for i using assms(3) that by (simp add: edge_canonical_def)
  have "edges_ok v es" using can canonical_mwf assms(2) by (simp add: edges_ok_def)
  then have den: "den (Suc v) (makeDDNode N v es) x y = den v (es ! child_index v x y) x y" for x y
    using makeDDNode_ok [OF assms(1), of v es x y] by (simp del: den.simps)
  have ok: "edge_canonical (Suc v) (makeDDNode N v es)" by (rule makeDDNode_canonical [OF assms(1,2) can])
  then show ?thesis using den canonical_unique [OF _ ok] by metis
qed

theorem makeDDNode_unique_witness:
  "edge_canonical 1 (makeDDNode exact_numbers 0 [mzero, mone, mone, mzero]) \<and>
    makeDDNode exact_numbers 0 [mone, mzero, mzero, mone] \<noteq> makeDDNode exact_numbers 0 [mzero, mone, mone, mzero]"
proof -
  let ?x = "[mzero, mone, mone, mzero]" and ?i = "[mone, mzero, mzero, mone]"
  have e: "\<forall>i < 4. edge_canonical 0 (?x ! i)" "\<forall>i < 4. edge_canonical 0 (?i ! i)"
    by (auto simp: less_Suc_eq numeral_eq_Suc edge_canonical_def mzero_def mone_def)
  have d: "den 0 (?i ! child_index 0 x x) x x \<noteq> den 0 (?x ! child_index 0 x x) x x" for x
    by (simp add: child_index_def mzero_def mone_def)
  let ?X = "makeDDNode exact_numbers 0 ?x" and ?I = "makeDDNode exact_numbers 0 ?i"
  have X: "edge_canonical (Suc 0) ?X" using makeDDNode_unique [OF exact_exact_numbers _ e(1)] by simp
  have four: "length ?i = 4" and four': "length ?x = 4" by simp_all
  note i = makeDDNode_unique [OF exact_exact_numbers four e(2)]
  have I: "edge_canonical (Suc 0) ?I" "den (Suc 0) ?I x y = den 0 (?i ! child_index 0 x y) x y" for x y
    using i by blast+
  have "?I = ?X \<longleftrightarrow> (\<forall>x y. den (Suc 0) ?I x y = den 0 (?x ! child_index 0 x y) x y)"
    using makeDDNode_unique [OF exact_exact_numbers four' e(1)] I(1) by blast
  then have "?I \<noteq> ?X" unfolding I(2) using d by blast
  then show ?thesis using X by simp
qed

text \<open>
C24: Sums and products of diagrams.  On the canonical edges of a package with at least one qubit
\<open>add\<close> and \<open>multiply\<close> never fail, return canonical edges, and implement the sum and the product
of the matrices.
\<close>

theorem dd_arithmetic_refines:
  assumes "exact N" "0 < k" "edge_canonical k x" "edge_canonical k y"
  shows "(\<exists>e. dd_add N x y = Inr e \<and> edge_canonical k e \<and> (\<forall>r c. den k e r c = den k x r c + den k y r c)) \<and>
    (\<exists>e. dd_multiply N x y = Inr e \<and> edge_canonical k e \<and>
      (\<forall>r c. den k e r c = mat_mult k (den k x) (den k y) r c))"
  using dd_add_ok [OF assms] dd_multiply_ok [OF assms] by blast

theorem dd_arithmetic_refines_witness:
  "(\<exists>e. dd_add exact_numbers (x_node 0, 1) mone = Inr e \<and> (\<forall>r c. den 1 e r c = 1)) \<and>
    dd_multiply exact_numbers (x_node 0, 1) (x_node 0, 1) = Inr mone"
proof -
  have x: "edge_canonical 1 (x_node 0, 1)" by (rule x_node_canonical) simp
  note A = dd_arithmetic_refines [OF exact_exact_numbers zero_less_one x]
  obtain e where e: "dd_multiply exact_numbers (x_node 0, 1) (x_node 0, 1) = Inr e" "edge_canonical 1 e"
    "\<forall>r c. den 1 e r c = mat_mult 1 (den 1 (x_node 0, 1)) (den 1 (x_node 0, 1)) r c"
    using A [OF x] by blast
  have "den 1 e r c = den 1 mone r c" for r c
    unfolding e(3) [rule_format] by (simp add: mat_mult_def x_node_def child_index_def mone_def mzero_def)
  then have "e = mone" by (rule canonical_unique [OF e(2) mone_canonical])
  moreover obtain s where s: "dd_add exact_numbers (x_node 0, 1) mone = Inr s"
    "\<forall>r c. den 1 s r c = den 1 (x_node 0, 1) r c + den 1 mone r c"
    using A [OF mone_canonical] by blast
  moreover have "den 1 s r c = 1" for r c
    unfolding s(2) [rule_format] by (simp add: x_node_def child_index_def mone_def mzero_def)
  ultimately show ?thesis using e(1) by blast
qed

text \<open>
C25: The diagrams of gates.  For sorted controls and qubits that pass the range check the diagram
of a gate with one, two or three targets in any order is canonical, and its matrix applies the
gate to the targets where the controls are satisfied and is the identity elsewhere.
\<close>

theorem gate_diagrams:
  assumes "exact N" "strictly_sorted (map qubit cs)" "ensureGateQubitsInRange n cs ts = Inr ()"
  shows "(\<forall>t mat. ts = [t] \<longrightarrow> (\<exists>e. makeGateDD N n mat cs t = Inr e \<and> edge_canonical n e \<and>
      (\<forall>x y. den n e x y = gate_matrix n (\<lambda>r s. mat ! (2 * r + s)) cs ts x y))) \<and>
    (\<forall>t0 t1 mat. ts = [t0, t1] \<longrightarrow> (\<exists>e. makeTwoQubitGateDD N n mat cs t0 t1 = Inr e \<and> edge_canonical n e \<and>
      (\<forall>x y. den n e x y = gate_matrix n (\<lambda>r s. mat ! r ! s) cs ts x y))) \<and>
    (\<forall>t0 t1 t2 mat. ts = [t0, t1, t2] \<longrightarrow> (\<exists>e. makeThreeQubitGateDD N n mat cs t0 t1 t2 = Inr e \<and>
      edge_canonical n e \<and> (\<forall>x y. den n e x y = gate_matrix n (\<lambda>r s. mat ! r ! s) cs ts x y)))"
proof (intro conjI allI impI)
  show "\<exists>e. makeGateDD N n mat cs t = Inr e \<and> edge_canonical n e \<and>
    (\<forall>x y. den n e x y = gate_matrix n (\<lambda>r s. mat ! (2 * r + s)) cs ts x y)" if "ts = [t]" for t mat
    using makeGateDD_ok [OF assms(1,2)] assms(3) that by blast
  show "\<exists>e. makeTwoQubitGateDD N n mat cs t0 t1 = Inr e \<and> edge_canonical n e \<and>
    (\<forall>x y. den n e x y = gate_matrix n (\<lambda>r s. mat ! r ! s) cs ts x y)" if "ts = [t0, t1]" for t0 t1 mat
    using makeTwoQubitGateDD_ok [OF assms(1,2)] assms(3) that by blast
  show "\<exists>e. makeThreeQubitGateDD N n mat cs t0 t1 t2 = Inr e \<and> edge_canonical n e \<and>
    (\<forall>x y. den n e x y = gate_matrix n (\<lambda>r s. mat ! r ! s) cs ts x y)" if "ts = [t0, t1, t2]" for t0 t1 t2 mat
    using makeThreeQubitGateDD_ok [OF assms(1,2)] assms(3) that by blast
qed

theorem gate_diagrams_witness:
  "\<exists>e. makeGateDD exact_numbers 3 [0, 1, 1, 0] [Control 0 Neg, Control 2 Pos] 1 = Inr e \<and>
    den 3 e (\<lambda>q. q = 2) (\<lambda>q. q = 1 \<or> q = 2) = 1 \<and> den 3 e (\<lambda>q. q = 1) (\<lambda>q. q = 1) = 1 \<and>
    den 3 e (\<lambda>q. q = 2) (\<lambda>q. q = 2) = 0"
proof -
  have "strictly_sorted (map qubit [Control 0 Neg, Control 2 Pos])" by simp
  moreover have "ensureGateQubitsInRange 3 [Control 0 Neg, Control 2 Pos] [1] = Inr ()"
    by (simp add: ensureGateQubitsInRange_def)
  ultimately obtain e where "makeGateDD exact_numbers 3 [0, 1, 1, 0] [Control 0 Neg, Control 2 Pos] 1 = Inr e"
    "\<forall>x y. den 3 e x y = gate_matrix 3 (\<lambda>r s. [0, 1, 1, 0] ! (2 * r + s)) [Control 0 Neg, Control 2 Pos] [1] x y"
    using gate_diagrams [OF exact_exact_numbers] by blast
  moreover have "[0..<3 :: nat] = [0, 1, 2]" by (simp add: upt_rec)
  ultimately show ?thesis
    by (simp add: gate_matrix_def same_rest_def active_def target_index_def del: den.simps split_paired_Ex)
qed

text \<open>
C26: Matrices and diagrams.  For a matrix whose sides are the same power of two
\<open>makeDDFromMatrix\<close> returns a canonical edge, and \<open>getMatrix\<close> reads the matrix back from it.
\<close>

theorem matrix_round_trip:
  assumes "exact N" "dims n m"
  shows "\<exists>e. makeDDFromMatrix N m = Inr e \<and> edge_canonical n e \<and> getMatrix e n 0 = Inr m"
  by (rule getMatrix_makeDDFromMatrix [OF assms])

theorem matrix_round_trip_witness:
  "\<exists>e. makeDDFromMatrix exact_numbers [[1, 2], [0, 4]] = Inr e \<and> getMatrix e 1 0 = Inr [[1, 2], [0, 4]]"
proof -
  have "dims 1 [[1, 2], [0, 4]]" by (simp add: dims_def)
  from matrix_round_trip [OF exact_exact_numbers this] show ?thesis by blast
qed

text \<open>
C27: Operations are unitary.  Whenever \<open>getDD\<close> builds the diagram of an operation that has no
qubit twice among its controls, the diagram is canonical, \<open>getInverseDD\<close> builds its conjugate
transpose, and \<open>multiply\<close> of the two is the identity edge; for gates of all types and
parameters, global phases and barriers, nested in compounds to any depth.
\<close>

theorem operation_unitary:
  assumes "exact N" "0 < n" "distinct_controls p op" "getDD N n p False op = Inr e"
  shows "edge_canonical n e \<and> getInverseDD N n p op = Inr (dd_conjugateTranspose N e) \<and>
    dd_multiply N (dd_conjugateTranspose N e) e = Inr mone"
  using getDD_pair [OF assms] by (simp add: inverse_pair_def unitary_edge_def getInverseDD_def)

theorem operation_unitary_witness:
  "\<exists>e. getDD exact_numbers 1 [] False sample_compound = Inr e \<and>
    dd_multiply exact_numbers (dd_conjugateTranspose exact_numbers e) e = Inr mone"
proof -
  let ?op = sample_compound
  obtain e where "getDD exact_numbers 1 [] False ?op = Inr e" using sample_DD by blast
  moreover have "distinct_controls [] ?op" by (simp add: hadamard_op_def phase_op_def)
  ultimately show ?thesis using operation_unitary [OF exact_exact_numbers zero_less_one] by blast
qed

text \<open>
C28: The two notions of inverse agree: when \<open>Operation::invert\<close> succeeds on an operation without
symbolic parameters, the diagram of the inverted operation is the conjugate transpose of the
diagram of the operation.
\<close>

theorem inverted_operation_diagram:
  assumes "exact N" "0 < n" "concrete op" "distinct_controls p op" "getDD N n p False op = Inr e"
    and "op_invert op = Inr op'"
  shows "getDD N n p False op' = Inr (dd_conjugateTranspose N e)"
  by (rule getDD_op_invert [OF assms])

theorem inverted_operation_diagram_witness:
  "\<exists>e. getDD exact_numbers 1 [] False sample_compound = Inr e \<and>
    getDD exact_numbers 1 [] False (CompoundOp (empty_base opCompound []) [phase_op (- 1), hadamard_op 0] False) =
      Inr (dd_conjugateTranspose exact_numbers e)"
proof -
  let ?op = sample_compound
  obtain e where e: "getDD exact_numbers 1 [] False ?op = Inr e" using sample_DD by blast
  have "distinct_controls [] ?op" "concrete ?op" by (simp_all add: hadamard_op_def phase_op_def empty_base_def)
  moreover have "op_invert ?op = Inr (CompoundOp (empty_base opCompound []) [phase_op (- 1), hadamard_op 0] False)"
    by (simp add: hadamard_op_def phase_op_def std_invert_def self_inverse_types_def negate_first_types_def)
  ultimately show ?thesis using inverted_operation_diagram [OF exact_exact_numbers zero_less_one _ _ e] e by blast
qed

text \<open>
\<open>trace\<close> of an ordered diagram never fails and returns the trace of its matrix divided by two
for each qubit.
\<close>

theorem trace_normalized:
  assumes "exact N" "mwf n (fst a)"
  shows "\<exists>w. dd_trace N a n = Inr w \<and> w * 2 ^ n = mat_trace n (den n a)"
  by (rule dd_trace_ok [OF assms])

theorem trace_normalized_witness:
  "dd_trace exact_numbers (x_node 0, 1) 1 = Inr 0"
proof -
  have "mwf 1 (x_node 0)" using x_node_canonical [of 0 1] canonical_mwf by (simp add: edge_canonical_def)
  then show ?thesis using trace_normalized [OF exact_exact_numbers, of 1 "(x_node 0, 1)"]
    by (auto simp: mat_trace_def x_node_def child_index_def mzero_def mone_def)
qed

section \<open>The functionality of a circuit\<close>



text \<open>
C30: \<open>buildFunctionalityRecursive\<close>, which multiplies the operations in a binary tree and keeps the
products on a stack, gives for at least two operations exactly the result of \<open>buildFunctionality\<close>,
the errors included.
\<close>

theorem buildFunctionalityRecursive_equals:
  assumes "0 < n" "layouts_ok n qc" "list_all regular (qc_ops qc)" "2 \<le> length (qc_ops qc)"
  shows "buildFunctionalityRecursive exact_numbers n qc = buildFunctionality exact_numbers n qc"
  by (rule buildFunctionalityRecursive_same [OF assms])

theorem buildFunctionalityRecursive_equals_witness:
  "buildFunctionalityRecursive exact_numbers 2 (swapped_circuit True) =
    buildFunctionality exact_numbers 2 (swapped_circuit True)"
  by (rule buildFunctionalityRecursive_equals [OF _ swapped_layouts swapped_regular(1)])
    (simp_all add: swapped_circuit_def)

text \<open>
C31: \<open>elidePermutations\<close> removes every SWAP gate without controls, also inside compound operations,
by renaming the qubits of the later operations, and adjusts the layouts so that the functionality
of the circuit is the same diagram: if the operations have a diagram, the pass returns and
\<open>buildFunctionality\<close> gives the same result before and after it.
\<close>

theorem elidePermutations_preserves:
  assumes "0 < n" "layouts_ok n qc" "list_all regular (qc_ops qc)" "list_all (within_qubits n) (qc_ops qc)"
    and "circuit_DD n (qc_ops qc) = Inr u"
  shows "\<exists>qc'. elidePermutations qc = Inr qc' \<and> list_all swap_free (qc_ops qc') \<and>
    buildFunctionality exact_numbers n qc' = buildFunctionality exact_numbers n qc"
  by (rule elidePermutations_functionality [OF assms])

theorem elidePermutations_preserves_witness:
  "buildFunctionality exact_numbers 2 ((swapped_circuit True)\<lparr>qc_ops := [cnot 1 0], outputPermutation := [(0, 0), (1, 1)]\<rparr>) =
    buildFunctionality exact_numbers 2 (swapped_circuit True)"
proof -
  obtain u where "circuit_DD 2 (qc_ops (swapped_circuit True)) = Inr u" using swapped_DD by blast
  from elidePermutations_preserves [OF _ swapped_layouts swapped_regular this] show ?thesis
    unfolding swapped_elided by simp
qed

section \<open>The circuit optimizer\<close>

text \<open>
C32: \<open>swapReconstruction\<close> keeps the meaning of a circuit: if the operations have a decision diagram
and their qubits are below the number of queues, the pass returns, and the operations of the
result have the same diagram.
\<close>

theorem swapReconstruction_preserves:
  assumes "0 < n" "list_all (qubits_below (getHighestPhysicalQubitIndex qc + 1)) (qc_ops qc)"
    and "list_all regular (qc_ops qc)" "circuit_DD n (qc_ops qc) = Inr e"
  shows "\<exists>qc'. swapReconstruction qc = Inr qc' \<and> list_all regular (qc_ops qc') \<and> circuit_DD n (qc_ops qc') = Inr e"
  by (rule swapReconstruction_sound [OF assms])

theorem swapReconstruction_preserves_witness:
  "\<exists>e. circuit_DD 2 [cnot 0 1, cnot 1 0] = Inr e \<and> circuit_DD 2 [named_gate [] [0, 1] opSWAP, cnot 0 1] = Inr e"
proof -
  obtain e where e: "circuit_DD 2 [cnot 0 1, cnot 1 0] = Inr e" using cnots_DD(1) by blast
  have "\<exists>qc'. swapReconstruction (with_ops [cnot 0 1, cnot 1 0]) = Inr qc' \<and> list_all regular (qc_ops qc') \<and>
      circuit_DD 2 (qc_ops qc') = Inr e"
    by (rule swapReconstruction_preserves)
      (use e in \<open>simp_all add: getHighestPhysicalQubitIndex_def perm_maxKey_def qubits_below_actsOn op_actsOn_def
        controls_contain_def\<close>)
  then have "circuit_DD 2 [named_gate [] [0, 1] opSWAP, cnot 0 1] = Inr e"
    unfolding swapReconstruction_sample by auto
  with e show ?thesis by blast
qed

text \<open>
C33: \<open>cancelCNOTs\<close> keeps the meaning of a circuit under the same conditions: cancelled pairs, three
CNOT gates that become a SWAP gate, and pairs of a SWAP and a CNOT gate that become two CNOT gates.
\<close>

theorem cancelCNOTs_preserves:
  assumes "0 < n" "list_all (qubits_below (getHighestPhysicalQubitIndex qc + 1)) (qc_ops qc)"
    and "list_all regular (qc_ops qc)" "circuit_DD n (qc_ops qc) = Inr e"
  shows "\<exists>qc'. cancelCNOTs qc = Inr qc' \<and> list_all regular (qc_ops qc') \<and> circuit_DD n (qc_ops qc') = Inr e"
  by (rule cancelCNOTs_sound [OF assms])

theorem cancelCNOTs_preserves_witness:
  "\<exists>e. circuit_DD 2 [cnot 0 1, cnot 1 0, cnot 0 1] = Inr e \<and> circuit_DD 2 [named_gate [] [0, 1] opSWAP] = Inr e"
proof -
  obtain e where e: "circuit_DD 2 [cnot 0 1, cnot 1 0, cnot 0 1] = Inr e" using cnots_DD(2) by blast
  have "\<exists>qc'. cancelCNOTs (with_ops [cnot 0 1, cnot 1 0, cnot 0 1]) = Inr qc' \<and> list_all regular (qc_ops qc') \<and>
      circuit_DD 2 (qc_ops qc') = Inr e"
    by (rule cancelCNOTs_preserves)
      (use e in \<open>simp_all add: getHighestPhysicalQubitIndex_def perm_maxKey_def qubits_below_actsOn op_actsOn_def
        controls_contain_def\<close>)
  then have "circuit_DD 2 [named_gate [] [0, 1] opSWAP] = Inr e"
    unfolding cancelCNOTs_sample by auto
  with e show ?thesis by blast
qed

text \<open>
C34: \<open>decomposeSWAP\<close> keeps the meaning of a circuit whose SWAP gates have no controls, with and
without directed coupling: if the operations have a diagram, the pass returns operations with the
same diagram.
\<close>

theorem decomposeSWAP_preserves:
  assumes "0 < n" "list_all regular ops" "list_all plain_swaps ops" "circuit_DD n ops = Inr e"
  shows "\<exists>ops'. decomposeSWAP directed ops = Inr ops' \<and> list_all regular ops' \<and> circuit_DD n ops' = Inr e"
proof -
  obtain ops' where ops': "decomposeSWAP directed ops = Inr ops'"
    using decomposeSWAP_returns [OF assms(1,2,4,3)] by blast
  then show ?thesis using decomposeSWAP_sound [OF assms(1,3) ops'] assms(2,4) by (auto simp: replaces_def)
qed

theorem decomposeSWAP_preserves_witness:
  "\<exists>e. circuit_DD 2 [named_gate [] [0, 1] opSWAP] = Inr e \<and> circuit_DD 2 [cnot 0 1, cnot 1 0, cnot 0 1] = Inr e"
proof -
  obtain e where e: "circuit_DD 2 [named_gate [] [0, 1] opSWAP] = Inr e" using swap_DD by blast
  have "\<exists>ops'. decomposeSWAP False [named_gate [] [0, 1] opSWAP] = Inr ops' \<and> list_all regular ops' \<and>
      circuit_DD 2 ops' = Inr e"
    by (rule decomposeSWAP_preserves) (use e in simp_all)
  then show ?thesis using e unfolding decomposeSWAP_sample by auto
qed

text \<open>
C35: \<open>replaceMCXWithMCZ\<close> keeps the meaning of a circuit, also inside compound operations: a
controlled X gate becomes a controlled Z gate between two Hadamard gates.
\<close>

theorem replaceMCXWithMCZ_preserves:
  assumes "0 < n" "list_all regular ops" "circuit_DD n ops = Inr e"
  shows "\<exists>ops'. replaceMCXWithMCZ ops = Inr ops' \<and> list_all regular ops' \<and> circuit_DD n ops' = Inr e"
proof -
  obtain ops' where ops': "replaceMCXWithMCZ ops = Inr ops'" using replaceMCXWithMCZ_returns [OF assms] by blast
  then show ?thesis using replaceMCXWithMCZ_sound [OF assms(1) ops'] assms(2,3) by (auto simp: replaces_def)
qed

theorem replaceMCXWithMCZ_preserves_witness:
  "\<exists>e. circuit_DD 2 [cnot 0 1] = Inr e \<and>
    circuit_DD 2 [named_gate [] [1] opH, named_gate [Control 0 Pos] [1] opZ, named_gate [] [1] opH] = Inr e"
proof -
  obtain e where e: "circuit_DD 2 [cnot 0 1] = Inr e" using cnot_DD by blast
  have "\<exists>ops'. replaceMCXWithMCZ [cnot 0 1] = Inr ops' \<and> list_all regular ops' \<and> circuit_DD 2 ops' = Inr e"
    by (rule replaceMCXWithMCZ_preserves) (use e in simp_all)
  then show ?thesis using e unfolding replaceMCXWithMCZ_sample by auto
qed

text \<open>
C36: \<open>flattenOperations\<close> and \<open>removeIdentities\<close> keep the meaning of a circuit, and
\<open>flattenOperations\<close> for all compound operations leaves none.
\<close>

theorem flatten_remove_preserve:
  assumes "0 < n" "list_all regular ops" "circuit_DD n ops = Inr e"
  shows "circuit_DD n (flattenOperations customOnly ops) = Inr e \<and> circuit_DD n (removeIdentities ops) = Inr e \<and>
    list_all (\<lambda>op. \<not> isCompoundOperation op) (flattenOperations False ops)"
proof -
  have "list_all (\<lambda>op. \<not> isCompoundOperation op) (flattenOperations False ops)"
    unfolding list_all_iff using flattenOperations_flat by blast
  then show ?thesis
    using flattenOperations_sound [OF assms(1), of ops customOnly] removeIdentities_sound [OF assms(1), of ops] assms(2,3)
    unfolding replaces_def by blast
qed

theorem flatten_remove_preserve_witness:
  "\<exists>e. circuit_DD 2 [compound_sample] = Inr e \<and> circuit_DD 2 (flattenOperations False [compound_sample]) = Inr e \<and>
    circuit_DD 2 (removeIdentities [compound_sample]) = Inr e"
proof -
  obtain e where e: "circuit_DD 2 [compound_sample] = Inr e" using compound_sample_DD(1) by blast
  have "list_all regular [compound_sample]" "(0 :: nat) < 2" using compound_sample_DD(2) by simp_all
  then show ?thesis using flatten_remove_preserve [OF _ _ e] e by blast
qed

text \<open>
C37: \<open>reorderOperations\<close> keeps the meaning of a circuit: if every operation uses a qubit and the
qubits are below the number of queues, the loop returns a list of operations, and the diagram of
the circuit is the diagram of that list.
\<close>

theorem reorder_preserves:
  assumes "0 < k" "list_all regular ops" "circuit_DD k ops = Inr e"
    and "list_all (qubits_below n) ops" "list_all uses_qubits ops"
  shows "\<exists>ops'. reorder_ops n ops = Some (Inr ops') \<and> circuit_DD k ops' = Inr e"
proof -
  have "filter uses_qubits ops = ops" using assms(5) by (simp add: list_all_iff)
  with reorder_ops_reordering [OF assms(4)]
  obtain ops' where "reorder_ops n ops = Some (Inr ops')" "reordering ops ops'" by auto
  then show ?thesis using replaces_reordering [of ops ops' k] assms(1-3) by (auto simp: replaces_def)
qed

theorem reorder_preserves_witness:
  "\<exists>e ops'. circuit_DD 2 [cnot 0 1, cnot 1 0] = Inr e \<and> reorder_ops 2 [cnot 0 1, cnot 1 0] = Some (Inr ops') \<and>
    circuit_DD 2 ops' = Inr e"
proof -
  obtain e where e: "circuit_DD 2 [cnot 0 1, cnot 1 0] = Inr e" using cnots_DD(1) by blast
  have "\<exists>ops'. reorder_ops 2 [cnot 0 1, cnot 1 0] = Some (Inr ops') \<and> circuit_DD 2 ops' = Inr e"
    by (rule reorder_preserves [OF _ _ e])
      (auto simp: qubits_below_actsOn uses_qubits_actsOn op_actsOn_def controls_contain_def)
  with e show ?thesis by blast
qed

section \<open>Phases and symbolic expressions\<close>

text \<open>
Phase arithmetic.  The angles are represented in (-1, 1] in units of pi; \<open>+\<close>, \<open>-\<close> and unary
minus keep this range and are the operations of the circle group.
\<close>

theorem phase_group:
  assumes "pr_ok a" "pr_ok b"
  shows "pr_ok (pr_add a b) \<and> pr_cis (pr_add a b) = pr_cis a * pr_cis b \<and>
    pr_ok (pr_neg a) \<and> pr_cis (pr_neg a) = inverse (pr_cis a) \<and>
    pr_ok (pr_sub a b) \<and> pr_cis (pr_sub a b) = pr_cis a * inverse (pr_cis b)"
proof -
  have "pr_ok (pr_sub a b)"
    unfolding pr_sub_def by (rule modPi_ok) (use assms in \<open>auto simp: pr_ok_def\<close>)
  moreover have "pr_cis (pr_sub a b) = pr_cis a * inverse (pr_cis b)"
    by (simp add: pr_sub_def pr_cis_modPi)
      (simp add: pr_cis_def of_rat_diff ring_distribs cis_inverse cis_mult)
  ultimately show ?thesis
    using pr_ok_add [OF assms] pr_ok_neg [OF assms(1)] pr_cis_add [of a b] pr_cis_neg [of a]
    unfolding plus_PiRational_def uminus_PiRational_def by simp
qed

theorem phase_group_witness:
  "pr_ok (pr_add (PiRational (3/4)) (PiRational (1/2))) \<and>
    pr_cis (pr_add (PiRational (3/4)) (PiRational (1/2))) = pr_cis (PiRational (3/4)) * pr_cis (PiRational (1/2)) \<and>
    pr_ok (pr_neg (PiRational (3/4))) \<and> pr_cis (pr_neg (PiRational (3/4))) = inverse (pr_cis (PiRational (3/4))) \<and>
    pr_ok (pr_sub (PiRational (3/4)) (PiRational (1/2))) \<and>
    pr_cis (pr_sub (PiRational (3/4)) (PiRational (1/2)))
      = pr_cis (PiRational (3/4)) * inverse (pr_cis (PiRational (1/2)))"
  by (rule phase_group) simp_all

text \<open>
The mixed operators with the integer on the left have their operands swapped: \<open>k - q\<close> is the
value of \<open>q - k\<close>, which is the negated angle, and \<open>k / q\<close> is that of \<open>q / k\<close>.
\<close>

theorem int_minus_phase_swapped:
  "int_sub_pr k q = pr_sub_int q k \<and> int_div_pr k q = pr_div_int q k \<and>
    pr_cis (int_sub_pr k q) = inverse (pr_cis (pr_sub (pr_of_int k) q))"
proof -
  have k: "pr_cis (pr_of_int k) = cis (pi * of_int k)"
    by (simp add: pr_of_int_def pr_cis_modPi) (simp add: pr_cis_def Fract_of_int_quotient)
  have "pr_cis (int_sub_pr k q) = cis (pi * of_rat (frac q) - pi * of_int k)"
    by (simp add: int_sub_pr_def pr_sub_int_def pr_cis_modPi)
      (simp add: pr_cis_def of_rat_diff ring_distribs)
  also have "\<dots> = pr_cis q * inverse (pr_cis (pr_of_int k))"
    unfolding k by (simp add: pr_cis_def cis_inverse cis_mult)
  finally have l: "pr_cis (int_sub_pr k q) = pr_cis q * inverse (pr_cis (pr_of_int k))" .
  have "pr_cis (pr_sub (pr_of_int k) q) = pr_cis (pr_of_int k) * inverse (pr_cis q)"
    by (simp add: pr_sub_def pr_cis_modPi)
      (simp add: pr_cis_def of_rat_diff ring_distribs cis_inverse cis_mult)
  then have "pr_cis (int_sub_pr k q) = inverse (pr_cis (pr_sub (pr_of_int k) q))"
    using l by (simp add: mult.commute)
  then show ?thesis by (simp add: int_sub_pr_def int_div_pr_def)
qed

text \<open>
C38: Adding symbolic expressions.  If all variables are assigned, the value of the sum is the sum
of the values up to the tolerance at which \<open>operator+=\<close> drops terms, and the terms stay strictly
sorted by variable.
\<close>

theorem expression_add_value:
  fixes l r :: "fp Expression"
  assumes "\<And>v. v \<in> getVariables l \<union> getVariables r \<Longrightarrow> a v = Some (s v)"
    and "terms_ok (terms l)" "terms_ok (terms r)"
  shows "\<exists>x y z. evaluate a l = Some x \<and> evaluate a r = Some y \<and> evaluate a (expr_add l r) = Some z \<and>
    \<bar>z - (x + y)\<bar> \<le> TOLERANCE * (\<Sum>t \<leftarrow> terms r. \<bar>s (getVar t)\<bar>) \<and> terms_ok (terms (expr_add l r))"
proof -
  have l: "evaluate a l = Some (terms_value s (terms l) + const l)"
    and r: "evaluate a r = Some (terms_value s (terms r) + const r)"
    and lr: "evaluate a (expr_add l r) = Some (terms_value s (terms (expr_add l r)) + const (expr_add l r))"
    using assms(1) getVariables_add [of l r] by (auto intro!: evaluate_total)
  have "0 \<le> TOLERANCE * (\<Sum>t \<leftarrow> terms r. \<bar>s (getVar t)\<bar>)"
    by (simp add: TOLERANCE_def) (rule sum_list_nonneg, auto)
  then have "\<bar>terms_value s (terms (expr_add l r)) + const (expr_add l r)
      - ((terms_value s (terms l) + const l) + (terms_value s (terms r) + const r))\<bar>
    \<le> TOLERANCE * (\<Sum>t \<leftarrow> terms r. \<bar>s (getVar t)\<bar>)"
    using fold_insert_term_error [of s "terms r" "terms l"]
    by (auto simp: expr_add_def expr_isZero_def)
  with l r lr terms_ok_expr_add [OF assms(2,3)] show ?thesis by blast
qed

theorem expression_add_value_witness:
  "\<exists>x y z. evaluate [0 \<mapsto> 2, 1 \<mapsto> 3] \<lparr>terms = [Term 0 1, Term 1 2], const = 5\<rparr> = Some x \<and>
    evaluate [0 \<mapsto> 2, 1 \<mapsto> 3] \<lparr>terms = [Term 1 (-2)], const = 1\<rparr> = Some y \<and>
    evaluate [0 \<mapsto> 2, 1 \<mapsto> 3] (expr_add \<lparr>terms = [Term 0 1, Term 1 2], const = 5\<rparr>
      \<lparr>terms = [Term 1 (-2)], const = 1\<rparr>) = Some z \<and>
    \<bar>z - (x + y)\<bar> \<le> TOLERANCE * (\<Sum>t \<leftarrow> terms \<lparr>terms = [Term 1 (-2)], const = 1 :: fp\<rparr>. \<bar>(if getVar t = 0 then 2 else 3)\<bar>) \<and>
    terms_ok (terms (expr_add \<lparr>terms = [Term 0 1, Term 1 2], const = 5 :: fp\<rparr> \<lparr>terms = [Term 1 (-2)], const = 1\<rparr>))"
  by (rule expression_add_value [of _ _ "[0 \<mapsto> 2, 1 \<mapsto> 3]" "\<lambda>v. if v = 0 then 2 else 3"])
    (auto simp: getVariables_def terms_ok_def)



text \<open>
C40: \<open>evaluate\<close> throws exactly when a variable of the expression is not assigned.
\<close>

theorem evaluate_throws_iff: "evaluate a e = None \<longleftrightarrow> (\<exists>v \<in> getVariables e. a v = None)"
proof (cases "\<exists>v \<in> getVariables e. a v = None")
  case False
  then have "a v = Some (the (a v))" if "v \<in> getVariables e" for v using that by force
  then show ?thesis using evaluate_total [of e a "\<lambda>v. the (a v)"] False by simp
qed (use evaluate_unassigned in blast)

text \<open>
The variable registry: constructing a variable by name keeps the registry consistent, gives
back its name, and leaves the names of the other variables alone; so two variables are equal
exactly if their names are.
\<close>

theorem registry_round_trip:
  assumes "registry_ok reg" "Variable_new name reg = (i, reg')"
  shows "registry_ok reg' \<and> getName reg' i = name \<and> (\<forall>j < nextId reg. getName reg' j = getName reg j) \<and>
    (fst (Variable_new other reg') = i \<longleftrightarrow> other = name)"
  using Variable_new_ok [OF assms(1), of name] Variable_new_name [OF assms]
    Variable_new_keeps [OF assms(1), of _ name] Variable_new_inj [OF assms] assms(2)
  by simp

theorem registry_round_trip_witness:
  "registry_ok (snd (Variable_new ''x'' empty_registry)) \<and>
    getName (snd (Variable_new ''x'' empty_registry)) 0 = ''x'' \<and>
    fst (Variable_new ''y'' (snd (Variable_new ''x'' empty_registry))) \<noteq> 0"
  using registry_round_trip [OF registry_ok_empty, of "''x''" 0 "snd (Variable_new ''x'' empty_registry)" "''y''"]
  by (simp add: Variable_new_def empty_registry_def)

end
